(* ===== verification/Aeolus_Prelude.thy ===== *)
theory Aeolus_Prelude
  imports Main "HOL-Library.AList" "HOL-Library.Sublist"
begin

text \<open>
  Shared vocabulary of the development: the JavaScript values, strings, ordered maps and
  object spreads that every component uses, the lemma collections the component proofs
  draw on, and the two generic interfaces (a keyed store, an invariant carried along a
  run of operations) that several components implement.

  Conventions. A JavaScript string is a list of code units below 256 (\<open>string\<close>); an
  optional property is an \<open>option\<close>; a \<open>Map\<close> is an association list in insertion
  order, on which \<open>AList.update\<close> is \<open>Map.set\<close> (an existing key keeps its place, a
  new one goes to the end) and \<open>AList.delete\<close> is \<open>Map.delete\<close>; epoch milliseconds
  are integers.
\<close>

named_theorems js_simps "evaluation of the JavaScript string and map primitives"
named_theorems inv_intros "introduction rules of the component invariants"

type_synonym ('k, 'v) jsmap = "('k \<times> 'v) list"
type_synonym ms = int

section \<open>JavaScript values\<close>

text \<open>
  The values that cross the JSON boundary of the program. Numbers are integers; a
  \<open>BigInt\<close> is kept apart because \<open>JSON.stringify\<close> throws on it, and
  \<open>undefined\<close> because it has no JSON representation.
\<close>

datatype jsval =
    JUndefined
  | JNull
  | JBool bool
  | JNum int
  | JBigInt int
  | JStr string
  | JArr "jsval list"
  | JObj "(string \<times> jsval) list"

type_synonym jsobj = "(string, jsval) jsmap"

text \<open>A property read \<open>o[k]\<close> on a plain object.\<close>

definition js_prop :: "jsobj \<Rightarrow> string \<Rightarrow> jsval" where
  "js_prop ob k = (case map_of ob k of Some v \<Rightarrow> v | None \<Rightarrow> JUndefined)"

text \<open>\<open>v?.k\<close> for a name that no prototype has, and the truth value of \<open>v\<close>.\<close>

definition js_member :: "jsval \<Rightarrow> string \<Rightarrow> jsval" where
  "js_member v k = (case v of JObj kvs \<Rightarrow> js_prop kvs k | _ \<Rightarrow> JUndefined)"

fun jsval_true :: "jsval \<Rightarrow> bool" where
  "jsval_true JUndefined = False"
| "jsval_true JNull = False"
| "jsval_true (JBool b) = b"
| "jsval_true (JNum i) = (i \<noteq> 0)"
| "jsval_true (JBigInt i) = (i \<noteq> 0)"
| "jsval_true (JStr s) = (s \<noteq> [])"
| "jsval_true (JArr vs) = True"
| "jsval_true (JObj kvs) = True"

text \<open>The object spread \<open>{...a, ...b}\<close>: the entries of \<open>b\<close> are written over those of \<open>a\<close>.\<close>

definition js_spread :: "('k, 'v) jsmap \<Rightarrow> ('k, 'v) jsmap \<Rightarrow> ('k, 'v) jsmap" where
  "js_spread a b = fold (\<lambda>(k, v) m. AList.update k v m) b a"

section \<open>Maps in insertion order\<close>

abbreviation (input) jm_wf :: "('k, 'v) jsmap \<Rightarrow> bool" where
  "jm_wf m \<equiv> distinct (map fst m)"

abbreviation (input) jm_keys :: "('k, 'v) jsmap \<Rightarrow> 'k list" where
  "jm_keys m \<equiv> map fst m"

abbreviation (input) jm_values :: "('k, 'v) jsmap \<Rightarrow> 'v list" where
  "jm_values m \<equiv> map snd m"

definition jm_has :: "('k, 'v) jsmap \<Rightarrow> 'k \<Rightarrow> bool" where
  "jm_has m k \<longleftrightarrow> map_of m k \<noteq> None"

lemma jm_has_iff_keys [js_simps]: "jm_has m k \<longleftrightarrow> k \<in> fst ` set m"
  by (auto simp: jm_has_def map_of_eq_None_iff)

lemma map_of_update [simp]: "map_of (AList.update k v m) = (map_of m)(k \<mapsto> v)"
  by (rule update_conv')

lemma map_of_delete [simp]: "map_of (AList.delete k m) = (map_of m)(k := None)"
  by (rule delete_conv')

lemma jm_wf_update [simp]: "jm_wf m \<Longrightarrow> jm_wf (AList.update k v m)"
  by (rule distinct_update)

lemma jm_wf_delete [simp]: "jm_wf m \<Longrightarrow> jm_wf (AList.delete k m)"
  by (rule distinct_delete)

lemma set_update_wf: "jm_wf m \<Longrightarrow> set (AList.update k v m) = insert (k, v) {p \<in> set m. fst p \<noteq> k}"
  by (induction m) (auto simp: image_iff)

lemma set_delete_jm: "set (AList.delete k m) = {p \<in> set m. fst p \<noteq> k}"
  by (auto simp: AList.delete_eq)

lemma delete_update_same: "AList.delete k (AList.update k v m) = AList.delete k m"
  by (induction m) auto

lemma map_of_mem_wf: "jm_wf m \<Longrightarrow> (k, v) \<in> set m \<longleftrightarrow> map_of m k = Some v"
  by simp

lemma length_delete_present:
  "jm_wf m \<Longrightarrow> map_of m k = Some v \<Longrightarrow> Suc (length (AList.delete k m)) = length m"
proof (induction m)
  case Nil
  then show ?case by simp
next
  case (Cons p m)
  then show ?case
    by (cases "fst p = k") (auto simp: AList.delete_idem)
qed

lemma length_update: "length (AList.update k v m) = (if k \<in> fst ` set m then length m else Suc (length m))"
  by (induction m) auto

lemma map_of_spread: "map_of (js_spread a b) k =
    (case map_of (rev b) k of Some v \<Rightarrow> Some v | None \<Rightarrow> map_of a k)"
  unfolding js_spread_def
  by (induction b arbitrary: a) (auto simp: map_of_append split: option.splits)

lemma map_of_rev_wf: "jm_wf b \<Longrightarrow> map_of (rev b) = map_of b"
  by (rule map_of_inject_set [THEN iffD2]) (auto simp: rev_map [symmetric])

lemma map_of_spread_wf: "jm_wf b \<Longrightarrow>
    map_of (js_spread a b) k = (case map_of b k of Some v \<Rightarrow> Some v | None \<Rightarrow> map_of a k)"
  by (simp add: map_of_spread map_of_rev_wf)

lemma jm_wf_spread [simp]: "jm_wf a \<Longrightarrow> jm_wf (js_spread a b)"
  unfolding js_spread_def
  by (induction b arbitrary: a) auto

lemma find_append: "find P (xs @ ys) = (case find P xs of Some x \<Rightarrow> Some x | None \<Rightarrow> find P ys)"
  by (induction xs) auto

lemma find_SomeD: "find P xs = Some x \<Longrightarrow> x \<in> set xs \<and> P x"
  by (induction xs) (auto split: if_splits)

section \<open>Strings\<close>

text \<open>\<open>s.split(c)\<close> for a one-character separator, and \<open>xs.join(sep)\<close>.\<close>

fun js_split :: "char \<Rightarrow> string \<Rightarrow> string list" where
  "js_split c [] = [[]]"
| "js_split c (x # xs) =
     (if x = c then [] # js_split c xs
      else (case js_split c xs of [] \<Rightarrow> [[x]] | w # ws \<Rightarrow> (x # w) # ws))"

fun js_join :: "string \<Rightarrow> string list \<Rightarrow> string" where
  "js_join sep [] = []"
| "js_join sep [w] = w"
| "js_join sep (w # ws) = w @ sep @ js_join sep ws"

text \<open>\<open>s.startsWith(p)\<close>, \<open>s.includes(c)\<close> for one character, and \<open>s.slice(0, n)\<close>.\<close>

abbreviation (input) js_startsWith :: "string \<Rightarrow> string \<Rightarrow> bool" where
  "js_startsWith s p \<equiv> prefix p s"

abbreviation (input) js_includes :: "string \<Rightarrow> char \<Rightarrow> bool" where
  "js_includes s c \<equiv> c \<in> set s"

lemma js_split_nonempty [simp]: "js_split c s \<noteq> []"
  by (induction s) (auto split: list.splits)

lemma js_split_parts: "w \<in> set (js_split c s) \<Longrightarrow> c \<notin> set w"
  by (induction s arbitrary: w) (auto split: list.splits if_splits)

lemma js_join_Cons: "ws \<noteq> [] \<Longrightarrow> js_join sep (w # ws) = w @ sep @ js_join sep ws"
  by (cases ws) auto

lemma js_join_split [simp]: "js_join [c] (js_split c s) = s"
proof (induction s)
  case Nil
  then show ?case by simp
next
  case (Cons x xs)
  obtain w ws where "js_split c xs = w # ws"
    by (cases "js_split c xs") auto
  with Cons show ?case
    by (cases ws) (auto simp: js_join_Cons)
qed

lemma js_split_single: "c \<notin> set w \<Longrightarrow> js_split c w = [w]"
  by (induction w) auto

lemma js_split_append: "c \<notin> set w \<Longrightarrow> js_split c (w @ c # s) = w # js_split c s"
  by (induction w) auto

lemma js_split_join:
  "ws \<noteq> [] \<Longrightarrow> (\<And>w. w \<in> set ws \<Longrightarrow> c \<notin> set w) \<Longrightarrow> js_split c (js_join [c] ws) = ws"
proof (induction ws)
  case Nil
  then show ?case by simp
next
  case (Cons w ws)
  then show ?case
    by (cases "ws = []") (auto simp: js_split_single js_split_append js_join_Cons)
qed

lemma js_split_inject: "js_split c s = js_split c t \<longleftrightarrow> s = t"
  by (metis js_join_split)

lemma js_split_append_sep: "js_split c (s @ c # t) = js_split c s @ js_split c t"
  by (induction s) (auto split: list.splits)

lemma js_split_subset: "w \<in> set (js_split c s) \<Longrightarrow> set w \<subseteq> set s"
  by (induction s arbitrary: w) (fastforce split: list.splits if_splits)+

lemma js_join_append: "xs \<noteq> [] \<Longrightarrow> ys \<noteq> [] \<Longrightarrow> js_join sep (xs @ ys) = js_join sep xs @ sep @ js_join sep ys"
proof (induction xs)
  case (Cons x xs)
  then show ?case by (cases "xs = []") (simp_all add: js_join_Cons)
qed simp

lemma length_dropWhile_less [termination_simp]: "length (dropWhile P xs) < Suc (length xs)"
  by (simp add: less_Suc_eq_le length_dropWhile_le)

section \<open>Runs of operations\<close>

text \<open>
  The states an object can be in: those reached from its initial state by operations whose
  guard holds when they are called.
\<close>

inductive reach :: "('op \<Rightarrow> 's \<Rightarrow> 's) \<Rightarrow> ('op \<Rightarrow> 's \<Rightarrow> bool) \<Rightarrow> 's \<Rightarrow> 's \<Rightarrow> bool"
  for step :: "'op \<Rightarrow> 's \<Rightarrow> 's" and ok :: "'op \<Rightarrow> 's \<Rightarrow> bool" and s0 :: 's
where
  reach_init: "reach step ok s0 s0"
| reach_step: "reach step ok s0 s \<Longrightarrow> ok a s \<Longrightarrow> reach step ok s0 (step a s)"

text \<open>A component whose operations keep an invariant.\<close>

locale invariant_machine =
  fixes step :: "'op \<Rightarrow> 's \<Rightarrow> 's" and ok :: "'op \<Rightarrow> 's \<Rightarrow> bool" and s0 :: 's
    and inv :: "'s \<Rightarrow> bool"
  assumes inv_init: "inv s0"
    and inv_step: "inv s \<Longrightarrow> ok a s \<Longrightarrow> inv (step a s)"
begin

lemma reach_inv: "reach step ok s0 s \<Longrightarrow> inv s"
  by (induction rule: reach.induct) (auto intro: inv_init inv_step)

lemma reach_conseq: "reach step ok s0 s \<Longrightarrow> (\<And>t. inv t \<Longrightarrow> P t) \<Longrightarrow> P s"
  by (auto dest: reach_inv)

end

section \<open>Keyed stores\<close>

text \<open>
  The contract every key/value store of the program offers: a write is read back, it leaves
  the other keys alone, and a removed key reads as absent. A sequence of writes and removals
  is then the same sequence on a partial function.
\<close>

datatype ('k, 'v) kv_op = KvPut 'k 'v | KvDel 'k

fun kv_abs :: "('k, 'v) kv_op \<Rightarrow> ('k \<rightharpoonup> 'v) \<Rightarrow> ('k \<rightharpoonup> 'v)" where
  "kv_abs (KvPut k v) m = m(k \<mapsto> v)"
| "kv_abs (KvDel k) m = m(k := None)"

fun kv_do :: "('k \<Rightarrow> 'v \<Rightarrow> 's \<Rightarrow> 's) \<Rightarrow> ('k \<Rightarrow> 's \<Rightarrow> 's) \<Rightarrow> ('k, 'v) kv_op \<Rightarrow> 's \<Rightarrow> 's" where
  "kv_do put del (KvPut k v) s = put k v s"
| "kv_do put del (KvDel k) s = del k s"

locale keyed_store =
  fixes get :: "'s \<Rightarrow> 'k \<Rightarrow> 'v option"
    and put :: "'k \<Rightarrow> 'v \<Rightarrow> 's \<Rightarrow> 's"
    and del :: "'k \<Rightarrow> 's \<Rightarrow> 's"
    and good :: "'s \<Rightarrow> bool"
  assumes get_put: "good s \<Longrightarrow> get (put k v s) = (get s)(k \<mapsto> v)"
    and get_del: "good s \<Longrightarrow> get (del k s) = (get s)(k := None)"
    and good_put: "good s \<Longrightarrow> good (put k v s)"
    and good_del: "good s \<Longrightarrow> good (del k s)"
begin

lemma good_do: "good s \<Longrightarrow> good (kv_do put del a s)"
  by (cases a) (auto intro: good_put good_del)

lemma get_do: "good s \<Longrightarrow> get (kv_do put del a s) = kv_abs a (get s)"
  by (cases a) (auto simp: get_put get_del)

lemma good_run: "good s \<Longrightarrow> good (fold (kv_do put del) as s)"
  by (induction as arbitrary: s) (auto intro: good_do)

lemma get_run: "good s \<Longrightarrow> get (fold (kv_do put del) as s) = fold kv_abs as (get s)"
  by (induction as arbitrary: s) (auto simp: get_do good_do)

lemma put_put_same: "good s \<Longrightarrow> get (put k w (put k v s)) = get (put k w s)"
  by (simp add: get_put good_put)

lemma put_commute: "good s \<Longrightarrow> k \<noteq> j \<Longrightarrow> get (put k v (put j w s)) = get (put j w (put k v s))"
  by (simp add: get_put good_put fun_upd_twist)

lemma del_put_same: "good s \<Longrightarrow> get (del k (put k v s)) = get (del k s)"
  by (simp add: get_put get_del good_put)

end

interpretation jsmap_store: keyed_store map_of AList.update AList.delete jm_wf
  by unfold_locales auto

end
