(* ===== verification/Command_Lifecycle.thy ===== *)
theory Command_Lifecycle
  imports Aeolus_Prelude
begin

text \<open>
  The command lifecycle (src/automations/command-lifecycle.ts, completion-tier.ts and the
  shared vocabulary of src/core/types.ts): the seven states and their transition table, the
  confirmation tiers and how one is selected, the evidence record of a rung, and the
  normalisation of author-supplied labels. The lemmas show that the table is a strict
  advance (so a command makes at most three transitions), that the two tables of the module
  agree on which states are final, that tier selection is the maximum of what can be proven,
  and that a kept label is bounded and free of control characters.
\<close>

section \<open>States and the transition table\<close>

datatype lifecycle_state =
    REQUESTED | DISPATCHED | ACKNOWLEDGED | OBSERVED | FAILED | TIMED_OUT | STATE_MISMATCH

fun ALLOWED_TRANSITIONS :: "lifecycle_state \<Rightarrow> lifecycle_state list" where
  "ALLOWED_TRANSITIONS REQUESTED = [DISPATCHED, FAILED]"
| "ALLOWED_TRANSITIONS DISPATCHED = [ACKNOWLEDGED, OBSERVED, FAILED, TIMED_OUT, STATE_MISMATCH]"
| "ALLOWED_TRANSITIONS ACKNOWLEDGED = [OBSERVED, FAILED, TIMED_OUT, STATE_MISMATCH]"
| "ALLOWED_TRANSITIONS OBSERVED = []"
| "ALLOWED_TRANSITIONS FAILED = []"
| "ALLOWED_TRANSITIONS TIMED_OUT = []"
| "ALLOWED_TRANSITIONS STATE_MISMATCH = []"

definition TERMINAL_STATES :: "lifecycle_state list" where
  "TERMINAL_STATES = [OBSERVED, FAILED, TIMED_OUT, STATE_MISMATCH]"

definition SUCCESS_STATES :: "lifecycle_state list" where
  "SUCCESS_STATES = [DISPATCHED, ACKNOWLEDGED, OBSERVED]"

definition canTransition :: "lifecycle_state \<Rightarrow> lifecycle_state \<Rightarrow> bool" where
  "canTransition from to =
     (if from = to then False else to \<in> set (ALLOWED_TRANSITIONS from))"

definition isTerminal :: "lifecycle_state \<Rightarrow> bool" where
  "isTerminal st = (st \<in> set TERMINAL_STATES)"

definition isSuccessState :: "lifecycle_state \<Rightarrow> bool" where
  "isSuccessState st = (st \<in> set SUCCESS_STATES)"

section \<open>Confirmation tiers\<close>

datatype confirmation_tier = TDispatch | TAcknowledged | TObserved

fun TIER_RANK :: "confirmation_tier \<Rightarrow> nat" where
  "TIER_RANK TDispatch = 0"
| "TIER_RANK TAcknowledged = 1"
| "TIER_RANK TObserved = 2"

definition tierRank :: "confirmation_tier \<Rightarrow> nat" where
  "tierRank tier = TIER_RANK tier"

definition isConfirmationTier :: "jsval \<Rightarrow> bool" where
  "isConfirmationTier v \<longleftrightarrow>
     v = JStr ''dispatch'' \<or> v = JStr ''acknowledged'' \<or> v = JStr ''observed''"

definition selectRequiredTier :: "bool \<Rightarrow> bool \<Rightarrow> confirmation_tier" where
  "selectRequiredTier hasConfirm hasAckCapability =
     (if hasConfirm then TObserved else if hasAckCapability then TAcknowledged else TDispatch)"

record ceiling_input =
  dispatchable :: bool
  ackSupported :: bool
  observationAvailable :: bool

definition computeCapabilityCeiling ::
  "ceiling_input \<Rightarrow> confirmation_tier list \<times> confirmation_tier option" where
  "computeCapabilityCeiling i =
     (if \<not> dispatchable i then ([], None)
      else let tiers = [TDispatch]
                 @ (if ackSupported i then [TAcknowledged] else [])
                 @ (if observationAvailable i then [TObserved] else []);
               ceiling = fold (\<lambda>t hi. if tierRank t > tierRank hi then t else hi) tiers TDispatch
           in (tiers, Some ceiling))"

section \<open>Evidence of a rung\<close>

record command_evidence =
  ev_tier :: "confirmation_tier option"
  ev_observedDeviceId :: "string option"
  ev_condition :: "jsobj option"
  ev_timeoutMs :: "int option"
  ev_reason :: "string option"

definition buildCommandEvidence :: "command_evidence \<Rightarrow> command_evidence option" where
  "buildCommandEvidence parts =
     (let evidence = \<lparr>ev_tier = ev_tier parts,
                      ev_observedDeviceId = ev_observedDeviceId parts,
                      ev_condition = ev_condition parts,
                      ev_timeoutMs = ev_timeoutMs parts,
                      ev_reason = (if ev_reason parts = Some '''' then None else ev_reason parts)\<rparr>
      in if ev_tier evidence \<noteq> None \<or> ev_observedDeviceId evidence \<noteq> None
            \<or> ev_condition evidence \<noteq> None \<or> ev_timeoutMs evidence \<noteq> None
            \<or> ev_reason evidence \<noteq> None
         then Some evidence else None)"

fun RUNG_REASONS :: "lifecycle_state \<Rightarrow> string" where
  "RUNG_REASONS REQUESTED = ''Command accepted into the pipeline; nothing has been dispatched yet''"
| "RUNG_REASONS DISPATCHED = ''Aeolus handed the command to the device transport; receipt is not yet proven''"
| "RUNG_REASONS ACKNOWLEDGED = ''The device acknowledged receiving the command''"
| "RUNG_REASONS OBSERVED = ''Observed device state satisfied the required condition''"
| "RUNG_REASONS FAILED = ''The command failed''"
| "RUNG_REASONS TIMED_OUT = ''No satisfying reply arrived within the confirmation window''"
| "RUNG_REASONS STATE_MISMATCH = ''The device reported a state that contradicts the command''"

definition describeRung :: "lifecycle_state \<Rightarrow> string option \<Rightarrow> string" where
  "describeRung st error =
     (case error of
        Some e \<Rightarrow> if length e > 0 then e else RUNG_REASONS st
      | None \<Rightarrow> RUNG_REASONS st)"

section \<open>Author-supplied labels\<close>

text \<open>The character classes of the two regular expressions, and \<open>replace(/P+/g, " ")\<close>, \<open>trim()\<close>.\<close>

definition isControlChar :: "char \<Rightarrow> bool" where
  "isControlChar c \<longleftrightarrow> of_char c < (32 :: nat) \<or> of_char c = (127 :: nat)"

definition isWhitespace :: "char \<Rightarrow> bool" where
  "isWhitespace c \<longleftrightarrow> of_char c \<in> {9, 10, 11, 12, 13, 32, 160 :: nat}"

fun replaceRuns :: "(char \<Rightarrow> bool) \<Rightarrow> string \<Rightarrow> string" where
  "replaceRuns P [] = []"
| "replaceRuns P (c # cs) =
     (if P c then CHR '' '' # replaceRuns P (dropWhile P cs) else c # replaceRuns P cs)"

definition js_trim :: "string \<Rightarrow> string" where
  "js_trim s = rev (dropWhile isWhitespace (rev (dropWhile isWhitespace s)))"

definition MAX_EVIDENCE_LABEL_LENGTH :: nat where
  "MAX_EVIDENCE_LABEL_LENGTH = 120"

definition sanitiseEvidenceLabel :: "jsval \<Rightarrow> string option" where
  "sanitiseEvidenceLabel value =
     (case value of
        JStr s \<Rightarrow>
          (let collapsed = js_trim (replaceRuns isWhitespace (replaceRuns isControlChar s))
           in if collapsed = '''' then None
              else if length collapsed > MAX_EVIDENCE_LABEL_LENGTH
                   then Some (take MAX_EVIDENCE_LABEL_LENGTH collapsed)
                   else Some collapsed)
      | _ \<Rightarrow> None)"

text \<open>
  An author's intent: two fields of any JavaScript value on the way in (the type annotation
  does not bind a script), two optional strings on the way out.
\<close>

record 'a command_intent =
  ci_intent :: 'a
  ci_observedLabel :: 'a

definition sanitiseCommandIntent ::
  "jsval command_intent option \<Rightarrow> string option command_intent option" where
  "sanitiseCommandIntent intent =
     (case intent of
        None \<Rightarrow> None
      | Some i \<Rightarrow>
          (let label = sanitiseEvidenceLabel (ci_intent i);
               observedLabel = sanitiseEvidenceLabel (ci_observedLabel i)
           in if label = None \<and> observedLabel = None then None
              else Some \<lparr>ci_intent = label, ci_observedLabel = observedLabel\<rparr>))"

section \<open>Facts about the table\<close>

lemma canTransition_simps [simp]:
  "canTransition REQUESTED t \<longleftrightarrow> t = DISPATCHED \<or> t = FAILED"
  "canTransition DISPATCHED t \<longleftrightarrow> t \<notin> {REQUESTED, DISPATCHED}"
  "canTransition ACKNOWLEDGED t \<longleftrightarrow> t \<notin> {REQUESTED, DISPATCHED, ACKNOWLEDGED}"
  "canTransition OBSERVED t \<longleftrightarrow> False"
  "canTransition FAILED t \<longleftrightarrow> False"
  "canTransition TIMED_OUT t \<longleftrightarrow> False"
  "canTransition STATE_MISMATCH t \<longleftrightarrow> False"
  by (cases t; simp add: canTransition_def)+

lemma isTerminal_simps [simp]:
  "\<not> isTerminal REQUESTED" "\<not> isTerminal DISPATCHED" "\<not> isTerminal ACKNOWLEDGED"
  "isTerminal OBSERVED" "isTerminal FAILED" "isTerminal TIMED_OUT" "isTerminal STATE_MISMATCH"
  by (simp_all add: isTerminal_def TERMINAL_STATES_def)

lemma isSuccessState_simps [simp]:
  "\<not> isSuccessState REQUESTED" "isSuccessState DISPATCHED" "isSuccessState ACKNOWLEDGED"
  "isSuccessState OBSERVED" "\<not> isSuccessState FAILED" "\<not> isSuccessState TIMED_OUT"
  "\<not> isSuccessState STATE_MISMATCH"
  by (simp_all add: isSuccessState_def SUCCESS_STATES_def)

text \<open>A rank every allowed transition raises: the lifecycle only advances.\<close>

fun lifecycle_rank :: "lifecycle_state \<Rightarrow> nat" where
  "lifecycle_rank REQUESTED = 0"
| "lifecycle_rank DISPATCHED = 1"
| "lifecycle_rank ACKNOWLEDGED = 2"
| "lifecycle_rank _ = 3"

lemma canTransition_rank: "canTransition s t \<Longrightarrow> lifecycle_rank s < lifecycle_rank t"
  by (cases s; cases t) auto

lemma lifecycle_rank_bound: "lifecycle_rank s \<le> 3"
  by (cases s) auto

lemma path_ranks: "successively canTransition ss \<Longrightarrow> sorted_wrt (<) (map lifecycle_rank ss)"
proof -
  assume "successively canTransition ss"
  then have "successively (\<lambda>s t. lifecycle_rank s < lifecycle_rank t) ss"
    by (rule successively_mono) (auto intro: canTransition_rank)
  then have "sorted_wrt (\<lambda>s t. lifecycle_rank s < lifecycle_rank t) ss"
    by (simp add: successively_conv_sorted_wrt transp_def)
  then show ?thesis by (simp add: sorted_wrt_map)
qed

lemma path_short:
  assumes "successively canTransition ss"
  shows "distinct ss \<and> length ss \<le> 4"
proof
  from assms have sorted: "sorted_wrt (<) (map lifecycle_rank ss)" by (rule path_ranks)
  then have "distinct (map lifecycle_rank ss)" by (simp add: strict_sorted_iff)
  then show "distinct ss" by (simp add: distinct_map)
  have "set (map lifecycle_rank ss) \<subseteq> {..3}" by (auto intro: lifecycle_rank_bound)
  then have "card (set (map lifecycle_rank ss)) \<le> card {..3::nat}" by (intro card_mono) auto
  with \<open>distinct (map lifecycle_rank ss)\<close> show "length ss \<le> 4"
    by (simp only: distinct_card length_map card_atMost)
qed

text \<open>
  A command's life is short and never goes back: a sequence of states linked by allowed
  transitions visits no state twice and has at most four states, whatever state it starts in.
\<close>

lemma lifecycle_path_bounded:
  assumes "successively canTransition ss"
  shows "distinct ss \<and> length ss \<le> 4"
  using assms by (rule path_short)

text \<open>
  The terminal-state table and the transition table agree: a state is terminal exactly
  when no transition leaves it, and every state that is not terminal can still fail.
\<close>

lemma terminal_iff_no_successor:
  "(isTerminal s \<longleftrightarrow> (\<forall>t. \<not> canTransition s t)) \<and> (\<not> isTerminal s \<longleftrightarrow> canTransition s FAILED)"
  by (cases s) auto

section \<open>Facts about tiers\<close>

instantiation confirmation_tier :: linorder
begin

definition less_eq_confirmation_tier :: "confirmation_tier \<Rightarrow> confirmation_tier \<Rightarrow> bool" where
  "less_eq_confirmation_tier a b \<longleftrightarrow> TIER_RANK a \<le> TIER_RANK b"

definition less_confirmation_tier :: "confirmation_tier \<Rightarrow> confirmation_tier \<Rightarrow> bool" where
  "less_confirmation_tier a b \<longleftrightarrow> TIER_RANK a < TIER_RANK b"

instance
proof
  fix a b :: confirmation_tier
  show "a \<le> b \<Longrightarrow> b \<le> a \<Longrightarrow> a = b"
    by (cases a; cases b) (auto simp: less_eq_confirmation_tier_def)
qed (auto simp: less_eq_confirmation_tier_def less_confirmation_tier_def)

end

lemmas tier_order = less_eq_confirmation_tier_def less_confirmation_tier_def

text \<open>What a command with these inputs can prove.\<close>

fun tier_provable :: "bool \<Rightarrow> bool \<Rightarrow> confirmation_tier \<Rightarrow> bool" where
  "tier_provable hasConfirm hasAck TDispatch = True"
| "tier_provable hasConfirm hasAck TAcknowledged = hasAck"
| "tier_provable hasConfirm hasAck TObserved = hasConfirm"

lemma selectRequiredTier_provable: "tier_provable c a (selectRequiredTier c a)"
  by (simp add: selectRequiredTier_def)

lemma selectRequiredTier_greatest: "tier_provable c a t \<Longrightarrow> t \<le> selectRequiredTier c a"
  by (cases t) (auto simp: selectRequiredTier_def tier_order)

text \<open>
  The tier selected for a command is the greatest tier it can prove, and for a device
  that can be dispatched to it is the ceiling that the capability computation reports from
  its list of provable tiers.
\<close>

lemma selectRequiredTier_is_ceiling:
  assumes "dispatchable i"
  shows "snd (computeCapabilityCeiling i)
           = Some (selectRequiredTier (observationAvailable i) (ackSupported i))
    \<and> set (fst (computeCapabilityCeiling i))
           = {t. tier_provable (observationAvailable i) (ackSupported i) t}
    \<and> selectRequiredTier (observationAvailable i) (ackSupported i)
           = Max {t. tier_provable (observationAvailable i) (ackSupported i) t}"
proof (intro conjI)
  let ?c = "observationAvailable i" and ?a = "ackSupported i"
  show "snd (computeCapabilityCeiling i) = Some (selectRequiredTier ?c ?a)"
    using assms by (auto simp: computeCapabilityCeiling_def Let_def selectRequiredTier_def tierRank_def)
  have "t \<in> set (fst (computeCapabilityCeiling i)) \<longleftrightarrow> tier_provable ?c ?a t" for t
    using assms by (cases t) (auto simp: computeCapabilityCeiling_def Let_def)
  then show eq: "set (fst (computeCapabilityCeiling i)) = {t. tier_provable ?c ?a t}" by auto
  have "finite {t. tier_provable ?c ?a t}" unfolding eq [symmetric] by simp
  then show "selectRequiredTier ?c ?a = Max {t. tier_provable ?c ?a t}"
    by (intro Max_eqI [symmetric]) (auto simp: selectRequiredTier_provable selectRequiredTier_greatest)
qed

section \<open>Facts about evidence and labels\<close>

text \<open>
  Evidence is dropped exactly when there is nothing to record: an all-absent input, or
  one whose only content is an empty reason, gives no evidence rather than an empty object.
\<close>

lemma buildCommandEvidence_None_iff:
  "buildCommandEvidence p = None \<longleftrightarrow>
     ev_tier p = None \<and> ev_observedDeviceId p = None \<and> ev_condition p = None
     \<and> ev_timeoutMs p = None \<and> (ev_reason p = None \<or> ev_reason p = Some '''')"
  by (auto simp: buildCommandEvidence_def Let_def split: if_splits)

lemma set_replaceRuns: "set (replaceRuns P s) \<subseteq> insert (CHR '' '') {c \<in> set s. \<not> P c}"
  by (induction P s rule: replaceRuns.induct) (auto dest: set_dropWhileD)

lemma set_js_trim: "set (js_trim s) \<subseteq> set s"
  using set_dropWhileD [of _ isWhitespace s]
  by (auto simp: js_trim_def dest!: set_dropWhileD [where xs = "rev (dropWhile isWhitespace s)"])

lemma hd_dropWhile_not: "dropWhile P s \<noteq> [] \<Longrightarrow> \<not> P (hd (dropWhile P s))"
  by (rule hd_dropWhile)

lemma hd_rev_dropWhile_rev: "rev (dropWhile P (rev s)) \<noteq> [] \<Longrightarrow> hd (rev (dropWhile P (rev s))) = hd s"
proof -
  assume ne: "rev (dropWhile P (rev s)) \<noteq> []"
  have "s = rev (dropWhile P (rev s)) @ rev (takeWhile P (rev s))"
    by (metis rev_append rev_rev_ident takeWhile_dropWhile_id)
  with ne show ?thesis by (metis hd_append2)
qed

lemma js_trim_starts: "js_trim s \<noteq> [] \<Longrightarrow> \<not> isWhitespace (hd (js_trim s))"
  unfolding js_trim_def
  by (metis dropWhile.simps(1) hd_dropWhile hd_rev_dropWhile_rev rev.simps(1))

lemma js_trim_id: "s \<noteq> [] \<Longrightarrow> \<not> isWhitespace (hd s) \<Longrightarrow> \<not> isWhitespace (last s) \<Longrightarrow> js_trim s = s"
  using dropWhile_eq_self_iff [of isWhitespace s] dropWhile_eq_self_iff [of isWhitespace "rev s"]
  by (simp add: js_trim_def hd_rev)

lemma isControlChar_space [simp]: "\<not> isControlChar (CHR '' '')"
  by (simp add: isControlChar_def)

text \<open>
  A label that is kept is a caption: not empty, at most 120 characters, free of control
  characters, starting with something visible, and every whitespace character in it is a
  plain space.
\<close>

lemma sanitiseEvidenceLabel_caption:
  assumes "sanitiseEvidenceLabel v = Some l"
  shows "l \<noteq> '''' \<and> length l \<le> MAX_EVIDENCE_LABEL_LENGTH \<and> \<not> isWhitespace (hd l)
    \<and> (\<forall>c \<in> set l. \<not> isControlChar c \<and> (isWhitespace c \<longrightarrow> c = CHR '' ''))"
proof -
  from assms obtain s where v: "v = JStr s"
    by (auto simp: sanitiseEvidenceLabel_def split: jsval.splits)
  define t where "t = js_trim (replaceRuns isWhitespace (replaceRuns isControlChar s))"
  have t_ne: "t \<noteq> []" and l: "l = take MAX_EVIDENCE_LABEL_LENGTH t"
    using assms by (auto simp: v t_def [symmetric] sanitiseEvidenceLabel_def Let_def split: if_splits)
  have sub: "set t \<subseteq> insert (CHR '' '') {c. \<not> isControlChar c \<and> \<not> isWhitespace c}"
    using set_js_trim set_replaceRuns [of isWhitespace] set_replaceRuns [of isControlChar s]
    unfolding t_def by fastforce
  have "hd l = hd t" using t_ne by (cases t) (simp_all add: l MAX_EVIDENCE_LABEL_LENGTH_def)
  moreover have "\<not> isWhitespace (hd t)" using t_ne unfolding t_def by (rule js_trim_starts)
  moreover have "set l \<subseteq> set t" unfolding l by (rule set_take_subset)
  ultimately show ?thesis
    using t_ne sub by (auto simp: l MAX_EVIDENCE_LABEL_LENGTH_def)
qed

end
