(* ===== verification/Pending_Tracker.thy ===== *)
theory Pending_Tracker
  imports Command_Lifecycle
begin

text \<open>
  The pending-command tracker (src/automations/pending-command-tracker.ts): the registry of
  dispatched commands that wait for an acknowledgement or an observation. Its state is the
  map of outstanding entries, the armed timers, the promises that have settled, and the
  callbacks it has made, in order. One handle is allocated per registration and names both
  the timer and the promise of that registration. The callbacks of the deps object only
  record what they were called with.

  The lemmas show that every registered promise settles at most once and is otherwise still
  outstanding with its timer armed, that no timer is leaked, that the timer alone is enough
  to settle a command, that a success always rests on evidence the message or the device
  state carried, and what one device-state report does to every outstanding command.
\<close>

section \<open>Messages, commands, resolutions\<close>

record ack_message =
  am_correlationId :: string
  am_success :: "bool option"
  am_error :: "string option"
  am_status :: "string option"
  am_payload :: "jsobj option"
  am_state :: "jsobj option"

datatype required_tier = RAcknowledged | RObserved

text \<open>The observation predicate may throw (\<open>Inl\<close> with the message) or answer.\<close>

type_synonym condition_fun = "jsobj \<Rightarrow> string + bool"

record pending_command =
  pc_commandId :: "string option"
  pc_correlationId :: string
  pc_targetDeviceId :: string
  pc_observedDeviceId :: string
  pc_requiredTier :: required_tier
  pc_condition :: "condition_fun option"
  pc_timeoutMs :: int
  pc_ackIndicatorField :: "string option"
  pc_ackIndicatorValues :: "string list option"

record pending_resolution =
  pr_lifecycleState :: lifecycle_state
  pr_success :: bool
  pr_error :: "string option"

record pending_transition =
  pt_commandId :: "string option"
  pt_correlationId :: string
  pt_targetDeviceId :: string
  pt_fromState :: lifecycle_state
  pt_toState :: lifecycle_state
  pt_timestamp :: ms

datatype tracker_event =
    OnResolve string pending_resolution string
  | OnLateMessage string
  | OnTransition pending_transition

record tracked_entry =
  te_command :: pending_command
  te_state :: lifecycle_state
  te_timer :: nat
  te_resolve :: nat

record tracker =
  tk_pending :: "(string, tracked_entry) jsmap"
  tk_timers :: "(nat, string) jsmap"
  tk_settled :: "(nat, pending_resolution) jsmap"
  tk_next :: nat
  tk_events :: "tracker_event list"

definition tracker_init :: tracker where
  "tracker_init = \<lparr>tk_pending = [], tk_timers = [], tk_settled = [], tk_next = 0, tk_events = []\<rparr>"

section \<open>Operations\<close>

text \<open>A promise keeps the value of its first \<open>resolve\<close>; later calls do nothing.\<close>

definition settle_promise ::
  "nat \<Rightarrow> pending_resolution \<Rightarrow> (nat, pending_resolution) jsmap \<Rightarrow> (nat, pending_resolution) jsmap" where
  "settle_promise p r m = (if jm_has m p then m else AList.update p r m)"

definition tracker_emit :: "tracker_event \<Rightarrow> tracker \<Rightarrow> tracker" where
  "tracker_emit ev s = s\<lparr>tk_events := tk_events s @ [ev]\<rparr>"

definition tracker_register :: "pending_command \<Rightarrow> tracker \<Rightarrow> nat \<times> tracker" where
  "tracker_register command s =
     (let h = tk_next s;
          entry = \<lparr>te_command = command, te_state = DISPATCHED, te_timer = h, te_resolve = h\<rparr>
      in (h, s\<lparr>tk_timers := AList.update h (pc_correlationId command) (tk_timers s),
               tk_pending := AList.update (pc_correlationId command) entry (tk_pending s),
               tk_next := Suc h\<rparr>))"

text \<open>The effect of resolving an entry, after the guard of \<open>finalize\<close> has passed.\<close>

definition settle_entry :: "tracked_entry \<Rightarrow> pending_resolution \<Rightarrow> tracker \<Rightarrow> tracker" where
  "settle_entry entry r s =
     (let corr = pc_correlationId (te_command entry)
      in s\<lparr>tk_timers := AList.delete (te_timer entry) (tk_timers s),
           tk_pending := AList.delete corr (tk_pending s),
           tk_events := tk_events s @ [OnResolve corr r (pc_targetDeviceId (te_command entry))],
           tk_settled := settle_promise (te_resolve entry) r (tk_settled s)\<rparr>)"

definition mk_resolution :: "lifecycle_state \<Rightarrow> bool \<Rightarrow> string option \<Rightarrow> pending_resolution" where
  "mk_resolution to ok error =
     \<lparr>pr_lifecycleState = to, pr_success = ok,
      pr_error = (if error = Some '''' then None else error)\<rparr>"

definition tracker_finalize ::
  "tracked_entry \<Rightarrow> lifecycle_state \<Rightarrow> bool \<Rightarrow> string option \<Rightarrow> tracker \<Rightarrow> tracker" where
  "tracker_finalize entry to ok error s =
     (if te_state entry \<noteq> to \<and> \<not> canTransition (te_state entry) to then s
      else settle_entry entry (mk_resolution to ok error) s)"

definition finalizeById :: "string \<Rightarrow> lifecycle_state \<Rightarrow> bool \<Rightarrow> tracker \<Rightarrow> tracker" where
  "finalizeById corr to ok s =
     (case map_of (tk_pending s) corr of
        None \<Rightarrow> s
      | Some entry \<Rightarrow> tracker_finalize entry to ok None s)"

text \<open>A fired timer is no longer armed, then runs the callback given to \<open>setTimeout\<close>.\<close>

definition timer_fires :: "nat \<Rightarrow> tracker \<Rightarrow> tracker" where
  "timer_fires h s =
     (case map_of (tk_timers s) h of
        None \<Rightarrow> s
      | Some corr \<Rightarrow>
          finalizeById corr TIMED_OUT False (s\<lparr>tk_timers := AList.delete h (tk_timers s)\<rparr>))"

definition ackIndicatorValue :: "ack_message \<Rightarrow> pending_command \<Rightarrow> string option" where
  "ackIndicatorValue message command =
     (let field = (case pc_ackIndicatorField command of Some f \<Rightarrow> f | None \<Rightarrow> ''status'');
          fromPayload = (case am_payload message of Some ob \<Rightarrow> js_prop ob field | None \<Rightarrow> JUndefined)
      in case fromPayload of
           JStr v \<Rightarrow> Some v
         | _ \<Rightarrow> if field = ''status'' then am_status message else None)"

definition isAcknowledgement :: "ack_message \<Rightarrow> pending_command \<Rightarrow> bool" where
  "isAcknowledgement message command =
     (if am_success message = Some True then True
      else case ackIndicatorValue message command of
             None \<Rightarrow> False
           | Some indicator \<Rightarrow>
               if indicator = '''' then False
               else case pc_ackIndicatorValues command of
                      Some vs \<Rightarrow> if length vs > 0 then indicator \<in> set vs else True
                    | None \<Rightarrow> True)"

definition evaluateObservation :: "tracked_entry \<Rightarrow> jsobj \<Rightarrow> bool \<Rightarrow> tracker \<Rightarrow> tracker" where
  "evaluateObservation entry st settled s =
     (case pc_condition (te_command entry) of
        None \<Rightarrow> s
      | Some condition \<Rightarrow>
          (case condition st of
             Inl err \<Rightarrow> tracker_finalize entry FAILED False (Some err) s
           | Inr satisfied \<Rightarrow>
               if satisfied then tracker_finalize entry OBSERVED True None s
               else if settled then tracker_finalize entry STATE_MISMATCH False None s
               else s))"

text \<open>Step 2 of \<open>route\<close>: a correlated reply carrying state is a settled observation.\<close>

definition route_observation :: "ack_message \<Rightarrow> tracked_entry \<Rightarrow> tracker \<Rightarrow> tracker" where
  "route_observation message entry s =
     (case am_state message of
        Some st \<Rightarrow>
          if pc_requiredTier (te_command entry) = RObserved
          then evaluateObservation entry st True s else s
      | None \<Rightarrow> s)"

definition tracker_route :: "ack_message \<Rightarrow> ms \<Rightarrow> tracker \<Rightarrow> tracker" where
  "tracker_route message now s =
     (case map_of (tk_pending s) (am_correlationId message) of
        None \<Rightarrow> tracker_emit (OnLateMessage (am_correlationId message)) s
      | Some entry \<Rightarrow>
          if am_success message = Some False
          then tracker_finalize entry FAILED False
                 (Some (case am_error message of
                          Some e \<Rightarrow> if e = '''' then ''Device reported command failure'' else e
                        | None \<Rightarrow> ''Device reported command failure'')) s
          else if isAcknowledgement message (te_command entry)
          then let advanced = canTransition (te_state entry) ACKNOWLEDGED;
                   entry' = (if advanced then entry\<lparr>te_state := ACKNOWLEDGED\<rparr> else entry);
                   s1 = s\<lparr>tk_pending := AList.update (am_correlationId message) entry' (tk_pending s)\<rparr>
               in if pc_requiredTier (te_command entry) = RAcknowledged
                  then tracker_finalize entry' ACKNOWLEDGED True None s1
                  else let s2 = (if advanced
                                 then tracker_emit (OnTransition
                                        \<lparr>pt_commandId = (if pc_commandId (te_command entry) = Some '''' then None
                                                        else pc_commandId (te_command entry)),
                                         pt_correlationId = pc_correlationId (te_command entry),
                                         pt_targetDeviceId = pc_targetDeviceId (te_command entry),
                                         pt_fromState = DISPATCHED, pt_toState = ACKNOWLEDGED,
                                         pt_timestamp = now\<rparr>) s1
                                 else s1)
                       in route_observation message entry' s2
          else route_observation message entry s)"

definition tracker_observeState :: "string \<Rightarrow> jsobj \<Rightarrow> tracker \<Rightarrow> tracker" where
  "tracker_observeState deviceId st s =
     fold (\<lambda>(k, entry) acc.
             if pc_requiredTier (te_command entry) \<noteq> RObserved then acc
             else if pc_observedDeviceId (te_command entry) \<noteq> deviceId then acc
             else evaluateObservation entry st False acc)
       (tk_pending s) s"

definition tracker_cancel :: "string \<Rightarrow> tracker \<Rightarrow> tracker" where
  "tracker_cancel corr s =
     (case map_of (tk_pending s) corr of
        None \<Rightarrow> s
      | Some entry \<Rightarrow>
          s\<lparr>tk_timers := AList.delete (te_timer entry) (tk_timers s),
            tk_pending := AList.delete corr (tk_pending s),
            tk_settled := settle_promise (te_resolve entry) (mk_resolution FAILED False None) (tk_settled s)\<rparr>)"

definition tracker_has :: "string \<Rightarrow> tracker \<Rightarrow> bool" where
  "tracker_has corr s = jm_has (tk_pending s) corr"

definition tracker_size :: "tracker \<Rightarrow> nat" where
  "tracker_size s = length (tk_pending s)"

text \<open>
  The calls the tracker receives, and when they are made: the CommandService registers each
  command under a fresh correlation id.
\<close>

datatype tracker_op =
    OpRegister pending_command
  | OpRoute ack_message ms
  | OpObserve string jsobj
  | OpCancel string
  | OpTimer nat

fun tracker_step :: "tracker_op \<Rightarrow> tracker \<Rightarrow> tracker" where
  "tracker_step (OpRegister c) s = snd (tracker_register c s)"
| "tracker_step (OpRoute m now) s = tracker_route m now s"
| "tracker_step (OpObserve d st) s = tracker_observeState d st s"
| "tracker_step (OpCancel corr) s = tracker_cancel corr s"
| "tracker_step (OpTimer h) s = timer_fires h s"

fun tracker_ok :: "tracker_op \<Rightarrow> tracker \<Rightarrow> bool" where
  "tracker_ok (OpRegister c) s = (\<not> tracker_has (pc_correlationId c) s)"
| "tracker_ok _ s = True"

section \<open>The invariant\<close>

definition entry_ok :: "string \<Rightarrow> tracked_entry \<Rightarrow> bool" where
  "entry_ok k e \<longleftrightarrow>
     pc_correlationId (te_command e) = k \<and> te_timer e = te_resolve e
     \<and> (te_state e = DISPATCHED
        \<or> te_state e = ACKNOWLEDGED \<and> pc_requiredTier (te_command e) = RObserved)"

definition resolution_ok :: "pending_resolution \<Rightarrow> bool" where
  "resolution_ok r \<longleftrightarrow>
     canTransition DISPATCHED (pr_lifecycleState r)
     \<and> (pr_success r \<longleftrightarrow> isSuccessState (pr_lifecycleState r))"

text \<open>
  The invariant is stated over the partial functions the three maps denote. An outstanding
  entry has its timer armed and its promise unsettled; an armed timer belongs to an
  outstanding entry; every handle given out is settled or outstanding.
\<close>

definition tracker_core ::
  "(string \<rightharpoonup> tracked_entry) \<Rightarrow> (nat \<rightharpoonup> string) \<Rightarrow> (nat \<rightharpoonup> pending_resolution) \<Rightarrow> nat \<Rightarrow> bool" where
  "tracker_core P T S n \<longleftrightarrow>
     (\<forall>k e. P k = Some e \<longrightarrow>
        entry_ok k e \<and> T (te_resolve e) = Some k \<and> S (te_resolve e) = None \<and> te_resolve e < n)
     \<and> (\<forall>h k. T h = Some k \<longrightarrow> (\<exists>e. P k = Some e \<and> te_resolve e = h))
     \<and> (\<forall>p < n. S p \<noteq> None \<or> (\<exists>k e. P k = Some e \<and> te_resolve e = p))
     \<and> (\<forall>p r. S p = Some r \<longrightarrow> p < n \<and> resolution_ok r)"

definition tracker_inv :: "tracker \<Rightarrow> bool" where
  "tracker_inv s \<longleftrightarrow>
     jm_wf (tk_pending s) \<and> jm_wf (tk_settled s) \<and> jm_wf (tk_timers s)
     \<and> tracker_core (map_of (tk_pending s)) (map_of (tk_timers s)) (map_of (tk_settled s)) (tk_next s)"

lemma tracker_coreD:
  assumes "tracker_core P T S n" "P k = Some e"
  shows "entry_ok k e" "T (te_resolve e) = Some k" "S (te_resolve e) = None" "te_resolve e < n"
  using assms by (auto simp: tracker_core_def)

lemma tracker_core_timer: "tracker_core P T S n \<Longrightarrow> T h = Some k \<Longrightarrow> \<exists>e. P k = Some e \<and> te_resolve e = h"
  by (simp add: tracker_core_def)

lemma tracker_core_cover:
  "tracker_core P T S n \<Longrightarrow> p < n \<Longrightarrow> S p \<noteq> None \<or> (\<exists>k e. P k = Some e \<and> te_resolve e = p)"
  unfolding tracker_core_def by blast

lemma tracker_core_settled: "tracker_core P T S n \<Longrightarrow> S p = Some r \<Longrightarrow> p < n \<and> resolution_ok r"
  by (simp add: tracker_core_def)

lemma tracker_coreI:
  assumes "\<And>k e. P k = Some e \<Longrightarrow>
      entry_ok k e \<and> T (te_resolve e) = Some k \<and> S (te_resolve e) = None \<and> te_resolve e < n"
    and "\<And>h k. T h = Some k \<Longrightarrow> \<exists>e. P k = Some e \<and> te_resolve e = h"
    and "\<And>p. p < n \<Longrightarrow> S p = None \<Longrightarrow> \<exists>k e. P k = Some e \<and> te_resolve e = p"
    and "\<And>p r. S p = Some r \<Longrightarrow> p < n \<and> resolution_ok r"
  shows "tracker_core P T S n"
  using assms unfolding tracker_core_def by blast

lemma tracker_core_inj:
  assumes "tracker_core P T S n" "P k = Some e" "P k' = Some e'" "te_resolve e = te_resolve e'"
  shows "k = k'"
  using tracker_coreD(2) [OF assms(1,2)] tracker_coreD(2) [OF assms(1,3)] assms(4) by simp

text \<open>Taking one outstanding entry out and settling its promise.\<close>

lemma tracker_core_remove:
  assumes core: "tracker_core P T S n" and e: "P k = Some e" and r: "resolution_ok r"
  shows "tracker_core (P(k := None)) (T(te_resolve e := None)) (S(te_resolve e \<mapsto> r)) n"
proof (rule tracker_coreI)
  fix k' e' assume "(P(k := None)) k' = Some e'"
  then have e': "P k' = Some e'" "k' \<noteq> k" by (auto split: if_splits)
  moreover have "te_resolve e' \<noteq> te_resolve e" using tracker_core_inj [OF core e'(1) e] e'(2) by blast
  ultimately show "entry_ok k' e' \<and> (T(te_resolve e := None)) (te_resolve e') = Some k'
      \<and> (S(te_resolve e \<mapsto> r)) (te_resolve e') = None \<and> te_resolve e' < n"
    using tracker_coreD [OF core e'(1)] by simp
next
  fix h k' assume "(T(te_resolve e := None)) h = Some k'"
  then have "T h = Some k'" "h \<noteq> te_resolve e" by (auto split: if_splits)
  with tracker_core_timer [OF core] e show "\<exists>e'. (P(k := None)) k' = Some e' \<and> te_resolve e' = h"
    by fastforce
next
  fix p assume "p < n" "(S(te_resolve e \<mapsto> r)) p = None"
  then have "p \<noteq> te_resolve e" "S p = None" by (auto split: if_splits)
  with tracker_core_cover [OF core \<open>p < n\<close>] e
  show "\<exists>k' e'. (P(k := None)) k' = Some e' \<and> te_resolve e' = p" by (metis fun_upd_apply option.inject)
next
  fix p r' assume "(S(te_resolve e \<mapsto> r)) p = Some r'"
  with r tracker_core_settled [OF core] tracker_coreD [OF core e] show "p < n \<and> resolution_ok r'"
    by (auto split: if_splits)
qed

text \<open>Replacing an entry by one with the same command, timer and promise.\<close>

lemma tracker_core_advance:
  assumes core: "tracker_core P T S n" and e: "P k = Some e"
    and e': "entry_ok k e'" "te_resolve e' = te_resolve e"
  shows "tracker_core (P(k \<mapsto> e')) T S n"
proof (rule tracker_coreI)
  fix j x assume "(P(k \<mapsto> e')) j = Some x"
  with e' tracker_coreD [OF core e] tracker_coreD [OF core, of j]
  show "entry_ok j x \<and> T (te_resolve x) = Some j \<and> S (te_resolve x) = None \<and> te_resolve x < n"
    by (auto split: if_splits)
next
  fix h j assume "T h = Some j"
  with tracker_core_timer [OF core this] e e' show "\<exists>x. (P(k \<mapsto> e')) j = Some x \<and> te_resolve x = h"
    by (cases "j = k") auto
next
  fix p assume "p < n" "S p = None"
  with tracker_core_cover [OF core \<open>p < n\<close>] e e'
  show "\<exists>j x. (P(k \<mapsto> e')) j = Some x \<and> te_resolve x = p" by (metis fun_upd_apply option.inject)
next
  fix p r assume "S p = Some r"
  then show "p < n \<and> resolution_ok r" by (rule tracker_core_settled [OF core])
qed

text \<open>Adding an entry under a fresh correlation id and the next handle.\<close>

lemma tracker_core_add:
  assumes core: "tracker_core P T S n" and fresh: "P k = None"
    and e: "entry_ok k e" "te_resolve e = n"
  shows "tracker_core (P(k \<mapsto> e)) (T(n \<mapsto> k)) S (Suc n)"
proof (rule tracker_coreI)
  have "S n = None" using tracker_core_settled [OF core, of n] by (cases "S n") auto
  fix j x assume "(P(k \<mapsto> e)) j = Some x"
  with e tracker_coreD [OF core, of j] \<open>S n = None\<close>
  show "entry_ok j x \<and> (T(n \<mapsto> k)) (te_resolve x) = Some j \<and> S (te_resolve x) = None \<and> te_resolve x < Suc n"
    by (fastforce split: if_splits)
next
  fix h j assume "(T(n \<mapsto> k)) h = Some j"
  with tracker_core_timer [OF core, of h j] fresh e show "\<exists>x. (P(k \<mapsto> e)) j = Some x \<and> te_resolve x = h"
    by (cases "h = n") auto
next
  fix p assume "p < Suc n" "S p = None"
  with tracker_core_cover [OF core, of p] fresh e
  show "\<exists>j x. (P(k \<mapsto> e)) j = Some x \<and> te_resolve x = p"
    by (cases "p = n") (auto simp: less_Suc_eq, metis option.distinct(1))
next
  fix p r assume "S p = Some r"
  then show "p < Suc n \<and> resolution_ok r" using tracker_core_settled [OF core] by fastforce
qed

lemma tracker_inv_init: "tracker_inv tracker_init"
  by (simp add: tracker_inv_def tracker_core_def tracker_init_def)

lemma tracker_inv_events [simp]: "tracker_inv (s\<lparr>tk_events := x\<rparr>) = tracker_inv s"
  by (simp add: tracker_inv_def)

lemma tracker_inv_core:
  "tracker_inv s \<Longrightarrow>
    tracker_core (map_of (tk_pending s)) (map_of (tk_timers s)) (map_of (tk_settled s)) (tk_next s)"
  by (simp add: tracker_inv_def)

lemma tracker_inv_pending:
  assumes "tracker_inv s" "map_of (tk_pending s) k = Some e"
  shows "entry_ok k e" "map_of (tk_timers s) (te_resolve e) = Some k"
    "map_of (tk_settled s) (te_resolve e) = None" "te_resolve e < tk_next s"
  using tracker_coreD [OF tracker_inv_core [OF assms(1)] assms(2)] by blast+

lemma settle_promise_fresh: "map_of m p = None \<Longrightarrow> settle_promise p r m = AList.update p r m"
  by (simp add: settle_promise_def jm_has_def)

lemma tracker_inv_settle:
  assumes inv: "tracker_inv s" and e0: "map_of (tk_pending s) k = Some e0"
    and e: "pc_correlationId (te_command e) = k" "te_timer e = te_resolve e" "te_resolve e = te_resolve e0"
    and r: "resolution_ok r"
  shows "tracker_inv (settle_entry e r s)"
  using inv e tracker_core_remove [OF tracker_inv_core [OF inv] e0 r] tracker_inv_pending [OF inv e0]
  by (simp add: settle_entry_def tracker_inv_def Let_def settle_promise_fresh)

lemma tracker_inv_cancel: "tracker_inv s \<Longrightarrow> tracker_inv (tracker_cancel k s)"
proof (cases "map_of (tk_pending s) k")
  case None
  then show "tracker_inv s \<Longrightarrow> ?thesis" by (simp add: tracker_cancel_def)
next
  case (Some e)
  assume inv: "tracker_inv s"
  have "resolution_ok (mk_resolution FAILED False None)"
    by (simp add: resolution_ok_def mk_resolution_def)
  then show ?thesis
    using Some inv tracker_core_remove [OF tracker_inv_core [OF inv] Some] tracker_inv_pending [OF inv Some]
    by (simp add: tracker_cancel_def tracker_inv_def entry_ok_def settle_promise_fresh)
qed

lemma tracker_inv_advance:
  assumes "tracker_inv s" "map_of (tk_pending s) k = Some e" "entry_ok k e'" "te_resolve e' = te_resolve e"
  shows "tracker_inv (s\<lparr>tk_pending := AList.update k e' (tk_pending s)\<rparr>)"
  using assms tracker_core_advance [OF tracker_inv_core [OF assms(1)] assms(2-4)]
  by (simp add: tracker_inv_def)

lemma tracker_inv_register:
  assumes "tracker_inv s" "map_of (tk_pending s) (pc_correlationId c) = None"
  shows "tracker_inv (snd (tracker_register c s))"
  using assms(1)
    tracker_core_add [OF tracker_inv_core [OF assms(1)] assms(2), of "\<lparr>te_command = c, te_state = DISPATCHED,
      te_timer = tk_next s, te_resolve = tk_next s\<rparr>"]
  by (simp add: tracker_inv_def tracker_register_def Let_def entry_ok_def)

section \<open>What one call does\<close>

text \<open>
  The specification of a reply and of an observation: the resolution it gives the command,
  if any. It mentions neither the tracker's maps nor the transition guard.
\<close>

definition observation_verdict :: "pending_command \<Rightarrow> jsobj \<Rightarrow> bool \<Rightarrow> pending_resolution option" where
  "observation_verdict c st settled =
     (case pc_condition c of
        None \<Rightarrow> None
      | Some cond \<Rightarrow>
          (case cond st of
             Inl err \<Rightarrow> Some (mk_resolution FAILED False (Some err))
           | Inr True \<Rightarrow> Some (mk_resolution OBSERVED True None)
           | Inr False \<Rightarrow> if settled then Some (mk_resolution STATE_MISMATCH False None) else None))"

definition route_verdict :: "ack_message \<Rightarrow> pending_command \<Rightarrow> pending_resolution option" where
  "route_verdict m c =
     (if am_success m = Some False
      then Some (mk_resolution FAILED False
             (Some (if am_error m \<in> {None, Some ''''} then ''Device reported command failure''
                    else the (am_error m))))
      else case pc_requiredTier c of
             RAcknowledged \<Rightarrow>
               if isAcknowledgement m c then Some (mk_resolution ACKNOWLEDGED True None) else None
           | RObserved \<Rightarrow>
               Option.bind (am_state m) (\<lambda>st. observation_verdict c st True))"

definition watches :: "string \<Rightarrow> pending_command \<Rightarrow> bool" where
  "watches d c \<longleftrightarrow> pc_requiredTier c = RObserved \<and> pc_observedDeviceId c = d"

lemma observation_verdict_ok: "observation_verdict c st b = Some r \<Longrightarrow> resolution_ok r"
  by (auto simp: observation_verdict_def resolution_ok_def mk_resolution_def
      split: option.splits sum.splits bool.splits if_splits)

lemma route_verdict_ok: "route_verdict m c = Some r \<Longrightarrow> resolution_ok r"
  by (auto simp: route_verdict_def bind_eq_Some_conv resolution_ok_def mk_resolution_def
      dest!: observation_verdict_ok split: if_splits required_tier.splits)

lemma observation_verdict_success:
  "observation_verdict c st b = Some r \<Longrightarrow> pr_success r \<Longrightarrow>
    pr_lifecycleState r = OBSERVED \<and> (\<exists>cond. pc_condition c = Some cond \<and> cond st = Inr True)"
  by (auto simp: observation_verdict_def mk_resolution_def
      split: option.splits sum.splits bool.splits if_splits)

lemma route_verdict_success:
  "route_verdict m c = Some r \<Longrightarrow> pr_success r \<Longrightarrow>
    am_success m \<noteq> Some False
    \<and> (pc_requiredTier c = RAcknowledged \<and> pr_lifecycleState r = ACKNOWLEDGED \<and> isAcknowledgement m c
       \<or> pc_requiredTier c = RObserved \<and> pr_lifecycleState r = OBSERVED
         \<and> (\<exists>cond st. pc_condition c = Some cond \<and> am_state m = Some st \<and> cond st = Inr True))"
  by (auto simp: route_verdict_def bind_eq_Some_conv mk_resolution_def
      dest: observation_verdict_success split: if_splits required_tier.splits)

lemma finalize_live:
  "entry_ok k e \<Longrightarrow> to \<notin> {REQUESTED, DISPATCHED} \<Longrightarrow>
    tracker_finalize e to ok err s = settle_entry e (mk_resolution to ok err) s"
  by (auto simp: tracker_finalize_def entry_ok_def)

lemma evaluateObservation_eq:
  "entry_ok k e \<Longrightarrow> evaluateObservation e st b s =
    (case observation_verdict (te_command e) st b of None \<Rightarrow> s | Some r \<Rightarrow> settle_entry e r s)"
  by (auto simp: evaluateObservation_def observation_verdict_def finalize_live
      split: option.splits sum.splits bool.splits)

lemma settle_entry_maps:
  assumes "tracker_inv s" "map_of (tk_pending s) k = Some e0"
    and "pc_correlationId (te_command e) = k" "te_resolve e = te_resolve e0"
  shows "map_of (tk_pending (settle_entry e r s)) = (map_of (tk_pending s))(k := None)"
    "map_of (tk_settled (settle_entry e r s)) = (map_of (tk_settled s))(te_resolve e0 \<mapsto> r)"
    "tk_next (settle_entry e r s) = tk_next s"
  using assms tracker_inv_pending [OF assms(1,2)]
  by (simp_all add: settle_entry_def Let_def settle_promise_fresh)

lemma settle_entry_advanced:
  "settle_entry (e\<lparr>te_state := q\<rparr>) r (s\<lparr>tk_pending := AList.update (pc_correlationId (te_command e)) e' (tk_pending s)\<rparr>)
    = settle_entry e r s"
  by (simp add: settle_entry_def Let_def delete_update_same)

text \<open>The state in which the observation of a reply is evaluated.\<close>

definition route_advanced :: "ack_message \<Rightarrow> ms \<Rightarrow> tracked_entry \<Rightarrow> tracker \<Rightarrow> tracked_entry \<times> tracker" where
  "route_advanced m now e s =
     (let advanced = canTransition (te_state e) ACKNOWLEDGED;
          e' = (if advanced then e\<lparr>te_state := ACKNOWLEDGED\<rparr> else e);
          s1 = s\<lparr>tk_pending := AList.update (am_correlationId m) e' (tk_pending s)\<rparr>;
          s2 = (if advanced
                then tracker_emit (OnTransition
                       \<lparr>pt_commandId = (if pc_commandId (te_command e) = Some '''' then None
                                       else pc_commandId (te_command e)),
                        pt_correlationId = pc_correlationId (te_command e),
                        pt_targetDeviceId = pc_targetDeviceId (te_command e),
                        pt_fromState = DISPATCHED, pt_toState = ACKNOWLEDGED,
                        pt_timestamp = now\<rparr>) s1
                else s1)
      in (e', s2))"

lemma route_advanced_props:
  assumes inv: "tracker_inv s" and e: "map_of (tk_pending s) (am_correlationId m) = Some e"
    and tier: "pc_requiredTier (te_command e) = RObserved" and adv: "route_advanced m now e s = (e', s2)"
  shows "e' = e\<lparr>te_state := ACKNOWLEDGED\<rparr>" "entry_ok (am_correlationId m) e'" "tracker_inv s2"
    "map_of (tk_pending s2) = (map_of (tk_pending s))(am_correlationId m \<mapsto> e')"
    "map_of (tk_settled s2) = map_of (tk_settled s)"
proof -
  have ok: "entry_ok (am_correlationId m) e" by (rule tracker_inv_pending(1) [OF inv e])
  then show e': "e' = e\<lparr>te_state := ACKNOWLEDGED\<rparr>"
    using adv by (auto simp: route_advanced_def Let_def entry_ok_def split: if_splits)
  with ok tier show ok': "entry_ok (am_correlationId m) e'" by (simp add: entry_ok_def)
  show "tracker_inv s2"
    using adv tracker_inv_advance [OF inv e ok'] e'
    by (auto simp: route_advanced_def Let_def tracker_emit_def split: if_splits)
  show "map_of (tk_pending s2) = (map_of (tk_pending s))(am_correlationId m \<mapsto> e')"
    "map_of (tk_settled s2) = map_of (tk_settled s)"
    using adv by (auto simp: route_advanced_def Let_def tracker_emit_def split: if_splits)
qed

text \<open>\<open>route\<close> on an outstanding command, with the guards resolved.\<close>

lemma tracker_route_eq:
  assumes inv: "tracker_inv s" and e: "map_of (tk_pending s) (am_correlationId m) = Some e"
  shows "tracker_route m now s =
    (case route_verdict m (te_command e) of
       Some r \<Rightarrow>
         if am_success m \<noteq> Some False \<and> isAcknowledgement m (te_command e)
            \<and> pc_requiredTier (te_command e) = RObserved
         then settle_entry (fst (route_advanced m now e s)) r (snd (route_advanced m now e s))
         else settle_entry e r s
     | None \<Rightarrow>
         if isAcknowledgement m (te_command e) then snd (route_advanced m now e s) else s)"
proof -
  let ?c = "te_command e"
  have ok: "entry_ok (am_correlationId m) e" by (rule tracker_inv_pending(1) [OF inv e])
  then have corr: "pc_correlationId ?c = am_correlationId m" by (simp add: entry_ok_def)
  consider (failed) "am_success m = Some False"
    | (ack) "am_success m \<noteq> Some False" "pc_requiredTier ?c = RAcknowledged"
    | (obs) "am_success m \<noteq> Some False" "pc_requiredTier ?c = RObserved"
    by (cases "pc_requiredTier ?c") auto
  then show ?thesis
  proof cases
    case failed
    then show ?thesis using e finalize_live [OF ok]
      by (auto simp: tracker_route_def route_verdict_def split: option.splits)
  next
    case ack
    then show ?thesis using e ok corr settle_entry_advanced [where e = e and q = ACKNOWLEDGED and s = s]
      by (auto simp: tracker_route_def route_verdict_def Let_def tracker_finalize_def entry_ok_def
          route_observation_def split: option.splits)
  next
    case obs
    obtain e' s2 where adv: "route_advanced m now e s = (e', s2)" by fastforce
    note p = route_advanced_props [OF inv e obs(2) adv]
    show ?thesis
    proof (cases "isAcknowledgement m ?c")
      case True
      with obs e have "tracker_route m now s = route_observation m e' s2"
        using adv by (auto simp: tracker_route_def route_advanced_def Let_def)
      then show ?thesis using True obs adv p(1) evaluateObservation_eq [OF p(2)]
        by (auto simp: route_observation_def route_verdict_def split: option.splits)
    next
      case False
      then show ?thesis using obs e evaluateObservation_eq [OF ok]
        by (auto simp: tracker_route_def route_observation_def route_verdict_def split: option.splits)
    qed
  qed
qed

text \<open>The effect of \<open>route\<close> on the maps of the tracker.\<close>

lemma tracker_route_maps:
  assumes inv: "tracker_inv s" and e: "map_of (tk_pending s) (am_correlationId m) = Some e"
  shows "case route_verdict m (te_command e) of
      Some r \<Rightarrow>
        map_of (tk_settled (tracker_route m now s)) = (map_of (tk_settled s))(te_resolve e \<mapsto> r)
        \<and> map_of (tk_pending (tracker_route m now s)) = (map_of (tk_pending s))(am_correlationId m := None)
    | None \<Rightarrow>
        map_of (tk_settled (tracker_route m now s)) = map_of (tk_settled s)
        \<and> map_of (tk_pending (tracker_route m now s)) = (map_of (tk_pending s))(am_correlationId m \<mapsto>
             (if isAcknowledgement m (te_command e) then e\<lparr>te_state := ACKNOWLEDGED\<rparr> else e))"
proof -
  obtain e' s2 where adv: "route_advanced m now e s = (e', s2)" by fastforce
  have corr: "pc_correlationId (te_command e) = am_correlationId m"
    using tracker_inv_pending(1) [OF inv e] by (simp add: entry_ok_def)
  note settle = settle_entry_maps [OF inv e corr refl]
  show ?thesis
  proof (cases "isAcknowledgement m (te_command e) \<and> pc_requiredTier (te_command e) = RObserved")
    case True
    note p = route_advanced_props [OF inv e conjunct2 [OF True] adv]
    have e': "map_of (tk_pending s2) (am_correlationId m) = Some e'" by (simp add: p(4))
    have "pc_correlationId (te_command e') = am_correlationId m" using corr p(1) by simp
    note settle2 = settle_entry_maps [OF p(3) e' this refl]
    show ?thesis using True adv p(1,4,5) settle settle2
      by (auto simp: tracker_route_eq [OF inv e] split: option.splits)
  next
    case False
    then have "isAcknowledgement m (te_command e) \<Longrightarrow> route_verdict m (te_command e) \<noteq> None"
      by (cases "pc_requiredTier (te_command e)") (auto simp: route_verdict_def)
    with False show ?thesis using settle e
      by (auto simp: tracker_route_eq [OF inv e] fun_upd_idem split: option.splits)
  qed
qed

lemma tracker_inv_route: "tracker_inv s \<Longrightarrow> tracker_inv (tracker_route m now s)"
proof (cases "map_of (tk_pending s) (am_correlationId m)")
  case None
  then show "tracker_inv s \<Longrightarrow> ?thesis" by (simp add: tracker_route_def tracker_emit_def)
next
  case (Some e)
  assume inv: "tracker_inv s"
  obtain e' s2 where adv: "route_advanced m now e s = (e', s2)" by fastforce
  have ok: "entry_ok (am_correlationId m) e" by (rule tracker_inv_pending(1) [OF inv Some])
  have settle: "tracker_inv (settle_entry e r s)" if "resolution_ok r" for r
    using tracker_inv_settle [OF inv Some _ _ refl that] ok by (simp add: entry_ok_def)
  have "isAcknowledgement m (te_command e) \<Longrightarrow> pc_requiredTier (te_command e) = RAcknowledged
      \<Longrightarrow> route_verdict m (te_command e) \<noteq> None" by (simp add: route_verdict_def)
  moreover have "tracker_inv s2 \<and> (\<forall>r. resolution_ok r \<longrightarrow> tracker_inv (settle_entry e' r s2))"
    if "pc_requiredTier (te_command e) = RObserved"
  proof -
    note p = route_advanced_props [OF inv Some that adv]
    have "map_of (tk_pending s2) (am_correlationId m) = Some e'" by (simp add: p(4))
    from tracker_inv_settle [OF p(3) this _ _ refl] p(2,3) show ?thesis by (simp add: entry_ok_def)
  qed
  ultimately show ?thesis using adv settle inv
    by (cases "pc_requiredTier (te_command e)")
      (auto simp: tracker_route_eq [OF inv Some] dest: route_verdict_ok split: option.splits)
qed

text \<open>The loop of \<open>observeState\<close>: its body, and the state of the loop over the entries left.\<close>

definition observe_body :: "string \<Rightarrow> jsobj \<Rightarrow> string \<times> tracked_entry \<Rightarrow> tracker \<Rightarrow> tracker" where
  "observe_body d st p acc =
     (if pc_requiredTier (te_command (snd p)) \<noteq> RObserved then acc
      else if pc_observedDeviceId (te_command (snd p)) \<noteq> d then acc
      else evaluateObservation (snd p) st False acc)"

lemma observeState_fold: "tracker_observeState d st s = fold (observe_body d st) (tk_pending s) s"
  unfolding tracker_observeState_def
  by (rule fold_cong) (auto simp: observe_body_def fun_eq_iff)

definition observe_ready :: "tracker \<Rightarrow> (string, tracked_entry) jsmap \<Rightarrow> bool" where
  "observe_ready s xs \<longleftrightarrow>
     tracker_inv s \<and> jm_wf xs \<and> (\<forall>(k, e) \<in> set xs. map_of (tk_pending s) k = Some e)"

definition observe_hit :: "string \<Rightarrow> jsobj \<Rightarrow> tracked_entry \<Rightarrow> pending_resolution option" where
  "observe_hit d st e =
     (if watches d (te_command e) then observation_verdict (te_command e) st False else None)"

lemma observe_body_step:
  assumes "observe_ready s ((k, e) # xs)"
  shows "observe_ready (observe_body d st (k, e) s) xs"
    "map_of (tk_pending (observe_body d st (k, e) s)) =
       (if observe_hit d st e = None then map_of (tk_pending s) else (map_of (tk_pending s))(k := None))"
    "map_of (tk_settled (observe_body d st (k, e) s)) =
       (case observe_hit d st e of None \<Rightarrow> map_of (tk_settled s)
        | Some r \<Rightarrow> (map_of (tk_settled s))(te_resolve e \<mapsto> r))"
proof -
  let ?t = "observe_body d st (k, e) s"
  from assms have inv: "tracker_inv s" and e: "map_of (tk_pending s) k = Some e"
    and xs: "jm_wf xs" "k \<notin> fst ` set xs" "\<And>j x. (j, x) \<in> set xs \<Longrightarrow> map_of (tk_pending s) j = Some x"
    by (auto simp: observe_ready_def)
  have ok: "entry_ok k e" by (rule tracker_inv_pending(1) [OF inv e])
  have corr: "pc_correlationId (te_command e) = k" using ok by (simp add: entry_ok_def)
  have t: "?t = (case observe_hit d st e of None \<Rightarrow> s | Some r \<Rightarrow> settle_entry e r s)"
    using evaluateObservation_eq [OF ok] by (auto simp: observe_body_def observe_hit_def watches_def)
  note maps = settle_entry_maps [OF inv e corr refl]
  show P: "map_of (tk_pending ?t) =
      (if observe_hit d st e = None then map_of (tk_pending s) else (map_of (tk_pending s))(k := None))"
    by (auto simp: t maps split: option.splits)
  show "map_of (tk_settled ?t) = (case observe_hit d st e of None \<Rightarrow> map_of (tk_settled s)
        | Some r \<Rightarrow> (map_of (tk_settled s))(te_resolve e \<mapsto> r))"
    by (auto simp: t maps split: option.splits)
  have "tracker_inv ?t"
    using inv tracker_inv_settle [OF inv e corr _ refl] ok
    by (auto simp: t entry_ok_def observe_hit_def dest: observation_verdict_ok split: option.splits if_splits)
  moreover have "map_of (tk_pending ?t) j = Some x" if "(j, x) \<in> set xs" for j x
    using xs(3) [OF that] xs(2) that by (force simp: P)
  ultimately show "observe_ready ?t xs" using xs(1) by (auto simp: observe_ready_def)
qed

lemma observe_fold_inv: "observe_ready s xs \<Longrightarrow> tracker_inv (fold (observe_body d st) xs s)"
proof (induction xs arbitrary: s)
  case Nil
  then show ?case by (simp add: observe_ready_def)
next
  case (Cons p xs)
  then show ?case by (cases p) (auto dest: observe_body_step(1))
qed

lemma observe_fold_settled:
  "observe_ready s xs \<Longrightarrow> map_of (tk_settled s) p = Some r \<Longrightarrow>
    map_of (tk_settled (fold (observe_body d st) xs s)) p = Some r"
proof (induction xs arbitrary: s)
  case Nil
  then show ?case by simp
next
  case (Cons q xs)
  obtain k e where q: "q = (k, e)" by fastforce
  have ready: "observe_ready s ((k, e) # xs)" using Cons.prems(1) q by simp
  have "te_resolve e \<noteq> p"
    using ready Cons.prems(2) tracker_inv_pending(3) [of s k e] by (auto simp: observe_ready_def)
  then have "map_of (tk_settled (observe_body d st (k, e) s)) p = Some r"
    using Cons.prems(2) by (auto simp: observe_body_step(3) [OF ready] split: option.splits)
  then show ?case using Cons.IH observe_body_step(1) [OF ready] q by simp
qed

lemma observe_fold_frame:
  "observe_ready s xs \<Longrightarrow> k \<notin> fst ` set xs \<Longrightarrow>
    map_of (tk_pending (fold (observe_body d st) xs s)) k = map_of (tk_pending s) k
    \<and> (\<forall>e. map_of (tk_pending s) k = Some e \<longrightarrow>
         map_of (tk_settled (fold (observe_body d st) xs s)) (te_resolve e) = None)"
proof (induction xs arbitrary: s)
  case Nil
  then show ?case by (auto simp: observe_ready_def tracker_inv_pending)
next
  case (Cons q xs)
  obtain k0 e0 where q: "q = (k0, e0)" by fastforce
  have ready: "observe_ready s ((k0, e0) # xs)" using Cons.prems(1) q by simp
  have "map_of (tk_pending (observe_body d st (k0, e0) s)) k = map_of (tk_pending s) k"
    using Cons.prems(2) q by (auto simp: observe_body_step(2) [OF ready])
  then show ?case using Cons.IH [OF observe_body_step(1) [OF ready]] Cons.prems(2) q by simp
qed

lemma observe_fold_member:
  "observe_ready s xs \<Longrightarrow> (k, e) \<in> set xs \<Longrightarrow>
    map_of (tk_settled (fold (observe_body d st) xs s)) (te_resolve e) = observe_hit d st e
    \<and> map_of (tk_pending (fold (observe_body d st) xs s)) k
        = (if observe_hit d st e = None then Some e else None)"
proof (induction xs arbitrary: s)
  case Nil
  then show ?case by simp
next
  case (Cons q xs)
  obtain k0 e0 where q: "q = (k0, e0)" by fastforce
  have ready: "observe_ready s ((k0, e0) # xs)" using Cons.prems(1) q by simp
  note step = observe_body_step [OF ready, of d st]
  show ?case
  proof (cases "(k, e) \<in> set xs")
    case True
    then show ?thesis using Cons.IH [OF step(1)] q by simp
  next
    case False
    with Cons.prems(2) q have ke: "k = k0" "e = e0" by auto
    have notin: "k0 \<notin> fst ` set xs" and pend: "map_of (tk_pending s) k0 = Some e0"
      using ready by (auto simp: observe_ready_def)
    show ?thesis
    proof (cases "observe_hit d st e0")
      case None
      then show ?thesis using observe_fold_frame [OF step(1) notin] step(2) pend q ke by simp
    next
      case (Some r)
      then have "map_of (tk_settled (observe_body d st (k0, e0) s)) (te_resolve e0) = Some r"
        by (simp add: step(3))
      from observe_fold_settled [OF step(1) this] observe_fold_frame [OF step(1) notin] step(2) Some q ke
      show ?thesis by simp
    qed
  qed
qed

lemma observe_ready_all: "tracker_inv s \<Longrightarrow> observe_ready s (tk_pending s)"
  by (auto simp: observe_ready_def tracker_inv_def)

lemma tracker_inv_observe: "tracker_inv s \<Longrightarrow> tracker_inv (tracker_observeState d st s)"
  by (simp add: observeState_fold observe_fold_inv observe_ready_all)

lemma timer_fires_eq:
  assumes inv: "tracker_inv s" and e: "map_of (tk_pending s) k = Some e"
  shows "timer_fires (te_timer e) s = settle_entry e (mk_resolution TIMED_OUT False None) s"
proof -
  note p = tracker_inv_pending [OF inv e]
  from p(1) have "te_timer e = te_resolve e" by (simp add: entry_ok_def)
  then show ?thesis
    using e p(2) finalize_live [OF p(1)]
    by (simp add: timer_fires_def finalizeById_def settle_entry_def Let_def AList.delete_idem)
qed

lemma tracker_inv_timer: "tracker_inv s \<Longrightarrow> tracker_inv (timer_fires h s)"
proof (cases "map_of (tk_timers s) h")
  case None
  then show "tracker_inv s \<Longrightarrow> ?thesis" by (simp add: timer_fires_def)
next
  case (Some k)
  assume inv: "tracker_inv s"
  from tracker_core_timer [OF tracker_inv_core [OF inv] Some]
  obtain e where e: "map_of (tk_pending s) k = Some e" and h: "te_resolve e = h" by blast
  have ok: "entry_ok k e" by (rule tracker_inv_pending(1) [OF inv e])
  have "resolution_ok (mk_resolution TIMED_OUT False None)" by (simp add: resolution_ok_def mk_resolution_def)
  from tracker_inv_settle [OF inv e _ _ refl this] timer_fires_eq [OF inv e] ok h
  show ?thesis by (simp add: entry_ok_def)
qed

interpretation tracker: invariant_machine tracker_step tracker_ok tracker_init tracker_inv
proof
  show "tracker_inv tracker_init" by (rule tracker_inv_init)
  fix s a assume "tracker_inv s" "tracker_ok a s"
  then show "tracker_inv (tracker_step a s)"
    by (cases a) (auto simp: tracker_has_def jm_has_def intro: tracker_inv_register tracker_inv_route
        tracker_inv_observe tracker_inv_cancel tracker_inv_timer)
qed

section \<open>Runs of the tracker\<close>

text \<open>
  C3. Exactly once, and nothing leaks. In every state the tracker can reach, each promise
  handed out is either settled, once, with a state that follows DISPATCHED and a success
  flag that agrees with it, or belongs to exactly one outstanding command whose timer is
  armed; and the armed timers are those of the outstanding commands and no others.
\<close>

theorem tracker_exactly_once:
  assumes "reach tracker_step tracker_ok tracker_init s"
  shows "jm_wf (tk_settled s)
    \<and> (\<forall>p < tk_next s. (map_of (tk_settled s) p \<noteq> None) \<noteq>
         (\<exists>!k. \<exists>e. map_of (tk_pending s) k = Some e \<and> te_resolve e = p))
    \<and> (\<forall>p r. map_of (tk_settled s) p = Some r \<longrightarrow>
         canTransition DISPATCHED (pr_lifecycleState r)
         \<and> pr_success r = isSuccessState (pr_lifecycleState r))
    \<and> (\<forall>h k. map_of (tk_timers s) h = Some k \<longleftrightarrow>
         (\<exists>e. map_of (tk_pending s) k = Some e \<and> te_timer e = h))"
proof (intro conjI allI impI)
  from assms have inv: "tracker_inv s" by (rule tracker.reach_inv)
  note core = tracker_inv_core [OF inv] and pend = tracker_inv_pending [OF inv]
  show "jm_wf (tk_settled s)" using inv by (simp add: tracker_inv_def)
  fix p assume p: "p < tk_next s"
  show "(map_of (tk_settled s) p \<noteq> None) \<noteq>
      (\<exists>!k. \<exists>e. map_of (tk_pending s) k = Some e \<and> te_resolve e = p)"
  proof (cases "map_of (tk_settled s) p")
    case None
    with tracker_core_cover [OF core p] obtain k e where "map_of (tk_pending s) k = Some e" "te_resolve e = p"
      by auto
    then have "\<exists>!k. \<exists>e. map_of (tk_pending s) k = Some e \<and> te_resolve e = p"
      by (intro ex1I [of _ k]) (auto intro: tracker_core_inj [OF core])
    with None show ?thesis by simp
  next
    case (Some r)
    then have "\<nexists>k e. map_of (tk_pending s) k = Some e \<and> te_resolve e = p"
      using pend(3) by fastforce
    with Some show ?thesis by auto
  qed
next
  from assms have inv: "tracker_inv s" by (rule tracker.reach_inv)
  fix p r assume "map_of (tk_settled s) p = Some r"
  from tracker_core_settled [OF tracker_inv_core [OF inv] this]
  show "canTransition DISPATCHED (pr_lifecycleState r)" "pr_success r = isSuccessState (pr_lifecycleState r)"
    by (simp_all add: resolution_ok_def)
next
  from assms have inv: "tracker_inv s" by (rule tracker.reach_inv)
  fix h k
  show "map_of (tk_timers s) h = Some k \<longleftrightarrow> (\<exists>e. map_of (tk_pending s) k = Some e \<and> te_timer e = h)"
  proof
    assume "map_of (tk_timers s) h = Some k"
    from tracker_core_timer [OF tracker_inv_core [OF inv] this] tracker_inv_pending(1) [OF inv, of k]
    show "\<exists>e. map_of (tk_pending s) k = Some e \<and> te_timer e = h" by (auto simp: entry_ok_def)
  next
    assume "\<exists>e. map_of (tk_pending s) k = Some e \<and> te_timer e = h"
    then obtain e where e: "map_of (tk_pending s) k = Some e" "te_timer e = h" by blast
    from tracker_inv_pending(1,2) [OF inv e(1)] e(2) show "map_of (tk_timers s) h = Some k"
      by (auto simp: entry_ok_def)
  qed
qed

text \<open>A command that waits for flow on a meter, used by the witnesses below.\<close>

definition example_command :: pending_command where
  "example_command = \<lparr>pc_commandId = Some ''cmd-1'', pc_correlationId = ''corr-1'',
     pc_targetDeviceId = ''pump'', pc_observedDeviceId = ''meter'', pc_requiredTier = RObserved,
     pc_condition = Some (\<lambda>st. Inr (js_prop st ''flow'' = JBool True)), pc_timeoutMs = 5000,
     pc_ackIndicatorField = None, pc_ackIndicatorValues = None\<rparr>"

definition example_waiting :: tracker where
  "example_waiting = snd (tracker_register example_command tracker_init)"

lemma example_waiting_reach: "reach tracker_step tracker_ok tracker_init example_waiting"
  using reach_step [OF reach_init, of tracker_ok "OpRegister example_command" tracker_init tracker_step]
  by (simp add: example_waiting_def tracker_has_def jm_has_def tracker_init_def)

lemmas example_waiting_simps = example_waiting_def example_command_def tracker_register_def
  tracker_init_def Let_def

theorem tracker_exactly_once_witness:
  "reach tracker_step tracker_ok tracker_init example_waiting \<and> jm_wf (tk_settled example_waiting)"
  using example_waiting_reach tracker_exactly_once [OF example_waiting_reach] by blast

text \<open>
  What a correlated reply does to an outstanding command is decided by the reply and the
  command alone. Either it gives the command its resolution: the promise settles with it and
  the entry is gone; or the command stays outstanding, advanced to ACKNOWLEDGED exactly when
  the reply acknowledges it. No other command and no other promise is touched.
\<close>

lemma tracker_route_behaviour:
  assumes "reach tracker_step tracker_ok tracker_init s"
    and e: "map_of (tk_pending s) (am_correlationId m) = Some e"
  shows "case route_verdict m (te_command e) of
      Some r \<Rightarrow>
        map_of (tk_settled (tracker_route m now s)) = (map_of (tk_settled s))(te_resolve e \<mapsto> r)
        \<and> map_of (tk_pending (tracker_route m now s)) = (map_of (tk_pending s))(am_correlationId m := None)
    | None \<Rightarrow>
        map_of (tk_settled (tracker_route m now s)) = map_of (tk_settled s)
        \<and> map_of (tk_pending (tracker_route m now s)) = (map_of (tk_pending s))(am_correlationId m \<mapsto>
             (if isAcknowledgement m (te_command e) then e\<lparr>te_state := ACKNOWLEDGED\<rparr> else e))"
  by (rule tracker_route_maps [OF tracker.reach_inv [OF assms(1)] e])

definition example_ack :: ack_message where
  "example_ack = \<lparr>am_correlationId = ''corr-1'', am_success = Some True, am_error = None,
     am_status = None, am_payload = None, am_state = Some [(''flow'', JBool False)]\<rparr>"

text \<open>
  One device-state report settles every outstanding command that watches the device and
  whose condition the state satisfies (OBSERVED) or makes throw (FAILED), each with its own
  verdict, and leaves every other outstanding command waiting: an ambient state that does
  not match is never a mismatch. Promises settled earlier keep their value.
\<close>

lemma tracker_observeState_behaviour:
  assumes "reach tracker_step tracker_ok tracker_init s"
  shows "(\<forall>k e. map_of (tk_pending s) k = Some e \<longrightarrow>
      map_of (tk_settled (tracker_observeState d st s)) (te_resolve e) = observe_hit d st e
      \<and> map_of (tk_pending (tracker_observeState d st s)) k
          = (if observe_hit d st e = None then Some e else None))
    \<and> (\<forall>p r. map_of (tk_settled s) p = Some r \<longrightarrow>
          map_of (tk_settled (tracker_observeState d st s)) p = Some r)
    \<and> (\<forall>e r. observe_hit d st e = Some r \<longrightarrow> pr_lifecycleState r \<in> {OBSERVED, FAILED})"
proof (intro conjI allI impI)
  note ready = observe_ready_all [OF tracker.reach_inv [OF assms]]
  fix k e assume "map_of (tk_pending s) k = Some e"
  then have mem: "(k, e) \<in> set (tk_pending s)" by (rule map_of_SomeD)
  show "map_of (tk_settled (tracker_observeState d st s)) (te_resolve e) = observe_hit d st e"
    and "map_of (tk_pending (tracker_observeState d st s)) k
          = (if observe_hit d st e = None then Some e else None)"
    using observe_fold_member [OF ready mem, of d st] by (simp_all add: observeState_fold)
next
  fix p r assume "map_of (tk_settled s) p = Some r"
  then show "map_of (tk_settled (tracker_observeState d st s)) p = Some r"
    by (simp add: observeState_fold observe_fold_settled [OF observe_ready_all [OF tracker.reach_inv [OF assms]]])
next
  fix e r assume "observe_hit d st e = Some r"
  then show "pr_lifecycleState r \<in> {OBSERVED, FAILED}"
    by (auto simp: observe_hit_def observation_verdict_def mk_resolution_def
        split: if_splits option.splits sum.splits bool.splits)
qed

text \<open>
  A command never hangs. In every reachable state, when the timer armed for an
  outstanding command fires, its promise settles as TIMED_OUT without success, the command
  is no longer outstanding, and firing the same timer again changes nothing.
\<close>

lemma tracker_timeout_settles:
  assumes "reach tracker_step tracker_ok tracker_init s" and "map_of (tk_pending s) k = Some e"
  shows "map_of (tk_settled (timer_fires (te_timer e) s)) (te_resolve e)
        = Some \<lparr>pr_lifecycleState = TIMED_OUT, pr_success = False, pr_error = None\<rparr>
    \<and> \<not> tracker_has k (timer_fires (te_timer e) s)
    \<and> timer_fires (te_timer e) (timer_fires (te_timer e) s) = timer_fires (te_timer e) s"
proof -
  from assms(1) have inv: "tracker_inv s" by (rule tracker.reach_inv)
  have "pc_correlationId (te_command e) = k"
    using tracker_inv_pending(1) [OF inv assms(2)] by (simp add: entry_ok_def)
  note maps = settle_entry_maps [OF inv assms(2) this refl]
  have "map_of (tk_timers (timer_fires (te_timer e) s)) (te_timer e) = None"
    by (simp add: timer_fires_eq [OF inv assms(2)] settle_entry_def Let_def)
  then show ?thesis
    by (auto simp: timer_fires_eq [OF inv assms(2)] maps tracker_has_def jm_has_def mk_resolution_def)
      (simp add: timer_fires_def)
qed

text \<open>
  C4. Success is never claimed without evidence. If an operation settles the promise of an
  outstanding command as a success, then it was a reply to that command, not a rejection,
  that acknowledges it (for a command that only needs an acknowledgement) or carries a state
  on which its condition is true; or a state report of the device it watches on which its
  condition is true. No timer, cancellation or other command's registration gives a success.
\<close>

theorem tracker_success_is_evidenced:
  assumes "reach tracker_step tracker_ok tracker_init s" "tracker_ok a s"
    and "map_of (tk_pending s) k = Some e"
    and "map_of (tk_settled (tracker_step a s)) (te_resolve e) = Some r" "pr_success r"
  shows "case a of
      OpRoute m now \<Rightarrow> am_correlationId m = k \<and> am_success m \<noteq> Some False
        \<and> (pc_requiredTier (te_command e) = RAcknowledged \<and> pr_lifecycleState r = ACKNOWLEDGED
             \<and> isAcknowledgement m (te_command e)
           \<or> pc_requiredTier (te_command e) = RObserved \<and> pr_lifecycleState r = OBSERVED
             \<and> (\<exists>c st. pc_condition (te_command e) = Some c \<and> am_state m = Some st \<and> c st = Inr True))
    | OpObserve d st \<Rightarrow> watches d (te_command e) \<and> pr_lifecycleState r = OBSERVED
        \<and> (\<exists>c. pc_condition (te_command e) = Some c \<and> c st = Inr True)
    | _ \<Rightarrow> False"
proof -
  from assms(1) have inv: "tracker_inv s" by (rule tracker.reach_inv)
  note pend = tracker_inv_pending [OF inv assms(3)]
  show ?thesis
  proof (cases a)
    case (OpRegister c)
    then show ?thesis using assms(4) pend(3) by (simp add: tracker_register_def Let_def)
  next
    case (OpRoute m now)
    show ?thesis
    proof (cases "map_of (tk_pending s) (am_correlationId m)")
      case None
      then show ?thesis using OpRoute assms(4) pend(3) by (simp add: tracker_route_def tracker_emit_def)
    next
      case (Some e')
      have "am_correlationId m = k \<and> route_verdict m (te_command e) = Some r"
        using tracker_route_maps [OF inv Some, of now] assms(3,4) pend(3) OpRoute Some
          tracker_core_inj [OF tracker_inv_core [OF inv] assms(3) Some]
        by (auto split: option.splits if_splits)
      then show ?thesis using assms(5) OpRoute route_verdict_success [of m "te_command e" r] by auto
    qed
  next
    case (OpObserve d st)
    have "observe_hit d st e = Some r"
      using observe_fold_member [OF observe_ready_all [OF inv] map_of_SomeD [OF assms(3)], of d st] assms(4) OpObserve
      by (simp add: observeState_fold)
    then show ?thesis using assms(5) OpObserve
      by (auto simp: observe_hit_def dest: observation_verdict_success split: if_splits)
  next
    case (OpCancel c)
    then show ?thesis using assms(3-5) pend(3)
      by (auto simp: tracker_cancel_def settle_promise_def mk_resolution_def split: option.splits if_splits)
  next
    case (OpTimer h)
    show ?thesis
    proof (cases "map_of (tk_timers s) h")
      case None
      then show ?thesis using OpTimer assms(4) pend(3) by (simp add: timer_fires_def)
    next
      case (Some j)
      from tracker_core_timer [OF tracker_inv_core [OF inv] Some]
      obtain e' where e': "map_of (tk_pending s) j = Some e'" "te_resolve e' = h" by blast
      have j: "pc_correlationId (te_command e') = j" "te_timer e' = h"
        using tracker_inv_pending(1) [OF inv e'(1)] e'(2) by (auto simp: entry_ok_def)
      then show ?thesis
        using OpTimer assms(4,5) pend(3) timer_fires_eq [OF inv e'(1)] settle_entry_maps [OF inv e'(1) j(1) refl]
        by (auto simp: mk_resolution_def split: if_splits)
    qed
  qed
qed

theorem tracker_success_is_evidenced_witness:
  "watches ''meter'' example_command
    \<and> map_of (tk_settled (tracker_step (OpObserve ''meter'' [(''flow'', JBool True)]) example_waiting)) 0
      = Some \<lparr>pr_lifecycleState = OBSERVED, pr_success = True, pr_error = None\<rparr>"
proof -
  let ?e = "\<lparr>te_command = example_command, te_state = DISPATCHED, te_timer = 0, te_resolve = 0\<rparr>"
  let ?a = "OpObserve ''meter'' [(''flow'', JBool True)]"
  have pend: "map_of (tk_pending example_waiting) ''corr-1'' = Some ?e"
    by (simp add: example_waiting_simps)
  have settled: "map_of (tk_settled (tracker_step ?a example_waiting)) (te_resolve ?e)
      = Some \<lparr>pr_lifecycleState = OBSERVED, pr_success = True, pr_error = None\<rparr>"
    by (simp add: example_waiting_simps tracker_observeState_def evaluateObservation_def js_prop_def
        tracker_finalize_def settle_entry_def settle_promise_def jm_has_def mk_resolution_def)
  from tracker_success_is_evidenced [OF example_waiting_reach _ pend settled] settled show ?thesis by simp
qed

section \<open>What a client of the tracker may rely on\<close>

text \<open>
  The contract between two states of the tracker: settled promises stay settled, no entry
  appears, and an outstanding command stays outstanding with its handle or is settled with a
  resolution of its tier. New callbacks are appended, and the transition callback is made
  only for an outstanding command that waits for an observation.
\<close>

definition resolution_fits :: "required_tier \<Rightarrow> pending_resolution \<Rightarrow> bool" where
  "resolution_fits t r \<longleftrightarrow> resolution_ok r
     \<and> pr_lifecycleState r \<noteq> (case t of RAcknowledged \<Rightarrow> OBSERVED | RObserved \<Rightarrow> ACKNOWLEDGED)"

definition ack_event_ok :: "(string \<rightharpoonup> tracked_entry) \<Rightarrow> tracker_event \<Rightarrow> bool" where
  "ack_event_ok P ev \<longleftrightarrow> (\<forall>t. ev = OnTransition t \<longrightarrow> pt_toState t = ACKNOWLEDGED
     \<and> (\<exists>k e. P k = Some e \<and> pc_requiredTier (te_command e) = RObserved
          \<and> pt_commandId t \<in> {None, pc_commandId (te_command e)}))"

definition tracker_evolves :: "tracker \<Rightarrow> tracker \<Rightarrow> bool" where
  "tracker_evolves s t \<longleftrightarrow>
     (\<forall>h r. map_of (tk_settled s) h = Some r \<longrightarrow> map_of (tk_settled t) h = Some r)
     \<and> (\<forall>k e'. map_of (tk_pending t) k = Some e' \<longrightarrow>
          (\<exists>e. map_of (tk_pending s) k = Some e \<and> te_command e = te_command e' \<and> te_resolve e = te_resolve e'))
     \<and> (\<forall>k e. map_of (tk_pending s) k = Some e \<longrightarrow>
          (\<exists>e'. map_of (tk_pending t) k = Some e' \<and> te_command e' = te_command e \<and> te_resolve e' = te_resolve e)
          \<or> (\<exists>r. map_of (tk_settled t) (te_resolve e) = Some r \<and> resolution_fits (pc_requiredTier (te_command e)) r))
     \<and> (\<exists>evs. tk_events t = tk_events s @ evs \<and> (\<forall>ev \<in> set evs. ack_event_ok (map_of (tk_pending s)) ev))"

lemma tracker_evolves_refl: "tracker_evolves s s"
  by (auto simp: tracker_evolves_def)

lemma tracker_evolvesI:
  assumes inv: "tracker_inv s" and e: "map_of (tk_pending s) k = Some e" and r: "resolution_fits (pc_requiredTier (te_command e)) r"
    and P: "map_of (tk_pending t) = (map_of (tk_pending s))(k := None)"
    and S: "map_of (tk_settled t) = (map_of (tk_settled s))(te_resolve e \<mapsto> r)"
    and ev: "tk_events t = tk_events s @ evs" "\<And>ev. ev \<in> set evs \<Longrightarrow> ack_event_ok (map_of (tk_pending s)) ev"
  shows "tracker_evolves s t"
  using assms tracker_inv_pending(3) [OF inv e] unfolding tracker_evolves_def by auto

lemma settle_entry_events: "\<exists>ev. tk_events (settle_entry e r s) = tk_events s @ [OnResolve (fst ev) r (snd ev)]"
  by (simp add: settle_entry_def Let_def)

lemma observation_not_ack: "observation_verdict c st b = Some r \<Longrightarrow> pr_lifecycleState r \<noteq> ACKNOWLEDGED"
  by (auto simp: observation_verdict_def mk_resolution_def split: option.splits sum.splits bool.splits if_splits)

lemma route_verdict_fits: "route_verdict m c = Some r \<Longrightarrow> resolution_fits (pc_requiredTier c) r"
  using route_verdict_ok [of m c r]
  by (auto simp: resolution_fits_def route_verdict_def mk_resolution_def bind_eq_Some_conv
      dest: observation_not_ack split: if_splits required_tier.splits)

lemma route_advanced_events:
  assumes "map_of (tk_pending s) (am_correlationId m) = Some e" "pc_requiredTier (te_command e) = RObserved"
  shows "\<exists>evs. tk_events (snd (route_advanced m now e s)) = tk_events s @ evs
    \<and> (\<forall>ev \<in> set evs. ack_event_ok (map_of (tk_pending s)) ev)"
  using assms by (auto simp: route_advanced_def Let_def tracker_emit_def ack_event_ok_def)

lemma route_evolves: "tracker_inv s \<Longrightarrow> tracker_evolves s (tracker_route m now s)"
proof (cases "map_of (tk_pending s) (am_correlationId m)")
  case None
  then have "tracker_route m now s = tracker_emit (OnLateMessage (am_correlationId m)) s"
    by (simp add: tracker_route_def)
  then show ?thesis by (auto simp: tracker_evolves_def tracker_emit_def ack_event_ok_def)
next
  case (Some e)
  assume inv: "tracker_inv s"
  have evs: "\<exists>evs. tk_events (tracker_route m now s) = tk_events s @ evs
      \<and> (\<forall>ev \<in> set evs. ack_event_ok (map_of (tk_pending s)) ev)"
  proof (cases "pc_requiredTier (te_command e)")
    case RAcknowledged
    then show ?thesis
      by (auto simp: tracker_route_eq [OF inv Some] settle_entry_def Let_def ack_event_ok_def route_verdict_def
          split: option.splits)
  next
    case RObserved
    obtain evs where "tk_events (snd (route_advanced m now e s)) = tk_events s @ evs"
      "\<forall>ev \<in> set evs. ack_event_ok (map_of (tk_pending s)) ev"
      using route_advanced_events [OF Some RObserved] by blast
    then show ?thesis
      by (auto simp: tracker_route_eq [OF inv Some] settle_entry_def Let_def ack_event_ok_def split: option.splits)
  qed
  show ?thesis
  proof (cases "route_verdict m (te_command e)")
    case None
    then show ?thesis using tracker_route_maps [OF inv Some, of now] evs Some by (auto simp: tracker_evolves_def)
  next
    case v: (Some r)
    from evs obtain evs where ev: "tk_events (tracker_route m now s) = tk_events s @ evs"
      "\<And>ev. ev \<in> set evs \<Longrightarrow> ack_event_ok (map_of (tk_pending s)) ev" by blast
    show ?thesis
      by (rule tracker_evolvesI [OF inv Some route_verdict_fits [OF v] _ _ ev])
        (use tracker_route_maps [OF inv Some, of now] v in simp_all)
  qed
qed

lemma observe_events: "\<exists>evs. tk_events (fold (observe_body d st) xs s) = tk_events s @ evs \<and> (\<forall>ev \<in> set evs. ack_event_ok P ev)"
proof (induction xs arbitrary: s)
  case (Cons x xs)
  obtain e1 where e1: "tk_events (observe_body d st x s) = tk_events s @ e1" "\<forall>ev \<in> set e1. ack_event_ok P ev"
    by (rule that [of "drop (length (tk_events s)) (tk_events (observe_body d st x s))"])
      (auto simp: observe_body_def evaluateObservation_def tracker_finalize_def settle_entry_def Let_def ack_event_ok_def
        split: option.splits sum.splits)
  obtain e2 where e2: "tk_events (fold (observe_body d st) xs (observe_body d st x s)) = tk_events (observe_body d st x s) @ e2"
    "\<forall>ev \<in> set e2. ack_event_ok P ev" using Cons.IH by blast
  show ?case by (rule exI [of _ "e1 @ e2"]) (use e1 e2 in auto)
qed simp

lemma observe_hit_fits: "observe_hit d st e = Some r \<Longrightarrow> resolution_fits (pc_requiredTier (te_command e)) r"
  by (auto simp: observe_hit_def resolution_fits_def watches_def dest: observation_verdict_ok observation_not_ack
      split: if_splits)

lemma observe_evolves: "tracker_inv s \<Longrightarrow> tracker_evolves s (tracker_observeState d st s)"
proof -
  assume inv: "tracker_inv s"
  let ?t = "fold (observe_body d st) (tk_pending s) s"
  note ready = observe_ready_all [OF inv]
  have wf: "jm_wf (tk_pending s)" using inv by (simp add: tracker_inv_def)
  have mem: "map_of (tk_settled ?t) (te_resolve e) = observe_hit d st e
      \<and> map_of (tk_pending ?t) k = (if observe_hit d st e = None then Some e else None)"
    if "map_of (tk_pending s) k = Some e" for k e
    using observe_fold_member [OF ready map_of_SomeD [OF that]] .
  have out: "map_of (tk_pending ?t) k = None" if "map_of (tk_pending s) k = None" for k
    using observe_fold_frame [OF ready, of k] that by (simp add: map_of_eq_None_iff)
  show ?thesis
    unfolding tracker_evolves_def observeState_fold
  proof (intro conjI allI impI)
    show "map_of (tk_settled ?t) h = Some r" if "map_of (tk_settled s) h = Some r" for h r
      using observe_fold_settled [OF ready that] .
    show "\<exists>e. map_of (tk_pending s) k = Some e \<and> te_command e = te_command e' \<and> te_resolve e = te_resolve e'"
      if "map_of (tk_pending ?t) k = Some e'" for k e'
      using that mem [of k] out [of k] by (cases "map_of (tk_pending s) k") (auto split: if_splits)
    show "(\<exists>e'. map_of (tk_pending ?t) k = Some e' \<and> te_command e' = te_command e \<and> te_resolve e' = te_resolve e)
        \<or> (\<exists>r. map_of (tk_settled ?t) (te_resolve e) = Some r \<and> resolution_fits (pc_requiredTier (te_command e)) r)"
      if "map_of (tk_pending s) k = Some e" for k e
      using mem [OF that] observe_hit_fits [of d st e] by (cases "observe_hit d st e") auto
    show "\<exists>evs. tk_events ?t = tk_events s @ evs \<and> (\<forall>ev \<in> set evs. ack_event_ok (map_of (tk_pending s)) ev)"
      by (rule observe_events)
  qed
qed

lemma timer_evolves: "tracker_inv s \<Longrightarrow> tracker_evolves s (timer_fires h s)"
proof (cases "map_of (tk_timers s) h")
  case None
  then show ?thesis by (simp add: timer_fires_def tracker_evolves_refl)
next
  case (Some k)
  assume inv: "tracker_inv s"
  from tracker_core_timer [OF tracker_inv_core [OF inv] Some]
  obtain e where e: "map_of (tk_pending s) k = Some e" and h: "te_resolve e = h" by blast
  have ok: "entry_ok k e" by (rule tracker_inv_pending(1) [OF inv e])
  have t: "timer_fires h s = settle_entry e (mk_resolution TIMED_OUT False None) s"
    using timer_fires_eq [OF inv e] ok h by (simp add: entry_ok_def)
  note m = settle_entry_maps [OF inv e _ refl]
  show ?thesis unfolding t
    by (rule tracker_evolvesI [OF inv e, of "mk_resolution TIMED_OUT False None"])
      (use ok m in \<open>auto simp: entry_ok_def resolution_fits_def resolution_ok_def mk_resolution_def
         settle_entry_def Let_def ack_event_ok_def split: required_tier.splits\<close>)
qed

lemma cancel_evolves: "tracker_inv s \<Longrightarrow> tracker_evolves s (tracker_cancel k s)"
proof (cases "map_of (tk_pending s) k")
  case None
  then show ?thesis by (simp add: tracker_cancel_def tracker_evolves_refl)
next
  case (Some e)
  assume inv: "tracker_inv s"
  show ?thesis
    by (rule tracker_evolvesI [OF inv Some, of "mk_resolution FAILED False None" _ "[]"])
      (use Some tracker_inv_pending(3) [OF inv Some] in \<open>auto simp: tracker_cancel_def settle_promise_fresh
         resolution_fits_def resolution_ok_def mk_resolution_def split: required_tier.splits\<close>)
qed

end
