(* ===== verification/Js_Json.thy ===== *)
theory Js_Json
  imports Aeolus_Prelude
begin

text \<open>
  What the program uses of \<open>JSON.stringify\<close> and \<open>JSON.parse\<close> (its SQLite columns hold
  JSON text), for values whose numbers are integers: the text of a value in the form the
  ECMAScript specification gives it (no white space, the short escapes, \<open>\u00xx\<close> for the
  other control characters, \<open>undefined\<close> dropped from objects and null in arrays, a
  \<open>BigInt\<close> throwing), and a recursive-descent reader that skips white space and lets a
  later duplicate key win. A number with a fraction or an exponent is outside the value type
  and is not read. The main lemma is the round trip: the text of a plain JSON value is read
  back as that value; it is the interface the stores rely on.
\<close>

section \<open>Writing\<close>

fun show_nat :: "nat \<Rightarrow> string" where
  "show_nat n = (if n < 10 then [char_of (48 + n)] else show_nat (n div 10) @ [char_of (48 + n mod 10)])"

declare show_nat.simps [simp del]

definition show_int :: "int \<Rightarrow> string" where
  "show_int i = (if i < 0 then CHR ''-'' # show_nat (nat (- i)) else show_nat (nat i))"

definition hex_digit :: "nat \<Rightarrow> char" where
  "hex_digit n = char_of (if n < 10 then 48 + n else 87 + n)"

definition json_char :: "char \<Rightarrow> string" where
  "json_char c =
     (if c = CHR 0x22 then [CHR 0x5C, CHR 0x22]
      else if c = CHR 0x5C then [CHR 0x5C, CHR 0x5C]
      else if c = CHR 0x08 then [CHR 0x5C, CHR ''b'']
      else if c = CHR 0x0C then [CHR 0x5C, CHR ''f'']
      else if c = CHR 0x0A then [CHR 0x5C, CHR ''n'']
      else if c = CHR 0x0D then [CHR 0x5C, CHR ''r'']
      else if c = CHR 0x09 then [CHR 0x5C, CHR ''t'']
      else if of_char c < (32 :: nat)
           then [CHR 0x5C, CHR ''u'', CHR ''0'', CHR ''0'',
                 hex_digit (of_char c div 16), hex_digit (of_char c mod 16)]
      else [c])"

definition json_quote :: "string \<Rightarrow> string" where
  "json_quote s = CHR 0x22 # concat (map json_char s) @ [CHR 0x22]"

fun json_text :: "jsval \<Rightarrow> string" where
  "json_text JUndefined = ''null''"
| "json_text JNull = ''null''"
| "json_text (JBool b) = (if b then ''true'' else ''false'')"
| "json_text (JNum i) = show_int i"
| "json_text (JBigInt i) = []"
| "json_text (JStr s) = json_quote s"
| "json_text (JArr vs) = CHR ''['' # js_join '','' (map json_text vs) @ '']''"
| "json_text (JObj kvs) =
     CHR ''{'' # js_join '','' (map (\<lambda>(k, v). json_quote k @ CHR '':'' # json_text v)
                     (filter (\<lambda>(k, v). v \<noteq> JUndefined) kvs)) @ ''}''"

fun has_bigint :: "jsval \<Rightarrow> bool" where
  "has_bigint (JBigInt i) = True"
| "has_bigint (JArr vs) = list_ex has_bigint vs"
| "has_bigint (JObj kvs) = list_ex (\<lambda>(k, v). has_bigint v) kvs"
| "has_bigint _ = False"

text \<open>\<open>JSON.stringify(v)\<close>: it throws, answers \<open>undefined\<close>, or gives a text.\<close>

datatype json_out = JsonThrow string | JsonNone | JsonText string

definition json_stringify :: "jsval \<Rightarrow> json_out" where
  "json_stringify v =
     (if has_bigint v then JsonThrow ''Do not know how to serialize a BigInt''
      else if v = JUndefined then JsonNone else JsonText (json_text v))"

text \<open>\<open>Buffer.byteLength(s, "utf8")\<close> for code units below 256.\<close>

definition utf8_bytes :: "string \<Rightarrow> nat" where
  "utf8_bytes s = sum_list (map (\<lambda>c. if of_char c < (128 :: nat) then 1 else 2) s)"

section \<open>Reading\<close>

definition is_digit :: "char \<Rightarrow> bool" where
  "is_digit c \<longleftrightarrow> 48 \<le> (of_char c :: nat) \<and> (of_char c :: nat) \<le> 57"

definition skip_ws :: "string \<Rightarrow> string" where
  "skip_ws s = dropWhile (\<lambda>c. c \<in> {CHR 0x09, CHR 0x0A, CHR 0x0D, CHR 0x20}) s"

definition nat_of_digits :: "string \<Rightarrow> nat" where
  "nat_of_digits s = fold (\<lambda>c n. 10 * n + (of_char c - 48)) s 0"

definition read_nat :: "string \<Rightarrow> (nat \<times> string) option" where
  "read_nat s =
     (let ds = takeWhile is_digit s; r = dropWhile is_digit s
      in if ds = [] then None
         else if hd ds = CHR ''0'' \<and> length ds > 1 then None
         else if r \<noteq> [] \<and> hd r \<in> {CHR ''.'', CHR ''e'', CHR ''E''} then None
         else Some (nat_of_digits ds, r))"

definition read_num :: "string \<Rightarrow> (int \<times> string) option" where
  "read_num s =
     (case s of
        c # r \<Rightarrow> if c = CHR ''-'' then map_option (\<lambda>(n, q). (- int n, q)) (read_nat r)
                 else map_option (\<lambda>(n, q). (int n, q)) (read_nat s)
      | [] \<Rightarrow> None)"

definition hex_val :: "char \<Rightarrow> nat option" where
  "hex_val c =
     (let n = of_char c
      in if 48 \<le> n \<and> n \<le> 57 then Some (n - 48)
         else if 97 \<le> n \<and> n \<le> 102 then Some (n - 87)
         else if 65 \<le> n \<and> n \<le> 70 then Some (n - 55) else None)"

definition unescape :: "char \<Rightarrow> char option" where
  "unescape c =
     (if c \<in> {CHR 0x22, CHR 0x5C, CHR ''/''} then Some c
      else if c = CHR ''b'' then Some (CHR 0x08) else if c = CHR ''f'' then Some (CHR 0x0C)
      else if c = CHR ''n'' then Some (CHR 0x0A) else if c = CHR ''r'' then Some (CHR 0x0D)
      else if c = CHR ''t'' then Some (CHR 0x09) else None)"

definition read_u00 :: "string \<Rightarrow> char option" where
  "read_u00 h =
     (case map hex_val h of
        [Some a, Some b, Some c, Some d] \<Rightarrow>
          if a = 0 \<and> b = 0 then Some (char_of (16 * c + d)) else None
      | _ \<Rightarrow> None)"

fun read_chars :: "string \<Rightarrow> (string \<times> string) option" where
  "read_chars [] = None"
| "read_chars (c # s) =
     (if c = CHR 0x22 then Some ([], s)
      else if c = CHR 0x5C then
        (case s of
           [] \<Rightarrow> None
         | x # r \<Rightarrow>
             if x = CHR ''u''
             then (case read_u00 (take 4 r) of
                     None \<Rightarrow> None
                   | Some ch \<Rightarrow> map_option (\<lambda>(w, q). (ch # w, q)) (read_chars (drop 4 r)))
             else (case unescape x of
                     None \<Rightarrow> None
                   | Some ch \<Rightarrow> map_option (\<lambda>(w, q). (ch # w, q)) (read_chars r)))
      else if of_char c < (32 :: nat) then None
      else map_option (\<lambda>(w, q). (c # w, q)) (read_chars s))"

text \<open>
  The reader is given fuel; \<open>json_parse\<close> gives it twice the length of the text plus two,
  which \<open>json_roundtrip\<close> below shows to be enough for every text \<open>json_text\<close> writes.
\<close>

fun read_val :: "nat \<Rightarrow> string \<Rightarrow> (jsval \<times> string) option"
  and read_elems :: "nat \<Rightarrow> string \<Rightarrow> (jsval list \<times> string) option"
  and read_members :: "nat \<Rightarrow> string \<Rightarrow> ((string \<times> jsval) list \<times> string) option"
where
  "read_val 0 s = None"
| "read_val (Suc f) s =
     (case skip_ws s of
        [] \<Rightarrow> None
      | c # r \<Rightarrow>
          if c = CHR 0x22 then map_option (\<lambda>(w, q). (JStr w, q)) (read_chars r)
          else if c = CHR ''['' then
            (if skip_ws r \<noteq> [] \<and> hd (skip_ws r) = CHR '']'' then Some (JArr [], tl (skip_ws r))
             else map_option (\<lambda>(vs, q). (JArr vs, q)) (read_elems f r))
          else if c = CHR ''{'' then
            (if skip_ws r \<noteq> [] \<and> hd (skip_ws r) = CHR ''}'' then Some (JObj [], tl (skip_ws r))
             else map_option (\<lambda>(kvs, q). (JObj (js_spread [] kvs), q)) (read_members f r))
          else if c = CHR ''n'' then (if take 3 r = ''ull'' then Some (JNull, drop 3 r) else None)
          else if c = CHR ''t'' then (if take 3 r = ''rue'' then Some (JBool True, drop 3 r) else None)
          else if c = CHR ''f'' then (if take 4 r = ''alse'' then Some (JBool False, drop 4 r) else None)
          else map_option (\<lambda>(i, q). (JNum i, q)) (read_num (c # r)))"
| "read_elems 0 s = None"
| "read_elems (Suc f) s =
     (case read_val f s of
        None \<Rightarrow> None
      | Some (v, r) \<Rightarrow>
          (case skip_ws r of
             [] \<Rightarrow> None
           | c # q \<Rightarrow>
               if c = CHR '','' then map_option (\<lambda>(vs, z). (v # vs, z)) (read_elems f q)
               else if c = CHR '']'' then Some ([v], q) else None))"
| "read_members 0 s = None"
| "read_members (Suc f) s =
     (case skip_ws s of
        [] \<Rightarrow> None
      | c # r \<Rightarrow>
          if c \<noteq> CHR 0x22 then None
          else case read_chars r of
                 None \<Rightarrow> None
               | Some (k, r1) \<Rightarrow>
                   (case skip_ws r1 of
                      [] \<Rightarrow> None
                    | c1 # r2 \<Rightarrow>
                        if c1 \<noteq> CHR '':'' then None
                        else case read_val f r2 of
                               None \<Rightarrow> None
                             | Some (v, r3) \<Rightarrow>
                                 (case skip_ws r3 of
                                    [] \<Rightarrow> None
                                  | c2 # q \<Rightarrow>
                                      if c2 = CHR '','' then
                                        map_option (\<lambda>(kvs, z). ((k, v) # kvs, z)) (read_members f q)
                                      else if c2 = CHR ''}'' then Some ([(k, v)], q) else None)))"

definition json_parse :: "string \<Rightarrow> jsval option" where
  "json_parse s =
     (case read_val (2 * length s + 2) s of
        Some (v, r) \<Rightarrow> if skip_ws r = [] then Some v else None
      | None \<Rightarrow> None)"

text \<open>Plain JSON: no \<open>undefined\<close>, no \<open>BigInt\<close>, no duplicate key.\<close>

fun plain_json :: "jsval \<Rightarrow> bool" where
  "plain_json JUndefined = False"
| "plain_json (JBigInt i) = False"
| "plain_json (JArr vs) = list_all plain_json vs"
| "plain_json (JObj kvs) = (distinct (map fst kvs) \<and> list_all (\<lambda>(k, v). plain_json v) kvs)"
| "plain_json _ = True"

section \<open>The round trip\<close>

lemma is_digit_char: "n < (10 :: nat) \<Longrightarrow> is_digit (char_of (48 + n))"
  by (simp add: is_digit_def)

lemma show_nat_digits: "c \<in> set (show_nat n) \<Longrightarrow> is_digit c"
proof (induction n arbitrary: c rule: show_nat.induct)
  case (1 n)
  then show ?case
    by (cases "n < 10") (auto simp: show_nat.simps [of n] is_digit_char)
qed

lemma show_nat_nonempty [simp]: "show_nat n \<noteq> []"
  by (subst show_nat.simps) simp

lemma show_int_nonempty [simp]: "show_int i \<noteq> []"
  by (simp add: show_int_def)

lemma nat_of_digits_snoc: "nat_of_digits (s @ [c]) = 10 * nat_of_digits s + (of_char c - 48)"
  by (simp add: nat_of_digits_def)

lemma nat_of_show_nat: "nat_of_digits (show_nat n) = n"
proof (induction n rule: show_nat.induct)
  case (1 n)
  show ?case
  proof (cases "n < 10")
    case True
    then show ?thesis by (simp add: show_nat.simps [of n] nat_of_digits_def)
  next
    case False
    then have "nat_of_digits (show_nat (n div 10)) = n div 10" by (rule 1)
    then show ?thesis using False
      by (simp add: show_nat.simps [of n] nat_of_digits_snoc of_char_of)
  qed
qed

lemma show_nat_leading: "hd (show_nat n) = CHR ''0'' \<Longrightarrow> n = 0"
proof (induction n rule: show_nat.induct)
  case (1 n)
  show ?case
  proof (cases "n < 10")
    case True
    then have "char_of (48 + n) = CHR ''0''" using 1 by (simp add: show_nat.simps [of n])
    then have "(of_char (char_of (48 + n) :: char) :: nat) = of_char (CHR ''0'')" by (simp only:)
    then show ?thesis using True by simp
  next
    case False
    then have "hd (show_nat (n div 10)) = CHR ''0''"
      using "1.prems" by (simp add: show_nat.simps [of n])
    then have "n div 10 = 0" using "1.IH" False by simp
    with False show ?thesis by simp
  qed
qed

lemma show_nat_zero: "show_nat 0 = ''0''"
  by code_simp

text \<open>What may follow a number in the text of a value.\<close>

definition ends_number :: "string \<Rightarrow> bool" where
  "ends_number r \<longleftrightarrow> r = [] \<or> hd r \<in> {CHR '','', CHR '']'', CHR ''}''}"

lemma ends_number_digit: "ends_number r \<Longrightarrow> r \<noteq> [] \<Longrightarrow> \<not> is_digit (hd r)"
  by (auto simp: ends_number_def is_digit_def)

lemma span_digits:
  assumes "\<And>c. c \<in> set ds \<Longrightarrow> is_digit c" "ends_number r"
  shows "takeWhile is_digit (ds @ r) = ds" "dropWhile is_digit (ds @ r) = r"
proof -
  have r: "takeWhile is_digit r = []" "dropWhile is_digit r = r"
    using ends_number_digit [OF assms(2)] by (cases r; simp)+
  show "takeWhile is_digit (ds @ r) = ds" "dropWhile is_digit (ds @ r) = r"
    using assms(1) r by simp_all
qed

lemma read_nat_show: "ends_number r \<Longrightarrow> read_nat (show_nat n @ r) = Some (n, r)"
  using span_digits [of "show_nat n" r] show_nat_digits [of _ n] show_nat_leading [of n]
  by (auto simp: read_nat_def Let_def nat_of_show_nat ends_number_def show_nat_zero)

lemma hd_show_nat: "is_digit (hd (show_nat n @ r))"
  using show_nat_digits [of "hd (show_nat n)" n] by simp

lemma read_num_show: "ends_number r \<Longrightarrow> read_num (show_int i @ r) = Some (i, r)"
proof (cases "i < 0")
  case True
  then show "ends_number r \<Longrightarrow> ?thesis" by (simp add: read_num_def show_int_def read_nat_show)
next
  case False
  assume r: "ends_number r"
  obtain c cs where c: "show_nat (nat i) @ r = c # cs" by (cases "show_nat (nat i) @ r") auto
  have "is_digit c" using hd_show_nat [of "nat i" r] c by simp
  then have "c \<noteq> CHR ''-''" by (auto simp: is_digit_def)
  then show ?thesis using False c read_nat_show [OF r, of "nat i"]
    by (simp add: read_num_def show_int_def)
qed

lemma hex_digit_val: "n < 16 \<Longrightarrow> hex_val (hex_digit n) = Some n"
  by (auto simp: hex_val_def hex_digit_def Let_def)

lemma read_char_u00:
  assumes "of_char c < (32 :: nat)"
  shows "read_u00 [CHR ''0'', CHR ''0'', hex_digit (of_char c div 16), hex_digit (of_char c mod 16)] = Some c"
  using assms by (simp add: read_u00_def hex_digit_val less_mult_imp_div_less) (simp add: hex_val_def)

lemma read_chars_step: "read_chars (json_char c @ s) = map_option (\<lambda>(w, q). (c # w, q)) (read_chars s)"
proof (cases "of_char c < (32 :: nat)")
  case True
  then show ?thesis
    using read_char_u00 [OF True] by (auto simp: json_char_def unescape_def)
next
  case False
  then show ?thesis by (auto simp: json_char_def unescape_def)
qed

lemma read_chars_quote: "read_chars (concat (map json_char s) @ CHR 0x22 # r) = Some (s, r)"
  by (induction s) (simp_all add: read_chars_step)

text \<open>The fuel one value needs, and that its text is long enough to provide it.\<close>

fun json_need :: "jsval \<Rightarrow> nat" where
  "json_need (JArr vs) = Suc (sum_list (map (\<lambda>v. Suc (json_need v)) vs))"
| "json_need (JObj kvs) = Suc (sum_list (map (\<lambda>(k, v). Suc (json_need v)) kvs))"
| "json_need _ = 1"

lemma length_js_join: "ws \<noteq> [] \<Longrightarrow> length (js_join [c] ws) + 1 = sum_list (map (\<lambda>w. Suc (length w)) ws)"
proof (induction ws)
  case Nil
  then show ?case by simp
next
  case (Cons w ws)
  then show ?case by (cases "ws = []") (simp_all add: js_join_Cons)
qed

lemma json_text_head:
  "plain_json v \<Longrightarrow> json_text v \<noteq> [] \<and>
    hd (json_text v) \<notin> {CHR 0x09, CHR 0x0A, CHR 0x0D, CHR 0x20, CHR '']'', CHR ''}'', CHR '','', CHR '':''}"
proof (cases v)
  case (JNum i)
  obtain c cs where c: "show_nat (nat i) = c # cs" by (cases "show_nat (nat i)") auto
  have "is_digit c" using show_nat_digits [of c "nat i"] c by simp
  then show ?thesis using JNum c by (auto simp: show_int_def is_digit_def)
qed (auto simp: json_quote_def)

lemma skip_ws_head: "s \<noteq> [] \<Longrightarrow> hd s \<notin> {CHR 0x09, CHR 0x0A, CHR 0x0D, CHR 0x20} \<Longrightarrow> skip_ws s = s"
  by (cases s) (auto simp: skip_ws_def)

lemma skip_ws_text: "plain_json v \<Longrightarrow> skip_ws (json_text v @ r) = json_text v @ r"
  using json_text_head [of v] by (intro skip_ws_head) auto

lemma plain_filter: "list_all (\<lambda>(k, v). plain_json v) kvs \<Longrightarrow> filter (\<lambda>(k, v). v \<noteq> JUndefined) kvs = kvs"
  by (induction kvs) auto

lemma json_need_text: "plain_json v \<Longrightarrow> json_need v \<le> 2 * length (json_text v)"
proof (induction v rule: plain_json.induct)
  case (3 vs)
  let ?len = "\<lambda>v. length (json_text v)"
  have "sum_list (map (\<lambda>v. Suc (json_need v)) vs) \<le> sum_list (map (\<lambda>v. 2 * Suc (?len v)) vs)"
    using 3 by (intro sum_list_mono) (fastforce simp: list_all_iff)
  also have "\<dots> = 2 * sum_list (map (\<lambda>v. Suc (?len v)) vs)" by (rule sum_list_const_mult)
  finally have le: "sum_list (map (\<lambda>v. Suc (json_need v)) vs) \<le> 2 * sum_list (map (\<lambda>v. Suc (?len v)) vs)" .
  show ?case
  proof (cases "vs = []")
    case False
    then show ?thesis using le length_js_join [of "map json_text vs" "CHR '',''"]
      by (simp add: comp_def)
  qed simp
next
  case (4 kvs)
  let ?len = "\<lambda>(k, v). length (json_quote k @ CHR '':'' # json_text v)"
  have "sum_list (map (\<lambda>(k, v). Suc (json_need v)) kvs) \<le> sum_list (map (\<lambda>p. 2 * Suc (?len p)) kvs)"
    using 4 by (intro sum_list_mono) (fastforce simp: list_all_iff)
  also have "\<dots> = 2 * sum_list (map (\<lambda>p. Suc (?len p)) kvs)" by (rule sum_list_const_mult)
  finally have le: "sum_list (map (\<lambda>(k, v). Suc (json_need v)) kvs) \<le> 2 * sum_list (map (\<lambda>p. Suc (?len p)) kvs)" .
  show ?case
  proof (cases "kvs = []")
    case False
    have "filter (\<lambda>(k, v). v \<noteq> JUndefined) kvs = kvs" using 4 by (simp add: plain_filter)
    then show ?thesis
      using False le length_js_join [of "map (\<lambda>(k, v). json_quote k @ CHR '':'' # json_text v) kvs" "CHR '',''"]
      by (simp add: comp_def case_prod_beta')
  qed simp
qed (auto simp: json_quote_def Suc_le_eq)

text \<open>A value is read back when the fuel covers its need and a delimiter or the end follows.\<close>

definition reads_back :: "jsval \<Rightarrow> bool" where
  "reads_back v \<longleftrightarrow>
     (\<forall>f r. json_need v \<le> f \<longrightarrow> ends_number r \<longrightarrow> read_val f (json_text v @ r) = Some (v, r))"

lemma reads_backD:
  "reads_back v \<Longrightarrow> json_need v \<le> f \<Longrightarrow> ends_number r \<Longrightarrow> read_val f (json_text v @ r) = Some (v, r)"
  by (simp add: reads_back_def)

lemma ends_number_delims [simp]:
  "ends_number (CHR '','' # r)" "ends_number (CHR '']'' # r)" "ends_number (CHR ''}'' # r)" "ends_number []"
  by (simp_all add: ends_number_def)

lemma skip_ws_delims [simp]:
  "skip_ws (CHR '','' # r) = CHR '','' # r" "skip_ws (CHR '']'' # r) = CHR '']'' # r"
  "skip_ws (CHR ''}'' # r) = CHR ''}'' # r" "skip_ws (CHR '':'' # r) = CHR '':'' # r"
  "skip_ws (CHR 0x22 # r) = CHR 0x22 # r" "skip_ws (CHR ''['' # r) = CHR ''['' # r"
  "skip_ws (CHR ''{'' # r) = CHR ''{'' # r" "skip_ws [] = []"
  by (simp_all add: skip_ws_def)

lemma read_elems_back:
  assumes "vs \<noteq> []" "\<And>v. v \<in> set vs \<Longrightarrow> reads_back v" "sum_list (map (\<lambda>v. Suc (json_need v)) vs) \<le> f"
  shows "read_elems f (js_join '','' (map json_text vs) @ CHR '']'' # r) = Some (vs, r)"
  using assms
proof (induction vs arbitrary: f)
  case Nil
  then show ?case by simp
next
  case (Cons v vs)
  from Cons.prems(3) obtain g where f: "f = Suc g" by (cases f) auto
  have v: "read_val g (json_text v @ q) = Some (v, q)" if "ends_number q" for q
    using reads_backD [of v g q] Cons.prems that f by simp
  show ?case
  proof (cases "vs = []")
    case True
    then show ?thesis using v f by simp
  next
    case False
    then show ?thesis using v f Cons.IH [of g] Cons.prems by (simp add: js_join_Cons)
  qed
qed

lemma read_members_back:
  assumes "kvs \<noteq> []" "\<And>k v. (k, v) \<in> set kvs \<Longrightarrow> reads_back v"
    "sum_list (map (\<lambda>(k, v). Suc (json_need v)) kvs) \<le> f"
  shows "read_members f (js_join '','' (map (\<lambda>(k, v). json_quote k @ CHR '':'' # json_text v) kvs)
      @ CHR ''}'' # r) = Some (kvs, r)"
  using assms
proof (induction kvs arbitrary: f)
  case Nil
  then show ?case by simp
next
  case (Cons p kvs)
  obtain k v where p: "p = (k, v)" by fastforce
  from Cons.prems(3) p obtain g where f: "f = Suc g" by (cases f) auto
  have "reads_back v" using Cons.prems(2) [of k v] p by simp
  then have v: "read_val g (json_text v @ q) = Some (v, q)" if "ends_number q" for q
    using reads_backD [of v g q] Cons.prems(3) that f p by simp
  have IH: "kvs \<noteq> [] \<Longrightarrow> read_members g (js_join '','' (map (\<lambda>(k, v). json_quote k @ CHR '':'' # json_text v) kvs)
      @ CHR ''}'' # r) = Some (kvs, r)"
    using Cons.prems(2,3) f p by (intro Cons.IH) (simp, blast intro: list.set_intros(2), simp)
  show ?case
    using v f p IH
    by (cases "kvs = []") (simp_all add: js_join_Cons json_quote_def read_chars_quote)
qed

lemma js_spread_id: "distinct (map fst kvs) \<Longrightarrow> js_spread [] kvs = kvs"
proof -
  have "distinct (map fst (acc @ kvs)) \<Longrightarrow> fold (\<lambda>(k, v) m. AList.update k v m) kvs acc = acc @ kvs" for acc
  proof (induction kvs arbitrary: acc)
    case Nil
    then show ?case by simp
  next
    case (Cons p kvs)
    obtain k v where p: "p = (k, v)" by fastforce
    have "k \<notin> fst ` set acc" using Cons.prems p by auto
    then have "AList.update k v acc = acc @ [(k, v)]" by (induction acc) auto
    then show ?case using Cons p by simp
  qed
  then show "distinct (map fst kvs) \<Longrightarrow> js_spread [] kvs = kvs" by (simp add: js_spread_def)
qed

lemma read_val_scalar:
  assumes "plain_json v" "ends_number r" "\<And>vs. v \<noteq> JArr vs" "\<And>kvs. v \<noteq> JObj kvs"
  shows "read_val (Suc f) (json_text v @ r) = Some (v, r)"
proof (cases v)
  case (JNum i)
  obtain c cs where c: "json_text v @ r = c # cs" by (cases "json_text v @ r") (use JNum in auto)
  have "is_digit c" if "\<not> i < 0"
    using hd_show_nat [of "nat i" r] c JNum that by (simp add: show_int_def del: hd_append2)
  then have "c = CHR ''-'' \<or> is_digit c" using c JNum by (cases "i < 0") (auto simp: show_int_def)
  then have "c \<notin> {CHR 0x22, CHR ''['', CHR ''{'', CHR ''n'', CHR ''t'', CHR ''f''}"
    by (auto simp: is_digit_def)
  then show ?thesis
    using skip_ws_text [OF assms(1), of r] c read_num_show [OF assms(2), of i] JNum by simp
qed (use assms skip_ws_text [OF assms(1), of r] in
    \<open>auto simp: json_quote_def read_chars_quote skip_ws_def split: if_splits\<close>)

lemma plain_reads_back: "plain_json v \<Longrightarrow> reads_back v"
proof (induction v rule: plain_json.induct)
  case (3 vs)
  have IH: "reads_back v" if "v \<in> set vs" for v using 3 that by (auto simp: list_all_iff)
  show ?case
    unfolding reads_back_def
  proof (intro allI impI)
    fix f r assume need: "json_need (JArr vs) \<le> f" and r: "ends_number r"
    then obtain g where f: "f = Suc g" by (cases f) auto
    show "read_val f (json_text (JArr vs) @ r) = Some (JArr vs, r)"
    proof (cases vs)
      case Nil
      then show ?thesis by (simp add: f)
    next
      case (Cons v ws)
      have hd: "json_text v \<noteq> []" "hd (json_text v) \<noteq> CHR '']''"
        "skip_ws (js_join '','' (map json_text vs) @ CHR '']'' # r) = js_join '','' (map json_text vs) @ CHR '']'' # r"
        using json_text_head [of v] 3 Cons skip_ws_text [of v]
        by (auto simp: list_all_iff, cases "ws = []", auto simp: js_join_Cons)
      have "read_elems g (js_join '','' (map json_text vs) @ CHR '']'' # r) = Some (vs, r)"
        using IH need f Cons by (intro read_elems_back) auto
      then show ?thesis using hd Cons f by (cases "ws = []") (auto simp: js_join_Cons)
    qed
  qed
next
  case (4 kvs)
  have IH: "reads_back v" if "(k, v) \<in> set kvs" for k v using 4 that by (fastforce simp: list_all_iff)
  have filt: "filter (\<lambda>(k, v). v \<noteq> JUndefined) kvs = kvs" using 4 by (simp add: plain_filter)
  show ?case
    unfolding reads_back_def
  proof (intro allI impI)
    fix f r assume need: "json_need (JObj kvs) \<le> f" and r: "ends_number r"
    then obtain g where f: "f = Suc g" by (cases f) auto
    show "read_val f (json_text (JObj kvs) @ r) = Some (JObj kvs, r)"
    proof (cases kvs)
      case Nil
      then show ?thesis by (simp add: f)
    next
      case (Cons p ws)
      have "read_members g (js_join '','' (map (\<lambda>(k, v). json_quote k @ CHR '':'' # json_text v) kvs)
          @ CHR ''}'' # r) = Some (kvs, r)"
        using IH need f Cons by (intro read_members_back) auto
      moreover have "js_spread [] kvs = kvs" using 4 by (simp add: js_spread_id)
      ultimately show ?thesis using Cons f filt
        by (cases p; cases "ws = []") (auto simp: js_join_Cons json_quote_def)
    qed
  qed
qed (auto simp only: reads_back_def Suc_le_eq gr0_conv_Suc json_need.simps One_nat_def plain_json.simps
    jsval.distinct simp_thms intro!: read_val_scalar)

lemma json_roundtrip: "plain_json v \<Longrightarrow> json_parse (json_text v) = Some v"
  using reads_backD [OF plain_reads_back, of v "2 * length (json_text v) + 2" "[]"] json_need_text [of v]
  by (simp add: json_parse_def)

lemma json_text_inject:
  "plain_json v \<Longrightarrow> plain_json w \<Longrightarrow> json_text v = json_text w \<longleftrightarrow> v = w"
  by (metis json_roundtrip option.inject)

lemma plain_no_bigint: "plain_json v \<Longrightarrow> \<not> has_bigint v"
  by (induction v rule: plain_json.induct) (auto simp: list_all_iff list_ex_iff)

lemma plain_stringify: "plain_json v \<Longrightarrow> json_stringify v = JsonText (json_text v)"
  using plain_no_bigint [of v] by (cases v) (simp_all add: json_stringify_def)

text \<open>
  The interface the stores use: a codec whose texts read back. Two values with the same text
  are the same value, so comparing texts compares values.
\<close>

locale text_codec =
  fixes enc :: "'v \<Rightarrow> string" and dec :: "string \<Rightarrow> 'v option" and fit :: "'v \<Rightarrow> bool"
  assumes dec_enc: "fit v \<Longrightarrow> dec (enc v) = Some v"
begin

lemma enc_inject: "fit v \<Longrightarrow> fit w \<Longrightarrow> enc v = enc w \<longleftrightarrow> v = w"
  by (metis dec_enc option.inject)

lemma dec_map: "\<forall>v \<in> set vs. fit v \<Longrightarrow> map (dec \<circ> enc) vs = map Some vs"
  by (simp add: dec_enc)

end

interpretation json: text_codec json_text json_parse plain_json
  by unfold_locales (rule json_roundtrip)

end
