(* ===== verification/Command_History.thy ===== *)
theory Command_History
  imports Complex_Main Command_Lifecycle Js_Json
begin

text \<open>
  The durable command history (src/automations/command-history-store.ts): the two SQLite
  tables \<open>command_records\<close> and \<open>command_transitions\<close>, as lists in rowid order, and every
  operation of the store on them. A write that SQLite or \<open>JSON.stringify\<close> refuses throws and
  its transaction leaves the tables as they were (\<open>Inl\<close>). The rows keep what the columns
  hold: a boolean is 0 or 1, the condition and the evidence are JSON text. The fields of a
  record that migration 017 added are grouped in \<open>capability_snapshot\<close>.

  The lemmas show that the timeline of every command is a path of the lifecycle table that
  ends in its current state, that a completed command is never rewritten, what the restart
  reconciliation does, that a created record is read back, and that the listings are scoped,
  bounded and agree with the single lookup.
\<close>

section \<open>Records and rows\<close>

datatype source_kind = SkAutomation | SkRest | SkSystem

datatype failure_reason =
    FkNotFound | FkUnsupported | FkInvalidParams | FkTransport | FkExecution | FkUnauthorized
  | FkInterrupted

record capability_snapshot =
  cs_capabilityCeiling :: "confirmation_tier option"
  cs_ackAvailable :: "bool option"
  cs_observationConfigured :: "bool option"
  cs_observedDeviceId :: "string option"
  cs_conditionSpec :: "jsobj option"
  cs_transportKind :: "string option"
  cs_targetDeviceName :: "string option"
  cs_observedDeviceName :: "string option"

record command_record =
  cr_commandId :: string
  cr_correlationId :: "string option"
  cr_sourceKind :: source_kind
  cr_sourceId :: "string option"
  cr_ruleId :: "string option"
  cr_executionId :: "string option"
  cr_causationId :: "string option"
  cr_targetDeviceId :: string
  cr_actionType :: string
  cr_requestedTier :: "confirmation_tier option"
  cr_effectiveTier :: confirmation_tier
  cr_lifecycleState :: lifecycle_state
  cr_success :: "bool option"
  cr_failureKind :: "failure_reason option"
  cr_error :: "string option"
  cr_requestedAt :: ms
  cr_terminalAt :: "ms option"
  cr_snapshot :: capability_snapshot
  cr_intentLabel :: "string option"
  cr_observedLabel :: "string option"
  cr_triggerKind :: "string option"
  cr_triggerId :: "string option"
  cr_triggerTopic :: "string option"

record snapshot_row =
  sr_capability_ceiling :: "confirmation_tier option"
  sr_ack_available :: "int option"
  sr_observation_configured :: "int option"
  sr_observed_device_id :: "string option"
  sr_condition_spec :: "string option"
  sr_transport_kind :: "string option"
  sr_target_device_name :: "string option"
  sr_observed_device_name :: "string option"

record command_row =
  rw_command_id :: string
  rw_correlation_id :: "string option"
  rw_source_kind :: source_kind
  rw_source_id :: "string option"
  rw_rule_id :: "string option"
  rw_execution_id :: "string option"
  rw_causation_id :: "string option"
  rw_target_device_id :: string
  rw_action_type :: string
  rw_requested_tier :: "confirmation_tier option"
  rw_effective_tier :: confirmation_tier
  rw_lifecycle_state :: lifecycle_state
  rw_success :: "int option"
  rw_failure_kind :: "failure_reason option"
  rw_error :: "string option"
  rw_requested_at :: ms
  rw_terminal_at :: "ms option"
  rw_snapshot :: snapshot_row
  rw_intent_label :: "string option"
  rw_observed_label :: "string option"
  rw_trigger_kind :: "string option"
  rw_trigger_id :: "string option"
  rw_trigger_topic :: "string option"

record transition_row =
  tr_id :: nat
  tr_command_id :: string
  tr_from_state :: "lifecycle_state option"
  tr_to_state :: lifecycle_state
  tr_timestamp :: ms
  tr_details :: "string option"

record command_transition =
  ct_id :: nat
  ct_commandId :: string
  ct_fromState :: "lifecycle_state option"
  ct_toState :: lifecycle_state
  ct_timestamp :: ms
  ct_details :: "jsval option"

record lifecycle_event =
  le_commandId :: string
  le_correlationId :: "string option"
  le_targetDeviceId :: string
  le_sourceKind :: source_kind
  le_ruleId :: "string option"
  le_executionId :: "string option"
  le_fromState :: "lifecycle_state option"
  le_state :: lifecycle_state
  le_timestamp :: ms
  le_terminal :: bool
  le_success :: "bool option"
  le_actionType :: string
  le_effectiveTier :: confirmation_tier
  le_failureKind :: "failure_reason option"
  le_error :: "string option"

record transition_input =
  ti_commandId :: string
  ti_toState :: lifecycle_state
  ti_timestamp :: ms
  ti_success :: "bool option"
  ti_failureKind :: "failure_reason option"
  ti_error :: "string option"
  ti_terminal :: bool
  ti_details :: "command_evidence option"

record command_db =
  db_records :: "command_row list"
  db_transitions :: "transition_row list"
  db_nextId :: nat
  db_emitted :: "lifecycle_event list"

definition command_db_init :: command_db where
  "command_db_init = \<lparr>db_records = [], db_transitions = [], db_nextId = 1, db_emitted = []\<rparr>"

section \<open>Columns\<close>

definition sql_bool :: "bool option \<Rightarrow> int option" where
  "sql_bool b = map_option (\<lambda>x. if x then 1 else 0) b"

definition js_truthy :: "string option \<Rightarrow> string option" where
  "js_truthy x = (if x = Some '''' then None else x)"

fun tier_text :: "confirmation_tier \<Rightarrow> string" where
  "tier_text TDispatch = ''dispatch''"
| "tier_text TAcknowledged = ''acknowledged''"
| "tier_text TObserved = ''observed''"

text \<open>The evidence object: the fields that are set, in the order they were assigned.\<close>

definition evidence_json :: "command_evidence \<Rightarrow> jsval" where
  "evidence_json ev = JObj
     ((case ev_tier ev of Some t \<Rightarrow> [(''tier'', JStr (tier_text t))] | None \<Rightarrow> [])
      @ (case ev_observedDeviceId ev of Some d \<Rightarrow> [(''observedDeviceId'', JStr d)] | None \<Rightarrow> [])
      @ (case ev_condition ev of Some c \<Rightarrow> [(''condition'', JObj c)] | None \<Rightarrow> [])
      @ (case ev_timeoutMs ev of Some n \<Rightarrow> [(''timeoutMs'', JNum n)] | None \<Rightarrow> [])
      @ (case ev_reason ev of Some r \<Rightarrow> [(''reason'', JStr r)] | None \<Rightarrow> []))"

text \<open>\<open>x ? JSON.stringify(x) : null\<close> for an object: a text, NULL, or an exception.\<close>

definition json_column :: "jsval option \<Rightarrow> string + string option" where
  "json_column v =
     (case v of
        None \<Rightarrow> Inr None
      | Some x \<Rightarrow> (case json_stringify x of
                     JsonThrow msg \<Rightarrow> Inl msg
                   | JsonNone \<Rightarrow> Inr None
                   | JsonText t \<Rightarrow> Inr (Some t)))"

definition parseConditionSpec :: "string option \<Rightarrow> jsobj option" where
  "parseConditionSpec json =
     (case json of
        None \<Rightarrow> None
      | Some t \<Rightarrow> (case json_parse t of Some (JObj ob) \<Rightarrow> Some ob | _ \<Rightarrow> None))"

definition safeParse :: "string \<Rightarrow> jsval option" where
  "safeParse t =
     (case json_parse t of
        Some (JObj ob) \<Rightarrow> Some (JObj ob)
      | Some (JArr vs) \<Rightarrow> Some (JArr vs)
      | _ \<Rightarrow> None)"

definition rowToRecord :: "command_row \<Rightarrow> command_record" where
  "rowToRecord row =
     \<lparr>cr_commandId = rw_command_id row, cr_correlationId = rw_correlation_id row,
      cr_sourceKind = rw_source_kind row, cr_sourceId = rw_source_id row, cr_ruleId = rw_rule_id row,
      cr_executionId = rw_execution_id row, cr_causationId = rw_causation_id row,
      cr_targetDeviceId = rw_target_device_id row, cr_actionType = rw_action_type row,
      cr_requestedTier = rw_requested_tier row, cr_effectiveTier = rw_effective_tier row,
      cr_lifecycleState = rw_lifecycle_state row,
      cr_success = map_option (\<lambda>n. n = 1) (rw_success row),
      cr_failureKind = rw_failure_kind row, cr_error = rw_error row,
      cr_requestedAt = rw_requested_at row, cr_terminalAt = rw_terminal_at row,
      cr_snapshot =
        \<lparr>cs_capabilityCeiling = sr_capability_ceiling (rw_snapshot row),
         cs_ackAvailable = map_option (\<lambda>n. n = 1) (sr_ack_available (rw_snapshot row)),
         cs_observationConfigured = map_option (\<lambda>n. n = 1) (sr_observation_configured (rw_snapshot row)),
         cs_observedDeviceId = sr_observed_device_id (rw_snapshot row),
         cs_conditionSpec = parseConditionSpec (sr_condition_spec (rw_snapshot row)),
         cs_transportKind = sr_transport_kind (rw_snapshot row),
         cs_targetDeviceName = sr_target_device_name (rw_snapshot row),
         cs_observedDeviceName = sr_observed_device_name (rw_snapshot row)\<rparr>,
      cr_intentLabel = rw_intent_label row, cr_observedLabel = rw_observed_label row,
      cr_triggerKind = rw_trigger_kind row, cr_triggerId = rw_trigger_id row,
      cr_triggerTopic = rw_trigger_topic row\<rparr>"

definition rowToTransition :: "transition_row \<Rightarrow> command_transition" where
  "rowToTransition row =
     \<lparr>ct_id = tr_id row, ct_commandId = tr_command_id row, ct_fromState = tr_from_state row,
      ct_toState = tr_to_state row, ct_timestamp = tr_timestamp row,
      ct_details = Option.bind (tr_details row) safeParse\<rparr>"

text \<open>The VALUES tuple of the INSERT in \<open>create\<close>, given the condition column.\<close>

definition recordToRow :: "command_record \<Rightarrow> string option \<Rightarrow> command_row" where
  "recordToRow r cond =
     \<lparr>rw_command_id = cr_commandId r, rw_correlation_id = cr_correlationId r,
      rw_source_kind = cr_sourceKind r, rw_source_id = cr_sourceId r, rw_rule_id = cr_ruleId r,
      rw_execution_id = cr_executionId r, rw_causation_id = cr_causationId r,
      rw_target_device_id = cr_targetDeviceId r, rw_action_type = cr_actionType r,
      rw_requested_tier = cr_requestedTier r, rw_effective_tier = cr_effectiveTier r,
      rw_lifecycle_state = cr_lifecycleState r, rw_success = sql_bool (cr_success r),
      rw_failure_kind = cr_failureKind r, rw_error = cr_error r,
      rw_requested_at = cr_requestedAt r, rw_terminal_at = cr_terminalAt r,
      rw_snapshot =
        \<lparr>sr_capability_ceiling = cs_capabilityCeiling (cr_snapshot r),
         sr_ack_available = sql_bool (cs_ackAvailable (cr_snapshot r)),
         sr_observation_configured = sql_bool (cs_observationConfigured (cr_snapshot r)),
         sr_observed_device_id = cs_observedDeviceId (cr_snapshot r),
         sr_condition_spec = cond,
         sr_transport_kind = cs_transportKind (cr_snapshot r),
         sr_target_device_name = cs_targetDeviceName (cr_snapshot r),
         sr_observed_device_name = cs_observedDeviceName (cr_snapshot r)\<rparr>,
      rw_intent_label = cr_intentLabel r, rw_observed_label = cr_observedLabel r,
      rw_trigger_kind = cr_triggerKind r, rw_trigger_id = cr_triggerId r,
      rw_trigger_topic = cr_triggerTopic r\<rparr>"

section \<open>Writes\<close>

definition emitRecorded :: "lifecycle_event \<Rightarrow> command_db \<Rightarrow> command_db" where
  "emitRecorded ev db = db\<lparr>db_emitted := db_emitted db @ [ev]\<rparr>"

definition insert_transition ::
  "string \<Rightarrow> lifecycle_state option \<Rightarrow> lifecycle_state \<Rightarrow> ms \<Rightarrow> string option \<Rightarrow> command_db \<Rightarrow> command_db" where
  "insert_transition cid from to ts details db =
     db\<lparr>db_transitions := db_transitions db @
          [\<lparr>tr_id = db_nextId db, tr_command_id = cid, tr_from_state = from, tr_to_state = to,
            tr_timestamp = ts, tr_details = details\<rparr>],
        db_nextId := Suc (db_nextId db)\<rparr>"

text \<open>
  The constraints of the table: the primary key, and the partial unique index on
  \<open>correlation_id\<close> (migration 013).
\<close>

definition unique_ok :: "command_row \<Rightarrow> command_row list \<Rightarrow> bool" where
  "unique_ok row rows \<longleftrightarrow>
     (\<forall>r \<in> set rows. rw_command_id r \<noteq> rw_command_id row
        \<and> (rw_correlation_id row = None \<or> rw_correlation_id r \<noteq> rw_correlation_id row))"

definition history_create :: "command_record \<Rightarrow> command_evidence option \<Rightarrow> command_db \<Rightarrow> string + command_db" where
  "history_create r evidence db =
     (case json_column (map_option JObj (cs_conditionSpec (cr_snapshot r))) of
        Inl msg \<Rightarrow> Inl msg
      | Inr cond \<Rightarrow>
          if \<not> unique_ok (recordToRow r cond) (db_records db) then Inl ''UNIQUE constraint failed''
          else case json_column (map_option evidence_json evidence) of
                 Inl msg \<Rightarrow> Inl msg
               | Inr details \<Rightarrow>
                   Inr (emitRecorded
                     \<lparr>le_commandId = cr_commandId r, le_correlationId = js_truthy (cr_correlationId r),
                      le_targetDeviceId = cr_targetDeviceId r, le_sourceKind = cr_sourceKind r,
                      le_ruleId = js_truthy (cr_ruleId r), le_executionId = js_truthy (cr_executionId r),
                      le_fromState = None, le_state = cr_lifecycleState r,
                      le_timestamp = cr_requestedAt r, le_terminal = (cr_terminalAt r \<noteq> None),
                      le_success = cr_success r, le_actionType = cr_actionType r,
                      le_effectiveTier = cr_effectiveTier r, le_failureKind = cr_failureKind r,
                      le_error = js_truthy (cr_error r)\<rparr>
                     (insert_transition (cr_commandId r) None (cr_lifecycleState r) (cr_requestedAt r) details
                       (db\<lparr>db_records := db_records db @ [recordToRow r cond]\<rparr>))))"

definition find_row :: "string \<Rightarrow> command_db \<Rightarrow> command_row option" where
  "find_row cid db = find (\<lambda>r. rw_command_id r = cid) (db_records db)"

definition update_row :: "string \<Rightarrow> (command_row \<Rightarrow> command_row) \<Rightarrow> command_db \<Rightarrow> command_db" where
  "update_row cid f db = db\<lparr>db_records := map (\<lambda>r. if rw_command_id r = cid then f r else r) (db_records db)\<rparr>"

definition setCorrelation :: "string \<Rightarrow> string \<Rightarrow> command_db \<Rightarrow> string + command_db" where
  "setCorrelation cid corr db =
     (if \<exists>r \<in> set (db_records db). rw_command_id r = cid
         \<and> (\<exists>q \<in> set (db_records db). rw_command_id q \<noteq> cid \<and> rw_correlation_id q = Some corr)
      then Inl ''UNIQUE constraint failed''
      else Inr (update_row cid (\<lambda>r. r\<lparr>rw_correlation_id := Some corr\<rparr>) db))"

text \<open>The UPDATE of \<open>transition\<close>, with its COALESCE columns.\<close>

definition apply_transition :: "transition_input \<Rightarrow> command_row \<Rightarrow> command_row" where
  "apply_transition input r =
     r\<lparr>rw_lifecycle_state := ti_toState input,
       rw_success := (case sql_bool (ti_success input) of Some n \<Rightarrow> Some n | None \<Rightarrow> rw_success r),
       rw_failure_kind := (case ti_failureKind input of Some k \<Rightarrow> Some k | None \<Rightarrow> rw_failure_kind r),
       rw_error := (case ti_error input of Some e \<Rightarrow> Some e | None \<Rightarrow> rw_error r),
       rw_terminal_at := (if ti_terminal input then Some (ti_timestamp input) else None)\<rparr>"

definition history_transition :: "transition_input \<Rightarrow> command_db \<Rightarrow> string + command_db" where
  "history_transition input db =
     (case find_row (ti_commandId input) db of
        None \<Rightarrow> Inr db
      | Some current \<Rightarrow>
          let from = rw_lifecycle_state current
          in if rw_terminal_at current \<noteq> None then Inr db
             else if from = ti_toState input then Inr db
             else if \<not> canTransition from (ti_toState input) then Inr db
             else case json_column (map_option evidence_json (ti_details input)) of
                    Inl msg \<Rightarrow> Inl msg
                  | Inr details \<Rightarrow>
                      Inr (emitRecorded
                        \<lparr>le_commandId = ti_commandId input, le_correlationId = rw_correlation_id current,
                         le_targetDeviceId = rw_target_device_id current, le_sourceKind = rw_source_kind current,
                         le_ruleId = rw_rule_id current, le_executionId = rw_execution_id current,
                         le_fromState = Some from, le_state = ti_toState input,
                         le_timestamp = ti_timestamp input, le_terminal = ti_terminal input,
                         le_success = ti_success input, le_actionType = rw_action_type current,
                         le_effectiveTier = rw_effective_tier current, le_failureKind = ti_failureKind input,
                         le_error = js_truthy (ti_error input)\<rparr>
                        (update_row (ti_commandId input) (apply_transition input)
                          (insert_transition (ti_commandId input) (Some from) (ti_toState input)
                             (ti_timestamp input) details db))))"

definition interrupted_input :: "string \<Rightarrow> ms \<Rightarrow> transition_input" where
  "interrupted_input cid now =
     \<lparr>ti_commandId = cid, ti_toState = FAILED, ti_timestamp = now, ti_success = Some False,
      ti_failureKind = Some FkInterrupted,
      ti_error = Some ''Process restarted while the command was in flight; live confirmation wait was lost'',
      ti_terminal = True,
      ti_details = Some \<lparr>ev_tier = None, ev_observedDeviceId = None, ev_condition = None, ev_timeoutMs = None,
        ev_reason = Some ''Aeolus restarted while this command was in flight, so its outcome was never observed. No command was replayed.''\<rparr>\<rparr>"

fun reconcile_loop :: "command_row list \<Rightarrow> ms \<Rightarrow> nat \<Rightarrow> command_db \<Rightarrow> string + nat \<times> command_db" where
  "reconcile_loop [] now n db = Inr (n, db)"
| "reconcile_loop (row # rows) now n db =
     (if rw_lifecycle_state row \<noteq> FAILED \<and> \<not> canTransition (rw_lifecycle_state row) FAILED
      then reconcile_loop rows now n db
      else case history_transition (interrupted_input (rw_command_id row) now) db of
             Inl msg \<Rightarrow> Inl msg
           | Inr db' \<Rightarrow> reconcile_loop rows now (Suc n) db')"

definition reconcileInterrupted :: "ms \<Rightarrow> command_db \<Rightarrow> string + nat \<times> command_db" where
  "reconcileInterrupted now db =
     reconcile_loop (filter (\<lambda>r. rw_terminal_at r = None) (db_records db)) now 0 db"

section \<open>Reads\<close>

text \<open>\<open>clampLimit\<close>: an absent, NaN or infinite limit is \<open>None\<close>.\<close>

definition DEFAULT_COMMAND_LIST_LIMIT :: int where "DEFAULT_COMMAND_LIST_LIMIT = 50"
definition MAX_COMMAND_LIST_LIMIT :: int where "MAX_COMMAND_LIST_LIMIT = 200"

definition clampLimit :: "rat option \<Rightarrow> int" where
  "clampLimit limit =
     (case limit of
        None \<Rightarrow> DEFAULT_COMMAND_LIST_LIMIT
      | Some l \<Rightarrow>
          let floored = floor l
          in if floored < 1 then 1
             else if floored > MAX_COMMAND_LIST_LIMIT then MAX_COMMAND_LIST_LIMIT
             else floored)"

type_synonym record_with_transitions = "command_record \<times> command_transition list"

definition history_get :: "string \<Rightarrow> command_db \<Rightarrow> record_with_transitions option" where
  "history_get cid db =
     (case find_row cid db of
        None \<Rightarrow> None
      | Some row \<Rightarrow>
          Some (rowToRecord row,
                map rowToTransition
                  (sort_key tr_id (filter (\<lambda>t. tr_command_id t = cid) (db_transitions db)))))"

definition getForRule :: "string \<Rightarrow> string \<Rightarrow> command_db \<Rightarrow> record_with_transitions option" where
  "getForRule cid rule db =
     (if cid = '''' \<or> rule = '''' then None
      else case history_get cid db of
             None \<Rightarrow> None
           | Some r \<Rightarrow> if cr_ruleId (fst r) \<noteq> Some rule then None else Some r)"

text \<open>The \<open>byCommand\<close> map built from one query over all transitions of a group.\<close>

definition group_transitions :: "transition_row list \<Rightarrow> (string, command_transition list) jsmap" where
  "group_transitions ts =
     fold (\<lambda>t m. case map_of m (tr_command_id t) of
                    Some l \<Rightarrow> AList.update (tr_command_id t) (l @ [rowToTransition t]) m
                  | None \<Rightarrow> AList.update (tr_command_id t) [rowToTransition t] m) ts []"

definition with_transitions :: "command_row list \<Rightarrow> command_db \<Rightarrow> record_with_transitions list" where
  "with_transitions rows db =
     (if rows = [] then []
      else let ids = map rw_command_id rows;
               ts = sort_key tr_id (filter (\<lambda>t. tr_command_id t \<in> set ids) (db_transitions db));
               byCommand = group_transitions ts
           in map (\<lambda>row. (rowToRecord row,
                          case map_of byCommand (rw_command_id row) of Some l \<Rightarrow> l | None \<Rightarrow> [])) rows)"

definition listForExecution :: "string \<Rightarrow> string \<Rightarrow> rat option \<Rightarrow> command_db \<Rightarrow> record_with_transitions list" where
  "listForExecution exec rule limit db =
     (if exec = '''' \<or> rule = '''' then []
      else with_transitions
             (take (nat (clampLimit limit))
               (sort_key rw_requested_at
                 (filter (\<lambda>r. rw_execution_id r = Some exec \<and> rw_rule_id r = Some rule) (db_records db)))) db)"

definition listForRule :: "string \<Rightarrow> rat option \<Rightarrow> command_db \<Rightarrow> record_with_transitions list" where
  "listForRule rule limit db =
     (if rule = '''' then []
      else with_transitions
             (take (nat (clampLimit limit))
               (rev (sort_key rw_requested_at (filter (\<lambda>r. rw_rule_id r = Some rule) (db_records db))))) db)"

record history_filter =
  hf_deviceId :: "string option"
  hf_ruleId :: "string option"
  hf_executionId :: "string option"
  hf_state :: "lifecycle_state option"
  hf_sourceKind :: "source_kind option"
  hf_limit :: "rat option"

definition history_matches :: "history_filter \<Rightarrow> command_row \<Rightarrow> bool" where
  "history_matches f r \<longleftrightarrow>
     (case hf_deviceId f of Some d \<Rightarrow> rw_target_device_id r = d | None \<Rightarrow> True)
     \<and> (case hf_ruleId f of Some d \<Rightarrow> rw_rule_id r = Some d | None \<Rightarrow> True)
     \<and> (case hf_executionId f of Some d \<Rightarrow> rw_execution_id r = Some d | None \<Rightarrow> True)
     \<and> (case hf_state f of Some d \<Rightarrow> rw_lifecycle_state r = d | None \<Rightarrow> True)
     \<and> (case hf_sourceKind f of Some d \<Rightarrow> rw_source_kind r = d | None \<Rightarrow> True)"

definition history_list :: "history_filter \<Rightarrow> command_db \<Rightarrow> command_record list" where
  "history_list f db =
     map rowToRecord
       (take (nat (clampLimit (hf_limit f)))
         (rev (sort_key rw_requested_at (filter (history_matches f) (db_records db)))))"

definition currentState :: "string \<Rightarrow> command_db \<Rightarrow> lifecycle_state option" where
  "currentState cid db = map_option rw_lifecycle_state (find_row cid db)"

definition findByCorrelation :: "string \<Rightarrow> command_db \<Rightarrow> string option" where
  "findByCorrelation corr db =
     map_option rw_command_id (find (\<lambda>r. rw_correlation_id r = Some corr) (db_records db))"

text \<open>
  The writes the program makes, and how it makes them: a record is created in a state that
  is not final and not yet completed, and a final state is written as the completion.
\<close>

datatype history_op =
    HCreate command_record "command_evidence option"
  | HTransition transition_input
  | HSetCorrelation string string
  | HReconcile ms

fun history_step :: "history_op \<Rightarrow> command_db \<Rightarrow> command_db" where
  "history_step (HCreate r ev) db = (case history_create r ev db of Inr db' \<Rightarrow> db' | Inl _ \<Rightarrow> db)"
| "history_step (HTransition i) db = (case history_transition i db of Inr db' \<Rightarrow> db' | Inl _ \<Rightarrow> db)"
| "history_step (HSetCorrelation c x) db = (case setCorrelation c x db of Inr db' \<Rightarrow> db' | Inl _ \<Rightarrow> db)"
| "history_step (HReconcile now) db = (case reconcileInterrupted now db of Inr (n, db') \<Rightarrow> db' | Inl _ \<Rightarrow> db)"

fun history_ok :: "history_op \<Rightarrow> command_db \<Rightarrow> bool" where
  "history_ok (HCreate r ev) db = (\<not> isTerminal (cr_lifecycleState r) \<and> cr_terminalAt r = None)"
| "history_ok (HTransition i) db = (isTerminal (ti_toState i) \<longrightarrow> ti_terminal i)"
| "history_ok _ db = True"

section \<open>The invariant of the tables\<close>

definition timeline :: "string \<Rightarrow> command_db \<Rightarrow> transition_row list" where
  "timeline cid db = filter (\<lambda>t. tr_command_id t = cid) (db_transitions db)"

definition linked :: "transition_row \<Rightarrow> transition_row \<Rightarrow> bool" where
  "linked a b \<longleftrightarrow> tr_from_state b = Some (tr_to_state a) \<and> canTransition (tr_to_state a) (tr_to_state b)"

definition timeline_ok :: "transition_row list \<Rightarrow> lifecycle_state \<Rightarrow> bool" where
  "timeline_ok ts st \<longleftrightarrow>
     ts \<noteq> [] \<and> tr_from_state (hd ts) = None \<and> successively linked ts \<and> tr_to_state (last ts) = st"

definition history_inv :: "command_db \<Rightarrow> bool" where
  "history_inv db \<longleftrightarrow>
     distinct (map rw_command_id (db_records db))
     \<and> sorted_wrt (<) (map tr_id (db_transitions db))
     \<and> (\<forall>t \<in> set (db_transitions db). tr_id t < db_nextId db
           \<and> tr_command_id t \<in> rw_command_id ` set (db_records db))
     \<and> (\<forall>r \<in> set (db_records db). timeline_ok (timeline (rw_command_id r) db) (rw_lifecycle_state r)
           \<and> (rw_terminal_at r = None \<longrightarrow> \<not> isTerminal (rw_lifecycle_state r)))"

lemma find_rowD: "find_row cid db = Some r \<Longrightarrow> r \<in> set (db_records db) \<and> rw_command_id r = cid"
  by (auto simp: find_row_def find_Some_iff)

lemma find_row_None: "find_row cid db = None \<longleftrightarrow> cid \<notin> rw_command_id ` set (db_records db)"
  by (auto simp: find_row_def find_None_iff)

lemma find_row_mem:
  "distinct (map rw_command_id (db_records db)) \<Longrightarrow> r \<in> set (db_records db) \<Longrightarrow>
    find_row (rw_command_id r) db = Some r"
proof -
  assume d: "distinct (map rw_command_id (db_records db))" and r: "r \<in> set (db_records db)"
  then obtain q where q: "find_row (rw_command_id r) db = Some q"
    by (cases "find_row (rw_command_id r) db") (auto simp: find_row_None)
  from find_rowD [OF q] d r have "q = r" by (auto simp: distinct_map inj_on_def)
  with q show ?thesis by simp
qed

lemma db_fields [simp]:
  "db_records (insert_transition c f t ts d db) = db_records db"
  "db_transitions (update_row c g db) = db_transitions db"
  "db_nextId (update_row c g db) = db_nextId db"
  "db_records (emitRecorded e db) = db_records db"
  "db_transitions (emitRecorded e db) = db_transitions db"
  "db_nextId (emitRecorded e db) = db_nextId db"
  by (simp_all add: insert_transition_def update_row_def emitRecorded_def)

lemma history_inv_emit [simp]: "history_inv (emitRecorded e db) = history_inv db"
  by (simp add: history_inv_def timeline_def)

lemma apply_transition_fields [simp]:
  "rw_command_id (apply_transition i r) = rw_command_id r"
  "rw_lifecycle_state (apply_transition i r) = ti_toState i"
  "rw_terminal_at (apply_transition i r) = (if ti_terminal i then Some (ti_timestamp i) else None)"
  by (simp_all add: apply_transition_def)

lemma recordToRow_fields [simp]:
  "rw_command_id (recordToRow r c) = cr_commandId r"
  "rw_lifecycle_state (recordToRow r c) = cr_lifecycleState r"
  "rw_terminal_at (recordToRow r c) = cr_terminalAt r"
  "rw_correlation_id (recordToRow r c) = cr_correlationId r"
  by (simp_all add: recordToRow_def)

lemma history_invI [inv_intros]:
  assumes "distinct (map rw_command_id (db_records db))"
    and "sorted_wrt (<) (map tr_id (db_transitions db))"
    and "\<And>t. t \<in> set (db_transitions db) \<Longrightarrow> tr_id t < db_nextId db"
    and "\<And>t. t \<in> set (db_transitions db) \<Longrightarrow> tr_command_id t \<in> rw_command_id ` set (db_records db)"
    and "\<And>r. r \<in> set (db_records db) \<Longrightarrow>
      timeline_ok (timeline (rw_command_id r) db) (rw_lifecycle_state r)
      \<and> (rw_terminal_at r = None \<longrightarrow> \<not> isTerminal (rw_lifecycle_state r))"
  shows "history_inv db"
  using assms unfolding history_inv_def by blast

lemma history_inv_create:
  assumes inv: "history_inv db" and fresh: "cr_commandId r \<notin> rw_command_id ` set (db_records db)"
    and live: "\<not> isTerminal (cr_lifecycleState r)"
  shows "history_inv (insert_transition (cr_commandId r) None (cr_lifecycleState r) ts d
      (db\<lparr>db_records := db_records db @ [recordToRow r c]\<rparr>))" (is "history_inv ?db")
proof -
  let ?t = "\<lparr>tr_id = db_nextId db, tr_command_id = cr_commandId r, tr_from_state = None,
    tr_to_state = cr_lifecycleState r, tr_timestamp = ts, tr_details = d\<rparr>"
  have none: "timeline (cr_commandId r) db = []"
    using inv fresh unfolding history_inv_def timeline_def filter_empty_conv by metis
  have new: "timeline (cr_commandId r) ?db = [?t]"
    using none by (simp add: timeline_def insert_transition_def)
  have old: "timeline cid ?db = timeline cid db" if "cid \<noteq> cr_commandId r" for cid
    using that by (simp add: timeline_def insert_transition_def)
  have "timeline_ok (timeline (rw_command_id q) ?db) (rw_lifecycle_state q)
      \<and> (rw_terminal_at q = None \<longrightarrow> \<not> isTerminal (rw_lifecycle_state q))" if "q \<in> set (db_records ?db)" for q
  proof (cases "q \<in> set (db_records db)")
    case True
    then have "rw_command_id q \<noteq> cr_commandId r" using fresh by (metis imageI)
    then show ?thesis using True inv old by (simp add: history_inv_def)
  next
    case False
    then show ?thesis using that new live by (auto simp: timeline_ok_def)
  qed
  then show ?thesis
  proof (intro inv_intros)
    show "distinct (map rw_command_id (db_records ?db))" using inv fresh by (simp add: history_inv_def)
    show "sorted_wrt (<) (map tr_id (db_transitions ?db))"
      using inv by (auto simp: history_inv_def insert_transition_def sorted_wrt_append)
    show "tr_id t < db_nextId ?db" if "t \<in> set (db_transitions ?db)" for t
      using inv that by (auto simp: history_inv_def insert_transition_def less_Suc_eq)
    show "tr_command_id t \<in> rw_command_id ` set (db_records ?db)" if "t \<in> set (db_transitions ?db)" for t
      using inv that by (auto simp: history_inv_def insert_transition_def)
  qed
qed

lemma history_inv_transition:
  assumes inv: "history_inv db" and row: "find_row (ti_commandId i) db = Some row"
    and tr: "canTransition (rw_lifecycle_state row) (ti_toState i)"
    and fin: "isTerminal (ti_toState i) \<longrightarrow> ti_terminal i"
  shows "history_inv (update_row (ti_commandId i) (apply_transition i)
      (insert_transition (ti_commandId i) (Some (rw_lifecycle_state row)) (ti_toState i) ts d db))"
    (is "history_inv ?db")
proof -
  let ?cid = "ti_commandId i"
  let ?t = "\<lparr>tr_id = db_nextId db, tr_command_id = ?cid, tr_from_state = Some (rw_lifecycle_state row),
    tr_to_state = ti_toState i, tr_timestamp = ts, tr_details = d\<rparr>"
  have trs [simp]: "db_transitions (insert_transition ?cid (Some (rw_lifecycle_state row)) (ti_toState i) ts d db)
      = db_transitions db @ [?t]" by (simp add: insert_transition_def)
  have rows: "db_records ?db = map (\<lambda>r. if rw_command_id r = ?cid then apply_transition i r else r) (db_records db)"
    by (simp add: update_row_def)
  have ids: "map rw_command_id (db_records ?db) = map rw_command_id (db_records db)"
    by (simp add: rows)
  then have id_set: "rw_command_id ` set (db_records ?db) = rw_command_id ` set (db_records db)"
    by (metis list.set_map)
  note found = find_rowD [OF row]
  have tl_ok: "timeline_ok (timeline ?cid db) (rw_lifecycle_state row)"
    using inv found by (auto simp: history_inv_def)
  have new: "timeline_ok (timeline ?cid ?db) (ti_toState i)"
    using tl_ok tr by (auto simp: timeline_ok_def timeline_def linked_def successively_append_iff)
  have old: "timeline cid ?db = timeline cid db" if "cid \<noteq> ?cid" for cid
    using that by (simp add: timeline_def)
  have "timeline_ok (timeline (rw_command_id q) ?db) (rw_lifecycle_state q)
      \<and> (rw_terminal_at q = None \<longrightarrow> \<not> isTerminal (rw_lifecycle_state q))" if "q \<in> set (db_records ?db)" for q
  proof -
    from that obtain r where r: "r \<in> set (db_records db)"
      "q = (if rw_command_id r = ?cid then apply_transition i r else r)" by (auto simp: rows)
    show ?thesis
    proof (cases "rw_command_id r = ?cid")
      case True
      then show ?thesis using r new fin by auto
    next
      case False
      then show ?thesis using r inv old by (simp add: history_inv_def)
    qed
  qed
  then show ?thesis
  proof (intro inv_intros)
    show "distinct (map rw_command_id (db_records ?db))" using inv ids by (simp add: history_inv_def)
    show "sorted_wrt (<) (map tr_id (db_transitions ?db))"
      using inv by (auto simp: history_inv_def sorted_wrt_append)
    show "tr_id t < db_nextId ?db" if "t \<in> set (db_transitions ?db)" for t
      using inv that by (auto simp: history_inv_def insert_transition_def less_Suc_eq)
    show "tr_command_id t \<in> rw_command_id ` set (db_records ?db)" if "t \<in> set (db_transitions ?db)" for t
      unfolding id_set using inv that imageI [of row _ rw_command_id] found by (auto simp: history_inv_def)
  qed
qed

section \<open>Reachable tables\<close>

lemma history_transition_cases:
  assumes "history_transition i db = Inr db'"
  obtains (same) "db' = db"
  | (moved) row d ev where "find_row (ti_commandId i) db = Some row" "rw_terminal_at row = None"
      "canTransition (rw_lifecycle_state row) (ti_toState i)"
      "db' = emitRecorded ev (update_row (ti_commandId i) (apply_transition i)
         (insert_transition (ti_commandId i) (Some (rw_lifecycle_state row)) (ti_toState i) (ti_timestamp i) d db))"
proof (cases "find_row (ti_commandId i) db")
  case None
  then show ?thesis using assms same by (simp add: history_transition_def)
next
  case (Some row)
  then show ?thesis
    using assms same
    by (auto simp: history_transition_def Let_def split: if_splits sum.splits intro!: moved [OF Some])
qed

lemma history_transition_inv:
  "history_inv db \<Longrightarrow> history_transition i db = Inr db' \<Longrightarrow> (isTerminal (ti_toState i) \<longrightarrow> ti_terminal i) \<Longrightarrow>
    history_inv db'"
  by (erule history_transition_cases) (auto intro: history_inv_transition)

lemma history_create_inv:
  assumes "history_inv db" "history_create r ev db = Inr db'" "\<not> isTerminal (cr_lifecycleState r)"
  shows "history_inv db'"
proof -
  from assms(2) obtain cond d e where u: "unique_ok (recordToRow r cond) (db_records db)"
    and db': "db' = emitRecorded e (insert_transition (cr_commandId r) None (cr_lifecycleState r)
       (cr_requestedAt r) d (db\<lparr>db_records := db_records db @ [recordToRow r cond]\<rparr>))"
    by (auto simp: history_create_def split: sum.splits if_splits)
  from u have "cr_commandId r \<notin> rw_command_id ` set (db_records db)"
    by (auto simp: unique_ok_def)
  then show ?thesis using assms(1,3) by (simp add: db' history_inv_create)
qed

lemma update_row_inv:
  assumes inv: "history_inv db"
    and f: "\<And>r. rw_command_id (f r) = rw_command_id r" "\<And>r. rw_lifecycle_state (f r) = rw_lifecycle_state r"
      "\<And>r. rw_terminal_at (f r) = rw_terminal_at r"
  shows "history_inv (update_row c f db)"
proof -
  have ids: "map rw_command_id (db_records (update_row c f db)) = map rw_command_id (db_records db)"
    by (simp add: update_row_def f)
  then have "rw_command_id ` set (db_records (update_row c f db)) = rw_command_id ` set (db_records db)"
    by (metis list.set_map)
  moreover have "timeline_ok (timeline (rw_command_id q) (update_row c f db)) (rw_lifecycle_state q)
      \<and> (rw_terminal_at q = None \<longrightarrow> \<not> isTerminal (rw_lifecycle_state q))"
    if "q \<in> set (db_records (update_row c f db))" for q
    using that inv by (auto simp: history_inv_def timeline_def update_row_def f)
  ultimately show ?thesis
    using inv ids by (intro inv_intros) (simp_all add: history_inv_def)
qed

lemma interrupted_input_fields [simp]:
  "ti_commandId (interrupted_input c now) = c" "ti_toState (interrupted_input c now) = FAILED"
  "ti_terminal (interrupted_input c now)" "ti_timestamp (interrupted_input c now) = now"
  "ti_success (interrupted_input c now) = Some False"
  "ti_failureKind (interrupted_input c now) = Some FkInterrupted"
  by (simp_all add: interrupted_input_def)

lemma reconcile_loop_inv:
  "history_inv db \<Longrightarrow> reconcile_loop rows now n db = Inr (m, db') \<Longrightarrow> history_inv db'"
proof (induction rows now n db rule: reconcile_loop.induct)
  case (2 row rows now n db)
  have "history_inv d" if "history_transition (interrupted_input (rw_command_id row) now) db = Inr d" for d
    using history_transition_inv [OF 2(3) that] by simp
  with 2 show ?case by (auto split: if_splits sum.splits)
qed simp

interpretation history: invariant_machine history_step history_ok command_db_init history_inv
proof
  show "history_inv command_db_init" by (simp add: history_inv_def command_db_init_def)
  show "history_inv (history_step a db)" if "history_inv db" "history_ok a db" for a db
    using that
    by (cases a) (auto simp: setCorrelation_def reconcileInterrupted_def Let_def
        split: sum.splits option.splits if_splits
        intro: history_create_inv history_transition_inv update_row_inv reconcile_loop_inv)
qed

lemma sorted_transitions:
  assumes "sorted_wrt (<) (map tr_id ts)" shows "sort_key tr_id (filter P ts) = filter P ts"
proof -
  have "sorted (map tr_id ts)" using assms by (simp add: strict_sorted_iff)
  then show ?thesis by (intro sort_key_id_if_sorted sorted_filter)
qed

lemma timeline_sorted: "history_inv db \<Longrightarrow>
    sort_key tr_id (filter (\<lambda>t. tr_command_id t = cid) (db_transitions db)) = timeline cid db"
  by (simp add: history_inv_def timeline_def sorted_transitions)

lemma rowToTransition_fields [simp]:
  "ct_toState (rowToTransition t) = tr_to_state t" "ct_fromState (rowToTransition t) = tr_from_state t"
  "ct_commandId (rowToTransition t) = tr_command_id t" "ct_id (rowToTransition t) = tr_id t"
  by (simp_all add: rowToTransition_def)

lemma rowToRecord_fields [simp]:
  "cr_lifecycleState (rowToRecord r) = rw_lifecycle_state r" "cr_commandId (rowToRecord r) = rw_command_id r"
  "cr_ruleId (rowToRecord r) = rw_rule_id r" "cr_executionId (rowToRecord r) = rw_execution_id r"
  "cr_requestedAt (rowToRecord r) = rw_requested_at r" "cr_terminalAt (rowToRecord r) = rw_terminal_at r"
  by (simp_all add: rowToRecord_def)

text \<open>
  C9. The audit trail tells a story the lifecycle allows: for every command the store can be
  asked about, after any run of writes, the transitions read back start from nothing, each
  leaves the state the previous one entered along an allowed edge, there are at most four,
  and the last one enters the state the record reports.
\<close>

theorem history_timeline_is_lifecycle_path:
  assumes "reach history_step history_ok command_db_init db" and "history_get cid db = Some (r, ts)"
  shows "ts \<noteq> [] \<and> ct_fromState (hd ts) = None \<and> ct_toState (last ts) = cr_lifecycleState r
    \<and> successively (\<lambda>a b. ct_fromState b = Some (ct_toState a) \<and> canTransition (ct_toState a) (ct_toState b)) ts
    \<and> length ts \<le> 4"
proof -
  have inv: "history_inv db" using assms(1) by (rule history.reach_inv)
  obtain row where row: "find_row cid db = Some row" and r: "r = rowToRecord row"
    and ts: "ts = map rowToTransition (timeline cid db)"
    using assms(2) inv by (auto simp: history_get_def timeline_sorted split: option.splits)
  have ok: "timeline_ok (timeline cid db) (rw_lifecycle_state row)"
    using inv find_rowD [OF row] by (auto simp: history_inv_def)
  then have linked: "successively linked (timeline cid db)" by (simp add: timeline_ok_def)
  then have "successively canTransition (map tr_to_state (timeline cid db))"
    by (auto simp: successively_map linked_def elim: successively_mono)
  then have "length ts \<le> 4" using path_short [of "map tr_to_state (timeline cid db)"] by (simp add: ts)
  then show ?thesis
    using ok by (auto simp: timeline_ok_def r ts hd_map last_map successively_map linked_def [abs_def])
qed

definition sample_record :: "string \<Rightarrow> ms \<Rightarrow> command_record" where
  "sample_record cid t =
     \<lparr>cr_commandId = cid, cr_correlationId = None, cr_sourceKind = SkAutomation, cr_sourceId = Some ''r1'',
      cr_ruleId = Some ''r1'', cr_executionId = Some ''e1'', cr_causationId = None, cr_targetDeviceId = ''lamp'',
      cr_actionType = ''turnOn'', cr_requestedTier = None, cr_effectiveTier = TObserved,
      cr_lifecycleState = REQUESTED, cr_success = None, cr_failureKind = None, cr_error = None,
      cr_requestedAt = t, cr_terminalAt = None,
      cr_snapshot = \<lparr>cs_capabilityCeiling = Some TObserved, cs_ackAvailable = Some False,
        cs_observationConfigured = Some True, cs_observedDeviceId = Some ''lamp'',
        cs_conditionSpec = Some [(''power'', JStr ''ON'')], cs_transportKind = Some ''mqtt'',
        cs_targetDeviceName = None, cs_observedDeviceName = None\<rparr>,
      cr_intentLabel = None, cr_observedLabel = None, cr_triggerKind = None, cr_triggerId = None,
      cr_triggerTopic = None\<rparr>"

definition sample_move :: "string \<Rightarrow> lifecycle_state \<Rightarrow> bool \<Rightarrow> ms \<Rightarrow> transition_input" where
  "sample_move cid st fin t =
     \<lparr>ti_commandId = cid, ti_toState = st, ti_timestamp = t, ti_success = (if fin then Some True else None),
      ti_failureKind = None, ti_error = None, ti_terminal = fin, ti_details = None\<rparr>"

definition sample_db :: command_db where
  "sample_db = fold history_step
     [HCreate (sample_record ''a'' 10) None, HTransition (sample_move ''a'' DISPATCHED False 11),
      HTransition (sample_move ''a'' OBSERVED True 12),
      HCreate (sample_record ''b'' 20) None, HTransition (sample_move ''b'' DISPATCHED False 21)] command_db_init"

lemma sample_reach: "reach history_step history_ok command_db_init sample_db"
  unfolding sample_db_def fold_simps
  by (intro reach_step reach_init) (simp_all add: sample_record_def sample_move_def)

theorem history_timeline_is_lifecycle_path_witness:
  "\<exists>r ts. history_get ''a'' sample_db = Some (r, ts)
     \<and> map ct_toState ts = [REQUESTED, DISPATCHED, OBSERVED] \<and> length ts \<le> 4"
proof -
  have ex: "map_option (\<lambda>p. map ct_toState (snd p)) (history_get ''a'' sample_db)
      = Some [REQUESTED, DISPATCHED, OBSERVED]"
    by code_simp
  then obtain r ts where g: "history_get ''a'' sample_db = Some (r, ts)"
    by (cases "history_get ''a'' sample_db") auto
  with ex history_timeline_is_lifecycle_path [OF sample_reach g] show ?thesis by auto
qed

section \<open>Completed commands and the restart reconciliation\<close>

text \<open>The rows after the reconciliation: every in-flight one is failed as interrupted.\<close>

definition interrupt_row :: "ms \<Rightarrow> command_row \<Rightarrow> command_row" where
  "interrupt_row now r =
     (if rw_terminal_at r = None then apply_transition (interrupted_input (rw_command_id r) now) r else r)"

lemma interrupted_details: "\<exists>t. json_column (map_option evidence_json (ti_details (interrupted_input c now))) = Inr (Some t)"
  by (simp add: interrupted_input_def evidence_json_def json_column_def plain_stringify)

lemma history_transition_moves:
  assumes "find_row (ti_commandId i) db = Some row" "rw_terminal_at row = None"
    "canTransition (rw_lifecycle_state row) (ti_toState i)"
    "json_column (map_option evidence_json (ti_details i)) = Inr d"
  shows "\<exists>ev. history_transition i db = Inr (emitRecorded ev (update_row (ti_commandId i) (apply_transition i)
    (insert_transition (ti_commandId i) (Some (rw_lifecycle_state row)) (ti_toState i) (ti_timestamp i) d db)))"
proof -
  have "rw_lifecycle_state row \<noteq> ti_toState i" using assms(3) by (auto simp: canTransition_def)
  then show ?thesis using assms unfolding history_transition_def by (auto simp: Let_def)
qed

lemma reconcile_step:
  assumes inv: "history_inv db" and row: "row \<in> set (db_records db)" and live: "rw_terminal_at row = None"
  obtains db' where "history_transition (interrupted_input (rw_command_id row) now) db = Inr db'"
    "history_inv db'"
    "db_records db' = map (\<lambda>r. if rw_command_id r = rw_command_id row then interrupt_row now r else r) (db_records db)"
proof -
  have f: "find_row (rw_command_id row) db = Some row"
    using inv row by (simp add: history_inv_def find_row_mem)
  have nt: "\<not> isTerminal (rw_lifecycle_state row)" using inv row live by (simp add: history_inv_def)
  then have t: "canTransition (rw_lifecycle_state row) FAILED" by (cases "rw_lifecycle_state row") auto
  obtain d where d: "json_column (map_option evidence_json (ti_details (interrupted_input (rw_command_id row) now))) = Inr d"
    using interrupted_details by blast
  obtain db' where h: "history_transition (interrupted_input (rw_command_id row) now) db = Inr db'"
    and rows: "db_records db' = map (\<lambda>r. if rw_command_id r = rw_command_id row
       then apply_transition (interrupted_input (rw_command_id row) now) r else r) (db_records db)"
    using history_transition_moves [of "interrupted_input (rw_command_id row) now" db row d] f t live d
    by (auto simp: update_row_def)
  have same: "r = row" if "r \<in> set (db_records db)" "rw_command_id r = rw_command_id row" for r
    using that inv row by (auto simp: history_inv_def distinct_map inj_on_def)
  have "db_records db' = map (\<lambda>r. if rw_command_id r = rw_command_id row then interrupt_row now r else r) (db_records db)"
    unfolding rows using live by (auto simp: interrupt_row_def dest: same)
  then show ?thesis using that h history_transition_inv [OF inv h] by simp
qed

lemma interrupt_row_fields [simp]:
  "rw_command_id (interrupt_row now r) = rw_command_id r" "\<exists>t. rw_terminal_at (interrupt_row now r) = Some t"
  "interrupt_row now (interrupt_row now r) = interrupt_row now r"
  by (auto simp: interrupt_row_def)

lemma reconcile_loop_correct:
  assumes "history_inv db" "distinct (map rw_command_id rows)" "set rows \<subseteq> set (db_records db)"
    "\<And>r. r \<in> set rows \<Longrightarrow> rw_terminal_at r = None"
  shows "\<exists>db'. reconcile_loop rows now n db = Inr (n + length rows, db') \<and> history_inv db'
    \<and> db_records db' = map (\<lambda>r. if rw_command_id r \<in> rw_command_id ` set rows then interrupt_row now r else r) (db_records db)"
  using assms
proof (induction rows arbitrary: n db)
  case Nil
  then show ?case by simp
next
  case (Cons row rows)
  obtain db1 where h: "history_transition (interrupted_input (rw_command_id row) now) db = Inr db1"
    and inv1: "history_inv db1"
    and rows1: "db_records db1 =
      map (\<lambda>r. if rw_command_id r = rw_command_id row then interrupt_row now r else r) (db_records db)"
    using reconcile_step [of db row now] Cons.prems by auto
  have sub: "set rows \<subseteq> set (db_records db1)"
  proof
    fix r assume r: "r \<in> set rows"
    then have "rw_command_id r \<noteq> rw_command_id row" using Cons.prems(2) by (metis distinct.simps(2) image_eqI list.set_map list.simps(9))
    then show "r \<in> set (db_records db1)" using r Cons.prems(3) by (force simp: rows1)
  qed
  obtain db' where l: "reconcile_loop rows now (Suc n) db1 = Inr (Suc n + length rows, db')" "history_inv db'"
    and rows': "db_records db' =
      map (\<lambda>r. if rw_command_id r \<in> rw_command_id ` set rows then interrupt_row now r else r) (db_records db1)"
    using Cons.IH [OF inv1 _ sub, of "Suc n"] Cons.prems by auto
  have "\<not> isTerminal (rw_lifecycle_state row)" using Cons.prems by (simp add: history_inv_def)
  then have "canTransition (rw_lifecycle_state row) FAILED" by (cases "rw_lifecycle_state row") auto
  then show ?case using h l by (auto simp: rows' rows1)
qed

lemma history_transition_completed:
  assumes inv: "history_inv db" and row: "row \<in> set (db_records db)" and fin: "rw_terminal_at row \<noteq> None"
    and h: "history_transition i db = Inr db'"
  shows "row \<in> set (db_records db') \<and> timeline (rw_command_id row) db' = timeline (rw_command_id row) db"
  using h
proof (cases rule: history_transition_cases)
  case same
  then show ?thesis using row by simp
next
  case (moved q d ev)
  have "rw_command_id row \<noteq> ti_commandId i"
    using inv row fin moved find_row_mem [of db row] by (auto simp: history_inv_def)
  then show ?thesis
    using row by (force simp: moved(4) update_row_def timeline_def insert_transition_def)
qed

text \<open>
  C23. Restarting is honest: on every reachable pair of tables the reconciliation succeeds, the
  count it returns is the number of commands that were in flight, each of those is now failed
  as interrupted and completed at that time, every command that had completed keeps its row,
  and running it again changes no row and returns 0.
\<close>

theorem reconcileInterrupted_settles_all:
  assumes "reach history_step history_ok command_db_init db"
  shows "\<exists>db'. reconcileInterrupted now db =
        Inr (length (filter (\<lambda>r. rw_terminal_at r = None) (db_records db)), db')
    \<and> (\<forall>r \<in> set (db_records db'). rw_terminal_at r \<noteq> None)
    \<and> map rw_command_id (db_records db') = map rw_command_id (db_records db)
    \<and> (\<forall>r \<in> set (db_records db). rw_terminal_at r \<noteq> None \<longrightarrow> r \<in> set (db_records db'))
    \<and> (\<forall>r \<in> set (db_records db). rw_terminal_at r = None \<longrightarrow>
         (\<exists>r' \<in> set (db_records db'). rw_command_id r' = rw_command_id r \<and> rw_lifecycle_state r' = FAILED
            \<and> rw_failure_kind r' = Some FkInterrupted \<and> rw_success r' = Some 0 \<and> rw_terminal_at r' = Some now))
    \<and> reconcileInterrupted later db' = Inr (0, db')"
proof -
  let ?live = "filter (\<lambda>r. rw_terminal_at r = None) (db_records db)"
  have inv: "history_inv db" using assms by (rule history.reach_inv)
  then have dist: "distinct (map rw_command_id (db_records db))" by (simp add: history_inv_def)
  obtain db' where rec: "reconcile_loop ?live now 0 db = Inr (length ?live, db')"
    and rows': "db_records db' =
      map (\<lambda>r. if rw_command_id r \<in> rw_command_id ` set ?live then interrupt_row now r else r) (db_records db)"
    using reconcile_loop_correct [OF inv distinct_map_filter [OF dist], of "\<lambda>r. rw_terminal_at r = None" now 0]
    unfolding set_filter add_0 by blast
  have "rw_command_id r \<in> rw_command_id ` set ?live \<longleftrightarrow> rw_terminal_at r = None" if "r \<in> set (db_records db)" for r
    using that dist by (auto simp: distinct_map inj_on_def)
  then have rows: "db_records db' = map (interrupt_row now) (db_records db)"
    unfolding rows' by (auto simp: interrupt_row_def)
  have again: "reconcileInterrupted later db' = Inr (0, db')"
    by (simp add: reconcileInterrupted_def rows filter_map o_def)
  have kept: "interrupt_row now r = r" if "rw_terminal_at r \<noteq> None" for r
    using that by (auto simp: interrupt_row_def)
  have hit: "\<exists>r' \<in> set (db_records db'). rw_command_id r' = rw_command_id r \<and> rw_lifecycle_state r' = FAILED
      \<and> rw_failure_kind r' = Some FkInterrupted \<and> rw_success r' = Some 0 \<and> rw_terminal_at r' = Some now"
    if "r \<in> set (db_records db)" "rw_terminal_at r = None" for r
    using that unfolding rows
    by (intro bexI [of _ "interrupt_row now r"]) (auto simp: interrupt_row_def apply_transition_def sql_bool_def)
  have stay: "r \<in> set (db_records db')" if "r \<in> set (db_records db)" "rw_terminal_at r \<noteq> None" for r
    using that kept [of r] unfolding rows by (metis image_eqI list.set_map)
  have "reconcileInterrupted now db = Inr (length ?live, db')" using rec by (simp add: reconcileInterrupted_def)
  moreover have "\<forall>r \<in> set (db_records db'). rw_terminal_at r \<noteq> None" by (simp add: rows)
  moreover have "map rw_command_id (db_records db') = map rw_command_id (db_records db)"
    by (simp add: rows)
  ultimately show ?thesis using hit stay again by blast
qed

theorem reconcileInterrupted_settles_all_witness:
  "\<exists>db'. reconcileInterrupted 50 sample_db = Inr (1, db') \<and> reconcileInterrupted 60 db' = Inr (0, db')"
proof -
  have "length (filter (\<lambda>r. rw_terminal_at r = None) (db_records sample_db)) = 1" by code_simp
  with reconcileInterrupted_settles_all [OF sample_reach, of 50 60] show ?thesis by auto
qed

lemma history_get_inv: "history_inv db \<Longrightarrow>
    history_get cid db = map_option (\<lambda>row. (rowToRecord row, map rowToTransition (timeline cid db))) (find_row cid db)"
  by (simp add: history_get_def timeline_sorted split: option.splits)

lemma find_row_iff: "history_inv db \<Longrightarrow>
    find_row cid db = Some r \<longleftrightarrow> r \<in> set (db_records db) \<and> rw_command_id r = cid"
  by (auto simp: history_inv_def dest: find_rowD find_row_mem)

lemma reconcile_loop_completed:
  assumes "history_inv db" "row \<in> set (db_records db)" "rw_terminal_at row \<noteq> None"
    "reconcile_loop rows now n db = Inr (m, db')"
  shows "row \<in> set (db_records db') \<and> timeline (rw_command_id row) db' = timeline (rw_command_id row) db"
  using assms
proof (induction rows now n db rule: reconcile_loop.induct)
  case (2 q rows now n db)
  show ?case
  proof (cases "rw_lifecycle_state q \<noteq> FAILED \<and> \<not> canTransition (rw_lifecycle_state q) FAILED")
    case True
    then show ?thesis using 2(1) 2(3-) by simp
  next
    case False
    then obtain d where d: "history_transition (interrupted_input (rw_command_id q) now) db = Inr d"
      using 2(6) by (auto split: sum.splits if_splits)
    have "history_inv d" using history_transition_inv [OF 2(3) d] by simp
    moreover note history_transition_completed [OF 2(3-5) d]
    ultimately show ?thesis using 2(2) [OF False d] 2(5,6) False d by simp
  qed
qed simp

lemma create_keeps:
  assumes "history_inv db" "row \<in> set (db_records db)" "history_create r ev db = Inr db'"
  shows "row \<in> set (db_records db') \<and> timeline (rw_command_id row) db' = timeline (rw_command_id row) db"
  using assms by (auto simp: history_create_def unique_ok_def timeline_def insert_transition_def
      split: sum.splits if_splits)

text \<open>
  C22. What has completed is never rewritten: once a record carries its completion time, no
  creation, transition or reconciliation changes what the store returns for it, its fields
  and its whole timeline (only the correlation identifier can still be attached to it).
\<close>

theorem completed_command_immutable:
  assumes "reach history_step history_ok command_db_init db" and "history_get cid db = Some (r, ts)"
    and "cr_terminalAt r \<noteq> None" and "history_ok a db" and "\<forall>x. a \<noteq> HSetCorrelation cid x"
  shows "history_get cid (history_step a db) = Some (r, ts)"
proof -
  have inv: "history_inv db" using assms(1) by (rule history.reach_inv)
  have inv': "history_inv (history_step a db)" using inv assms(4) by (rule history.inv_step)
  obtain row where row: "row \<in> set (db_records db)" and cid: "rw_command_id row = cid"
    and r: "r = rowToRecord row" and ts: "ts = map rowToTransition (timeline cid db)"
    using assms(2) by (auto simp: history_get_inv [OF inv] find_row_iff [OF inv])
  have fin: "rw_terminal_at row \<noteq> None" using assms(3) by (simp add: r)
  have "row \<in> set (db_records (history_step a db)) \<and> timeline cid (history_step a db) = timeline cid db"
  proof (cases a)
    case (HCreate x ev)
    then show ?thesis using create_keeps [OF inv row] row cid by (simp split: sum.splits)
  next
    case (HTransition i)
    then show ?thesis using history_transition_completed [OF inv row fin] row cid by (simp split: sum.splits)
  next
    case (HSetCorrelation c x)
    then have "c \<noteq> cid" using assms(5) by auto
    then show ?thesis using HSetCorrelation row cid
      by (force simp: setCorrelation_def update_row_def timeline_def)
  next
    case (HReconcile now)
    then show ?thesis using reconcile_loop_completed [OF inv row fin] row cid
      by (simp add: reconcileInterrupted_def split: sum.splits prod.splits)
  qed
  then have "find_row cid (history_step a db) = Some row" "timeline cid (history_step a db) = timeline cid db"
    using cid by (simp_all add: find_row_iff [OF inv'])
  then show ?thesis by (simp add: history_get_inv [OF inv'] r ts)
qed

theorem completed_command_immutable_witness:
  "history_get ''a'' (history_step (HReconcile 99) sample_db) = history_get ''a'' sample_db
    \<and> history_get ''a'' sample_db \<noteq> None"
proof -
  have ex: "map_option (\<lambda>p. cr_terminalAt (fst p)) (history_get ''a'' sample_db) = Some (Some 12)"
    by code_simp
  then obtain r ts where g: "history_get ''a'' sample_db = Some (r, ts)" and "cr_terminalAt r = Some 12"
    by (cases "history_get ''a'' sample_db") auto
  then have "history_get ''a'' (history_step (HReconcile 99) sample_db) = Some (r, ts)"
    by (intro completed_command_immutable [OF sample_reach g]) simp_all
  with g show ?thesis by simp
qed

section \<open>Reading back what was written\<close>

lemma json_column_plain: "plain_json v \<Longrightarrow> json_column (Some v) = Inr (Some (json_text v))"
  by (simp add: json_column_def plain_stringify)

lemma sql_bool_back [simp]: "map_option (\<lambda>n. n = 1) (sql_bool b) = b"
  by (cases b) (auto simp: sql_bool_def)

lemma row_roundtrip:
  assumes "\<And>c. cs_conditionSpec (cr_snapshot r) = Some c \<Longrightarrow> plain_json (JObj c)"
    and "json_column (map_option JObj (cs_conditionSpec (cr_snapshot r))) = Inr cond"
  shows "rowToRecord (recordToRow r cond) = r"
proof -
  have "parseConditionSpec cond = cs_conditionSpec (cr_snapshot r)"
  proof (cases "cs_conditionSpec (cr_snapshot r)")
    case None
    then show ?thesis using assms(2) by (simp add: json_column_def parseConditionSpec_def)
  next
    case (Some c)
    then have "plain_json (JObj c)" by (rule assms(1))
    then have "cond = Some (json_text (JObj c))" "json_parse (json_text (JObj c)) = Some (JObj c)"
      using assms(2) Some json_column_plain json_roundtrip by (simp_all del: plain_json.simps json_text.simps)
    then show ?thesis by (simp only: parseConditionSpec_def Some option.case jsval.case)
  qed
  then show ?thesis by (simp add: recordToRow_def rowToRecord_def)
qed

lemma details_roundtrip:
  assumes "\<And>e. ev = Some e \<Longrightarrow> plain_json (evidence_json e)"
  shows "\<exists>d. json_column (map_option evidence_json ev) = Inr d
    \<and> Option.bind d safeParse = map_option evidence_json ev"
proof (cases ev)
  case None
  then show ?thesis by (simp add: json_column_def)
next
  case (Some e)
  then have p: "plain_json (evidence_json e)" by (rule assms)
  obtain kvs where "evidence_json e = JObj kvs" by (simp add: evidence_json_def)
  then have "safeParse (json_text (evidence_json e)) = Some (evidence_json e)"
    using json_roundtrip [OF p] by (simp add: safeParse_def del: json_text.simps)
  then show ?thesis using json_column_plain [OF p] by (simp add: Some)
qed

text \<open>
  What is created is read back: when the identifier and the correlation identifier are
  new and the condition and evidence are JSON values, creating a record succeeds, and the
  lookup then returns every field of it, with a timeline of one entry, its creation, that
  carries the evidence given.
\<close>

lemma history_get_after_create:
  assumes "reach history_step history_ok command_db_init db"
    and "history_get (cr_commandId r) db = None"
    and "\<forall>c. cr_correlationId r = Some c \<longrightarrow> findByCorrelation c db = None"
    and "\<forall>c. cs_conditionSpec (cr_snapshot r) = Some c \<longrightarrow> plain_json (JObj c)"
    and "\<forall>e. ev = Some e \<longrightarrow> plain_json (evidence_json e)"
  shows "\<exists>db' n. history_create r ev db = Inr db'
    \<and> history_get (cr_commandId r) db' = Some (r,
        [\<lparr>ct_id = n, ct_commandId = cr_commandId r, ct_fromState = None, ct_toState = cr_lifecycleState r,
          ct_timestamp = cr_requestedAt r, ct_details = map_option evidence_json ev\<rparr>])"
proof -
  have inv: "history_inv db" using assms(1) by (rule history.reach_inv)
  obtain cond where cnd: "json_column (map_option JObj (cs_conditionSpec (cr_snapshot r))) = Inr cond"
    using assms(4) json_column_plain
    by (cases "cs_conditionSpec (cr_snapshot r)") (auto simp: json_column_def simp del: plain_json.simps)
  have rback: "rowToRecord (recordToRow r cond) = r" using assms(4) by (intro row_roundtrip [OF _ cnd]) blast
  obtain d where d: "json_column (map_option evidence_json ev) = Inr d"
    and dback: "Option.bind d safeParse = map_option evidence_json ev"
    using details_roundtrip assms(5) by blast
  have fresh: "cr_commandId r \<notin> rw_command_id ` set (db_records db)"
    using assms(2) by (simp add: history_get_inv [OF inv] find_row_None)
  have "rw_correlation_id q \<noteq> cr_correlationId r" if "q \<in> set (db_records db)" "cr_correlationId r \<noteq> None" for q
    using assms(3) that by (auto simp: findByCorrelation_def find_None_iff)
  then have u: "unique_ok (recordToRow r cond) (db_records db)"
    using fresh by (auto simp: unique_ok_def image_iff)
  have none: "filter (\<lambda>t. tr_command_id t = cr_commandId r) (db_transitions db) = []"
    using inv fresh unfolding history_inv_def filter_empty_conv by metis
  have found: "find (\<lambda>q. rw_command_id q = cr_commandId r) (db_records db @ [recordToRow r cond])
      = Some (recordToRow r cond)"
    using assms(2) by (simp add: find_append history_get_inv [OF inv] find_row_def)
  show ?thesis
    using found none
    by (auto simp: history_create_def cnd d u history_get_def find_row_def insert_transition_def rback
        rowToTransition_def dback)
qed

section \<open>Listings\<close>

lemma clampLimit_range: "1 \<le> clampLimit l \<and> clampLimit l \<le> 200"
  by (auto simp: clampLimit_def DEFAULT_COMMAND_LIST_LIMIT_def MAX_COMMAND_LIST_LIMIT_def Let_def
      split: option.splits)

lemma group_transitions_fold:
  "map_of (fold (\<lambda>t m. case map_of m (tr_command_id t) of
                    Some l \<Rightarrow> AList.update (tr_command_id t) (l @ [rowToTransition t]) m
                  | None \<Rightarrow> AList.update (tr_command_id t) [rowToTransition t] m) ts m) cid
   = (let new = map rowToTransition (filter (\<lambda>t. tr_command_id t = cid) ts)
      in case map_of m cid of Some l \<Rightarrow> Some (l @ new) | None \<Rightarrow> if new = [] then None else Some new)"
  by (induction ts arbitrary: m) (auto simp: Let_def split: option.splits)

lemma group_transitions_get:
  "(case map_of (group_transitions ts) cid of Some l \<Rightarrow> l | None \<Rightarrow> [])
     = map rowToTransition (filter (\<lambda>t. tr_command_id t = cid) ts)"
  by (simp add: group_transitions_def group_transitions_fold Let_def)

lemma with_transitions_get:
  assumes inv: "history_inv db" and sub: "set rows \<subseteq> set (db_records db)"
  shows "map Some (with_transitions rows db) = map (\<lambda>r. history_get (rw_command_id r) db) rows"
proof -
  have one: "map rowToTransition (filter (\<lambda>t. tr_command_id t = rw_command_id r)
      (sort_key tr_id (filter (\<lambda>t. tr_command_id t \<in> rw_command_id ` set rows) (db_transitions db))))
    = map rowToTransition (timeline (rw_command_id r) db)" if "r \<in> set rows" for r
    using inv that
    by (auto simp: history_inv_def sorted_transitions timeline_def intro!: filter_cong arg_cong [of _ _ "map _"])
  have "find_row (rw_command_id r) db = Some r" if "r \<in> set rows" for r
    using that sub by (auto simp: find_row_iff [OF inv])
  then show ?thesis
    by (auto simp: with_transitions_def Let_def group_transitions_get history_get_inv [OF inv] one)
qed

lemma fst_with_transitions: "map fst (with_transitions rows db) = map rowToRecord rows"
  by (simp add: with_transitions_def Let_def o_def)

lemma with_transitions_scoped:
  assumes inv: "history_inv db" and sub: "set rows \<subseteq> {r \<in> set (db_records db). Q r}"
    and p: "p \<in> set (with_transitions rows db)"
  obtains r where "Q r" "fst p = rowToRecord r" "history_get (cr_commandId (fst p)) db = Some p"
proof -
  have "Some p \<in> Some ` set (with_transitions rows db)" using p by simp
  then have "Some p \<in> set (map (\<lambda>r. history_get (rw_command_id r) db) rows)"
    using with_transitions_get [OF inv, of rows] sub by (metis (no_types, lifting) list.set_map mem_Collect_eq subset_iff)
  then obtain r where r: "r \<in> set rows" "history_get (rw_command_id r) db = Some p"
    by (metis (no_types, lifting) imageE list.set_map)
  then have "find_row (rw_command_id r) db = Some r" using sub by (auto simp: find_row_iff [OF inv])
  then have "fst p = rowToRecord r" using r(2) by (auto simp: history_get_inv [OF inv])
  then show ?thesis using that [of r] r sub by auto
qed

lemma set_take_sorted:
  "set (take n (sort_key f (filter P xs))) \<subseteq> {x \<in> set xs. P x}"
  "set (take n (rev (sort_key f (filter P xs)))) \<subseteq> {x \<in> set xs. P x}"
  by (auto dest: in_set_takeD)

lemma length_with_transitions [simp]: "length (with_transitions rows db) = length rows"
  by (simp add: with_transitions_def Let_def)

lemma sorted_take_key: "sorted (map f (take n (sort_key f xs)))"
  by (simp add: take_map [symmetric] sorted_wrt_take)

lemma sorted_take_rev_key: "sorted (rev (map f (take n (rev (sort_key f xs)))))"
proof -
  have "rev (take n (rev (sort_key f xs))) = drop (length xs - n) (sort_key f xs)" by (simp add: rev_take)
  then show ?thesis by (simp add: rev_map drop_map [symmetric] sorted_wrt_drop)
qed

text \<open>
  A listing is scoped, bounded and faithful: for a rule (or one execution of it) the store
  returns only records of that rule (and execution), each exactly as the single lookup returns
  it with its whole timeline, in the order of the request time (newest first for a rule,
  oldest first for an execution), as many as there are up to the limit, never more than 200.
\<close>

lemma history_listings_agree_with_get:
  assumes "reach history_step history_ok command_db_init db" and "rule \<noteq> ''''" and "exec \<noteq> ''''"
  shows "(\<forall>p \<in> set (listForRule rule limit db).
          cr_ruleId (fst p) = Some rule \<and> history_get (cr_commandId (fst p)) db = Some p)
    \<and> (\<forall>p \<in> set (listForExecution exec rule limit db). cr_ruleId (fst p) = Some rule
          \<and> cr_executionId (fst p) = Some exec \<and> history_get (cr_commandId (fst p)) db = Some p)
    \<and> sorted (rev (map (cr_requestedAt \<circ> fst) (listForRule rule limit db)))
    \<and> sorted (map (cr_requestedAt \<circ> fst) (listForExecution exec rule limit db))
    \<and> length (listForRule rule limit db) =
          min (length (filter (\<lambda>r. rw_rule_id r = Some rule) (db_records db))) (nat (clampLimit limit))
    \<and> clampLimit limit \<le> 200"
proof (intro conjI ballI)
  let ?R = "take (nat (clampLimit limit))
    (rev (sort_key rw_requested_at (filter (\<lambda>r. rw_rule_id r = Some rule) (db_records db))))"
  let ?E = "take (nat (clampLimit limit)) (sort_key rw_requested_at
    (filter (\<lambda>r. rw_execution_id r = Some exec \<and> rw_rule_id r = Some rule) (db_records db)))"
  have inv: "history_inv db" using assms(1) by (rule history.reach_inv)
  have lR: "listForRule rule limit db = with_transitions ?R db" using assms(2) by (simp add: listForRule_def)
  have lE: "listForExecution exec rule limit db = with_transitions ?E db"
    using assms(2,3) by (simp add: listForExecution_def)
  show "cr_ruleId (fst p) = Some rule" "history_get (cr_commandId (fst p)) db = Some p"
    if "p \<in> set (listForRule rule limit db)" for p
    using that unfolding lR by (auto elim!: with_transitions_scoped [OF inv set_take_sorted(2)])
  show "cr_ruleId (fst p) = Some rule" "cr_executionId (fst p) = Some exec"
      "history_get (cr_commandId (fst p)) db = Some p"
    if "p \<in> set (listForExecution exec rule limit db)" for p
    using that unfolding lE by (auto elim!: with_transitions_scoped [OF inv set_take_sorted(1)])
  show "sorted (rev (map (cr_requestedAt \<circ> fst) (listForRule rule limit db)))"
    unfolding lR map_map [symmetric] fst_with_transitions
    using sorted_take_rev_key [of rw_requested_at] by (simp add: o_def)
  show "sorted (map (cr_requestedAt \<circ> fst) (listForExecution exec rule limit db))"
    unfolding lE map_map [symmetric] fst_with_transitions
    using sorted_take_key [of rw_requested_at] by (simp add: o_def)
  show "length (listForRule rule limit db) =
      min (length (filter (\<lambda>r. rw_rule_id r = Some rule) (db_records db))) (nat (clampLimit limit))"
    unfolding lR by simp
  show "clampLimit limit \<le> 200" using clampLimit_range by blast
qed

section \<open>What a client of the store may rely on\<close>

lemma find_map_key:
  "(\<And>r. key (f r) = key r) \<Longrightarrow> find (\<lambda>r. key r = x) (map f rs) = map_option f (find (\<lambda>r. key r = x) rs)"
  by (induction rs) auto

lemma find_row_update:
  assumes "\<And>r. rw_command_id (f r) = rw_command_id r"
  shows "find_row x (update_row c f db) = (if x = c then map_option f (find_row x db) else find_row x db)"
proof -
  have "find_row x (update_row c f db) = map_option (\<lambda>r. if rw_command_id r = c then f r else r) (find_row x db)"
    unfolding find_row_def update_row_def
    by (simp add: find_map_key [where key = rw_command_id] assms)
  then show ?thesis by (cases "find_row x db") (auto dest: find_rowD)
qed

lemma find_row_frames [simp]:
  "find_row x (emitRecorded e db) = find_row x db" "find_row x (insert_transition c f t ts d db) = find_row x db"
  by (simp_all add: find_row_def)

lemma find_row_transition_other:
  "history_transition i db = Inr db' \<Longrightarrow> x \<noteq> ti_commandId i \<Longrightarrow> find_row x db' = find_row x db"
  by (erule history_transition_cases) (simp_all add: find_row_update)

lemma find_row_transition_fixed:
  "history_transition i db = Inr db' \<Longrightarrow> (\<And>row. find_row x db = Some row \<Longrightarrow> rw_terminal_at row \<noteq> None) \<Longrightarrow>
    find_row x db' = find_row x db"
  by (erule history_transition_cases) (auto simp: find_row_update)

lemma find_row_transition_moves:
  assumes "find_row (ti_commandId i) db = Some row" "rw_terminal_at row = None"
    "canTransition (rw_lifecycle_state row) (ti_toState i)"
    "json_column (map_option evidence_json (ti_details i)) = Inr d"
  shows "\<exists>db'. history_transition i db = Inr db' \<and> find_row (ti_commandId i) db' = Some (apply_transition i row)"
  using history_transition_moves [OF assms] assms(1) by (auto simp: find_row_update)

lemma find_row_create:
  assumes "history_create r ev db = Inr db'"
  shows "\<exists>cond. find_row x db' = (if x = cr_commandId r then Some (recordToRow r cond) else find_row x db)"
proof -
  from assms obtain cond d e where u: "unique_ok (recordToRow r cond) (db_records db)"
    and db': "db' = emitRecorded e (insert_transition (cr_commandId r) None (cr_lifecycleState r)
       (cr_requestedAt r) d (db\<lparr>db_records := db_records db @ [recordToRow r cond]\<rparr>))"
    by (auto simp: history_create_def split: sum.splits if_splits)
  have "find_row (cr_commandId r) db = None" using u by (auto simp: find_row_None unique_ok_def)
  then show ?thesis by (auto simp: db' find_row_def find_append split: option.splits)
qed

text \<open>Evidence can be stored unless its condition holds a \<open>BigInt\<close>, which a created record rules out.\<close>

lemma evidence_storable:
  assumes "\<And>e c. ev = Some e \<Longrightarrow> ev_condition e = Some c \<Longrightarrow> \<not> has_bigint (JObj c)"
  shows "\<exists>d. json_column (map_option evidence_json ev) = Inr d"
proof (cases ev)
  case (Some e)
  have "\<not> has_bigint (evidence_json e)"
    using assms [OF Some] by (cases "ev_condition e") (auto simp: evidence_json_def list_ex_iff split: option.splits)
  then show ?thesis using Some by (simp add: json_column_def json_stringify_def evidence_json_def)
qed (simp add: json_column_def)

lemma create_condition:
  "history_create r ev db = Inr db' \<Longrightarrow> cs_conditionSpec (cr_snapshot r) = Some c \<Longrightarrow> \<not> has_bigint (JObj c)"
  by (auto simp: history_create_def json_column_def json_stringify_def split: if_splits)

end
