(* ===== verification/Execution_Gate.thy ===== *)
theory Execution_Gate
  imports Js_Json Command_Lifecycle "HOL-Library.Multiset"
begin

text \<open>
  The concurrency gate of rule executions (src/automations/execution-gate.ts) with the value
  the execution owner builds from an execution (execution-result.ts, execution-types.ts) and
  the per-execution sink of command results (command-result-collector.ts).

  The gate: a cap on active executions, one bounded queue per rule, duplicate suppression for
  discrete requests and keep-latest coalescing for state-driven ones. A thunk is a number that
  names it; starting it is an entry of \<open>g_started\<close>, and its settling is a later call of
  \<open>gate_complete\<close> with its handle. Handles (\<open>randomUUID()\<close>) are successive numbers.
  \<open>Date.now()\<close> is an argument of \<open>gate_submit\<close>. The drain loop runs with the number of
  queued entries as fuel; \<open>drain_settles\<close> shows that this is enough.
\<close>

section \<open>State\<close>

record gate_config =
  maxActive :: int
  maxQueuePerRule :: int

record execution_request =
  rq_ruleId :: string
  rq_deviceId :: string
  rq_topic :: string
  rq_coalesceKey :: "string option"
  rq_execute :: nat

datatype admit_result =
    Admitted nat
  | Queued
  | Coalesced
  | DroppedQueueFull
  | SuppressedDuplicate

record queued_entry =
  qe_request :: execution_request
  qe_dedupKey :: string
  qe_enqueuedAt :: ms

record active_entry =
  ae_ruleId :: string
  ae_dedupKey :: string
  ae_coalesceKey :: "string option"

datatype gate_event = OnDrop string string string | OnSuppress string string string

record gate =
  g_config :: gate_config
  g_active :: "(nat, active_entry) jsmap"
  g_queues :: "(string, queued_entry list) jsmap"
  g_dedup :: "string set"
  g_next :: nat
  g_started :: "nat list"
  g_events :: "gate_event list"

definition gate_init :: "int option \<Rightarrow> int option \<Rightarrow> gate" where
  "gate_init ma mq =
     \<lparr>g_config = \<lparr>maxActive = (case ma of Some n \<Rightarrow> n | None \<Rightarrow> 10),
                  maxQueuePerRule = (case mq of Some n \<Rightarrow> n | None \<Rightarrow> 3)\<rparr>,
      g_active = [], g_queues = [], g_dedup = {}, g_next = 0, g_started = [], g_events = []\<rparr>"

section \<open>Operations\<close>

definition dedup_key :: "execution_request \<Rightarrow> string" where
  "dedup_key r = rq_ruleId r @ '':'' @ rq_deviceId r @ '':'' @ rq_topic r"

text \<open>A coalesce key that is set and not the empty string (the test \<open>if (request.coalesceKey)\<close>).\<close>

definition coalescing :: "execution_request \<Rightarrow> bool" where
  "coalescing r \<longleftrightarrow> rq_coalesceKey r \<noteq> None \<and> rq_coalesceKey r \<noteq> Some ''''"

definition queue_of :: "gate \<Rightarrow> string \<Rightarrow> queued_entry list" where
  "queue_of g rule = (case map_of (g_queues g) rule of Some q \<Rightarrow> q | None \<Rightarrow> [])"

text \<open>Replacing the thunk of the first pending entry with the key, in place.\<close>

fun coalesce_into :: "execution_request \<Rightarrow> queued_entry list \<Rightarrow> queued_entry list option" where
  "coalesce_into r [] = None"
| "coalesce_into r (e # q) =
     (if rq_coalesceKey (qe_request e) = rq_coalesceKey r then Some (e\<lparr>qe_request := r\<rparr> # q)
      else map_option ((#) e) (coalesce_into r q))"

definition gate_admit :: "execution_request \<Rightarrow> string \<Rightarrow> gate \<Rightarrow> gate \<times> admit_result" where
  "gate_admit r key g =
     (g\<lparr>g_active := AList.update (g_next g)
            \<lparr>ae_ruleId = rq_ruleId r, ae_dedupKey = key, ae_coalesceKey = rq_coalesceKey r\<rparr> (g_active g),
        g_dedup := insert key (g_dedup g),
        g_next := Suc (g_next g),
        g_started := g_started g @ [rq_execute r]\<rparr>,
      Admitted (g_next g))"

text \<open>The two places of \<open>submit\<close> that queue or drop.\<close>

definition gate_enqueue :: "execution_request \<Rightarrow> string \<Rightarrow> ms \<Rightarrow> gate \<Rightarrow> gate \<times> admit_result" where
  "gate_enqueue r key now g =
     (let queue = queue_of g (rq_ruleId r)
      in if int (length queue) \<ge> maxQueuePerRule (g_config g)
         then (g\<lparr>g_events := g_events g @ [OnDrop (rq_ruleId r) (rq_deviceId r) (rq_topic r)]\<rparr>, DroppedQueueFull)
         else (g\<lparr>g_dedup := insert key (g_dedup g),
                 g_queues := AList.update (rq_ruleId r)
                    (queue @ [\<lparr>qe_request = r, qe_dedupKey = key, qe_enqueuedAt = now\<rparr>]) (g_queues g)\<rparr>,
               Queued))"

definition admit_or_enqueue :: "execution_request \<Rightarrow> string \<Rightarrow> ms \<Rightarrow> gate \<Rightarrow> gate \<times> admit_result" where
  "admit_or_enqueue r key now g =
     (if int (length (g_active g)) < maxActive (g_config g) then gate_admit r key g
      else gate_enqueue r key now g)"

definition gate_submit :: "execution_request \<Rightarrow> ms \<Rightarrow> gate \<Rightarrow> gate \<times> admit_result" where
  "gate_submit r now g =
     (let key = dedup_key r; queue = queue_of g (rq_ruleId r)
      in if coalescing r then
           (case coalesce_into r queue of
              Some queue' \<Rightarrow> (g\<lparr>g_queues := AList.update (rq_ruleId r) queue' (g_queues g)\<rparr>, Coalesced)
            | None \<Rightarrow>
                if \<exists>e \<in> set (jm_values (g_active g)). ae_coalesceKey e = rq_coalesceKey r
                then gate_enqueue r key now g
                else admit_or_enqueue r key now g)
         else if key \<in> g_dedup g
         then (g\<lparr>g_events := g_events g @ [OnSuppress (rq_ruleId r) (rq_deviceId r) (rq_topic r)]\<rparr>, SuppressedDuplicate)
         else admit_or_enqueue r key now g)"

text \<open>\<open>findOldestQueued\<close>: the entries in iteration order, each with its rule and index.\<close>

definition queued_entries :: "gate \<Rightarrow> (queued_entry \<times> string \<times> nat) list" where
  "queued_entries g = concat (map (\<lambda>(rule, q). map (\<lambda>(i, e). (e, rule, i)) (enumerate 0 q)) (g_queues g))"

definition findOldestQueued :: "gate \<Rightarrow> (queued_entry \<times> string \<times> nat) option" where
  "findOldestQueued g =
     fold (\<lambda>x oldest. case oldest of
             None \<Rightarrow> Some x
           | Some y \<Rightarrow> if qe_enqueuedAt (fst x) < qe_enqueuedAt (fst y) then Some x else Some y)
       (queued_entries g) None"

text \<open>\<open>queue.splice(index, 1)\<close>, and one iteration of the loop of \<open>drain\<close>.\<close>

definition splice_one :: "nat \<Rightarrow> 'a list \<Rightarrow> 'a list" where
  "splice_one i q = take i q @ drop (Suc i) q"

definition drain_step :: "queued_entry \<Rightarrow> string \<Rightarrow> nat \<Rightarrow> gate \<Rightarrow> gate" where
  "drain_step e rule i g =
     (let queue = queue_of g rule;
          queue' = splice_one i queue;
          queues' = (if queue' = [] then AList.delete rule (g_queues g)
                     else AList.update rule queue' (g_queues g))
      in g\<lparr>g_queues := queues',
           g_active := AList.update (g_next g)
              \<lparr>ae_ruleId = rq_ruleId (qe_request e), ae_dedupKey = qe_dedupKey e,
               ae_coalesceKey = rq_coalesceKey (qe_request e)\<rparr> (g_active g),
           g_next := Suc (g_next g),
           g_started := g_started g @ [rq_execute (qe_request e)]\<rparr>)"

fun drain_loop :: "nat \<Rightarrow> gate \<Rightarrow> gate" where
  "drain_loop 0 g = g"
| "drain_loop (Suc n) g =
     (if int (length (g_active g)) < maxActive (g_config g)
      then (case findOldestQueued g of None \<Rightarrow> g | Some (e, rule, i) \<Rightarrow> drain_loop n (drain_step e rule i g))
      else g)"

definition gate_drain :: "gate \<Rightarrow> gate" where
  "gate_drain g = drain_loop (length (queued_entries g)) g"

definition gate_complete :: "nat \<Rightarrow> gate \<Rightarrow> gate" where
  "gate_complete h g =
     (case map_of (g_active g) h of
        None \<Rightarrow> g
      | Some entry \<Rightarrow>
          gate_drain (g\<lparr>g_active := AList.delete h (g_active g),
                        g_dedup := g_dedup g - {ae_dedupKey entry}\<rparr>))"

definition gate_stats :: "gate \<Rightarrow> nat \<times> (string, nat) jsmap" where
  "gate_stats g =
     (length (g_active g),
      map (\<lambda>(rule, q). (rule, length q)) (filter (\<lambda>(rule, q). length q > 0) (g_queues g)))"

datatype gate_op = GSubmit execution_request ms | GComplete nat

fun gate_step :: "gate_op \<Rightarrow> gate \<Rightarrow> gate" where
  "gate_step (GSubmit r now) g = fst (gate_submit r now g)"
| "gate_step (GComplete h) g = gate_complete h g"

section \<open>Results of an execution\<close>

text \<open>The fields of a command result that the assembly and the recorder read; an absent result is \<open>None\<close>.\<close>

record exec_command_result =
  xr_success :: bool
  xr_error :: "string option"
  xr_lifecycleState :: "lifecycle_state option"

record logic_outcome =
  lo_ok :: bool
  lo_error :: "string option"

record automation_execution_result =
  er_executionId :: string
  er_success :: bool
  er_commandResults :: "exec_command_result option list"
  er_failureReason :: "string option"

fun first_problem :: "nat \<Rightarrow> exec_command_result option list \<Rightarrow> (nat \<times> exec_command_result option) option" where
  "first_problem i [] = None"
| "first_problem i (r # rs) =
     (if r = None \<or> (\<exists>x \<in> set_option r. \<not> xr_success x) then Some (i, r) else first_problem (Suc i) rs)"

definition nonempty_text :: "string option \<Rightarrow> string \<Rightarrow> (string \<Rightarrow> string) \<Rightarrow> string" where
  "nonempty_text e otherwise f = (case e of Some t \<Rightarrow> if length t > 0 then f t else otherwise | None \<Rightarrow> otherwise)"

definition assembleExecutionResult ::
  "string \<Rightarrow> logic_outcome \<Rightarrow> exec_command_result option list \<Rightarrow> automation_execution_result" where
  "assembleExecutionResult xid logic results =
     (case first_problem 0 results of
        None \<Rightarrow>
          if lo_ok logic
          then \<lparr>er_executionId = xid, er_success = True, er_commandResults = results, er_failureReason = None\<rparr>
          else \<lparr>er_executionId = xid, er_success = False, er_commandResults = results,
                er_failureReason = Some (nonempty_text (lo_error logic) ''Automation execution logic failed'' id)\<rparr>
      | Some (i, problem) \<Rightarrow>
          \<lparr>er_executionId = xid, er_success = False, er_commandResults = results,
           er_failureReason = Some
             (case problem of
                None \<Rightarrow> ''Missing command result at index '' @ show_nat i
              | Some r \<Rightarrow> nonempty_text (xr_error r) (''Command '' @ show_nat i @ '' failed'')
                            (\<lambda>t. ''Command '' @ show_nat i @ '' failed: '' @ t))\<rparr>)"

text \<open>The collector: a buffer per execution; the context is the active execution, if any.\<close>

type_synonym 'r collector = "(string, 'r list) jsmap"

definition collector_open :: "string \<Rightarrow> 'r collector \<Rightarrow> 'r collector" where
  "collector_open xid c = AList.update xid [] c"

definition collector_push :: "string \<Rightarrow> 'r \<Rightarrow> 'r collector \<Rightarrow> 'r collector" where
  "collector_push xid r c =
     (case map_of c xid of
        None \<Rightarrow> AList.update xid [r] c
      | Some buffer \<Rightarrow> AList.update xid (buffer @ [r]) c)"

definition collector_pushCurrent :: "string option \<Rightarrow> 'r \<Rightarrow> 'r collector \<Rightarrow> 'r collector" where
  "collector_pushCurrent ctx r c = (case ctx of None \<Rightarrow> c | Some xid \<Rightarrow> collector_push xid r c)"

definition collector_close :: "string \<Rightarrow> 'r collector \<Rightarrow> 'r list \<times> 'r collector" where
  "collector_close xid c =
     (case map_of c xid of Some b \<Rightarrow> b | None \<Rightarrow> [], AList.delete xid c)"

section \<open>The invariant of the gate\<close>

text \<open>
  The state-driven requests waiting in one queue have different keys, and no queue is empty,
  too long, or filed under another rule.
\<close>

definition queue_ok :: "gate_config \<Rightarrow> string \<Rightarrow> queued_entry list \<Rightarrow> bool" where
  "queue_ok cfg rule q \<longleftrightarrow>
     q \<noteq> [] \<and> int (length q) \<le> maxQueuePerRule cfg
     \<and> (\<forall>e \<in> set q. rq_ruleId (qe_request e) = rule)
     \<and> distinct (map rq_coalesceKey (filter coalescing (map qe_request q)))"

definition gate_core :: "gate \<Rightarrow> bool" where
  "gate_core g \<longleftrightarrow>
     jm_wf (g_active g) \<and> jm_wf (g_queues g)
     \<and> (\<forall>h e. map_of (g_active g) h = Some e \<longrightarrow> h < g_next g)
     \<and> (\<forall>rule q. map_of (g_queues g) rule = Some q \<longrightarrow> queue_ok (g_config g) rule q)
     \<and> int (length (g_active g)) \<le> max 0 (maxActive (g_config g))"

text \<open>Nothing waits while nothing runs.\<close>

definition gate_busy :: "gate \<Rightarrow> bool" where
  "gate_busy g \<longleftrightarrow> (0 < maxActive (g_config g) \<and> g_active g = [] \<longrightarrow> g_queues g = [])"

definition gate_inv :: "gate \<Rightarrow> bool" where
  "gate_inv g \<longleftrightarrow> gate_core g \<and> gate_busy g"

lemma gate_coreI:
  assumes "jm_wf (g_active g)" "jm_wf (g_queues g)"
    and "\<And>h e. map_of (g_active g) h = Some e \<Longrightarrow> h < g_next g"
    and "\<And>rule q. map_of (g_queues g) rule = Some q \<Longrightarrow> queue_ok (g_config g) rule q"
    and "int (length (g_active g)) \<le> max 0 (maxActive (g_config g))"
  shows "gate_core g"
  using assms unfolding gate_core_def by blast

lemma gate_coreD:
  assumes "gate_core g"
  shows "jm_wf (g_active g)" "jm_wf (g_queues g)"
    and "map_of (g_active g) h = Some e \<Longrightarrow> h < g_next g"
    and "map_of (g_queues g) rule = Some q \<Longrightarrow> queue_ok (g_config g) rule q"
    and "int (length (g_active g)) \<le> max 0 (maxActive (g_config g))"
  using assms unfolding gate_core_def by blast+

lemma update_nonempty [simp]: "AList.update k v m \<noteq> []"
  by (cases m) auto

lemma gate_fresh: "gate_core g \<Longrightarrow> length (AList.update (g_next g) v (g_active g)) = Suc (length (g_active g))"
  using gate_coreD(3) [of g "g_next g"]
  by (cases "map_of (g_active g) (g_next g)") (auto simp: length_update map_of_eq_None_iff)

lemma gate_core_activate:
  assumes inv: "gate_core g" and room: "int (length (g_active g)) < maxActive (g_config g)"
  shows "gate_core (g\<lparr>g_active := AList.update (g_next g) a (g_active g), g_next := Suc (g_next g)\<rparr>)"
  using room gate_fresh [OF inv] gate_coreD [OF inv]
  by (intro gate_coreI) (auto split: if_splits dest: less_SucI)

lemma gate_core_other [simp]:
  "gate_core (g\<lparr>g_dedup := d\<rparr>) = gate_core g" "gate_core (g\<lparr>g_started := st\<rparr>) = gate_core g"
  "gate_core (g\<lparr>g_events := es\<rparr>) = gate_core g"
  by (simp_all add: gate_core_def)

lemma gate_core_set_queue:
  assumes inv: "gate_core g" and q: "queue_ok (g_config g) rule q"
  shows "gate_core (g\<lparr>g_queues := AList.update rule q (g_queues g)\<rparr>)"
  using q gate_coreD [OF inv] by (intro gate_coreI) (auto split: if_splits)

lemma gate_core_drop_queue: "gate_core g \<Longrightarrow> gate_core (g\<lparr>g_queues := AList.delete rule (g_queues g)\<rparr>)"
  by (intro gate_coreI) (auto split: if_splits dest: gate_coreD)

lemma queue_of_ok: "gate_core g \<Longrightarrow> queue_of g rule \<noteq> [] \<Longrightarrow> queue_ok (g_config g) rule (queue_of g rule)"
  by (auto simp: queue_of_def dest: gate_coreD(4) split: option.splits)

lemma coalesce_into_None: "coalesce_into r q = None \<longleftrightarrow> rq_coalesceKey r \<notin> (rq_coalesceKey \<circ> qe_request) ` set q"
  by (induction q) auto

lemma coalesce_into_Some:
  assumes "coalesce_into r q = Some q'"
  shows "length q' = length q \<and> map qe_dedupKey q' = map qe_dedupKey q \<and> map qe_enqueuedAt q' = map qe_enqueuedAt q
    \<and> map rq_coalesceKey (map qe_request q') = map rq_coalesceKey (map qe_request q)
    \<and> (\<forall>e \<in> set q'. qe_request e = r \<or> qe_request e \<in> qe_request ` set q)"
  using assms by (induction q arbitrary: q') (fastforce split: if_splits)+

lemma filter_coalescing: "map rq_coalesceKey (filter coalescing rs)
    = filter (\<lambda>k. k \<noteq> None \<and> k \<noteq> Some '''') (map rq_coalesceKey rs)"
  by (induction rs) (auto simp: coalescing_def)

lemma queue_ok_coalesce:
  assumes q: "queue_ok cfg rule q" and r: "rq_ruleId r = rule" and c: "coalesce_into r q = Some q'"
  shows "queue_ok cfg rule q'"
proof -
  note co = coalesce_into_Some [OF c]
  have "\<forall>x \<in> set q'. rq_ruleId (qe_request x) = rule" using co q r by (fastforce simp: queue_ok_def)
  moreover have "q' \<noteq> []" using co q by (auto simp: queue_ok_def)
  ultimately show ?thesis using co q by (auto simp: queue_ok_def filter_coalescing)
qed

lemma queue_ok_snoc:
  assumes q: "q \<noteq> [] \<Longrightarrow> queue_ok cfg rule q" and e: "rq_ruleId (qe_request e) = rule"
    and room: "int (length q) < maxQueuePerRule cfg"
    and new: "coalescing (qe_request e) \<Longrightarrow> coalesce_into (qe_request e) q = None"
  shows "queue_ok cfg rule (q @ [e])"
proof -
  have "distinct (map rq_coalesceKey (filter coalescing (map qe_request q))) \<and> (\<forall>x \<in> set q. rq_ruleId (qe_request x) = rule)"
    using q by (cases "q = []") (simp_all add: queue_ok_def)
  moreover have "rq_coalesceKey (qe_request e) \<notin> set (map rq_coalesceKey (filter coalescing (map qe_request q)))"
    if "coalescing (qe_request e)"
    using new [OF that] by (auto simp: coalesce_into_None)
  ultimately show ?thesis using e room by (auto simp: queue_ok_def)
qed

lemma gate_core_like:
  "gate_core g \<Longrightarrow> g_active g' = g_active g \<Longrightarrow> g_queues g' = g_queues g \<Longrightarrow> g_next g' = g_next g \<Longrightarrow>
    g_config g' = g_config g \<Longrightarrow> gate_core g'"
  by (simp add: gate_core_def)

lemma gate_core_enqueue:
  assumes inv: "gate_core g"
    and new: "coalescing r \<Longrightarrow> coalesce_into r (queue_of g (rq_ruleId r)) = None"
  shows "gate_core (fst (gate_enqueue r key now g))"
proof (cases "int (length (queue_of g (rq_ruleId r))) \<ge> maxQueuePerRule (g_config g)")
  case True
  then show ?thesis using inv by (simp add: gate_enqueue_def Let_def)
next
  case False
  let ?q = "queue_of g (rq_ruleId r) @ [\<lparr>qe_request = r, qe_dedupKey = key, qe_enqueuedAt = now\<rparr>]"
  have "queue_ok (g_config g) (rq_ruleId r) ?q"
    using False new queue_of_ok [OF inv] by (intro queue_ok_snoc) auto
  then have "gate_core (g\<lparr>g_queues := AList.update (rq_ruleId r) ?q (g_queues g)\<rparr>)"
    by (rule gate_core_set_queue [OF inv])
  then show ?thesis
    by (rule gate_core_like) (use False in \<open>simp_all add: gate_enqueue_def Let_def\<close>)
qed

lemma gate_core_admit:
  assumes "gate_core g" "int (length (g_active g)) < maxActive (g_config g)"
  shows "gate_core (fst (gate_admit r key g))"
  by (rule gate_core_like [OF gate_core_activate [OF assms]]) (simp_all add: gate_admit_def)

lemma gate_core_submit:
  assumes inv: "gate_core g"
  shows "gate_core (fst (gate_submit r now g))"
proof -
  have ae: "gate_core (fst (admit_or_enqueue r (dedup_key r) now g))"
    if "coalescing r \<Longrightarrow> coalesce_into r (queue_of g (rq_ruleId r)) = None"
    using gate_core_admit [OF inv] gate_core_enqueue [OF inv that] by (simp add: admit_or_enqueue_def)
  have co: "gate_core (g\<lparr>g_queues := AList.update (rq_ruleId r) q' (g_queues g)\<rparr>)"
    if "coalesce_into r (queue_of g (rq_ruleId r)) = Some q'" for q'
  proof -
    have "queue_of g (rq_ruleId r) \<noteq> []" using that by auto
    then show ?thesis
      by (intro gate_core_set_queue [OF inv] queue_ok_coalesce [OF queue_of_ok [OF inv] refl that])
  qed
  have en: "gate_core (fst (gate_enqueue r (dedup_key r) now g))"
    if "coalesce_into r (queue_of g (rq_ruleId r)) = None"
    using that by (intro gate_core_enqueue [OF inv]) auto
  show ?thesis using inv ae co en by (auto simp: gate_submit_def Let_def split: option.splits)
qed

lemma gate_busy_submit:
  assumes "gate_busy g" shows "gate_busy (fst (gate_submit r now g))"
proof -
  have "g_queues g = [] \<Longrightarrow> queue_of g rule = []" for rule by (simp add: queue_of_def)
  then show ?thesis
    using assms
    by (auto simp: gate_submit_def Let_def admit_or_enqueue_def gate_admit_def gate_enqueue_def gate_busy_def
        split: option.splits)
qed

section \<open>Draining\<close>

abbreviation (input) older :: "queued_entry \<times> string \<times> nat \<Rightarrow> (queued_entry \<times> string \<times> nat) option \<Rightarrow>
    (queued_entry \<times> string \<times> nat) option" where
  "older x oldest \<equiv> (case oldest of None \<Rightarrow> Some x
     | Some y \<Rightarrow> if qe_enqueuedAt (fst x) < qe_enqueuedAt (fst y) then Some x else Some y)"

lemma older_fold:
  "fold (\<lambda>x oldest. older x oldest) xs acc = Some y \<Longrightarrow>
    (y \<in> set xs \<or> acc = Some y) \<and> (\<forall>x \<in> set xs \<union> set_option acc. qe_enqueuedAt (fst y) \<le> qe_enqueuedAt (fst x))"
  by (induction xs arbitrary: acc) (fastforce split: option.splits if_splits)+

lemma older_fold_None: "fold (\<lambda>x oldest. older x oldest) xs acc = None \<longleftrightarrow> xs = [] \<and> acc = None"
  by (induction xs arbitrary: acc) (auto split: option.splits if_splits)

lemma queued_entries_iff:
  "(e, rule, i) \<in> set (queued_entries g) \<longleftrightarrow> (\<exists>q. (rule, q) \<in> set (g_queues g) \<and> i < length q \<and> q ! i = e)"
  by (force simp: queued_entries_def in_set_enumerate_eq)

lemma findOldestQueued_Some:
  "findOldestQueued g = Some y \<Longrightarrow> y \<in> set (queued_entries g)
    \<and> (\<forall>x \<in> set (queued_entries g). qe_enqueuedAt (fst y) \<le> qe_enqueuedAt (fst x))"
  unfolding findOldestQueued_def using older_fold [of "queued_entries g" None y] by auto

lemma findOldestQueued_None: "findOldestQueued g = None \<longleftrightarrow> queued_entries g = []"
  unfolding findOldestQueued_def by (simp add: older_fold_None)

lemma queued_entries_empty: "gate_core g \<Longrightarrow> queued_entries g = [] \<longleftrightarrow> g_queues g = []"
proof -
  assume inv: "gate_core g"
  have "q \<noteq> []" if "(rule, q) \<in> set (g_queues g)" for rule q
    using gate_coreD(2,4) [OF inv] that by (auto simp: queue_ok_def)
  then show ?thesis by (cases "g_queues g") (fastforce simp: queued_entries_def enumerate_eq_zip)+
qed

text \<open>What the queues hold, as a multiset of one attribute of the entries.\<close>

definition waiting :: "(queued_entry \<Rightarrow> 'a) \<Rightarrow> (string, queued_entry list) jsmap \<Rightarrow> 'a multiset" where
  "waiting f qs = (\<Sum>q \<leftarrow> jm_values qs. mset (map f q))"

definition thunk :: "queued_entry \<Rightarrow> nat" where
  "thunk e = rq_execute (qe_request e)"

lemma waiting_size: "size (waiting f (g_queues g)) = length (queued_entries g)"
proof -
  have "size (waiting f qs) = length (concat (map (\<lambda>(rule, q). map (\<lambda>(i, e). (e, rule, i)) (enumerate 0 q)) qs))" for qs
    by (induction qs) (auto simp: waiting_def)
  then show ?thesis by (simp add: queued_entries_def)
qed

lemma waiting_delete:
  "jm_wf qs \<Longrightarrow> map_of qs k = Some q \<Longrightarrow> waiting f qs = mset (map f q) + waiting f (AList.delete k qs)"
  by (induction qs) (auto simp: waiting_def AList.delete_idem split: if_splits)

lemma waiting_update:
  "jm_wf qs \<Longrightarrow> map_of qs k = Some q \<Longrightarrow>
    waiting f qs + mset (map f q') = mset (map f q) + waiting f (AList.update k q' qs)"
  by (induction qs) (auto simp: waiting_def split: if_splits)

lemma waiting_snoc: "waiting f (AList.update (rq_ruleId r) (queue_of g (rq_ruleId r) @ [e]) (g_queues g))
    = add_mset (f e) (waiting f (g_queues g))"
proof -
  have "waiting f (AList.update k ((case map_of qs k of Some q \<Rightarrow> q | None \<Rightarrow> []) @ [e]) qs)
      = add_mset (f e) (waiting f qs)" for k qs
    by (induction qs) (auto simp: waiting_def split: option.splits)
  then show ?thesis by (simp add: queue_of_def)
qed

lemma oldest_located:
  assumes inv: "gate_core g" and o: "findOldestQueued g = Some (e, rule, i)"
  shows "map_of (g_queues g) rule = Some (queue_of g rule)" "i < length (queue_of g rule)" "queue_of g rule ! i = e"
  using findOldestQueued_Some [OF o] gate_coreD(2) [OF inv]
  by (auto simp: queued_entries_iff queue_of_def)

lemma splice_one_set: "set (splice_one i q) \<subseteq> set q"
  by (auto simp: splice_one_def dest: in_set_takeD in_set_dropD)

lemma splice_one_length: "length (splice_one i q) \<le> length q"
  by (simp add: splice_one_def)

lemma splice_one_mset:
  assumes "i < length q" shows "mset (map f q) = add_mset (f (q ! i)) (mset (map f (splice_one i q)))"
proof -
  have "mset (map f q) = mset (map f (take i q @ q ! i # drop (Suc i) q))" using id_take_nth_drop [OF assms] by simp
  then show ?thesis by (simp add: splice_one_def)
qed

lemma splice_one_distinct:
  assumes "distinct (map f (filter P (map h q)))" shows "distinct (map f (filter P (map h (splice_one i q))))"
proof (cases "i < length q")
  case True
  then have "distinct (map f (filter P (map h (take i q @ q ! i # drop (Suc i) q))))"
    using assms id_take_nth_drop [OF True] by simp
  then show ?thesis by (simp add: splice_one_def split: if_splits)
next
  case False
  then show ?thesis using assms by (simp add: splice_one_def)
qed

lemma queue_ok_remove: "queue_ok cfg rule q \<Longrightarrow> splice_one i q \<noteq> [] \<Longrightarrow> queue_ok cfg rule (splice_one i q)"
  using splice_one_set [of i q] splice_one_length [of i q]
  by (auto simp: queue_ok_def splice_one_distinct)

lemma gate_core_drain_step:
  assumes inv: "gate_core g" and room: "int (length (g_active g)) < maxActive (g_config g)"
    and o: "findOldestQueued g = Some (e, rule, i)"
  shows "gate_core (drain_step e rule i g)"
proof -
  let ?a = "\<lparr>ae_ruleId = rq_ruleId (qe_request e), ae_dedupKey = qe_dedupKey e,
    ae_coalesceKey = rq_coalesceKey (qe_request e)\<rparr>"
  let ?g = "g\<lparr>g_active := AList.update (g_next g) ?a (g_active g), g_next := Suc (g_next g)\<rparr>"
  let ?q = "splice_one i (queue_of g rule)"
  have g: "gate_core ?g" by (rule gate_core_activate [OF inv room])
  show ?thesis
  proof (cases "?q = []")
    case True
    show ?thesis
      by (rule gate_core_like [OF gate_core_drop_queue [OF g, of rule]])
        (use True in \<open>simp_all add: drain_step_def Let_def\<close>)
  next
    case False
    have "queue_of g rule \<noteq> []" using oldest_located(2) [OF inv o] by auto
    then have "queue_ok (g_config ?g) rule ?q"
      using False by (auto intro: queue_ok_remove queue_of_ok [OF inv])
    then have "gate_core (?g\<lparr>g_queues := AList.update rule ?q (g_queues ?g)\<rparr>)"
      by (intro gate_core_set_queue [OF g]) simp_all
    then show ?thesis
      by (rule gate_core_like) (use False in \<open>simp_all add: drain_step_def Let_def\<close>)
  qed
qed

lemma drain_step_waiting:
  assumes inv: "gate_core g" and o: "findOldestQueued g = Some (e, rule, i)"
  shows "waiting f (g_queues g) = add_mset (f e) (waiting f (g_queues (drain_step e rule i g)))"
proof -
  let ?q = "queue_of g rule"
  note loc = oldest_located [OF inv o] and wf = gate_coreD(2) [OF inv]
  have q: "mset (map f ?q) = add_mset (f e) (mset (map f (splice_one i ?q)))"
    using splice_one_mset [OF loc(2), of f] loc(3) by simp
  show ?thesis
    using q waiting_delete [OF wf loc(1), of f] waiting_update [OF wf loc(1), of f "splice_one i ?q"]
    by (auto simp: drain_step_def Let_def ac_simps)
qed

lemma drain_step_entries:
  "gate_core g \<Longrightarrow> findOldestQueued g = Some (e, rule, i) \<Longrightarrow>
    length (queued_entries g) = Suc (length (queued_entries (drain_step e rule i g)))"
  using drain_step_waiting [of g e rule i id] by (metis size_add_mset waiting_size)

text \<open>The keys held by active and queued executions.\<close>

definition held :: "gate \<Rightarrow> string multiset" where
  "held g = mset (map ae_dedupKey (jm_values (g_active g))) + waiting qe_dedupKey (g_queues g)"

lemma update_fresh: "k \<notin> fst ` set m \<Longrightarrow> AList.update k v m = m @ [(k, v)]"
  by (induction m) auto

lemma gate_next_fresh: "gate_core g \<Longrightarrow> g_next g \<notin> fst ` set (g_active g)"
  using gate_coreD(3) [of g "g_next g"] by (cases "map_of (g_active g) (g_next g)") (auto simp: map_of_eq_None_iff)

lemma drain_step_work:
  assumes inv: "gate_core g" and o: "findOldestQueued g = Some (e, rule, i)"
  shows "mset (g_started (drain_step e rule i g)) + waiting thunk (g_queues (drain_step e rule i g))
      = mset (g_started g) + waiting thunk (g_queues g)"
    and "held (drain_step e rule i g) = held g"
    and "g_config (drain_step e rule i g) = g_config g" and "g_dedup (drain_step e rule i g) = g_dedup g"
  using drain_step_waiting [OF inv o, of thunk] drain_step_waiting [OF inv o, of qe_dedupKey]
    update_fresh [OF gate_next_fresh [OF inv]]
  by (simp_all add: held_def drain_step_def Let_def thunk_def)

lemma drain_loop_ok:
  assumes "gate_core g" "length (queued_entries g) \<le> n"
  shows "gate_core (drain_loop n g)
    \<and> (int (length (g_active (drain_loop n g))) \<ge> maxActive (g_config g) \<or> g_queues (drain_loop n g) = [])
    \<and> mset (g_started (drain_loop n g)) + waiting thunk (g_queues (drain_loop n g))
        = mset (g_started g) + waiting thunk (g_queues g)
    \<and> held (drain_loop n g) = held g \<and> g_config (drain_loop n g) = g_config g \<and> g_dedup (drain_loop n g) = g_dedup g"
  using assms
proof (induction n g rule: drain_loop.induct)
  case (1 g)
  then show ?case using queued_entries_empty by simp
next
  case (2 n g)
  show ?case
  proof (cases "int (length (g_active g)) < maxActive (g_config g) \<and> findOldestQueued g \<noteq> None")
    case False
    then have "drain_loop (Suc n) g = g" by (auto split: option.splits)
    then show ?thesis
      using False 2(2) queued_entries_empty [OF 2(2)] by (auto simp: findOldestQueued_None simp del: drain_loop.simps)
  next
    case True
    then obtain e rule i where o: "findOldestQueued g = Some (e, rule, i)" by auto
    have "gate_core (drain_step e rule i g)" using 2(2) True o by (intro gate_core_drain_step) simp_all
    moreover have "length (queued_entries (drain_step e rule i g)) \<le> n" using drain_step_entries [OF 2(2) o] 2(3) by simp
    ultimately show ?thesis
      using 2(1) [OF _ o refl refl] True o drain_step_work [OF 2(2) o] by simp
  qed
qed

lemma drain_settles:
  assumes "gate_core g"
  shows "gate_core (gate_drain g)"
    and "int (length (g_active (gate_drain g))) \<ge> maxActive (g_config g) \<or> g_queues (gate_drain g) = []"
    and "mset (g_started (gate_drain g)) + waiting thunk (g_queues (gate_drain g))
      = mset (g_started g) + waiting thunk (g_queues g)"
    and "held (gate_drain g) = held g" and "g_config (gate_drain g) = g_config g" and "g_dedup (gate_drain g) = g_dedup g"
  using drain_loop_ok [OF assms order.refl] by (auto simp: gate_drain_def)

section \<open>Completion, and runs of the gate\<close>

lemma gate_core_release:
  assumes inv: "gate_core g" and h: "map_of (g_active g) h = Some a"
  shows "gate_core (g\<lparr>g_active := AList.delete h (g_active g), g_dedup := d\<rparr>)"
  using gate_coreD [OF inv] length_delete_present [OF gate_coreD(1) [OF inv] h]
  by (intro gate_coreI) (auto split: if_splits)

lemma gate_complete_active:
  assumes inv: "gate_core g" and h: "map_of (g_active g) h = Some a"
  defines "g1 \<equiv> g\<lparr>g_active := AList.delete h (g_active g), g_dedup := g_dedup g - {ae_dedupKey a}\<rparr>"
  shows "gate_complete h g = gate_drain g1" and "gate_core g1"
    and "gate_inv (gate_complete h g)"
    and "int (length (g_active (gate_complete h g))) \<ge> maxActive (g_config g) \<or> g_queues (gate_complete h g) = []"
proof -
  show eq: "gate_complete h g = gate_drain g1" by (simp add: gate_complete_def h g1_def)
  show g1: "gate_core g1" unfolding g1_def by (rule gate_core_release [OF inv h])
  show full: "int (length (g_active (gate_complete h g))) \<ge> maxActive (g_config g) \<or> g_queues (gate_complete h g) = []"
    using drain_settles(2) [OF g1] by (simp add: eq g1_def)
  have "g_config (gate_complete h g) = g_config g" using drain_settles(5) [OF g1] by (simp add: eq g1_def)
  then show "gate_inv (gate_complete h g)"
    using drain_settles(1) [OF g1] full by (auto simp: gate_inv_def gate_busy_def eq)
qed

lemma gate_inv_complete: "gate_inv g \<Longrightarrow> gate_inv (gate_complete h g)"
  using gate_complete_active(3) [of g h]
  by (cases "map_of (g_active g) h") (simp_all add: gate_inv_def gate_complete_def)

interpretation exec_gate: invariant_machine gate_step "\<lambda>_ _. True" "gate_init ma mq" gate_inv for ma mq
proof
  show "gate_inv (gate_init ma mq)"
    by (simp add: gate_inv_def gate_core_def gate_busy_def gate_init_def)
  show "gate_inv (gate_step a g)" if "gate_inv g" for a g
    using that gate_inv_complete by (cases a) (auto simp: gate_inv_def gate_core_submit gate_busy_submit)
qed

lemma drain_loop_handle:
  "map_of (g_active g) h = None \<Longrightarrow> h < g_next g \<Longrightarrow> map_of (g_active (drain_loop n g)) h = None"
  by (induction n g rule: drain_loop.induct) (auto simp: drain_step_def Let_def split: option.splits)

lemma gate_config_step: "gate_core g \<Longrightarrow> g_config (gate_step a g) = g_config g"
proof (cases a)
  case (GSubmit r now)
  then show ?thesis
    by (auto simp: gate_submit_def Let_def admit_or_enqueue_def gate_admit_def gate_enqueue_def split: option.splits)
next
  case (GComplete h)
  assume core: "gate_core g"
  show ?thesis
  proof (cases "map_of (g_active g) h")
    case None
    then show ?thesis using GComplete by (simp add: gate_complete_def)
  next
    case (Some e)
    then show ?thesis
      using drain_settles(5) [OF gate_complete_active(2) [OF core Some]]
      by (simp add: GComplete gate_complete_active(1) [OF core Some])
  qed
qed

lemma reach_gate_config: "reach gate_step ok (gate_init ma mq) g \<Longrightarrow> gate_inv g \<and> g_config g = g_config (gate_init ma mq)"
proof (induction rule: reach.induct)
  case reach_init
  then show ?case using exec_gate.inv_init by simp
next
  case (reach_step g a)
  then show ?case using gate_config_step exec_gate.inv_step [of g a] by (simp add: gate_inv_def)
qed

text \<open>
  C20. The gate bounds the load it lets through, whatever sequence of submissions and
  completions it sees: never more than the configured number of executions is active, no
  rule has more than its configured number waiting, an execution waits only while another
  one is active, and among the waiting requests of a rule each coalesce key occurs once.
\<close>

theorem gate_bounded:
  assumes "reach gate_step ok (gate_init (Some ma) (Some mq)) g" and "0 < ma"
  shows "int (length (g_active g)) \<le> ma
    \<and> (\<forall>rule. int (length (queue_of g rule)) \<le> max 0 mq)
    \<and> (g_active g = [] \<longrightarrow> (\<forall>rule. queue_of g rule = []))
    \<and> (\<forall>rule. distinct (map rq_coalesceKey (filter coalescing (map qe_request (queue_of g rule)))))"
proof -
  have core: "gate_core g" and busy: "gate_busy g" and cfg: "g_config g = \<lparr>maxActive = ma, maxQueuePerRule = mq\<rparr>"
    using reach_gate_config [OF assms(1)] by (simp_all add: gate_inv_def gate_init_def)
  have q: "queue_of g rule = [] \<or> queue_ok (g_config g) rule (queue_of g rule)" for rule
    using queue_of_ok [OF core] by blast
  have "int (length (queue_of g rule)) \<le> max 0 mq" for rule
    using q [of rule] by (auto simp: queue_ok_def cfg)
  moreover have "distinct (map rq_coalesceKey (filter coalescing (map qe_request (queue_of g rule))))" for rule
    using q [of rule] by (auto simp: queue_ok_def)
  moreover have "g_active g = [] \<longrightarrow> (\<forall>rule. queue_of g rule = [])"
    using busy assms(2) by (simp add: gate_busy_def cfg queue_of_def)
  ultimately show ?thesis using gate_coreD(5) [OF core] assms(2) by (simp add: cfg)
qed

definition sample_request :: "string \<Rightarrow> string option \<Rightarrow> nat \<Rightarrow> execution_request" where
  "sample_request topic ck n =
     \<lparr>rq_ruleId = ''r'', rq_deviceId = ''d'', rq_topic = topic, rq_coalesceKey = ck, rq_execute = n\<rparr>"

definition sample_gate :: gate where
  "sample_gate = fold gate_step
     [GSubmit (sample_request ''a'' None 1) 10, GSubmit (sample_request ''b'' None 2) 11,
      GSubmit (sample_request ''c'' None 3) 12, GSubmit (sample_request ''a'' None 4) 13] (gate_init (Some 1) (Some 3))"

lemma sample_gate_reach: "reach gate_step (\<lambda>_ _. True) (gate_init (Some 1) (Some 3)) sample_gate"
  unfolding sample_gate_def fold_simps by (intro reach_step reach_init) simp_all

theorem gate_bounded_witness:
  "length (g_active sample_gate) \<le> 1 \<and> map (rq_execute \<circ> qe_request) (queue_of sample_gate ''r'') = [2, 3]"
proof -
  have "map (rq_execute \<circ> qe_request) (queue_of sample_gate ''r'') = [2, 3]" by code_simp
  then show ?thesis using gate_bounded [OF sample_gate_reach] by simp
qed

text \<open>
  C24. Completing an execution frees its slot and puts it to use, and nothing is lost or run
  twice on the way: afterwards the handle is no longer active, the gate is full again or no
  queue holds anything, the thunks started or still waiting are exactly those started or
  waiting before, and completing the same handle again does nothing.
\<close>

theorem gate_complete_refills:
  assumes "reach gate_step ok (gate_init ma mq) g" and "map_of (g_active g) h = Some a"
  shows "map_of (g_active (gate_complete h g)) h = None
    \<and> (int (length (g_active (gate_complete h g))) \<ge> maxActive (g_config g) \<or> g_queues (gate_complete h g) = [])
    \<and> mset (g_started (gate_complete h g)) + waiting thunk (g_queues (gate_complete h g))
        = mset (g_started g) + waiting thunk (g_queues g)
    \<and> gate_complete h (gate_complete h g) = gate_complete h g"
proof -
  have core: "gate_core g" using reach_gate_config [OF assms(1)] by (simp add: gate_inv_def)
  note act = gate_complete_active [OF core assms(2)]
  have "h < g_next g" using gate_coreD(3) [OF core assms(2)] .
  then have gone: "map_of (g_active (gate_complete h g)) h = None"
    unfolding act(1) gate_drain_def by (intro drain_loop_handle) simp_all
  then show ?thesis
    using act(4) drain_settles(3) [OF act(2)] unfolding act(1)
    by (simp add: gate_complete_def)
qed

theorem gate_complete_refills_witness:
  "g_started (gate_complete 0 sample_gate) = [1, 2] \<and> map_of (g_active (gate_complete 0 sample_gate)) 0 = None
    \<and> gate_complete 0 (gate_complete 0 sample_gate) = gate_complete 0 sample_gate"
proof -
  have "g_started (gate_complete 0 sample_gate) = [1, 2]" by code_simp
  moreover obtain a where a: "map_of (g_active sample_gate) 0 = Some a"
  proof -
    have "map_option ae_ruleId (map_of (g_active sample_gate) 0) = Some ''r''" by code_simp
    then show ?thesis using that by auto
  qed
  ultimately show ?thesis using gate_complete_refills [OF sample_gate_reach a] by simp
qed

text \<open>
  The queues are served in order of arrival: the entry the drain promotes next was queued
  no later than any other waiting entry of any rule, it is the entry at the position reported,
  and none is found exactly when nothing waits.
\<close>

lemma findOldestQueued_is_oldest:
  assumes "reach gate_step ok (gate_init ma mq) g"
  shows "(findOldestQueued g = None \<longleftrightarrow> (\<forall>rule. queue_of g rule = []))
    \<and> (\<forall>e rule i. findOldestQueued g = Some (e, rule, i) \<longrightarrow>
         i < length (queue_of g rule) \<and> queue_of g rule ! i = e
         \<and> (\<forall>rule'. \<forall>e' \<in> set (queue_of g rule'). qe_enqueuedAt e \<le> qe_enqueuedAt e'))"
proof -
  have core: "gate_core g" using reach_gate_config [OF assms] by (simp add: gate_inv_def)
  note wf = gate_coreD(2) [OF core]
  have all: "\<exists>i. (e', rule', i) \<in> set (queued_entries g)" if "e' \<in> set (queue_of g rule')" for e' rule'
  proof -
    from that obtain q where q: "map_of (g_queues g) rule' = Some q" "e' \<in> set q"
      by (cases "map_of (g_queues g) rule'") (auto simp: queue_of_def)
    then obtain i where "i < length q" "q ! i = e'" by (auto simp: in_set_conv_nth)
    then show ?thesis using q(1) wf unfolding queued_entries_iff by (auto dest: map_of_SomeD)
  qed
  have "queued_entries g = [] \<longleftrightarrow> (\<forall>rule. queue_of g rule = [])"
  proof
    assume "queued_entries g = []"
    then show "\<forall>rule. queue_of g rule = []" using all by (metis all_not_in_conv empty_set set_empty)
  next
    assume "\<forall>rule. queue_of g rule = []"
    then have "map_of (g_queues g) rule = None" for rule
      using gate_coreD(4) [OF core, of rule]
      by (cases "map_of (g_queues g) rule") (auto simp: queue_of_def queue_ok_def dest: spec [of _ rule])
    then have "g_queues g = []" by (metis map_of_eq_empty_iff ext)
    then show "queued_entries g = []" by (simp add: queued_entries_def)
  qed
  then show ?thesis
    using all oldest_located [OF core] findOldestQueued_Some [of g] by (fastforce simp: findOldestQueued_None)
qed

section \<open>Duplicate suppression of discrete requests\<close>

fun discrete_only :: "gate_op \<Rightarrow> gate \<Rightarrow> bool" where
  "discrete_only (GSubmit r now) g = (\<not> coalescing r)"
| "discrete_only (GComplete h) g = True"

definition dedup_exact :: "gate \<Rightarrow> bool" where
  "dedup_exact g \<longleftrightarrow> finite (g_dedup g) \<and> held g = mset_set (g_dedup g)"

lemma active_delete:
  "jm_wf m \<Longrightarrow> map_of m h = Some a \<Longrightarrow>
    mset (map f (jm_values m)) = add_mset (f a) (mset (map f (jm_values (AList.delete h m))))"
  by (induction m) (auto simp: AList.delete_idem split: if_splits)

lemma dedup_exact_submit:
  assumes core: "gate_core g" and ex: "dedup_exact g" and d: "\<not> coalescing r"
  shows "dedup_exact (fst (gate_submit r now g))"
proof (cases "dedup_key r \<in> g_dedup g")
  case True
  then show ?thesis using ex d by (simp add: gate_submit_def Let_def dedup_exact_def held_def)
next
  case False
  have "dedup_exact (fst (gate_admit r (dedup_key r) g))"
    using ex False by (simp add: gate_admit_def dedup_exact_def held_def update_fresh [OF gate_next_fresh [OF core]])
  moreover have "dedup_exact (fst (gate_enqueue r (dedup_key r) now g))"
    using ex False by (simp add: gate_enqueue_def Let_def dedup_exact_def held_def waiting_snoc)
  ultimately show ?thesis using d False by (simp add: gate_submit_def Let_def admit_or_enqueue_def)
qed

lemma dedup_exact_complete:
  assumes core: "gate_core g" and ex: "dedup_exact g"
  shows "dedup_exact (gate_complete h g)"
proof (cases "map_of (g_active g) h")
  case None
  then show ?thesis using ex by (simp add: gate_complete_def)
next
  case (Some a)
  let ?g = "g\<lparr>g_active := AList.delete h (g_active g), g_dedup := g_dedup g - {ae_dedupKey a}\<rparr>"
  note act = gate_complete_active [OF core Some]
  have "held g = add_mset (ae_dedupKey a) (held ?g)"
    using active_delete [OF gate_coreD(1) [OF core] Some, of ae_dedupKey] by (simp add: held_def)
  then have "held ?g = mset_set (g_dedup g) - {#ae_dedupKey a#}"
    using ex by (metis add_mset_remove_trivial dedup_exact_def)
  moreover have "ae_dedupKey a \<in> g_dedup g"
    using ex \<open>held g = _\<close> by (metis dedup_exact_def finite_set_mset_mset_set union_single_eq_member)
  ultimately have "held ?g = mset_set (g_dedup ?g)"
    using ex by (simp add: dedup_exact_def mset_set_Diff)
  then show ?thesis
    using ex drain_settles(4,6) [OF act(2)] by (simp add: act(1) dedup_exact_def)
qed

interpretation discrete_gate: invariant_machine gate_step discrete_only "gate_init ma mq"
  "\<lambda>g. gate_inv g \<and> dedup_exact g" for ma mq
proof
  show "gate_inv (gate_init ma mq) \<and> dedup_exact (gate_init ma mq)"
    using exec_gate.inv_init by (simp add: dedup_exact_def held_def waiting_def gate_init_def)
  show "gate_inv (gate_step a g) \<and> dedup_exact (gate_step a g)"
    if "gate_inv g \<and> dedup_exact g" "discrete_only a g" for a g
    using that exec_gate.inv_step [of g a] dedup_exact_submit dedup_exact_complete
    by (cases a) (auto simp: gate_inv_def)
qed

text \<open>
  Duplicate suppression is exact for discrete requests: in a gate that has only seen
  discrete requests, the key of every execution is held at most once by the active and the
  waiting executions together, and a new discrete request is suppressed exactly when its key
  is held.
\<close>

lemma duplicate_suppression_exact:
  assumes "reach gate_step discrete_only (gate_init ma mq) g" and "\<not> coalescing r"
  shows "(\<forall>k. count (held g) k \<le> 1)
    \<and> (snd (gate_submit r now g) = SuppressedDuplicate \<longleftrightarrow> dedup_key r \<in># held g)"
proof -
  have ex: "dedup_exact g" using discrete_gate.reach_inv [OF assms(1)] by blast
  then have "count (held g) k \<le> 1" for k by (simp add: dedup_exact_def count_mset_set')
  moreover have "dedup_key r \<in># held g \<longleftrightarrow> dedup_key r \<in> g_dedup g" using ex by (simp add: dedup_exact_def)
  moreover have "snd (gate_submit r now g) = SuppressedDuplicate \<longleftrightarrow> dedup_key r \<in> g_dedup g"
    using assms(2) by (simp add: gate_submit_def Let_def admit_or_enqueue_def gate_admit_def gate_enqueue_def)
  ultimately show ?thesis by simp
qed

text \<open>Two active executions, one coalesced request behind the first, and the completion of the second.\<close>

definition coalesce_race :: gate where
  "coalesce_race = fold gate_step
     [GSubmit (sample_request ''a'' (Some ''k'') 1) 10, GSubmit (sample_request ''x'' None 2) 11,
      GSubmit (sample_request ''a'' (Some ''k'') 3) 12, GComplete 1] (gate_init (Some 2) (Some 3))"

text \<open>
  What the code does not keep: with a second execution running, completing it promotes a
  coalesced request while an execution with the same coalesce key is still active, although
  the request was queued to wait for that one. And after a coalesced pair, the completion of
  the first forgets the key the second still holds.
\<close>

lemma coalesced_serialization_broken:
  "reach gate_step (\<lambda>_ _. True) (gate_init (Some 2) (Some 3)) coalesce_race
    \<and> map (ae_coalesceKey \<circ> snd) (g_active coalesce_race) = [Some ''k'', Some ''k'']
    \<and> g_started coalesce_race = [1, 2, 3]
    \<and> ''r:d:a'' \<in># held (gate_complete 0 coalesce_race) \<and> ''r:d:a'' \<notin> g_dedup (gate_complete 0 coalesce_race)"
proof (intro conjI)
  show "reach gate_step (\<lambda>_ _. True) (gate_init (Some 2) (Some 3)) coalesce_race"
    unfolding coalesce_race_def fold_simps by (intro reach_step reach_init) simp_all
  show "map (ae_coalesceKey \<circ> snd) (g_active coalesce_race) = [Some ''k'', Some ''k'']" by code_simp
  show "g_started coalesce_race = [1, 2, 3]" by code_simp
  show "''r:d:a'' \<in># held (gate_complete 0 coalesce_race)" by code_simp
  show "''r:d:a'' \<notin> g_dedup (gate_complete 0 coalesce_race)" by code_simp
qed

section \<open>Results of an execution\<close>

lemma first_problem_None: "first_problem i rs = None \<longleftrightarrow> (\<forall>r \<in> set rs. \<exists>x. r = Some x \<and> xr_success x)"
  by (induction i rs rule: first_problem.induct) auto

lemma first_problem_Some:
  "first_problem i rs = Some (j, p) \<Longrightarrow> i \<le> j \<and> j - i < length rs \<and> rs ! (j - i) = p
    \<and> (p = None \<or> (\<exists>x. p = Some x \<and> \<not> xr_success x))
    \<and> (\<forall>r \<in> set (take (j - i) rs). \<exists>x. r = Some x \<and> xr_success x)"
  by (induction i rs rule: first_problem.induct) (auto split: if_splits simp: Suc_diff_le nth_Cons' take_Cons')

text \<open>
  The outcome of an execution is honest: it is a success exactly when the logic completed
  and every command result is present and successful, a reason is given exactly when it is
  not, it keeps the results in order, and a missing result is named by the index of the first
  problem.
\<close>

lemma execution_result_honest:
  "(er_success (assembleExecutionResult xid logic rs) \<longleftrightarrow>
       lo_ok logic \<and> (\<forall>r \<in> set rs. \<exists>x. r = Some x \<and> xr_success x))
    \<and> (er_failureReason (assembleExecutionResult xid logic rs) = None \<longleftrightarrow>
         er_success (assembleExecutionResult xid logic rs))
    \<and> er_commandResults (assembleExecutionResult xid logic rs) = rs
    \<and> (\<forall>n. n < length rs \<and> rs ! n = None \<and> (\<forall>r \<in> set (take n rs). \<exists>x. r = Some x \<and> xr_success x) \<longrightarrow>
         er_failureReason (assembleExecutionResult xid logic rs)
           = Some (''Missing command result at index '' @ show_nat n))"
proof (cases "first_problem 0 rs")
  case None
  then have all: "\<forall>r \<in> set rs. \<exists>x. r = Some x \<and> xr_success x" by (simp only: first_problem_None)
  then have nn: False if "n < length rs" "rs ! n = None" for n using that by (metis nth_mem option.distinct(1))
  then show ?thesis using all by (auto simp: assembleExecutionResult_def None dest: nn)
next
  case (Some p)
  obtain j q where p: "p = (j, q)" by (cases p)
  have j: "j < length rs" "rs ! j = q" "q = None \<or> (\<exists>x. q = Some x \<and> \<not> xr_success x)"
    "\<forall>r \<in> set (take j rs). \<exists>x. r = Some x \<and> xr_success x"
    using first_problem_Some [of 0 rs j q] Some p by auto
  have bad: "\<not> (\<forall>r \<in> set rs. \<exists>x. r = Some x \<and> xr_success x)"
    using j(1-3) by (metis nth_mem option.distinct(1) option.inject)
  have first: "n = j" if n: "n < length rs" "rs ! n = None" "\<forall>r \<in> set (take n rs). \<exists>x. r = Some x \<and> xr_success x" for n
  proof (rule ccontr)
    assume "n \<noteq> j"
    then consider "n < j" | "j < n" by linarith
    then show False
    proof cases
      case 1
      then have "rs ! n \<in> set (take j rs)" using n(1) by (metis in_set_conv_nth j(1) length_take min.absorb4 nth_take)
      then show False using j(4) n(2) by auto
    next
      case 2
      then have "rs ! j \<in> set (take n rs)" using j(1) by (metis in_set_conv_nth length_take min.absorb4 n(1) nth_take)
      then show False using n(3) j(2,3) by auto
    qed
  qed
  show ?thesis
    using bad first j(2) by (auto simp: assembleExecutionResult_def Some p)
qed

text \<open>The collector returns the results of an execution in the order they were pushed, whatever interleaves.\<close>

lemma collector_close_order:
  "fst (collector_close xid (fold (\<lambda>(x, r) c. collector_push x r c) ps (collector_open xid c)))
    = map snd (filter (\<lambda>(x, r). x = xid) ps)"
proof -
  have "map_of (fold (\<lambda>(x, r) c. collector_push x r c) ps c) xid
      = Some (b @ map snd (filter (\<lambda>(x, r). x = xid) ps))" if "map_of c xid = Some b" for c b
    using that
  proof (induction ps arbitrary: c b)
    case (Cons p ps)
    show ?case
    proof (cases "fst p = xid")
      case True
      then show ?thesis
        using Cons.IH [of "collector_push (fst p) (snd p) c" "b @ [snd p]"] Cons.prems
        by (simp add: collector_push_def split_beta)
    next
      case False
      then have "map_of (collector_push (fst p) (snd p) c) xid = Some b"
        using Cons.prems by (simp add: collector_push_def split: option.splits)
      then show ?thesis using Cons.IH False by (simp add: split_beta)
    qed
  qed simp
  from this [of "collector_open xid c" "[]"] show ?thesis by (simp add: collector_open_def collector_close_def)
qed

section \<open>What a client of the gate may rely on\<close>

text \<open>
  The gate seen by the engine: thunks are started in order, the handle of a started thunk is its
  position, a submission starts its own thunk or none, completing a handle frees it and starts
  waiting thunks, and thunks are neither invented nor duplicated. The law of interest to a client
  follows: a thunk with a fresh name is started at most once.
\<close>

locale slot_provider =
  fixes good :: "'s \<Rightarrow> bool"
    and submit :: "'r \<Rightarrow> 's \<Rightarrow> 's" and complete :: "nat \<Rightarrow> 's \<Rightarrow> 's"
    and name_of :: "'r \<Rightarrow> nat" and active :: "'s \<Rightarrow> nat set"
    and started :: "'s \<Rightarrow> nat list" and pending :: "'s \<Rightarrow> nat multiset"
  assumes good_submit: "good s \<Longrightarrow> good (submit r s)"
    and good_complete: "good s \<Longrightarrow> good (complete h s)"
    and active_started: "good s \<Longrightarrow> active s \<subseteq> {..<length (started s)}"
    and submit_starts: "good s \<Longrightarrow> \<exists>new. set new \<subseteq> {name_of r} \<and> started (submit r s) = started s @ new
      \<and> active (submit r s) = active s \<union> {length (started s)..<length (started s) + length new}"
    and submit_accounts: "good s \<Longrightarrow>
      mset (started (submit r s)) + pending (submit r s) \<subseteq># mset (started s) + pending s + {#name_of r#}"
    and complete_starts: "good s \<Longrightarrow> h \<in> active s \<Longrightarrow> \<exists>new. started (complete h s) = started s @ new
      \<and> active (complete h s) = (active s - {h}) \<union> {length (started s)..<length (started s) + length new}"
    and complete_accounts: "good s \<Longrightarrow> h \<in> active s \<Longrightarrow>
      mset (started (complete h s)) + pending (complete h s) = mset (started s) + pending s"
begin

definition once :: "nat \<Rightarrow> 's \<Rightarrow> bool" where
  "once n s \<longleftrightarrow> (\<forall>x. count (mset (started s) + pending s) x \<le> (if x < n then 1 else 0))"

lemma once_submit: "good s \<Longrightarrow> once n s \<Longrightarrow> name_of r = n \<Longrightarrow> once (Suc n) (submit r s)"
  unfolding once_def
proof (intro allI)
  fix x
  assume g: "good s" and o: "\<forall>x. count (mset (started s) + pending s) x \<le> (if x < n then 1 else 0)" and n: "name_of r = n"
  have "count (mset (started (submit r s)) + pending (submit r s)) x \<le> count (mset (started s) + pending s + {#name_of r#}) x"
    by (rule mset_subset_eq_count [OF submit_accounts [OF g]])
  also have "\<dots> \<le> (if x < Suc n then 1 else 0)" using o [rule_format, of x] n by (auto split: if_splits)
  finally show "count (mset (started (submit r s)) + pending (submit r s)) x \<le> (if x < Suc n then 1 else 0)" .
qed

lemma once_complete: "good s \<Longrightarrow> h \<in> active s \<Longrightarrow> once n s \<Longrightarrow> once n (complete h s)"
  unfolding once_def by (simp add: complete_accounts)

lemma once_distinct: "once n s \<Longrightarrow> distinct (started s) \<and> set (started s) \<subseteq> {..<n}"
proof
  assume o: "once n s"
  have c: "count (mset (started s)) x \<le> (if x < n then 1 else 0)" for x
    using o unfolding once_def by (metis count_union le_add1 le_trans)
  show "distinct (started s)"
    unfolding distinct_count_atmost_1
  proof (intro allI)
    fix x show "count (mset (started s)) x = (if x \<in> set (started s) then 1 else 0)"
      using c [of x] count_mset_0_iff [of "started s" x] by (auto split: if_splits simp: le_Suc_eq)
  qed
  show "set (started s) \<subseteq> {..<n}"
  proof
    fix x assume "x \<in> set (started s)"
    then have "count (mset (started s)) x \<noteq> 0" by (simp add: count_mset_0_iff)
    then show "x \<in> {..<n}" using c [of x] by (auto split: if_splits)
  qed
qed

end

definition gate_good :: "gate \<Rightarrow> bool" where
  "gate_good g \<longleftrightarrow> gate_inv g \<and> g_next g = length (g_started g)"

definition gate_handles :: "gate \<Rightarrow> nat set" where
  "gate_handles g = fst ` set (g_active g)"

lemma drain_loop_starts:
  assumes "gate_core g" "g_next g = length (g_started g)"
  shows "\<exists>new. g_started (drain_loop n g) = g_started g @ new \<and> g_next (drain_loop n g) = length (g_started (drain_loop n g))
    \<and> gate_handles (drain_loop n g) = gate_handles g \<union> {length (g_started g)..<length (g_started g) + length new}"
  using assms
proof (induction n g rule: drain_loop.induct)
  case (1 g)
  then show ?case by (intro exI [of _ "[]"]) simp
next
  case (2 n g)
  show ?case
  proof (cases "int (length (g_active g)) < maxActive (g_config g) \<and> findOldestQueued g \<noteq> None")
    case False
    then have "drain_loop (Suc n) g = g" by (auto split: option.splits)
    then show ?thesis using 2(3) by (intro exI [of _ "[]"]) simp
  next
    case True
    then obtain e rule i where o: "findOldestQueued g = Some (e, rule, i)" by auto
    let ?g = "drain_step e rule i g"
    have st: "g_started ?g = g_started g @ [thunk e]" "g_next ?g = length (g_started ?g)"
      "gate_handles ?g = insert (length (g_started g)) (gate_handles g)"
      using 2(3) by (simp_all add: drain_step_def Let_def thunk_def gate_handles_def dom_update)
    have "gate_core ?g" using 2(2) True o by (intro gate_core_drain_step) simp_all
    moreover have eq: "drain_loop (Suc n) g = drain_loop n ?g" using True o by simp
    ultimately obtain new where new: "g_started (drain_loop (Suc n) g) = g_started ?g @ new"
      "g_next (drain_loop (Suc n) g) = length (g_started (drain_loop (Suc n) g))"
      "gate_handles (drain_loop (Suc n) g) = gate_handles ?g \<union> {length (g_started ?g)..<length (g_started ?g) + length new}"
      using 2(1) [OF True [THEN conjunct1] o refl refl _ st(2)] unfolding eq by blast
    have "insert (length (g_started g)) A \<union> {Suc (length (g_started g))..<m} = A \<union> {length (g_started g)..<m}"
      if "length (g_started g) < m" for A m using that by auto
    then have "gate_handles (drain_loop (Suc n) g) = gate_handles g \<union> {length (g_started g)..<length (g_started g) + length (thunk e # new)}"
      unfolding new(3) st by simp
    then show ?thesis using new(1,2) st(1) by (intro exI [of _ "thunk e # new"]) (simp del: drain_loop.simps)
  qed
qed

lemma coalesce_waiting:
  "coalesce_into r q = Some q' \<Longrightarrow> mset (map thunk q') \<subseteq># mset (map thunk q) + {#rq_execute r#}"
proof (induction q arbitrary: q')
  case (Cons e q)
  show ?case
  proof (cases "rq_coalesceKey (qe_request e) = rq_coalesceKey r")
    case True
    then show ?thesis using Cons.prems by (auto simp: thunk_def)
  next
    case False
    then obtain t where "coalesce_into r q = Some t" "q' = e # t" using Cons.prems by auto
    then show ?thesis using Cons.IH by simp
  qed
qed simp

lemma handles_active: "gate_handles g = dom (map_of (g_active g))"
  by (simp add: gate_handles_def dom_map_of_conv_image_fst)

lemma gate_submit_effect:
  assumes "gate_good g"
  shows "(\<exists>new. set new \<subseteq> {rq_execute r} \<and> g_started (fst (gate_submit r now g)) = g_started g @ new
      \<and> gate_handles (fst (gate_submit r now g)) = gate_handles g \<union> {length (g_started g)..<length (g_started g) + length new}
      \<and> g_next (fst (gate_submit r now g)) = length (g_started g) + length new)
    \<and> mset (g_started (fst (gate_submit r now g))) + waiting thunk (g_queues (fst (gate_submit r now g)))
        \<subseteq># mset (g_started g) + waiting thunk (g_queues g) + {#rq_execute r#}"
proof -
  let ?P = "\<lambda>g'. (\<exists>new. set new \<subseteq> {rq_execute r} \<and> g_started g' = g_started g @ new
      \<and> gate_handles g' = gate_handles g \<union> {length (g_started g)..<length (g_started g) + length new}
      \<and> g_next g' = length (g_started g) + length new)
    \<and> mset (g_started g') + waiting thunk (g_queues g') \<subseteq># mset (g_started g) + waiting thunk (g_queues g) + {#rq_execute r#}"
  have core: "gate_core g" and n: "g_next g = length (g_started g)" using assms by (simp_all add: gate_good_def gate_inv_def)
  have quiet: "?P g'" if "g_started g' = g_started g" "g_active g' = g_active g" "g_next g' = g_next g"
    "waiting thunk (g_queues g') \<subseteq># waiting thunk (g_queues g) + {#rq_execute r#}" for g'
    using that n by (intro conjI exI [of _ "[]"]) (simp_all add: gate_handles_def ac_simps)
  have enq: "?P (fst (gate_enqueue r key now g))" for key
    using waiting_snoc [of thunk r g "\<lparr>qe_request = r, qe_dedupKey = key, qe_enqueuedAt = now\<rparr>"]
    by (intro quiet) (auto simp: gate_enqueue_def Let_def thunk_def)
  have adm: "?P (fst (gate_admit r key g))" for key
    using n by (intro conjI exI [of _ "[rq_execute r]"]) (auto simp: gate_admit_def gate_handles_def dom_update)
  have coal: "?P (g\<lparr>g_queues := AList.update (rq_ruleId r) q' (g_queues g)\<rparr>)"
    if c: "coalesce_into r (queue_of g (rq_ruleId r)) = Some q'" for q'
  proof (rule quiet)
    obtain q where q: "map_of (g_queues g) (rq_ruleId r) = Some q" "queue_of g (rq_ruleId r) = q"
      using c by (cases "map_of (g_queues g) (rq_ruleId r)") (auto simp: queue_of_def)
    have "waiting thunk (g_queues g) + mset (map thunk q') = mset (map thunk q) + waiting thunk (AList.update (rq_ruleId r) q' (g_queues g))"
      by (rule waiting_update [OF gate_coreD(2) [OF core] q(1)])
    also have "\<dots> = mset (map thunk q) + waiting thunk (g_queues (g\<lparr>g_queues := AList.update (rq_ruleId r) q' (g_queues g)\<rparr>))" by simp
    finally have "mset (map thunk q) + waiting thunk (g_queues (g\<lparr>g_queues := AList.update (rq_ruleId r) q' (g_queues g)\<rparr>))
        \<subseteq># waiting thunk (g_queues g) + (mset (map thunk q) + {#rq_execute r#})"
      using coalesce_waiting [of r q q'] c q(2) by (metis mset_subset_eq_mono_add subset_mset.order_refl)
    then show "waiting thunk (g_queues (g\<lparr>g_queues := AList.update (rq_ruleId r) q' (g_queues g)\<rparr>))
        \<subseteq># waiting thunk (g_queues g) + {#rq_execute r#}"
      unfolding add.left_commute [of "waiting thunk (g_queues g)"] mset_subset_eq_mono_add_left_cancel .
  qed simp_all
  have sup: "?P (g\<lparr>g_events := ev\<rparr>)" for ev by (rule quiet) simp_all
  show ?thesis unfolding gate_submit_def Let_def
    using enq adm coal sup by (auto simp: admit_or_enqueue_def split: option.split)
qed

lemma gate_complete_effect:
  assumes "gate_good g" and "h \<in> gate_handles g"
  shows "\<exists>new. g_started (gate_complete h g) = g_started g @ new
      \<and> gate_handles (gate_complete h g) = (gate_handles g - {h}) \<union> {length (g_started g)..<length (g_started g) + length new}"
    and "g_next (gate_complete h g) = length (g_started (gate_complete h g))"
    and "mset (g_started (gate_complete h g)) + waiting thunk (g_queues (gate_complete h g)) = mset (g_started g) + waiting thunk (g_queues g)"
proof -
  have core: "gate_core g" and n: "g_next g = length (g_started g)" using assms(1) by (simp_all add: gate_good_def gate_inv_def)
  obtain a where a: "map_of (g_active g) h = Some a" using assms(2) by (auto simp: handles_active)
  let ?g = "g\<lparr>g_active := AList.delete h (g_active g), g_dedup := g_dedup g - {ae_dedupKey a}\<rparr>"
  note g1 = gate_complete_active(1,2) [OF core a]
  have h1: "gate_handles ?g = gate_handles g - {h}" by (auto simp: handles_active)
  show "\<exists>new. g_started (gate_complete h g) = g_started g @ new
      \<and> gate_handles (gate_complete h g) = (gate_handles g - {h}) \<union> {length (g_started g)..<length (g_started g) + length new}"
    "g_next (gate_complete h g) = length (g_started (gate_complete h g))"
    using drain_loop_starts [OF g1(2), of "length (queued_entries ?g)"] n h1 by (auto simp: g1(1) gate_drain_def)
  show "mset (g_started (gate_complete h g)) + waiting thunk (g_queues (gate_complete h g)) = mset (g_started g) + waiting thunk (g_queues g)"
    using drain_settles(3) [OF g1(2)] by (simp add: g1(1))
qed

lemma gate_complete_stale: "h \<notin> gate_handles g \<Longrightarrow> gate_complete h g = g"
  by (auto simp: handles_active gate_complete_def split: option.splits)

lemma gate_good_submit: "gate_good g \<Longrightarrow> gate_good (fst (gate_submit r now g))"
  using gate_submit_effect [of g r now] exec_gate.inv_step [of g "GSubmit r now"] by (auto simp: gate_good_def)

lemma gate_good_complete: "gate_good g \<Longrightarrow> gate_good (gate_complete h g)"
  using gate_complete_effect(2) [of g h] gate_complete_stale [of h g] gate_inv_complete [of g h]
  by (cases "h \<in> gate_handles g") (auto simp: gate_good_def)

interpretation slots: slot_provider gate_good "\<lambda>(r, now) g. fst (gate_submit r now g)" gate_complete
  "\<lambda>(r, now). rq_execute r" gate_handles g_started "\<lambda>g. waiting thunk (g_queues g)"
proof
  fix g and rn :: "execution_request \<times> ms" and h assume g: "gate_good g"
  show "gate_good ((\<lambda>(r, now) g. fst (gate_submit r now g)) rn g)" "gate_good (gate_complete h g)"
    using g by (simp_all add: case_prod_beta gate_good_submit gate_good_complete)
  show "gate_handles g \<subseteq> {..<length (g_started g)}"
    using g gate_coreD(3) [of g] by (auto simp: gate_good_def gate_inv_def handles_active)
  show "\<exists>new. set new \<subseteq> {(\<lambda>(r, now). rq_execute r) rn} \<and> g_started ((\<lambda>(r, now) g. fst (gate_submit r now g)) rn g) = g_started g @ new
      \<and> gate_handles ((\<lambda>(r, now) g. fst (gate_submit r now g)) rn g) = gate_handles g \<union> {length (g_started g)..<length (g_started g) + length new}"
    "mset (g_started ((\<lambda>(r, now) g. fst (gate_submit r now g)) rn g)) + waiting thunk (g_queues ((\<lambda>(r, now) g. fst (gate_submit r now g)) rn g))
      \<subseteq># mset (g_started g) + waiting thunk (g_queues g) + {#(\<lambda>(r, now). rq_execute r) rn#}"
    using gate_submit_effect [OF g, of "fst rn" "snd rn"] by (auto simp: case_prod_beta)
  show "h \<in> gate_handles g \<Longrightarrow> \<exists>new. g_started (gate_complete h g) = g_started g @ new
      \<and> gate_handles (gate_complete h g) = (gate_handles g - {h}) \<union> {length (g_started g)..<length (g_started g) + length new}"
    "h \<in> gate_handles g \<Longrightarrow> mset (g_started (gate_complete h g)) + waiting thunk (g_queues (gate_complete h g)) = mset (g_started g) + waiting thunk (g_queues g)"
    using gate_complete_effect [OF g] by blast+
qed

end
