(* ===== verification/Mqtt_Topics.thy ===== *)
theory Mqtt_Topics
  imports Command_Lifecycle
begin

text \<open>
  MQTT topics: filter matching and validation (src/mqtt/topic-filter.ts), topic parsing
  (topic-parser.ts), the raw-publish policy (publish-policy.ts), the private-topic store
  (private-topic-store.ts) and the command envelope (command-envelope.ts).

  The matching loop and the prefix test work on strings; the lemmas relate them to what MQTT
  says about topic levels: a filter matches by levels, a prefix matches at a level boundary.
  The publish decision is characterised completely, the parser is inverted by the printer on
  topics without empty levels and hyphens, and the cache of the private-topic store always
  answers for the table. \<open>randomUUID()\<close> and \<open>Date.now()\<close> are arguments.
\<close>

section \<open>Topic filters\<close>

abbreviation (input) levels :: "string \<Rightarrow> string list" where
  "levels \<equiv> js_split (CHR ''/'')"

text \<open>The loop of \<open>matchesTopicFilter\<close> from index \<open>i\<close>: the filter parts still to visit.\<close>

fun match_loop :: "nat \<Rightarrow> string list \<Rightarrow> string list \<Rightarrow> bool" where
  "match_loop i [] topicParts = (i = length topicParts)"
| "match_loop i (part # rest) topicParts =
     (if part = ''#'' then True
      else if part = ''+'' then
        (if i \<ge> length topicParts then False else match_loop (Suc i) rest topicParts)
      else if i \<ge> length topicParts \<or> part \<noteq> topicParts ! i then False
      else match_loop (Suc i) rest topicParts)"

definition matchesTopicFilter :: "string \<Rightarrow> string \<Rightarrow> bool" where
  "matchesTopicFilter flt topic =
     (if flt = '''' \<or> topic = '''' then False
      else if flt = topic then True
      else match_loop 0 (levels flt) (levels topic))"

text \<open>The loop of \<open>isValidTopicFilter\<close>: the levels still to visit.\<close>

fun valid_levels :: "string list \<Rightarrow> bool" where
  "valid_levels [] = True"
| "valid_levels (level # rest) =
     (if js_includes level (CHR ''#'') then
        (if level \<noteq> ''#'' \<or> rest \<noteq> [] then False else valid_levels rest)
      else if js_includes level (CHR ''+'') then
        (if level \<noteq> ''+'' then False else valid_levels rest)
      else valid_levels rest)"

definition isValidTopicFilter :: "string \<Rightarrow> bool" where
  "isValidTopicFilter flt =
     (if flt = '''' \<or> length flt > 65535 \<or> js_includes flt (CHR 0x00) then False
      else valid_levels (levels flt))"

section \<open>Topic parsing\<close>

record parsed_topic =
  pt_deviceId :: string
  pt_deviceType :: string
  pt_name :: string

definition KNOWN_TYPES :: "string list" where
  "KNOWN_TYPES = [''sensor'', ''switch'', ''light'', ''climate'', ''plug'', ''valve'', ''pump'',
     ''motion'', ''fan'', ''lock'', ''cover'']"

text \<open>
  Case mapping on code units below 256: the letters A to Z and the accented capitals. The
  capital of the sharp s is \<open>SS\<close>; the two letters whose capital is not below 256 are kept.
\<close>

definition lower_char :: "char \<Rightarrow> char" where
  "lower_char c = (let n = of_char c :: nat
     in if 65 \<le> n \<and> n \<le> 90 \<or> 192 \<le> n \<and> n \<le> 222 \<and> n \<noteq> 215 then char_of (n + 32) else c)"

definition upper_char :: "char \<Rightarrow> string" where
  "upper_char c = (let n = of_char c :: nat
     in if n = 223 then ''SS''
        else if 97 \<le> n \<and> n \<le> 122 \<or> 224 \<le> n \<and> n \<le> 254 \<and> n \<noteq> 247 then [char_of (n - 32)] else [c])"

definition js_toLowerCase :: "string \<Rightarrow> string" where
  "js_toLowerCase s = map lower_char s"

definition titleCase :: "string \<Rightarrow> string" where
  "titleCase s = (case s of [] \<Rightarrow> [] | c # cs \<Rightarrow> upper_char c @ cs)"

definition topic_segments :: "string \<Rightarrow> string list" where
  "topic_segments topic = filter (\<lambda>s. length s > 0) (levels topic)"

definition parseTopic :: "string \<Rightarrow> parsed_topic option" where
  "parseTopic topic =
     (if topic = '''' then None
      else let segments = topic_segments topic
           in case segments of
                [] \<Rightarrow> None
              | seg # rest \<Rightarrow>
                  (let deviceId = js_join ''-'' segments;
                       deviceType = js_toLowerCase seg;
                       name = (if rest = [] then titleCase seg
                               else if deviceType \<in> set KNOWN_TYPES then js_join '' '' (map titleCase rest)
                               else js_join '' '' (map titleCase segments))
                   in Some \<lparr>pt_deviceId = deviceId, pt_deviceType = deviceType, pt_name = name\<rparr>))"

definition prettyPrintTopic :: "parsed_topic \<Rightarrow> string" where
  "prettyPrintTopic parsed = js_join ''/'' (js_split (CHR ''-'') (pt_deviceId parsed))"

section \<open>The publish policy\<close>

datatype topic_class = ReservedSystem | UserNamespace | Other

record publish_policy_config =
  userNamespacePrefix :: string
  reservedSystemPrefixes :: "string list"
  maxPayloadBytes :: int

datatype publish_decision = Allow | Deny nat string

datatype principal_role = RAdmin | RUser

record publish_input =
  pi_role :: principal_role
  pi_topic :: string
  pi_retain :: bool
  pi_payloadBytes :: int

definition prefix_base :: "string \<Rightarrow> string" where
  "prefix_base p = (if suffix ''/'' p then take (length p - 1) p else p)"

definition segmentBoundaryMatch :: "string \<Rightarrow> string \<Rightarrow> bool" where
  "segmentBoundaryMatch topic p =
     (let base = prefix_base p
      in if length base = 0 then False
         else topic = base \<or> js_startsWith topic (base @ ''/''))"

definition classifyTopic :: "string \<Rightarrow> publish_policy_config \<Rightarrow> topic_class" where
  "classifyTopic topic config =
     (if \<exists>p \<in> set (reservedSystemPrefixes config). segmentBoundaryMatch topic p then ReservedSystem
      else if segmentBoundaryMatch topic (userNamespacePrefix config) then UserNamespace
      else Other)"

definition isPolicyConfigValid :: "publish_policy_config \<Rightarrow> bool" where
  "isPolicyConfigValid config =
     (\<not> (\<exists>p \<in> set (reservedSystemPrefixes config). segmentBoundaryMatch (userNamespacePrefix config) p))"

definition hasWildcard :: "string \<Rightarrow> bool" where
  "hasWildcard topic \<longleftrightarrow> js_includes topic (CHR ''+'') \<or> js_includes topic (CHR ''#'')"

definition evaluatePublish :: "publish_input \<Rightarrow> publish_policy_config \<Rightarrow> publish_decision" where
  "evaluatePublish i config =
     (if hasWildcard (pi_topic i) then Deny 400 ''topic must not contain MQTT wildcards (+ or #)''
      else let isAdmin = (pi_role i = RAdmin)
           in if \<not> isAdmin \<and> \<not> isPolicyConfigValid config
              then Deny 403 ''publish namespace configuration is invalid''
              else let topicClass = classifyTopic (pi_topic i) config
                   in if topicClass = ReservedSystem then Deny 403 ''topic is in a reserved system namespace''
                      else if \<not> isAdmin \<and> topicClass = Other
                      then Deny 403 ''non-admin publish outside the user namespace''
                      else if \<not> isAdmin \<and> pi_retain i
                      then Deny 403 ''non-admin publish may not set the retain flag''
                      else if pi_payloadBytes i > maxPayloadBytes config
                      then Deny 413 ''payload exceeds the maximum size''
                      else Allow)"

section \<open>Private topics\<close>

record private_topic =
  pv_id :: string
  pv_pattern :: string
  pv_createdAt :: ms

text \<open>The table \<open>mqtt_private_topics\<close> and the cached patterns.\<close>

record private_topic_store =
  pv_rows :: "private_topic list"
  pv_patterns :: "string list"

definition private_refresh :: "private_topic_store \<Rightarrow> private_topic_store" where
  "private_refresh s = s\<lparr>pv_patterns := map pv_pattern (pv_rows s)\<rparr>"

definition createPrivateTopicStore :: "private_topic list \<Rightarrow> private_topic_store" where
  "createPrivateTopicStore rows = private_refresh \<lparr>pv_rows = rows, pv_patterns = []\<rparr>"

definition isPrivate :: "string \<Rightarrow> private_topic_store \<Rightarrow> bool" where
  "isPrivate topic s = (\<exists>p \<in> set (pv_patterns s). matchesTopicFilter p topic)"

definition private_list :: "private_topic_store \<Rightarrow> private_topic list" where
  "private_list s = rev (sort_key pv_createdAt (rev (pv_rows s)))"

definition private_add ::
  "string \<Rightarrow> string \<Rightarrow> ms \<Rightarrow> private_topic_store \<Rightarrow> (string + private_topic) \<times> private_topic_store" where
  "private_add pattern uuid now s =
     (let trimmed = js_trim pattern
      in if trimmed = '''' then (Inl ''Private topic pattern must not be empty'', s)
         else if \<not> isValidTopicFilter trimmed
         then (Inl ''Private topic pattern is not a valid MQTT topic filter'', s)
         else case find (\<lambda>r. pv_pattern r = trimmed) (pv_rows s) of
                Some existing \<Rightarrow> (Inr existing, s)
              | None \<Rightarrow>
                  let row = \<lparr>pv_id = uuid, pv_pattern = trimmed, pv_createdAt = now\<rparr>
                  in (Inr row, private_refresh (s\<lparr>pv_rows := pv_rows s @ [row]\<rparr>)))"

definition private_remove :: "string \<Rightarrow> private_topic_store \<Rightarrow> bool \<times> private_topic_store" where
  "private_remove rid s =
     (let rows' = filter (\<lambda>r. pv_id r \<noteq> rid) (pv_rows s)
      in if length rows' < length (pv_rows s) then (True, private_refresh (s\<lparr>pv_rows := rows'\<rparr>))
         else (False, s\<lparr>pv_rows := rows'\<rparr>))"

section \<open>The command envelope\<close>

record command_envelope =
  env_correlationId :: string
  env_responseTopic :: string
  env_payload :: jsobj

definition buildCommandEnvelope :: "jsobj \<Rightarrow> string \<Rightarrow> string option \<Rightarrow> string \<Rightarrow> command_envelope" where
  "buildCommandEnvelope basePayload responseTopic correlationId uuid =
     (let c = (case correlationId of Some x \<Rightarrow> x | None \<Rightarrow> uuid)
      in \<lparr>env_correlationId = c, env_responseTopic = responseTopic,
          env_payload = js_spread basePayload
            [(''correlationId'', JStr c), (''responseTopic'', JStr responseTopic)]\<rparr>)"

section \<open>Matching by levels\<close>

text \<open>What MQTT says: \<open>+\<close> stands for any level, and a final \<open>#\<close> for any number of levels.\<close>

definition level_ok :: "string \<Rightarrow> string \<Rightarrow> bool" where
  "level_ok f t \<longleftrightarrow> f = ''+'' \<or> f = t"

definition mqtt_matches :: "string list \<Rightarrow> string list \<Rightarrow> bool" where
  "mqtt_matches fs ts \<longleftrightarrow>
     (if fs \<noteq> [] \<and> last fs = ''#''
      then (\<exists>us vs. ts = us @ vs \<and> list_all2 level_ok (butlast fs) us)
      else list_all2 level_ok fs ts)"

lemma valid_levels_hash: "valid_levels (part # rest) \<Longrightarrow> part = ''#'' \<Longrightarrow> rest = []"
  by (auto split: if_splits)

lemma valid_levels_tl: "valid_levels (part # rest) \<Longrightarrow> valid_levels rest"
  by (auto split: if_splits)

lemma mqtt_matches_Cons:
  assumes "part \<noteq> ''#''"
  shows "mqtt_matches (part # rest) ts \<longleftrightarrow> (\<exists>u us. ts = u # us \<and> level_ok part u \<and> mqtt_matches rest us)"
proof (cases "rest \<noteq> [] \<and> last rest = ''#''")
  case True
  have "(\<exists>us vs. ts = us @ vs \<and> list_all2 level_ok (part # butlast rest) us) \<longleftrightarrow>
      (\<exists>u us'. ts = u # us' \<and> level_ok part u \<and> (\<exists>us vs. us' = us @ vs \<and> list_all2 level_ok (butlast rest) us))"
    by (auto simp: list_all2_Cons1) (metis append_Cons)+
  then show ?thesis using True by (simp add: mqtt_matches_def)
next
  case False
  then have "\<not> (part # rest \<noteq> [] \<and> last (part # rest) = ''#'')" using assms by auto
  then show ?thesis using False by (auto simp: mqtt_matches_def list_all2_Cons1)
qed

lemma match_loop_levels:
  "valid_levels fs \<Longrightarrow> i \<le> length ts \<Longrightarrow> match_loop i fs ts \<longleftrightarrow> mqtt_matches fs (drop i ts)"
proof (induction i fs ts rule: match_loop.induct)
  case (1 i ts)
  then show ?case by (auto simp: mqtt_matches_def)
next
  case (2 i part rest ts)
  show ?case
  proof (cases "part = ''#''")
    case True
    then have "rest = []" using 2(3) valid_levels_hash by blast
    then show ?thesis using True by (simp add: mqtt_matches_def)
  next
    case False
    have d: "drop i ts = (if i < length ts then ts ! i # drop (Suc i) ts else [])"
      using Cons_nth_drop_Suc [of i ts] by auto
    show ?thesis
      using 2 False valid_levels_tl [OF 2(3)] by (auto simp: mqtt_matches_Cons d level_ok_def)
  qed
qed

lemma mqtt_matches_refl: "valid_levels fs \<Longrightarrow> mqtt_matches fs fs"
proof (induction fs)
  case (Cons f fs)
  show ?case
  proof (cases "f = ''#''")
    case True
    then show ?thesis using valid_levels_hash [OF Cons.prems] by (simp add: mqtt_matches_def)
  next
    case False
    then show ?thesis
      using Cons.IH [OF valid_levels_tl [OF Cons.prems]] by (simp add: mqtt_matches_Cons level_ok_def)
  qed
qed (simp add: mqtt_matches_def)

lemma matches_levels:
  assumes "isValidTopicFilter f" and "t \<noteq> ''''"
  shows "matchesTopicFilter f t \<longleftrightarrow> mqtt_matches (levels f) (levels t)"
proof -
  have v: "valid_levels (levels f)" and ne: "f \<noteq> ''''" using assms(1) by (auto simp: isValidTopicFilter_def split: if_splits)
  then show ?thesis
    using assms(2) match_loop_levels [OF v, of 0 "levels t"] mqtt_matches_refl [OF v]
    by (auto simp: matchesTopicFilter_def)
qed

text \<open>
  Filter matching is MQTT's: a valid filter matches a topic exactly when the levels agree
  one by one, \<open>+\<close> standing for any one level, or, for a filter that ends in the level
  \<open>#\<close>, when the levels before it agree with a leading part of the topic's levels.
\<close>

lemma matchesTopicFilter_by_levels:
  assumes "isValidTopicFilter f" and "t \<noteq> ''''"
  shows "matchesTopicFilter f t \<longleftrightarrow> mqtt_matches (levels f) (levels t)"
  using assms by (rule matches_levels)

section \<open>Prefixes by levels\<close>

lemma boundary_levels:
  "s = base \<or> prefix (base @ [c]) s \<longleftrightarrow> prefix (js_split c base) (js_split c s)"
proof
  assume "s = base \<or> prefix (base @ [c]) s"
  then show "prefix (js_split c base) (js_split c s)"
    by (auto simp: prefix_def js_split_append_sep)
next
  assume "prefix (js_split c base) (js_split c s)"
  then obtain zs where zs: "js_split c s = js_split c base @ zs" by (auto simp: prefix_def)
  have s: "s = js_join [c] (js_split c base @ zs)" by (metis js_join_split zs)
  show "s = base \<or> prefix (base @ [c]) s"
  proof (cases zs)
    case Nil
    then show ?thesis using zs by (simp add: js_split_inject)
  next
    case (Cons z zs')
    then have "s = base @ [c] @ js_join [c] zs"
      using s js_join_append [of "js_split c base" zs "[c]"] by simp
    then show ?thesis by auto
  qed
qed

text \<open>
  The namespace test works on topic levels: with the trailing slash of the prefix taken off, a
  topic is in the namespace exactly when the prefix is not empty and its levels are the first
  levels of the topic, so \<open>aeolus/public/x\<close> is not inside \<open>aeolus/pub\<close>.
\<close>

definition within :: "string \<Rightarrow> string \<Rightarrow> bool" where
  "within t p \<longleftrightarrow> prefix_base p \<noteq> '''' \<and> prefix (levels (prefix_base p)) (levels t)"

lemma segmentBoundaryMatch_within: "segmentBoundaryMatch t p = within t p"
  using boundary_levels [of t "prefix_base p" "CHR ''/''"]
  by (auto simp: segmentBoundaryMatch_def Let_def within_def)



section \<open>Parsing and printing\<close>

text \<open>
  Parsing loses nothing on ordinary topics: a topic with no empty level and no hyphen is
  parsed, and printing the result gives it back; so two such topics never share a device
  identifier. Only a topic without any non-empty level is refused.
\<close>

lemma parseTopic_roundtrip:
  "(\<forall>topic. (\<forall>w \<in> set (levels topic). w \<noteq> '''') \<and> CHR ''-'' \<notin> set topic \<longrightarrow>
      map_option prettyPrintTopic (parseTopic topic) = Some topic)
    \<and> (\<forall>topic. parseTopic topic = None \<longleftrightarrow> (\<forall>w \<in> set (levels topic). w = ''''))"
proof (intro conjI allI impI)
  fix topic :: string
  assume a: "(\<forall>w \<in> set (levels topic). w \<noteq> '''') \<and> CHR ''-'' \<notin> set topic"
  then have segs: "topic_segments topic = levels topic" by (auto simp: topic_segments_def filter_id_conv)
  have "topic \<noteq> ''''" using a by auto
  moreover obtain seg rest where l: "levels topic = seg # rest" by (cases "levels topic") auto
  ultimately obtain p where p: "parseTopic topic = Some p" "pt_deviceId p = js_join ''-'' (levels topic)"
    by (auto simp: parseTopic_def segs Let_def)
  have "CHR ''-'' \<notin> set w" if "w \<in> set (levels topic)" for w
    using a that js_split_subset by fastforce
  then have "js_split (CHR ''-'') (js_join ''-'' (levels topic)) = levels topic"
    by (intro js_split_join) auto
  then show "map_option prettyPrintTopic (parseTopic topic) = Some topic"
    by (simp add: p prettyPrintTopic_def)
next
  fix topic :: string
  show "parseTopic topic = None \<longleftrightarrow> (\<forall>w \<in> set (levels topic). w = '''')"
  proof -
    have "parseTopic topic = None \<longleftrightarrow> topic = '''' \<or> topic_segments topic = []"
      by (auto simp: parseTopic_def Let_def split: list.splits)
    moreover have "topic_segments topic = [] \<longleftrightarrow> (\<forall>w \<in> set (levels topic). w = '''')"
      by (simp add: topic_segments_def filter_empty_conv)
    ultimately show ?thesis by auto
  qed
qed

section \<open>The private-topic store\<close>

datatype private_op = PvAdd string string ms | PvRemove string

fun private_step :: "private_op \<Rightarrow> private_topic_store \<Rightarrow> private_topic_store" where
  "private_step (PvAdd p u now) s = snd (private_add p u now s)"
| "private_step (PvRemove i) s = snd (private_remove i s)"

definition private_inv :: "private_topic_store \<Rightarrow> bool" where
  "private_inv s \<longleftrightarrow> pv_patterns s = map pv_pattern (pv_rows s) \<and> distinct (map pv_pattern (pv_rows s))
     \<and> (\<forall>r \<in> set (pv_rows s). isValidTopicFilter (pv_pattern r))"

lemma filter_shorter: "\<not> length (filter P xs) < length xs \<Longrightarrow> filter P xs = xs"
  by (metis filter_id_conv length_filter_less linorder_not_le)

interpretation private_topics: invariant_machine private_step "\<lambda>_ _. True" "createPrivateTopicStore []" private_inv
proof
  show "private_inv (createPrivateTopicStore [])"
    by (simp add: private_inv_def createPrivateTopicStore_def private_refresh_def)
  show "private_inv (private_step a s)" if "private_inv s" for a s
  proof (cases a)
    case (PvAdd p u now)
    then show ?thesis
      using that
      by (auto simp: private_inv_def private_add_def Let_def private_refresh_def find_None_iff split: option.splits)
  next
    case (PvRemove i)
    then show ?thesis
      using that filter_shorter [of "\<lambda>r. pv_id r \<noteq> i" "pv_rows s"]
      by (auto simp: private_inv_def private_remove_def Let_def private_refresh_def distinct_map_filter)
  qed
qed

text \<open>
  The cached patterns always answer for the table: after any run of additions and
  removals, a topic is private exactly when a stored filter matches it by levels, every
  stored filter is a valid one, and none is stored twice, so adding a stored pattern again
  returns the stored row and changes nothing.
\<close>

lemma private_topics_coherent:
  assumes "reach private_step (\<lambda>_ _. True) (createPrivateTopicStore []) s"
  shows "(t \<noteq> '''' \<longrightarrow> (isPrivate t s \<longleftrightarrow>
            (\<exists>r \<in> set (pv_rows s). mqtt_matches (levels (pv_pattern r)) (levels t))))
    \<and> distinct (map pv_pattern (pv_rows s))
    \<and> (\<forall>r \<in> set (pv_rows s). js_trim p = pv_pattern r \<longrightarrow> private_add p u now s = (Inr r, s))"
proof (intro conjI ballI impI)
  have inv: "private_inv s" using assms by (rule private_topics.reach_inv)
  then have pats: "set (pv_patterns s) = pv_pattern ` set (pv_rows s)"
    and valid: "\<And>r. r \<in> set (pv_rows s) \<Longrightarrow> isValidTopicFilter (pv_pattern r)"
    and dist: "distinct (map pv_pattern (pv_rows s))" by (simp_all add: private_inv_def)
  show "distinct (map pv_pattern (pv_rows s))" by (rule dist)
  show "isPrivate t s \<longleftrightarrow> (\<exists>r \<in> set (pv_rows s). mqtt_matches (levels (pv_pattern r)) (levels t))" if "t \<noteq> ''''"
    using valid matches_levels [OF _ that] by (auto simp: isPrivate_def pats)
  show "private_add p u now s = (Inr r, s)" if r: "r \<in> set (pv_rows s)" and p: "js_trim p = pv_pattern r" for r
  proof -
    obtain q where q: "find (\<lambda>x. pv_pattern x = pv_pattern r) (pv_rows s) = Some q"
      using r by (cases "find (\<lambda>x. pv_pattern x = pv_pattern r) (pv_rows s)") (auto simp: find_None_iff)
    then have "q = r" using r dist by (auto simp: find_Some_iff distinct_map inj_on_def)
    moreover have "pv_pattern r \<noteq> ''''" using valid [OF r] by (auto simp: isValidTopicFilter_def)
    ultimately show ?thesis using valid [OF r] q by (simp add: private_add_def p Let_def)
  qed
qed

end
