(* ===== verification/Device_Registry.thy ===== *)
theory Device_Registry
  imports Mqtt_Topics Js_Json
begin

text \<open>
  The device registry (src/core/device-registry.ts, with the entities of src/core/types.ts):
  the in-memory devices, the index from exact MQTT state topics to device identifiers, the
  batch of pending writes with its flush timer, and the table \<open>devices\<close> with its unique
  index on integration and topic (migration 008).

  The SHA-256 of a topic is a parameter (\<open>sha\<close>); no property needs anything of it. A write
  SQLite refuses for a reason outside the program (\<open>fault\<close>) is an argument of the flush.
  The lemmas show that the topic index is exactly the inverse of the devices' topics, how an
  event is merged, and that a flush makes the table reload to the devices in memory.
\<close>

section \<open>Devices and events\<close>

record device =
  dv_id :: string
  dv_name :: string
  dv_type :: string
  dv_capabilities :: jsval
  dv_state :: jsval
  dv_integration :: string
  dv_connectorInstanceId :: "string option"
  dv_lastSeen :: ms
  dv_topic :: "string option"
  dv_commandTopic :: "string option"
  dv_mqttCommandProfile :: "jsval option"

record normalized_event =
  ne_deviceId :: string
  ne_deviceType :: string
  ne_state :: jsobj
  ne_topic :: string
  ne_timestamp :: ms
  ne_integration :: "string option"
  ne_connectorInstanceId :: "string option"
  ne_name :: "string option"
  ne_capabilities :: "jsval option"
  ne_commandTopic :: "string option"

record device_row =
  dr_name :: string
  dr_type :: string
  dr_capabilities :: string
  dr_state :: string
  dr_integration :: string
  dr_last_seen :: ms
  dr_topic :: "string option"
  dr_command_topic :: "string option"
  dr_connector_instance_id :: "string option"
  dr_mqtt_command_profile :: "string option"

record registry =
  rg_devices :: "(string, device) jsmap"
  rg_topics :: "(string, string) jsmap"
  rg_pending :: "(string, device) jsmap"
  rg_timer :: bool
  rg_disposed :: bool
  rg_open :: bool
  rg_table :: "(string, device_row) jsmap"
  rg_emitted :: "(string \<times> jsval \<times> ms \<times> device option) list"

definition registry_init :: "(string, device_row) jsmap \<Rightarrow> registry" where
  "registry_init rows = \<lparr>rg_devices = [], rg_topics = [], rg_pending = [], rg_timer = False,
     rg_disposed = False, rg_open = True, rg_table = rows, rg_emitted = []\<rparr>"

text \<open>A string property that is set and not empty.\<close>

definition set_text :: "string option \<Rightarrow> bool" where
  "set_text t \<longleftrightarrow> t \<noteq> None \<and> t \<noteq> Some ''''"

definition mqtt_integration :: string where "mqtt_integration = ''mqtt''"

section \<open>Serialization\<close>

text \<open>\<open>JSON.stringify\<close> bound to a NOT NULL column: an exception, or no text, fails the write.\<close>

definition json_required :: "jsval \<Rightarrow> string option" where
  "json_required v = (case json_stringify v of JsonText t \<Rightarrow> Some t | _ \<Rightarrow> None)"

definition serializeDevice :: "device \<Rightarrow> device_row option" where
  "serializeDevice d =
     Option.bind (json_required (dv_capabilities d)) (\<lambda>caps.
     Option.bind (json_required (dv_state d)) (\<lambda>st.
     Option.bind (case dv_mqttCommandProfile d of
                    None \<Rightarrow> Some None
                  | Some p \<Rightarrow> map_option Some (json_required p)) (\<lambda>profile.
     Some \<lparr>dr_name = dv_name d, dr_type = dv_type d, dr_capabilities = caps, dr_state = st,
           dr_integration = dv_integration d, dr_last_seen = dv_lastSeen d, dr_topic = dv_topic d,
           dr_command_topic = dv_commandTopic d, dr_connector_instance_id = dv_connectorInstanceId d,
           dr_mqtt_command_profile = profile\<rparr>)))"

definition deserializeDevice :: "string \<Rightarrow> device_row \<Rightarrow> device option" where
  "deserializeDevice rid row =
     Option.bind (json_parse (dr_capabilities row)) (\<lambda>caps.
     Option.bind (json_parse (dr_state row)) (\<lambda>st.
     Option.bind (if set_text (dr_mqtt_command_profile row)
                  then map_option Some (json_parse (the (dr_mqtt_command_profile row)))
                  else Some None) (\<lambda>profile.
     Some \<lparr>dv_id = rid, dv_name = dr_name row, dv_type = dr_type row, dv_capabilities = caps, dv_state = st,
           dv_integration = (if dr_integration row = '''' then mqtt_integration else dr_integration row),
           dv_connectorInstanceId = dr_connector_instance_id row, dv_lastSeen = dr_last_seen row,
           dv_topic = dr_topic row, dv_commandTopic = dr_command_topic row,
           dv_mqttCommandProfile = profile\<rparr>)))"

section \<open>Lookup\<close>

definition registry_getAll :: "registry \<Rightarrow> device list" where
  "registry_getAll g = jm_values (rg_devices g)"

definition registry_getById :: "string \<Rightarrow> registry \<Rightarrow> device option" where
  "registry_getById did g = map_of (rg_devices g) did"

definition getByMqttTopic :: "string \<Rightarrow> registry \<Rightarrow> device option" where
  "getByMqttTopic topic g =
     (case map_of (rg_topics g) topic of
        None \<Rightarrow> None
      | Some did \<Rightarrow> if did = '''' then None else map_of (rg_devices g) did)"

text \<open>The candidate identifiers with a hash suffix, tried in order.\<close>

definition hash_lengths :: "nat list" where
  "hash_lengths = [12, 16, 20, 24, 32, 64]"

definition hash_candidate :: "(string \<Rightarrow> string) \<Rightarrow> string \<Rightarrow> string \<Rightarrow> nat \<Rightarrow> string" where
  "hash_candidate sha topic legacy n = ''mqtt-'' @ legacy @ ''-'' @ take n (sha topic)"

definition resolveMqttDeviceId ::
  "(string \<Rightarrow> string) \<Rightarrow> string \<Rightarrow> string \<Rightarrow> registry \<Rightarrow> string + string" where
  "resolveMqttDeviceId sha topic legacy g =
     (case getByMqttTopic topic g of
        Some d \<Rightarrow> Inr (dv_id d)
      | None \<Rightarrow>
          (case map_of (rg_devices g) legacy of
             None \<Rightarrow> Inr legacy
           | Some l \<Rightarrow>
               if dv_integration l = mqtt_integration \<and> \<not> set_text (dv_topic l) then Inr legacy
               else case find (\<lambda>c. case map_of (rg_devices g) c of
                                     None \<Rightarrow> True
                                   | Some x \<Rightarrow> dv_topic x = Some topic)
                           (map (hash_candidate sha topic legacy) hash_lengths) of
                      Some c \<Rightarrow> Inr c
                    | None \<Rightarrow> Inl (''Unable to allocate a collision-safe MQTT device ID for topic ''
                                     @ [CHR 0x27] @ topic @ [CHR 0x27])))"

section \<open>Persistence\<close>

definition schedulePersist :: "device \<Rightarrow> registry \<Rightarrow> registry" where
  "schedulePersist d g =
     (if rg_disposed g then g
      else g\<lparr>rg_pending := AList.update (dv_id d) d (rg_pending g), rg_timer := True\<rparr>)"

text \<open>One upsert of the batch: the unique index on integration and topic may refuse it.\<close>

definition row_conflict :: "string \<Rightarrow> device_row \<Rightarrow> (string, device_row) jsmap \<Rightarrow> bool" where
  "row_conflict rid row tbl \<longleftrightarrow>
     (\<exists>(k, r) \<in> set tbl. k \<noteq> rid \<and> dr_integration r = dr_integration row \<and> dr_topic row \<noteq> None \<and> dr_topic r = dr_topic row)"

fun writeBatch :: "device list \<Rightarrow> (string, device_row) jsmap \<Rightarrow> (string, device_row) jsmap option" where
  "writeBatch [] tbl = Some tbl"
| "writeBatch (d # ds) tbl =
     (case serializeDevice d of
        None \<Rightarrow> None
      | Some row \<Rightarrow> if row_conflict (dv_id d) row tbl then None
                    else writeBatch ds (AList.update (dv_id d) row tbl))"

definition requeue :: "device list \<Rightarrow> (string, device) jsmap \<Rightarrow> (string, device) jsmap" where
  "requeue batch pending =
     fold (\<lambda>d p. if jm_has p (dv_id d) then p else AList.update (dv_id d) d p) batch pending"

definition flushPendingWrites :: "bool \<Rightarrow> registry \<Rightarrow> registry" where
  "flushPendingWrites fault g =
     (if rg_pending g = [] then g
      else if \<not> rg_open g then g\<lparr>rg_pending := []\<rparr>
      else let batch = jm_values (rg_pending g); g1 = g\<lparr>rg_pending := []\<rparr>
           in case (if fault then None else writeBatch batch (rg_table g1)) of
                Some tbl \<Rightarrow> g1\<lparr>rg_table := tbl\<rparr>
              | None \<Rightarrow> if rg_disposed g1 then g1
                        else g1\<lparr>rg_pending := requeue batch (rg_pending g1), rg_timer := True\<rparr>)"

text \<open>The timer callback.\<close>

definition flush_timer_fires :: "bool \<Rightarrow> registry \<Rightarrow> registry" where
  "flush_timer_fires fault g = flushPendingWrites fault (g\<lparr>rg_timer := False\<rparr>)"

definition persistNow :: "bool \<Rightarrow> device \<Rightarrow> registry \<Rightarrow> registry" where
  "persistNow fault d g = flushPendingWrites fault (schedulePersist d g)"

definition registry_dispose :: "bool \<Rightarrow> registry \<Rightarrow> registry" where
  "registry_dispose fault g =
     (let g1 = g\<lparr>rg_timer := False, rg_disposed := True\<rparr>
      in (flushPendingWrites fault g1)\<lparr>rg_pending := []\<rparr>)"

section \<open>Updates\<close>

definition deriveNameFromId :: "string \<Rightarrow> string" where
  "deriveNameFromId did =
     (let n = js_join '' '' (map titleCase (drop 1 (js_split (CHR ''-'') did)))
      in if n = '''' then did else n)"

definition inferCapabilities :: "string \<Rightarrow> string list" where
  "inferCapabilities t =
     (if t = ''light'' then [''on/off'', ''brightness'']
      else if t = ''switch'' then [''on/off'']
      else if t = ''sensor'' then [''temperature'']
      else if t = ''climate'' then [''temperature'', ''humidity'']
      else if t = ''plug'' then [''on/off'', ''energy-monitoring'']
      else if t = ''valve'' then [''on/off'']
      else if t = ''pump'' then [''on/off'']
      else if t = ''fan'' then [''on/off'', ''speed'']
      else if t = ''lock'' then [''lock/unlock'']
      else if t = ''motion'' then [''motion-detection'']
      else [])"

text \<open>The own enumerable properties a spread copies out of a value.\<close>

definition js_indexed :: "jsval list \<Rightarrow> jsobj" where
  "js_indexed vs = map (\<lambda>(i, v). (show_nat i, v)) (enumerate 0 vs)"

fun js_props :: "jsval \<Rightarrow> jsobj" where
  "js_props (JObj kvs) = kvs"
| "js_props (JArr vs) = js_indexed vs"
| "js_props (JStr s) = js_indexed (map (\<lambda>c. JStr [c]) s)"
| "js_props _ = []"

definition index_topic :: "device \<Rightarrow> registry \<Rightarrow> registry" where
  "index_topic d g =
     (if dv_integration d = mqtt_integration \<and> set_text (dv_topic d)
      then g\<lparr>rg_topics := AList.update (the (dv_topic d)) (dv_id d) (rg_topics g)\<rparr> else g)"

definition event_integration :: "normalized_event \<Rightarrow> string" where
  "event_integration e = (if set_text (ne_integration e) then the (ne_integration e) else mqtt_integration)"

definition merge_event :: "normalized_event \<Rightarrow> device \<Rightarrow> device" where
  "merge_event e existing =
     existing\<lparr>dv_state := JObj (js_spread (js_props (dv_state existing)) (ne_state e)),
       dv_capabilities := (case ne_capabilities e of Some c \<Rightarrow> c | None \<Rightarrow> dv_capabilities existing),
       dv_lastSeen := ne_timestamp e,
       dv_topic := (if event_integration e = mqtt_integration then Some (ne_topic e) else dv_topic existing),
       dv_commandTopic := (if set_text (ne_commandTopic e) then ne_commandTopic e else dv_commandTopic existing),
       dv_connectorInstanceId := (if set_text (ne_connectorInstanceId e) then ne_connectorInstanceId e
                                  else dv_connectorInstanceId existing)\<rparr>"

definition new_device :: "normalized_event \<Rightarrow> string \<Rightarrow> device" where
  "new_device e did =
     \<lparr>dv_id = did, dv_name = (case ne_name e of Some n \<Rightarrow> n | None \<Rightarrow> deriveNameFromId did),
      dv_type = ne_deviceType e,
      dv_capabilities = (case ne_capabilities e of Some c \<Rightarrow> c
                         | None \<Rightarrow> JArr (map JStr (inferCapabilities (ne_deviceType e)))),
      dv_state = JObj (ne_state e), dv_integration = event_integration e,
      dv_connectorInstanceId = (if set_text (ne_connectorInstanceId e) then ne_connectorInstanceId e else None),
      dv_lastSeen = ne_timestamp e,
      dv_topic = (if event_integration e = mqtt_integration then Some (ne_topic e) else None),
      dv_commandTopic = (if set_text (ne_commandTopic e) then ne_commandTopic e else None),
      dv_mqttCommandProfile = None\<rparr>"

definition registry_upsert ::
  "(string \<Rightarrow> string) \<Rightarrow> normalized_event \<Rightarrow> registry \<Rightarrow> string + device \<times> registry" where
  "registry_upsert sha e g =
     (case (if event_integration e = mqtt_integration then resolveMqttDeviceId sha (ne_topic e) (ne_deviceId e) g
            else Inr (ne_deviceId e)) of
        Inl msg \<Rightarrow> Inl msg
      | Inr did \<Rightarrow>
          let existing = map_of (rg_devices g) did;
              d = (case existing of Some x \<Rightarrow> merge_event e x | None \<Rightarrow> new_device e did);
              g1 = schedulePersist d (index_topic d (g\<lparr>rg_devices := AList.update (dv_id d) d (rg_devices g)\<rparr>))
          in Inr (d, g1\<lparr>rg_emitted := rg_emitted g1 @
                 [(dv_id d, dv_state d, dv_lastSeen d, if existing = None then Some d else None)]\<rparr>))"

definition registry_remove :: "string \<Rightarrow> registry \<Rightarrow> bool \<times> registry" where
  "registry_remove did g =
     (case map_of (rg_devices g) did of
        None \<Rightarrow> (False, g)
      | Some d \<Rightarrow>
          (True, g\<lparr>rg_devices := AList.delete did (rg_devices g),
                   rg_topics := (if dv_integration d = mqtt_integration \<and> set_text (dv_topic d)
                                 then AList.delete (the (dv_topic d)) (rg_topics g) else rg_topics g),
                   rg_pending := AList.delete did (rg_pending g),
                   rg_table := AList.delete did (rg_table g)\<rparr>))"

definition registerDevice :: "bool \<Rightarrow> device \<Rightarrow> registry \<Rightarrow> registry" where
  "registerDevice fault d g =
     persistNow fault d (index_topic d (g\<lparr>rg_devices := AList.update (dv_id d) d (rg_devices g)\<rparr>))"

definition setMqttCommandProfile ::
  "bool \<Rightarrow> string \<Rightarrow> jsval option \<Rightarrow> registry \<Rightarrow> device option \<times> registry" where
  "setMqttCommandProfile fault did profile g =
     (case map_of (rg_devices g) did of
        None \<Rightarrow> (None, g)
      | Some existing \<Rightarrow>
          let updated = existing\<lparr>dv_mqttCommandProfile := profile\<rparr>
          in (Some updated, persistNow fault updated (g\<lparr>rg_devices := AList.update did updated (rg_devices g)\<rparr>)))"

definition load_row :: "string \<times> device_row \<Rightarrow> registry \<Rightarrow> registry" where
  "load_row p g =
     (case deserializeDevice (fst p) (snd p) of
        None \<Rightarrow> g
      | Some d \<Rightarrow> index_topic d (g\<lparr>rg_devices := AList.update (dv_id d) d (rg_devices g)\<rparr>))"

definition loadFromDb :: "registry \<Rightarrow> registry" where
  "loadFromDb g = fold load_row (rg_table g) g"

section \<open>Runs of the registry\<close>

datatype registry_op =
    RUpsert normalized_event
  | RRemove string
  | RSetProfile bool string "jsval option"
  | RTimer bool
  | RDispose bool
  | RClose

fun registry_step :: "(string \<Rightarrow> string) \<Rightarrow> registry_op \<Rightarrow> registry \<Rightarrow> registry" where
  "registry_step sha (RUpsert e) g = (case registry_upsert sha e g of Inr (d, g') \<Rightarrow> g' | Inl _ \<Rightarrow> g)"
| "registry_step sha (RRemove did) g = snd (registry_remove did g)"
| "registry_step sha (RSetProfile fault did p) g = snd (setMqttCommandProfile fault did p g)"
| "registry_step sha (RTimer fault) g = (if rg_timer g then flush_timer_fires fault g else g)"
| "registry_step sha (RDispose fault) g = registry_dispose fault g"
| "registry_step sha RClose g = g\<lparr>rg_open := False\<rparr>"

text \<open>
  What the callers give it: events name a device, MQTT events a topic, and states,
  capabilities and profiles are JSON values (they were parsed from JSON or built as such).
\<close>

fun registry_ok :: "registry_op \<Rightarrow> registry \<Rightarrow> bool" where
  "registry_ok (RUpsert e) g =
     (ne_deviceId e \<noteq> '''' \<and> ne_topic e \<noteq> '''' \<and> plain_json (JObj (ne_state e))
      \<and> (\<forall>c \<in> set_option (ne_capabilities e). plain_json c))"
| "registry_ok (RSetProfile fault did p) g = (\<forall>v \<in> set_option p. plain_json v)"
| "registry_ok _ g = True"

definition device_ok :: "string \<Rightarrow> device \<Rightarrow> bool" where
  "device_ok did d \<longleftrightarrow> dv_id d = did \<and> did \<noteq> '''' \<and> dv_integration d \<noteq> ''''
     \<and> (dv_topic d \<noteq> None \<longrightarrow> dv_integration d = mqtt_integration \<and> dv_topic d \<noteq> Some '''')
     \<and> plain_json (dv_capabilities d) \<and> plain_json (dv_state d) \<and> (\<exists>kvs. dv_state d = JObj kvs)
     \<and> (\<forall>p \<in> set_option (dv_mqttCommandProfile d). plain_json p)"

text \<open>The topic index is the inverse of the devices' topics.\<close>

definition index_ok :: "(string \<rightharpoonup> device) \<Rightarrow> (string \<rightharpoonup> string) \<Rightarrow> bool" where
  "index_ok dev idx \<longleftrightarrow>
     (\<forall>t did. idx t = Some did \<longleftrightarrow> (\<exists>d. dev did = Some d \<and> dv_topic d = Some t))"

definition table_ok :: "(string \<rightharpoonup> device) \<Rightarrow> (string \<rightharpoonup> device_row) \<Rightarrow> bool" where
  "table_ok dev tbl \<longleftrightarrow>
     (\<forall>did r. tbl did = Some r \<longrightarrow> (\<exists>d. dev did = Some d \<and> dr_integration r = dv_integration d
         \<and> (dr_topic r = None \<or> dr_topic r = dv_topic d)))"

definition pending_ok :: "(string \<rightharpoonup> device) \<Rightarrow> (string \<rightharpoonup> device) \<Rightarrow> (string \<rightharpoonup> device_row) \<Rightarrow> bool \<Rightarrow> bool" where
  "pending_ok dev pen tbl live \<longleftrightarrow>
     (\<forall>did d. pen did = Some d \<longrightarrow> dev did = Some d)
     \<and> (live \<longrightarrow> (\<forall>did d. dev did = Some d \<longrightarrow> pen did = Some d \<or> (\<exists>r. tbl did = Some r \<and> serializeDevice d = Some r)))"

definition registry_inv :: "registry \<Rightarrow> bool" where
  "registry_inv g \<longleftrightarrow>
     jm_wf (rg_devices g) \<and> jm_wf (rg_topics g) \<and> jm_wf (rg_pending g) \<and> jm_wf (rg_table g)
     \<and> (\<forall>did d. map_of (rg_devices g) did = Some d \<longrightarrow> device_ok did d)
     \<and> index_ok (map_of (rg_devices g)) (map_of (rg_topics g))
     \<and> table_ok (map_of (rg_devices g)) (map_of (rg_table g))
     \<and> pending_ok (map_of (rg_devices g)) (map_of (rg_pending g)) (map_of (rg_table g)) (\<not> rg_disposed g \<and> rg_open g)
     \<and> (rg_disposed g \<longrightarrow> rg_pending g = [])"

lemma registry_invI:
  assumes "jm_wf (rg_devices g)" "jm_wf (rg_topics g)" "jm_wf (rg_pending g)" "jm_wf (rg_table g)"
    "\<And>did d. map_of (rg_devices g) did = Some d \<Longrightarrow> device_ok did d"
    "index_ok (map_of (rg_devices g)) (map_of (rg_topics g))"
    "table_ok (map_of (rg_devices g)) (map_of (rg_table g))"
    "pending_ok (map_of (rg_devices g)) (map_of (rg_pending g)) (map_of (rg_table g)) (\<not> rg_disposed g \<and> rg_open g)"
    "rg_disposed g \<Longrightarrow> rg_pending g = []"
  shows "registry_inv g"
  using assms unfolding registry_inv_def by blast

lemma registry_invD:
  assumes "registry_inv g"
  shows "jm_wf (rg_devices g)" "jm_wf (rg_topics g)" "jm_wf (rg_pending g)" "jm_wf (rg_table g)"
    "map_of (rg_devices g) did = Some d \<Longrightarrow> device_ok did d"
    "index_ok (map_of (rg_devices g)) (map_of (rg_topics g))"
    "table_ok (map_of (rg_devices g)) (map_of (rg_table g))"
    "pending_ok (map_of (rg_devices g)) (map_of (rg_pending g)) (map_of (rg_table g)) (\<not> rg_disposed g \<and> rg_open g)"
    "rg_disposed g \<Longrightarrow> rg_pending g = []"
  using assms unfolding registry_inv_def by blast+

subsection \<open>Rows\<close>

lemma json_required_plain: "plain_json v \<Longrightarrow> json_required v = Some (json_text v)"
  by (simp add: json_required_def plain_stringify)

lemma serialize_ok: "device_ok did d \<Longrightarrow> \<exists>r. serializeDevice d = Some r"
  by (cases "dv_mqttCommandProfile d") (auto simp: serializeDevice_def device_ok_def json_required_plain)

lemma serialize_columns:
  "serializeDevice d = Some r \<Longrightarrow> dr_topic r = dv_topic d \<and> dr_integration r = dv_integration d"
  by (auto simp: serializeDevice_def bind_eq_Some_conv)

lemma json_text_nonempty: "plain_json v \<Longrightarrow> json_text v \<noteq> ''''"
proof
  assume "plain_json v" "json_text v = ''''"
  moreover have "json_parse '''' = None" by code_simp
  ultimately show False using json_roundtrip [of v] by simp
qed

lemma device_roundtrip:
  assumes "device_ok did d" "serializeDevice d = Some r"
  shows "deserializeDevice did r = Some d"
proof -
  have "plain_json (dv_capabilities d)" "plain_json (dv_state d)" "dv_id d = did" "dv_integration d \<noteq> ''''"
    "\<And>p. dv_mqttCommandProfile d = Some p \<Longrightarrow> plain_json p"
    using assms(1) by (simp_all add: device_ok_def)
  then show ?thesis
    using assms(2) json_text_nonempty
    by (cases "dv_mqttCommandProfile d")
      (auto simp: serializeDevice_def deserializeDevice_def json_required_plain json_roundtrip set_text_def)
qed

lemma writeBatch_ok:
  assumes "\<And>d. d \<in> set ds \<Longrightarrow> dev (dv_id d) = Some d" "\<And>did d. dev did = Some d \<Longrightarrow> device_ok did d"
    and "index_ok dev idx" "table_ok dev (map_of tbl)" "jm_wf tbl"
  shows "\<exists>tbl'. writeBatch ds tbl = Some tbl' \<and> table_ok dev (map_of tbl') \<and> jm_wf tbl'
    \<and> (\<forall>d \<in> set ds. map_of tbl' (dv_id d) = serializeDevice d)
    \<and> (\<forall>did. did \<notin> dv_id ` set ds \<longrightarrow> map_of tbl' did = map_of tbl did)"
  using assms(1,4,5)
proof (induction ds arbitrary: tbl)
  case (Cons d ds)
  have dev: "dev (dv_id d) = Some d" using Cons.prems(1) by simp
  then obtain r where r: "serializeDevice d = Some r" using serialize_ok assms(2) by blast
  have nc: "\<not> row_conflict (dv_id d) r tbl"
  proof
    assume "row_conflict (dv_id d) r tbl"
    then obtain k q where k: "map_of tbl k = Some q" "k \<noteq> dv_id d" "dr_topic r \<noteq> None" "dr_topic q = dr_topic r"
      using Cons.prems(3) by (auto simp: row_conflict_def)
    then obtain x where "dev k = Some x" "dv_topic x = dr_topic r"
      using Cons.prems(2) unfolding table_ok_def by metis
    then show False
      using dev k serialize_columns [OF r] assms(3) unfolding index_ok_def by (metis not_Some_eq option.inject)
  qed
  have tb: "table_ok dev (map_of (AList.update (dv_id d) r tbl))"
    using Cons.prems(2) dev serialize_columns [OF r] by (auto simp: table_ok_def)
  have wf: "jm_wf (AList.update (dv_id d) r tbl)" using Cons.prems(3) by simp
  have pre: "\<And>x. x \<in> set ds \<Longrightarrow> dev (dv_id x) = Some x" using Cons.prems(1) by simp
  obtain tbl' where t: "writeBatch ds (AList.update (dv_id d) r tbl) = Some tbl'" "table_ok dev (map_of tbl')"
    "jm_wf tbl'" "\<forall>x \<in> set ds. map_of tbl' (dv_id x) = serializeDevice x"
    "\<forall>did. did \<notin> dv_id ` set ds \<longrightarrow> map_of tbl' did = map_of (AList.update (dv_id d) r tbl) did"
    using Cons.IH [OF pre tb wf] by blast
  have "map_of tbl' (dv_id d) = serializeDevice d"
  proof (cases "dv_id d \<in> dv_id ` set ds")
    case True
    then obtain x where "x \<in> set ds" "dv_id x = dv_id d" by auto
    moreover then have "x = d" using Cons.prems(1) dev by (metis list.set_intros(2) option.inject)
    ultimately show ?thesis using t(4) by auto
  next
    case False
    then show ?thesis using t(5) r by simp
  qed
  then show ?case using t r nc by auto
qed (simp add: assms)

subsection \<open>Preservation\<close>

lemma requeue_map:
  assumes "\<And>d. d \<in> set ds \<Longrightarrow> dev (dv_id d) = Some d" "\<And>k d. map_of p k = Some d \<Longrightarrow> dev k = Some d"
  shows "map_of (requeue ds p) k = (if k \<in> dv_id ` set ds then dev k else map_of p k)"
  using assms
proof (induction ds arbitrary: p)
  case (Cons d ds)
  obtain q where q: "q = (if jm_has p (dv_id d) then p else AList.update (dv_id d) d p)" by simp
  have dev: "dev (dv_id d) = Some d" using Cons.prems(1) by simp
  have "map_of q j = Some x \<Longrightarrow> dev j = Some x" for j x
    using Cons.prems(2) dev by (auto simp: q split: if_splits)
  then have "map_of (requeue ds q) k = (if k \<in> dv_id ` set ds then dev k else map_of q k)"
    using Cons.IH [of q] Cons.prems(1) by simp
  moreover have "requeue (d # ds) p = requeue ds q" by (simp add: requeue_def q)
  moreover have "map_of q k = (if k = dv_id d then dev k else map_of p k)"
    using Cons.prems(2) dev by (auto simp: jm_has_def q)
  ultimately show ?case by auto
qed (simp add: requeue_def)

lemma requeue_wf: "jm_wf p \<Longrightarrow> jm_wf (requeue ds p)"
  by (induction ds arbitrary: p) (auto simp: requeue_def)

lemma pending_batch:
  assumes "registry_inv g" "d \<in> set (jm_values (rg_pending g))"
  shows "map_of (rg_pending g) (dv_id d) = Some d" "map_of (rg_devices g) (dv_id d) = Some d"
proof -
  from assms(2) obtain k where "(k, d) \<in> set (rg_pending g)" by auto
  then have k: "map_of (rg_pending g) k = Some d" using registry_invD(3) [OF assms(1)] by simp
  then have dev: "map_of (rg_devices g) k = Some d"
    using registry_invD(8) [OF assms(1)] by (simp add: pending_ok_def)
  then have "dv_id d = k" using registry_invD(5) [OF assms(1)] by (simp add: device_ok_def)
  then show "map_of (rg_pending g) (dv_id d) = Some d" "map_of (rg_devices g) (dv_id d) = Some d" using k dev by auto
qed

lemma pending_ids:
  assumes "registry_inv g"
  shows "did \<in> dv_id ` set (jm_values (rg_pending g)) \<longleftrightarrow> map_of (rg_pending g) did \<noteq> None"
proof
  assume "did \<in> dv_id ` set (jm_values (rg_pending g))"
  then show "map_of (rg_pending g) did \<noteq> None" using pending_batch(1) [OF assms] by force
next
  assume "map_of (rg_pending g) did \<noteq> None"
  then obtain d where d: "map_of (rg_pending g) did = Some d" by auto
  then have "d \<in> set (jm_values (rg_pending g))" by (force dest: map_of_SomeD)
  moreover have "dv_id d = did"
    using d registry_invD(5,8) [OF assms] by (fastforce simp: pending_ok_def device_ok_def)
  ultimately show "did \<in> dv_id ` set (jm_values (rg_pending g))" by auto
qed

text \<open>A flush that nothing prevents writes every pending device.\<close>

lemma flush_writes:
  assumes inv: "registry_inv g" and "rg_open g" "\<not> fault"
  shows "rg_pending (flushPendingWrites fault g) = []"
    and "rg_devices (flushPendingWrites fault g) = rg_devices g"
    and "table_ok (map_of (rg_devices g)) (map_of (rg_table (flushPendingWrites fault g)))"
    and "jm_wf (rg_table (flushPendingWrites fault g))"
    and "did \<in> dv_id ` set (jm_values (rg_pending g)) \<Longrightarrow>
      map_of (rg_table (flushPendingWrites fault g)) did = Option.bind (map_of (rg_devices g) did) serializeDevice"
    and "did \<notin> dv_id ` set (jm_values (rg_pending g)) \<Longrightarrow>
      map_of (rg_table (flushPendingWrites fault g)) did = map_of (rg_table g) did"
proof -
  let ?ds = "jm_values (rg_pending g)"
  obtain tbl where t: "writeBatch ?ds (rg_table g) = Some tbl" "table_ok (map_of (rg_devices g)) (map_of tbl)" "jm_wf tbl"
    "\<forall>d \<in> set ?ds. map_of tbl (dv_id d) = serializeDevice d"
    "\<forall>did. did \<notin> dv_id ` set ?ds \<longrightarrow> map_of tbl did = map_of (rg_table g) did"
    using writeBatch_ok [of ?ds "map_of (rg_devices g)" "map_of (rg_topics g)" "rg_table g"]
      pending_batch(2) [OF inv] registry_invD [OF inv] by blast
  have f: "flushPendingWrites fault g = (if rg_pending g = [] then g else g\<lparr>rg_pending := [], rg_table := tbl\<rparr>)"
    using assms(2,3) t(1) by (simp add: flushPendingWrites_def Let_def)
  have e: "rg_pending g = [] \<Longrightarrow> tbl = rg_table g" using t(1) by simp
  show "rg_pending (flushPendingWrites fault g) = []" "rg_devices (flushPendingWrites fault g) = rg_devices g"
    "table_ok (map_of (rg_devices g)) (map_of (rg_table (flushPendingWrites fault g)))"
    "jm_wf (rg_table (flushPendingWrites fault g))"
    "did \<notin> dv_id ` set ?ds \<Longrightarrow> map_of (rg_table (flushPendingWrites fault g)) did = map_of (rg_table g) did"
    using t(2,3,5) e by (auto simp: f)
  show "map_of (rg_table (flushPendingWrites fault g)) did = Option.bind (map_of (rg_devices g) did) serializeDevice"
    if "did \<in> dv_id ` set ?ds"
    using that t(4) pending_batch(2) [OF inv] by (fastforce simp: f)
qed

lemma flush_inv:
  assumes inv: "registry_inv g" shows "registry_inv (flushPendingWrites fault g)"
proof (cases "rg_pending g = [] \<or> \<not> rg_open g")
  case True
  then show ?thesis
    using registry_invD [OF inv]
    by (auto simp: flushPendingWrites_def pending_ok_def intro!: registry_invI split: if_splits)
next
  case False
  show ?thesis
  proof (cases fault)
    case True
    have "map_of (requeue (jm_values (rg_pending g)) []) k = map_of (rg_pending g) k" for k
      using requeue_map [of "jm_values (rg_pending g)" "map_of (rg_devices g)" "[]" k] pending_batch(2) [OF inv]
        pending_ids [OF inv, of k] registry_invD(8) [OF inv] by (auto simp: pending_ok_def)
    then have eq: "map_of (requeue (jm_values (rg_pending g)) []) = map_of (rg_pending g)" by blast
    show ?thesis
      using True False registry_invD [OF inv] requeue_wf [of "[]"]
      by (auto simp: flushPendingWrites_def Let_def eq intro!: registry_invI)
  next
    case nf: False
    let ?g = "flushPendingWrites fault g"
    note w = flush_writes [OF inv _ nf]
    have same: "rg_devices ?g = rg_devices g" "rg_topics ?g = rg_topics g" "rg_disposed ?g = rg_disposed g"
      "rg_open ?g = rg_open g"
      using False nf by (auto simp: flushPendingWrites_def Let_def split: option.splits)
    have saved: "\<exists>r. map_of (rg_table ?g) did = Some r \<and> serializeDevice d = Some r"
      if live: "\<not> rg_disposed g \<and> rg_open g" and d: "map_of (rg_devices g) did = Some d" for did d
    proof (cases "did \<in> dv_id ` set (jm_values (rg_pending g))")
      case True
      then show ?thesis using w(5) d live serialize_ok registry_invD(5) [OF inv d] by auto
    next
      case False
      then have "map_of (rg_pending g) did = None" using pending_ids [OF inv] by blast
      then have "\<exists>r. map_of (rg_table g) did = Some r \<and> serializeDevice d = Some r"
        using live d registry_invD(8) [OF inv] unfolding pending_ok_def by (metis option.distinct(1))
      then show ?thesis using False w(6) live by simp
    qed
    show ?thesis
      using w(1,3,4) False saved registry_invD [OF inv]
      by (intro registry_invI) (auto simp: same pending_ok_def)
  qed
qed

lemma inv_timer: "registry_inv g \<Longrightarrow> registry_inv (g\<lparr>rg_timer := b\<rparr>)"
  by (simp add: registry_inv_def)

text \<open>Writing a device that keeps or newly claims a free topic, and scheduling it.\<close>

lemma index_ok_put:
  assumes idx: "index_ok dev top'" and d: "dv_id d = did"
    and topic: "\<And>t. dv_topic d = Some t \<Longrightarrow> (\<forall>k x. dev k = Some x \<and> dv_topic x = Some t \<longrightarrow> k = did)"
    and old: "\<And>x. dev did = Some x \<Longrightarrow> dv_topic x = None \<or> dv_topic x = dv_topic d"
  shows "index_ok (dev(did \<mapsto> d)) (case dv_topic d of None \<Rightarrow> top' | Some t \<Rightarrow> top'(t \<mapsto> did))"
  unfolding index_ok_def
proof (intro allI)
  fix t k
  show "(case dv_topic d of None \<Rightarrow> top' | Some t \<Rightarrow> top'(t \<mapsto> did)) t = Some k \<longleftrightarrow>
      (\<exists>x. (dev(did \<mapsto> d)) k = Some x \<and> dv_topic x = Some t)"
  proof (cases "dv_topic d = Some t")
    case True
    then show ?thesis using topic [OF True] by auto
  next
    case False
    then have "(case dv_topic d of None \<Rightarrow> top' | Some t \<Rightarrow> top'(t \<mapsto> did)) t = top' t"
      by (auto split: option.splits)
    then show ?thesis using False old idx unfolding index_ok_def by (cases "k = did") fastforce+
  qed
qed

lemma put_core:
  assumes inv: "registry_inv g" and ok: "device_ok did d"
    and idx: "index_ok ((map_of (rg_devices g))(did \<mapsto> d)) (map_of ts)" "jm_wf ts"
    and old: "\<And>x. map_of (rg_devices g) did = Some x \<Longrightarrow>
      (dv_topic x = None \<or> dv_topic x = dv_topic d) \<and> dv_integration x = dv_integration d"
  shows "registry_inv (schedulePersist d (g\<lparr>rg_devices := AList.update did d (rg_devices g), rg_topics := ts\<rparr>))"
    (is "registry_inv ?g")
proof -
  note D = registry_invD [OF inv]
  have did: "dv_id d = did" using ok by (simp add: device_ok_def)
  have dv: "rg_devices ?g = AList.update did d (rg_devices g)" "rg_table ?g = rg_table g" "rg_topics ?g = ts"
    "rg_disposed ?g = rg_disposed g" "rg_open ?g = rg_open g"
    "rg_pending ?g = (if rg_disposed g then rg_pending g else AList.update did d (rg_pending g))"
    by (simp_all add: schedulePersist_def did)
  have tab: "table_ok (map_of (rg_devices ?g)) (map_of (rg_table ?g))"
    unfolding table_ok_def
  proof (intro allI impI)
    fix k r assume "map_of (rg_table ?g) k = Some r"
    then obtain x where x: "map_of (rg_devices g) k = Some x" "dr_integration r = dv_integration x"
      "dr_topic r = None \<or> dr_topic r = dv_topic x"
      using D(7) unfolding dv table_ok_def by blast
    then show "\<exists>d. map_of (rg_devices ?g) k = Some d \<and> dr_integration r = dv_integration d
        \<and> (dr_topic r = None \<or> dr_topic r = dv_topic d)"
      using old by (cases "k = did") (fastforce simp: dv)+
  qed
  have pend: "pending_ok (map_of (rg_devices ?g)) (map_of (rg_pending ?g)) (map_of (rg_table ?g)) (\<not> rg_disposed ?g \<and> rg_open ?g)"
    using D(8,9) by (auto simp: pending_ok_def dv)
  show ?thesis
    by (rule registry_invI) (use D(1,3,4,5,9) ok idx tab pend in \<open>auto simp: dv split: if_splits\<close>)
qed

lemma put_inv:
  assumes inv: "registry_inv g" and ok: "device_ok did d"
    and topic: "\<And>t. dv_topic d = Some t \<Longrightarrow> (\<forall>k x. map_of (rg_devices g) k = Some x \<and> dv_topic x = Some t \<longrightarrow> k = did)"
    and old: "\<And>x. map_of (rg_devices g) did = Some x \<Longrightarrow>
      (dv_topic x = None \<or> dv_topic x = dv_topic d) \<and> dv_integration x = dv_integration d"
  shows "registry_inv (schedulePersist d (index_topic d (g\<lparr>rg_devices := AList.update did d (rg_devices g)\<rparr>)))"
proof -
  note D = registry_invD [OF inv]
  let ?ts = "case dv_topic d of None \<Rightarrow> rg_topics g | Some t \<Rightarrow> AList.update t did (rg_topics g)"
  have did: "dv_id d = did" using ok by (simp add: device_ok_def)
  have eq: "index_topic d (g\<lparr>rg_devices := AList.update did d (rg_devices g)\<rparr>)
      = g\<lparr>rg_devices := AList.update did d (rg_devices g), rg_topics := ?ts\<rparr>"
    using ok by (cases "dv_topic d") (auto simp: index_topic_def set_text_def device_ok_def)
  have "map_of ?ts = (case dv_topic d of None \<Rightarrow> map_of (rg_topics g) | Some t \<Rightarrow> (map_of (rg_topics g))(t \<mapsto> did))"
    by (simp split: option.splits)
  then have "index_ok ((map_of (rg_devices g))(did \<mapsto> d)) (map_of ?ts)"
    using index_ok_put [OF D(6) did topic] old by metis
  moreover have "jm_wf ?ts" using D(2) by (simp split: option.splits)
  ultimately show ?thesis unfolding eq by (rule put_core [OF inv ok _ _ old])
qed

lemma index_unique:
  assumes "index_ok dev idx" "dev k = Some x" "dv_topic x = Some t" "dev j = Some z" "dv_topic z = Some t"
  shows "k = j"
proof -
  have "idx t = Some k" "idx t = Some j" using assms unfolding index_ok_def by blast+
  then show ?thesis by simp
qed

lemma resolve_correct:
  assumes inv: "registry_inv g" and leg: "legacy \<noteq> ''''"
    and res: "resolveMqttDeviceId sha t legacy g = Inr did"
  shows "did \<noteq> ''''"
    and "map_of (rg_devices g) did = Some x \<Longrightarrow>
      dv_integration x = mqtt_integration \<and> (dv_topic x = None \<or> dv_topic x = Some t)"
    and "map_of (rg_devices g) k = Some y \<Longrightarrow> dv_topic y = Some t \<Longrightarrow> k = did"
proof -
  note D = registry_invD [OF inv]
  have idx: "map_of (rg_topics g) t = Some i \<longleftrightarrow> (\<exists>d. map_of (rg_devices g) i = Some d \<and> dv_topic d = Some t)" for i
    using D(6) by (simp add: index_ok_def)
  have "did \<noteq> '''' \<and> (\<forall>x. map_of (rg_devices g) did = Some x \<longrightarrow>
      dv_integration x = mqtt_integration \<and> (dv_topic x = None \<or> dv_topic x = Some t))
    \<and> (\<forall>k y. map_of (rg_devices g) k = Some y \<and> dv_topic y = Some t \<longrightarrow> k = did)"
  proof (cases "map_of (rg_topics g) t")
    case (Some i)
    then obtain d where d: "map_of (rg_devices g) i = Some d" "dv_topic d = Some t" using idx by blast
    then have "device_ok i d" using D(5) by blast
    then have di: "did = i" and mq: "dv_integration d = mqtt_integration" "i \<noteq> ''''"
      using res d Some by (auto simp: resolveMqttDeviceId_def getByMqttTopic_def device_ok_def)
    have "\<forall>k y. map_of (rg_devices g) k = Some y \<and> dv_topic y = Some t \<longrightarrow> k = i"
      using index_unique [OF D(6) _ _ d] by blast
    then show ?thesis unfolding di using d mq by simp
  next
    case None
    then have no: "map_of (rg_devices g) k = Some y \<Longrightarrow> dv_topic y \<noteq> Some t" for k y using idx by fastforce
    have "did = legacy \<and> (\<forall>x. map_of (rg_devices g) did = Some x \<longrightarrow> dv_integration x = mqtt_integration \<and> \<not> set_text (dv_topic x))
        \<or> did \<noteq> '''' \<and> map_of (rg_devices g) did = None"
      using res None no
      by (auto simp: resolveMqttDeviceId_def getByMqttTopic_def find_Some_iff hash_candidate_def
          split: option.splits if_splits)
    then show ?thesis using leg no D(5) by (fastforce simp: set_text_def device_ok_def)
  qed
  then show "did \<noteq> ''''"
    and "map_of (rg_devices g) did = Some x \<Longrightarrow>
      dv_integration x = mqtt_integration \<and> (dv_topic x = None \<or> dv_topic x = Some t)"
    and "map_of (rg_devices g) k = Some y \<Longrightarrow> dv_topic y = Some t \<Longrightarrow> k = did" by blast+
qed

lemma plain_spread:
  assumes "plain_json (JObj a)" "plain_json (JObj b)" shows "plain_json (JObj (js_spread a b))"
proof -
  have "set (js_spread a b) \<subseteq> set a \<union> set b" unfolding js_spread_def
  proof (induction b arbitrary: a)
    case (Cons p b)
    have "set (AList.update (fst p) (snd p) a) \<subseteq> insert p (set a)" by (induction a) auto
    then show ?case using Cons [of "AList.update (fst p) (snd p) a"] by (auto simp: split_beta)
  qed simp
  then show ?thesis using assms by (fastforce simp: list_all_iff)
qed

lemma merge_event_ok:
  assumes x: "device_ok did x" and e: "registry_ok (RUpsert e) g"
    and m: "event_integration e = mqtt_integration \<Longrightarrow> dv_integration x = mqtt_integration"
  shows "device_ok did (merge_event e x)"
  using assms plain_spread
  by (cases "ne_capabilities e") (auto simp: device_ok_def merge_event_def simp del: plain_json.simps)

lemma new_device_ok:
  assumes "registry_ok (RUpsert e) g" "did \<noteq> ''''" shows "device_ok did (new_device e did)"
  using assms
  by (auto simp: device_ok_def new_device_def event_integration_def mqtt_integration_def set_text_def list_all_iff
      split: option.splits)

lemma upsert_put:
  assumes inv: "registry_inv g" and ok: "registry_ok (RUpsert e) g" and up: "registry_upsert sha e g = Inr (d, g')"
  obtains did where "device_ok did d" "map_of (rg_devices g') = (map_of (rg_devices g))(did \<mapsto> d)"
    "event_integration e = mqtt_integration \<Longrightarrow> resolveMqttDeviceId sha (ne_topic e) (ne_deviceId e) g = Inr did"
    "event_integration e \<noteq> mqtt_integration \<Longrightarrow> did = ne_deviceId e"
    "d = (case map_of (rg_devices g) did of Some x \<Rightarrow> merge_event e x | None \<Rightarrow> new_device e did)"
    "registry_inv g'"
proof -
  obtain did where did: "(if event_integration e = mqtt_integration
      then resolveMqttDeviceId sha (ne_topic e) (ne_deviceId e) g else Inr (ne_deviceId e)) = Inr did"
    using up by (auto simp: registry_upsert_def split: sum.splits)
  let ?d = "case map_of (rg_devices g) did of Some x \<Rightarrow> merge_event e x | None \<Rightarrow> new_device e did"
  have leg: "ne_deviceId e \<noteq> ''''" using ok by simp
  have res: "did \<noteq> ''''" "\<And>x. event_integration e = mqtt_integration \<Longrightarrow> map_of (rg_devices g) did = Some x \<Longrightarrow>
      dv_integration x = mqtt_integration \<and> (dv_topic x = None \<or> dv_topic x = Some (ne_topic e))"
    "\<And>k y. event_integration e = mqtt_integration \<Longrightarrow> map_of (rg_devices g) k = Some y \<Longrightarrow>
      dv_topic y = Some (ne_topic e) \<Longrightarrow> k = did"
    using did leg resolve_correct [OF inv leg, of sha "ne_topic e" did] by (auto split: if_splits)
  have dok: "device_ok did ?d"
    using merge_event_ok [OF registry_invD(5) [OF inv] ok] new_device_ok [OF ok res(1)] res(2)
    by (auto split: option.splits)
  then have id: "dv_id ?d = did" by (simp add: device_ok_def)
  let ?g1 = "schedulePersist ?d (index_topic ?d (g\<lparr>rg_devices := AList.update did ?d (rg_devices g)\<rparr>))"
  have topic: "dv_topic ?d = (if event_integration e = mqtt_integration then Some (ne_topic e)
      else case map_of (rg_devices g) did of Some x \<Rightarrow> dv_topic x | None \<Rightarrow> None)"
    by (simp add: merge_event_def new_device_def split: option.splits)
  have uniq: "k = j" if "map_of (rg_devices g) k = Some x" "dv_topic x = Some t"
    "map_of (rg_devices g) j = Some z" "dv_topic z = Some t" for k j x z t
    using index_unique [OF registry_invD(6) [OF inv]] that by blast
  have t1: "k = did" if tt: "dv_topic ?d = Some t" "map_of (rg_devices g) k = Some x" "dv_topic x = Some t" for t k x
  proof (cases "event_integration e = mqtt_integration")
    case True
    then show ?thesis using that res(3) [OF True] topic by simp
  next
    case False
    then obtain z where "map_of (rg_devices g) did = Some z" "dv_topic z = Some t"
      using tt(1) topic by (auto split: option.splits)
    then show ?thesis using uniq tt by blast
  qed
  have t2: "(dv_topic x = None \<or> dv_topic x = dv_topic ?d) \<and> dv_integration x = dv_integration ?d"
    if "map_of (rg_devices g) did = Some x" for x
    using that res(2) by (simp add: merge_event_def)
  have inv1: "registry_inv ?g1" by (rule put_inv [OF inv dok]) (use t1 t2 in blast)+
  have "(?d, ?g1\<lparr>rg_emitted := rg_emitted ?g1 @
      [(did, dv_state ?d, dv_lastSeen ?d, if map_of (rg_devices g) did = None then Some ?d else None)]\<rparr>) = (d, g')"
    using up unfolding registry_upsert_def did sum.case Let_def id by (simp only: sum.inject)
  then have g': "d = ?d" "g' = ?g1\<lparr>rg_emitted := rg_emitted ?g1 @
      [(did, dv_state ?d, dv_lastSeen ?d, if map_of (rg_devices g) did = None then Some ?d else None)]\<rparr>"
    by (metis Pair_inject)+
  show ?thesis
  proof (rule that)
    show "device_ok did d" using dok unfolding g'(1) .
    show "d = (case map_of (rg_devices g) did of Some x \<Rightarrow> merge_event e x | None \<Rightarrow> new_device e did)"
      by (rule g'(1))
    show "registry_inv g'" using inv1 unfolding g'(2) by (simp add: registry_inv_def)
    show "map_of (rg_devices g') = (map_of (rg_devices g))(did \<mapsto> d)"
      unfolding g' by (simp add: schedulePersist_def index_topic_def)
    show "resolveMqttDeviceId sha (ne_topic e) (ne_deviceId e) g = Inr did"
      if "event_integration e = mqtt_integration" using did that by simp
    show "did = ne_deviceId e" if "event_integration e \<noteq> mqtt_integration" using did that by simp
  qed
qed

lemma index_ok_del:
  assumes idx: "index_ok dev top'" and d: "dev did = Some d"
  shows "index_ok (dev(did := None)) (case dv_topic d of None \<Rightarrow> top' | Some t \<Rightarrow> top'(t := None))"
  unfolding index_ok_def
proof (intro allI)
  fix t k
  show "(case dv_topic d of None \<Rightarrow> top' | Some t \<Rightarrow> top'(t := None)) t = Some k \<longleftrightarrow>
      (\<exists>x. (dev(did := None)) k = Some x \<and> dv_topic x = Some t)"
  proof (cases "dv_topic d = Some t")
    case True
    then have "\<not> (\<exists>x. (dev(did := None)) k = Some x \<and> dv_topic x = Some t)"
      using index_unique [OF idx _ _ d True] by (auto split: if_splits)
    then show ?thesis using True by simp
  next
    case False
    then have "(case dv_topic d of None \<Rightarrow> top' | Some t \<Rightarrow> top'(t := None)) t = top' t"
      by (auto split: option.splits)
    then show ?thesis using False d idx unfolding index_ok_def by auto
  qed
qed

lemma remove_inv:
  assumes inv: "registry_inv g" shows "registry_inv (snd (registry_remove did g))"
proof (cases "map_of (rg_devices g) did")
  case None
  then show ?thesis using inv by (simp add: registry_remove_def)
next
  case (Some d)
  note D = registry_invD [OF inv]
  have ok: "device_ok did d" using D(5) Some by blast
  let ?g = "snd (registry_remove did g)"
  have "map_of (rg_topics ?g) = (case dv_topic d of None \<Rightarrow> map_of (rg_topics g) | Some t \<Rightarrow> (map_of (rg_topics g))(t := None))"
    using ok by (auto simp: registry_remove_def Some set_text_def device_ok_def split: option.splits)
  then have "index_ok (map_of (rg_devices ?g)) (map_of (rg_topics ?g))"
    using index_ok_del [OF D(6) Some] by (simp add: registry_remove_def Some)
  then show ?thesis
    using D by (intro registry_invI) (auto simp: registry_remove_def Some table_ok_def pending_ok_def split: if_splits)
qed

lemma profile_inv:
  assumes inv: "registry_inv g" and p: "\<forall>v \<in> set_option p. plain_json v"
  shows "registry_inv (snd (setMqttCommandProfile fault did p g))"
proof (cases "map_of (rg_devices g) did")
  case None
  then show ?thesis using inv by (simp add: setMqttCommandProfile_def)
next
  case (Some x)
  let ?d = "x\<lparr>dv_mqttCommandProfile := p\<rparr>"
  have ok: "device_ok did ?d" using registry_invD(5) [OF inv Some] p by (simp add: device_ok_def)
  have idx: "index_ok ((map_of (rg_devices g))(did \<mapsto> ?d)) (map_of (rg_topics g))"
    using registry_invD(6) [OF inv] Some by (auto simp: index_ok_def)
  have "registry_inv (schedulePersist ?d (g\<lparr>rg_devices := AList.update did ?d (rg_devices g), rg_topics := rg_topics g\<rparr>))"
    by (rule put_core [OF inv ok idx registry_invD(2) [OF inv]]) (simp add: Some)
  then show ?thesis using flush_inv by (simp add: setMqttCommandProfile_def Some Let_def persistNow_def)
qed

lemma dispose_inv:
  assumes inv: "registry_inv g" shows "registry_inv (registry_dispose fault g)"
proof -
  let ?g = "g\<lparr>rg_timer := False\<rparr>"
  have "registry_inv (flushPendingWrites fault ?g)" using flush_inv inv_timer [OF inv] by blast
  let ?h = "flushPendingWrites fault (g\<lparr>rg_timer := False, rg_disposed := True\<rparr>)"
  have tab: "rg_devices ?h = rg_devices g" "rg_topics ?h = rg_topics g" "rg_disposed ?h"
    "rg_table ?h = rg_table (flushPendingWrites fault ?g)"
    by (auto simp: flushPendingWrites_def Let_def split: option.splits)
  show ?thesis
    using registry_invD [OF inv] registry_invD(4,7) [OF \<open>registry_inv (flushPendingWrites fault ?g)\<close>]
    by (intro registry_invI)
      (auto simp: registry_dispose_def Let_def tab pending_ok_def flushPendingWrites_def split: if_splits option.splits)
qed

interpretation registry: invariant_machine "registry_step sha" registry_ok "registry_init []" registry_inv for sha
proof
  show "registry_inv (registry_init [])"
    by (simp add: registry_inv_def registry_init_def index_ok_def table_ok_def pending_ok_def)
  show "registry_inv (registry_step sha a g)" if inv: "registry_inv g" and ok: "registry_ok a g" for a g
  proof (cases a)
    case (RUpsert e)
    have "registry_inv g'" if "registry_upsert sha e g = Inr (d, g')" for d g'
      using upsert_put [OF inv _ that] ok RUpsert by blast
    then show ?thesis using inv by (auto simp: RUpsert split: sum.splits)
  next
    case (RClose)
    then show ?thesis using registry_invD [OF inv] by (auto simp: pending_ok_def intro!: registry_invI)
  qed (use inv ok in \<open>auto simp: remove_inv profile_inv dispose_inv flush_timer_fires_def flush_inv inv_timer\<close>)
qed

section \<open>What the registry promises\<close>

lemma getByMqttTopic_inv:
  assumes inv: "registry_inv g"
  shows "getByMqttTopic t g = Some d \<longleftrightarrow> (\<exists>did. map_of (rg_devices g) did = Some d \<and> dv_topic d = Some t)"
proof -
  note D = registry_invD [OF inv]
  have idx: "map_of (rg_topics g) t = Some did \<longleftrightarrow> (\<exists>x. map_of (rg_devices g) did = Some x \<and> dv_topic x = Some t)" for did
    using D(6) by (simp add: index_ok_def)
  have ne: "did \<noteq> ''''" if "map_of (rg_devices g) did = Some x" for did x
    using D(5) [OF that] by (simp add: device_ok_def)
  show ?thesis
  proof (cases "map_of (rg_topics g) t")
    case None
    then show ?thesis using idx by (auto simp: getByMqttTopic_def)
  next
    case (Some did)
    then obtain x where x: "map_of (rg_devices g) did = Some x" "dv_topic x = Some t" using idx by blast
    then have "getByMqttTopic t g = Some x" using Some ne by (simp add: getByMqttTopic_def)
    then show ?thesis using x index_unique [OF D(6) _ _ x] by (metis option.inject)
  qed
qed


definition sample_event :: "string \<Rightarrow> string \<Rightarrow> jsobj \<Rightarrow> ms \<Rightarrow> normalized_event" where
  "sample_event did topic st now =
     \<lparr>ne_deviceId = did, ne_deviceType = ''light'', ne_state = st, ne_topic = topic, ne_timestamp = now,
      ne_integration = None, ne_connectorInstanceId = None, ne_name = None, ne_capabilities = None,
      ne_commandTopic = None\<rparr>"

definition sample_registry :: registry where
  "sample_registry = fold (registry_step (\<lambda>t. rev t))
     [RUpsert (sample_event ''light-a'' ''light/a'' [(''on'', JBool True)] 1),
      RUpsert (sample_event ''light-a'' ''light-a'' [(''on'', JBool False)] 2),
      RUpsert (sample_event ''light-a'' ''light/a'' [(''level'', JNum 7)] 3)] (registry_init [])"

lemma sample_registry_reach: "reach (registry_step (\<lambda>t. rev t)) registry_ok (registry_init []) sample_registry"
  unfolding sample_registry_def fold_simps
  by (intro reach_step reach_init) (simp_all add: sample_event_def)


text \<open>
  An event updates one device and steals none: it is stored under one identifier and every
  other device is left alone; the new state has the event's value for each property the event
  carries and the old value for the others; an MQTT event ends at a device registered with the
  event's topic, which before was registered with that topic or with none.
\<close>

lemma registry_upsert_routes:
  assumes "reach (registry_step sha) registry_ok (registry_init []) g" and "registry_ok (RUpsert e) g"
    and "registry_upsert sha e g = Inr (d, g')"
  shows "registry_getById (dv_id d) g' = Some d
    \<and> (\<forall>did. did \<noteq> dv_id d \<longrightarrow> registry_getById did g' = registry_getById did g)
    \<and> (\<forall>k. map_of (js_props (dv_state d)) k =
          (case map_of (ne_state e) k of
             Some v \<Rightarrow> Some v
           | None \<Rightarrow> Option.bind (registry_getById (dv_id d) g) (\<lambda>x. map_of (js_props (dv_state x)) k)))
    \<and> (event_integration e = mqtt_integration \<longrightarrow>
         dv_topic d = Some (ne_topic e) \<and> getByMqttTopic (ne_topic e) g' = Some d
         \<and> (\<forall>x. registry_getById (dv_id d) g = Some x \<longrightarrow> dv_topic x = None \<or> dv_topic x = Some (ne_topic e)))"
proof -
  have inv: "registry_inv g" using assms(1) by (rule registry.reach_inv)
  obtain did where dok: "device_ok did d" and map: "map_of (rg_devices g') = (map_of (rg_devices g))(did \<mapsto> d)"
    and res: "event_integration e = mqtt_integration \<Longrightarrow> resolveMqttDeviceId sha (ne_topic e) (ne_deviceId e) g = Inr did"
    and d: "d = (case map_of (rg_devices g) did of Some x \<Rightarrow> merge_event e x | None \<Rightarrow> new_device e did)"
    and inv': "registry_inv g'"
    using upsert_put [OF inv assms(2,3)] by metis
  have did: "dv_id d = did" using dok by (simp add: device_ok_def)
  have wf: "jm_wf (ne_state e)" using assms(2) by simp
  have st: "map_of (js_props (dv_state d)) k = (case map_of (ne_state e) k of Some v \<Rightarrow> Some v
      | None \<Rightarrow> Option.bind (map_of (rg_devices g) did) (\<lambda>x. map_of (js_props (dv_state x)) k))" for k
    unfolding d
    by (cases "map_of (rg_devices g) did")
      (simp_all add: merge_event_def new_device_def map_of_spread_wf [OF wf] split: option.splits)
  have mq: "dv_topic d = Some (ne_topic e) \<and> getByMqttTopic (ne_topic e) g' = Some d
      \<and> (\<forall>x. map_of (rg_devices g) did = Some x \<longrightarrow> dv_topic x = None \<or> dv_topic x = Some (ne_topic e))"
    if m: "event_integration e = mqtt_integration"
  proof -
    have t: "dv_topic d = Some (ne_topic e)"
      unfolding d using m by (simp add: merge_event_def new_device_def split: option.splits)
    have "map_of (rg_devices g') did = Some d" by (simp add: map)
    then have "getByMqttTopic (ne_topic e) g' = Some d" using getByMqttTopic_inv [OF inv'] t by blast
    moreover have "ne_deviceId e \<noteq> ''''" using assms(2) by simp
    ultimately show ?thesis using t resolve_correct(2) [OF inv _ res [OF m]] by blast
  qed
  show ?thesis unfolding registry_getById_def did map using st mq by simp
qed

section \<open>Restart\<close>

lemma deserialize_id: "deserializeDevice k r = Some d \<Longrightarrow> dv_id d = k"
  by (auto simp: deserializeDevice_def bind_eq_Some_conv)

lemma load_fold:
  "jm_wf rows \<Longrightarrow> map_of (rg_devices (fold load_row rows g)) k =
     (case Option.bind (map_of rows k) (deserializeDevice k) of Some d \<Rightarrow> Some d | None \<Rightarrow> map_of (rg_devices g) k)"
proof (induction rows arbitrary: g)
  case (Cons p rows)
  have step: "map_of (rg_devices (load_row p g)) k =
      (if k = fst p \<and> deserializeDevice (fst p) (snd p) \<noteq> None then deserializeDevice (fst p) (snd p)
       else map_of (rg_devices g) k)"
    by (auto simp: load_row_def index_topic_def dest: deserialize_id split: option.splits)
  have "map_of rows (fst p) = None" using Cons.prems by (auto simp: map_of_eq_None_iff)
  then show ?case
    using Cons.IH [of "load_row p g"] Cons.prems step by (cases "k = fst p") (auto split: option.splits)
qed simp



end
