(* ===== verification/State_History.thy ===== *)
theory State_History
  imports Js_Json "HOL-Library.Multiset"
begin

text \<open>
  The state history of devices (src/core/state-history.ts, safe-json.ts): snapshots in the
  table \<open>device_history\<close>, throttled per device by \<open>lastRecordTime\<close> and pruned to a cap.
  A write that SQLite refuses is the argument \<open>fault\<close>. The lemmas show that the snapshots
  of a device are spaced by the interval and never more than the cap, that pruning removes
  the oldest, and that a recorded snapshot is the first one read back.
\<close>

section \<open>The store\<close>

record history_row =
  hr_id :: nat
  hr_device_id :: string
  hr_state :: string
  hr_timestamp :: ms

record history_entry =
  he_deviceId :: string
  he_state :: jsval
  he_timestamp :: ms

record state_history =
  sh_rows :: "history_row list"
  sh_nextId :: nat
  sh_last :: "(string, ms) jsmap"
  sh_max :: nat
  sh_interval :: ms

definition state_history_init :: "nat option \<Rightarrow> ms option \<Rightarrow> state_history" where
  "state_history_init cap interval =
     \<lparr>sh_rows = [], sh_nextId = 1, sh_last = [],
      sh_max = (case cap of Some n \<Rightarrow> n | None \<Rightarrow> 100),
      sh_interval = (case interval of Some i \<Rightarrow> i | None \<Rightarrow> 5000)\<rparr>"

definition rows_for :: "string \<Rightarrow> state_history \<Rightarrow> history_row list" where
  "rows_for did h = filter (\<lambda>r. hr_device_id r = did) (sh_rows h)"

text \<open>The DELETE of \<open>prune\<close>: the rows of the device after the first \<open>cap\<close> in descending time.\<close>

definition history_prune :: "string \<Rightarrow> state_history \<Rightarrow> state_history" where
  "history_prune did h =
     (let stale = hr_id ` set (drop (sh_max h) (sort_key (\<lambda>r. - hr_timestamp r) (rows_for did h)))
      in h\<lparr>sh_rows := filter (\<lambda>r. hr_id r \<notin> stale) (sh_rows h)\<rparr>)"

definition history_record :: "bool \<Rightarrow> string \<Rightarrow> jsobj \<Rightarrow> ms \<Rightarrow> state_history \<Rightarrow> bool \<times> state_history" where
  "history_record fault did st ts h =
     (if (case map_of (sh_last h) did of Some lastTime \<Rightarrow> ts - lastTime < sh_interval h | None \<Rightarrow> False)
      then (False, h)
      else case (if fault then JsonNone else json_stringify (JObj st)) of
             JsonText t \<Rightarrow>
               (True, history_prune did
                  (h\<lparr>sh_rows := sh_rows h @
                       [\<lparr>hr_id = sh_nextId h, hr_device_id = did, hr_state = t, hr_timestamp = ts\<rparr>],
                     sh_nextId := Suc (sh_nextId h),
                     sh_last := AList.update did ts (sh_last h)\<rparr>))
           | _ \<Rightarrow> (False, h))"

definition safe_entries :: "history_row list \<Rightarrow> history_entry list" where
  "safe_entries rows =
     concat (map (\<lambda>r. case json_parse (hr_state r) of
                        None \<Rightarrow> []
                      | Some v \<Rightarrow> [\<lparr>he_deviceId = hr_device_id r, he_state = v, he_timestamp = hr_timestamp r\<rparr>]) rows)"

definition sql_limit :: "int \<Rightarrow> 'a list \<Rightarrow> 'a list" where
  "sql_limit n xs = (if n < 0 then xs else take (nat n) xs)"

definition getHistory :: "string \<Rightarrow> int option \<Rightarrow> state_history \<Rightarrow> history_entry list" where
  "getHistory did limit h =
     safe_entries (sql_limit (case limit of Some n \<Rightarrow> n | None \<Rightarrow> 50)
       (sort_key (\<lambda>r. - hr_timestamp r) (rows_for did h)))"

definition getHistoryRange :: "string \<Rightarrow> ms \<Rightarrow> ms \<Rightarrow> state_history \<Rightarrow> history_entry list" where
  "getHistoryRange did from to h =
     safe_entries (sort_key (\<lambda>r. - hr_timestamp r)
       (filter (\<lambda>r. from \<le> hr_timestamp r \<and> hr_timestamp r \<le> to) (rows_for did h)))"

definition history_clearDevice :: "string \<Rightarrow> state_history \<Rightarrow> nat \<times> state_history" where
  "history_clearDevice did h =
     (length (rows_for did h),
      h\<lparr>sh_rows := filter (\<lambda>r. hr_device_id r \<noteq> did) (sh_rows h), sh_last := AList.delete did (sh_last h)\<rparr>)"

definition history_clearAll :: "state_history \<Rightarrow> nat \<times> state_history" where
  "history_clearAll h = (length (sh_rows h), h\<lparr>sh_rows := [], sh_last := []\<rparr>)"

datatype snapshot_op = SRecord bool string jsobj ms | SClearDevice string | SClearAll

fun snapshot_step :: "snapshot_op \<Rightarrow> state_history \<Rightarrow> state_history" where
  "snapshot_step (SRecord fault did st ts) h = snd (history_record fault did st ts h)"
| "snapshot_step (SClearDevice did) h = snd (history_clearDevice did h)"
| "snapshot_step SClearAll h = snd (history_clearAll h)"

section \<open>The invariant\<close>

definition spaced :: "ms \<Rightarrow> history_row list \<Rightarrow> bool" where
  "spaced i rows \<longleftrightarrow> sorted_wrt (\<lambda>a b. hr_timestamp a + i \<le> hr_timestamp b) rows"

definition snapshots_inv :: "state_history \<Rightarrow> bool" where
  "snapshots_inv h \<longleftrightarrow>
     distinct (map hr_id (sh_rows h)) \<and> (\<forall>r \<in> set (sh_rows h). hr_id r < sh_nextId h)
     \<and> (\<forall>did. spaced (sh_interval h) (rows_for did h) \<and> length (rows_for did h) \<le> sh_max h)
     \<and> (\<forall>r \<in> set (sh_rows h). \<exists>t. map_of (sh_last h) (hr_device_id r) = Some t \<and> hr_timestamp r \<le> t)"

lemma sort_desc:
  assumes "spaced i xs" "0 < i" shows "sort_key (\<lambda>r. - hr_timestamp r) xs = rev xs"
proof -
  have "sorted_wrt (\<lambda>a b. hr_timestamp a < hr_timestamp b) xs"
    using assms by (auto simp: spaced_def elim: sorted_wrt_mono_rel [rotated])
  then have s: "sorted_wrt (\<lambda>a b. - hr_timestamp a < - hr_timestamp b) (rev xs)"
    by (simp add: sorted_wrt_rev)
  have "sort_key (\<lambda>r. - hr_timestamp r) xs = rev xs"
  proof (rule sort_key_inj_key_eq)
    show "mset xs = mset (rev xs)" by simp
    show "sorted (map (\<lambda>r. - hr_timestamp r) (rev xs))"
      unfolding sorted_map by (rule sorted_wrt_mono_rel [OF _ s]) simp
    have "sorted_wrt (<) (map (\<lambda>r. - hr_timestamp r) (rev xs))" using s by (simp add: sorted_wrt_map)
    then have "distinct (map (\<lambda>r. - hr_timestamp r) (rev xs))" unfolding strict_sorted_iff by blast
    then show "inj_on (\<lambda>r. - hr_timestamp r) (set xs)" by (simp add: distinct_map)
  qed
  then show ?thesis .
qed

lemma rows_for_append [simp]:
  "rows_for did (h\<lparr>sh_rows := sh_rows h @ [r], sh_nextId := n, sh_last := l\<rparr>)
     = rows_for did h @ (if hr_device_id r = did then [r] else [])"
  by (simp add: rows_for_def)

lemma filter_suffix:
  assumes "distinct (map f xs)" shows "filter (\<lambda>x. f x \<notin> f ` set (take n xs)) xs = drop n xs"
proof -
  have "f ` set (take n xs) \<inter> f ` set (drop n xs) = {}"
    using assms by (metis append_take_drop_id distinct_append list.set_map map_append)
  then have "filter (\<lambda>x. f x \<notin> f ` set (take n xs)) (drop n xs) = drop n xs"
    by (auto simp: filter_id_conv)
  moreover have "filter (\<lambda>x. f x \<notin> f ` set (take n xs)) (take n xs) = []" by (simp add: filter_empty_conv)
  ultimately have "filter (\<lambda>x. f x \<notin> f ` set (take n xs)) (take n xs @ drop n xs) = drop n xs"
    by (simp only: filter_append append_Nil)
  then show ?thesis by (simp only: append_take_drop_id)
qed

lemma rows_for_prune:
  assumes ids: "distinct (map hr_id (sh_rows h))" and sp: "spaced i (rows_for did h)" "0 < i"
  shows "rows_for k (history_prune did h) =
    (if k = did then drop (length (rows_for did h) - sh_max h) (rows_for did h) else rows_for k h)"
proof -
  let ?xs = "rows_for did h"
  have stale: "set (drop (sh_max h) (sort_key (\<lambda>r. - hr_timestamp r) ?xs)) = set (take (length ?xs - sh_max h) ?xs)"
    by (simp add: sort_desc [OF sp] drop_rev)
  have sub: "set (take n ?xs) \<subseteq> {r \<in> set (sh_rows h). hr_device_id r = did}" for n
    by (auto simp: rows_for_def dest: in_set_takeD)
  show ?thesis
  proof (cases "k = did")
    case True
    have "distinct (map hr_id ?xs)" using ids by (simp add: rows_for_def distinct_map_filter)
    then have "filter (\<lambda>x. hr_id x \<notin> hr_id ` set (take (length ?xs - sh_max h) ?xs)) ?xs = drop (length ?xs - sh_max h) ?xs"
      by (rule filter_suffix)
    then show ?thesis using True
      by (simp add: history_prune_def Let_def stale rows_for_def [of _ "h\<lparr>sh_rows := _\<rparr>"])
        (simp add: rows_for_def conj_commute)
  next
    case False
    have "hr_id r \<notin> hr_id ` set (take (length ?xs - sh_max h) ?xs)" if "r \<in> set (sh_rows h)" "hr_device_id r = k" for r
      using that False sub [of "length ?xs - sh_max h"] ids by (auto simp: distinct_map inj_on_def)
    then show ?thesis using False
      by (auto simp: history_prune_def Let_def stale rows_for_def [of _ "h\<lparr>sh_rows := _\<rparr>"] rows_for_def [of k h]
          intro!: filter_cong)
  qed
qed

lemma prune_subset: "set (sh_rows (history_prune did h)) \<subseteq> set (sh_rows h)"
  by (auto simp: history_prune_def Let_def)

lemma prune_fields [simp]:
  "sh_last (history_prune did h) = sh_last h" "sh_max (history_prune did h) = sh_max h"
  "sh_interval (history_prune did h) = sh_interval h" "sh_nextId (history_prune did h) = sh_nextId h"
  by (simp_all add: history_prune_def Let_def)

lemma prune_distinct: "distinct (map hr_id (sh_rows h)) \<Longrightarrow> distinct (map hr_id (sh_rows (history_prune did h)))"
  by (simp add: history_prune_def Let_def distinct_map_filter)

text \<open>An accepted snapshot, before pruning.\<close>

abbreviation (input) with_row :: "string \<Rightarrow> string \<Rightarrow> ms \<Rightarrow> state_history \<Rightarrow> state_history" where
  "with_row did t ts h \<equiv> h\<lparr>sh_rows := sh_rows h @
      [\<lparr>hr_id = sh_nextId h, hr_device_id = did, hr_state = t, hr_timestamp = ts\<rparr>],
    sh_nextId := Suc (sh_nextId h), sh_last := AList.update did ts (sh_last h)\<rparr>"

lemma spaced_drop: "spaced i xs \<Longrightarrow> spaced i (drop n xs)"
  by (simp add: spaced_def sorted_wrt_drop)

lemma with_row_spaced:
  assumes inv: "snapshots_inv h" and acc: "\<And>l. map_of (sh_last h) did = Some l \<Longrightarrow> l + sh_interval h \<le> ts"
  shows "spaced (sh_interval h) (rows_for k (with_row did t ts h))"
proof -
  have old: "spaced (sh_interval h) (rows_for k h)" using inv by (simp add: snapshots_inv_def)
  have "hr_timestamp r + sh_interval h \<le> ts" if "r \<in> set (rows_for did h)" for r
  proof -
    from that obtain l where "map_of (sh_last h) did = Some l" "hr_timestamp r \<le> l"
      using inv by (auto simp: snapshots_inv_def rows_for_def)
    then show ?thesis using acc by fastforce
  qed
  then show ?thesis using old by (auto simp: spaced_def sorted_wrt_append)
qed

lemma snapshots_inv_record:
  assumes inv: "snapshots_inv h" and pos: "0 < sh_interval h"
    and acc: "\<And>l. map_of (sh_last h) did = Some l \<Longrightarrow> l + sh_interval h \<le> ts"
  shows "snapshots_inv (history_prune did (with_row did t ts h))"
proof -
  let ?w = "with_row did t ts h"
  have ids: "distinct (map hr_id (sh_rows ?w))" using inv by (auto simp: snapshots_inv_def)
  have sp: "spaced (sh_interval h) (rows_for k ?w)" for k by (rule with_row_spaced [OF inv acc])
  have rows: "rows_for k (history_prune did ?w) =
      (if k = did then drop (length (rows_for did ?w) - sh_max h) (rows_for did ?w) else rows_for k ?w)" for k
    using rows_for_prune [OF ids sp pos] by simp
  have "spaced (sh_interval h) (rows_for k (history_prune did ?w))" for k
    unfolding rows using sp spaced_drop by (simp del: rows_for_append)
  moreover have "length (rows_for k (history_prune did ?w)) \<le> sh_max h" for k
    unfolding rows using inv by (auto simp: snapshots_inv_def)
  moreover have "hr_id r < Suc (sh_nextId h) \<and> (\<exists>l. map_of (sh_last ?w) (hr_device_id r) = Some l \<and> hr_timestamp r \<le> l)"
    if "r \<in> set (sh_rows (history_prune did ?w))" for r
  proof -
    have "r \<in> set (sh_rows ?w)" using prune_subset that by blast
    moreover have "hr_id q < sh_nextId h \<and> (\<exists>l. map_of (sh_last h) (hr_device_id q) = Some l \<and> hr_timestamp q \<le> l)"
      if "q \<in> set (sh_rows h)" for q using inv that by (simp add: snapshots_inv_def)
    ultimately show ?thesis using acc pos by fastforce
  qed
  ultimately show ?thesis using prune_distinct [OF ids] by (simp add: snapshots_inv_def)
qed

lemma accepted:
  assumes "history_record fault did st ts h = (True, h')"
  obtains t where "json_stringify (JObj st) = JsonText t" "h' = history_prune did (with_row did t ts h)"
    "\<And>l. map_of (sh_last h) did = Some l \<Longrightarrow> l + sh_interval h \<le> ts"
proof -
  have l: "l + sh_interval h \<le> ts" if "map_of (sh_last h) did = Some l" for l
    using assms that by (auto simp: history_record_def split: if_splits)
  have "\<exists>t. json_stringify (JObj st) = JsonText t \<and> h' = history_prune did (with_row did t ts h)"
    using assms by (auto simp: history_record_def split: if_splits json_out.splits)
  then show ?thesis using that l by blast
qed

lemma refused: "history_record fault did st ts h = (False, h') \<Longrightarrow> h' = h"
  by (auto simp: history_record_def split: if_splits json_out.splits)

definition positive_interval :: "snapshot_op \<Rightarrow> state_history \<Rightarrow> bool" where
  "positive_interval a h \<longleftrightarrow> 0 < sh_interval h"

lemma rows_for_clear: "rows_for k (h\<lparr>sh_rows := filter (\<lambda>r. hr_device_id r \<noteq> did) (sh_rows h), sh_last := l\<rparr>)
    = (if k = did then [] else rows_for k h)"
  by (auto simp: rows_for_def filter_empty_conv intro: filter_cong)

interpretation snapshots: invariant_machine snapshot_step positive_interval "state_history_init cap interval" snapshots_inv
  for cap interval
proof
  show "snapshots_inv (state_history_init cap interval)"
    by (simp add: snapshots_inv_def state_history_init_def rows_for_def spaced_def)
  show "snapshots_inv (snapshot_step a h)" if inv: "snapshots_inv h" and pos: "positive_interval a h" for a h
  proof (cases a)
    case (SRecord fault did st ts)
    obtain b h' where r: "history_record fault did st ts h = (b, h')" by fastforce
    have "snapshots_inv h'"
    proof (cases b)
      case True
      then show ?thesis
        using r pos accepted [of fault did st ts h h'] snapshots_inv_record [OF inv] unfolding positive_interval_def by metis
    next
      case False
      then show ?thesis using r refused inv by metis
    qed
    then show ?thesis by (simp add: SRecord r)
  next
    case (SClearDevice did)
    then show ?thesis using inv
      by (auto simp: history_clearDevice_def snapshots_inv_def rows_for_clear distinct_map_filter spaced_def)
  next
    case SClearAll
    then show ?thesis by (simp add: history_clearAll_def snapshots_inv_def rows_for_def spaced_def)
  qed
qed

text \<open>
  The history of a device is bounded and throttled: after any run there are never more
  snapshots of it than the cap, and any two of them are at least the recording interval
  apart.
\<close>

lemma state_history_bounded:
  assumes "reach snapshot_step positive_interval (state_history_init cap interval) h"
  shows "length (rows_for did h) \<le> sh_max h
    \<and> sorted_wrt (\<lambda>a b. hr_timestamp a + sh_interval h \<le> hr_timestamp b) (rows_for did h)"
  using snapshots.reach_inv [OF assms] by (simp add: snapshots_inv_def spaced_def)

definition sample_snapshots :: state_history where
  "sample_snapshots = fold snapshot_step
     [SRecord False ''d'' [(''v'', JNum 1)] 0, SRecord False ''d'' [(''v'', JNum 2)] 3, SRecord False ''d'' [(''v'', JNum 3)] 12,
      SRecord False ''d'' [(''v'', JNum 4)] 30] (state_history_init (Some 2) (Some 10))"

lemma sample_snapshots_reach:
  "reach snapshot_step positive_interval (state_history_init (Some 2) (Some 10)) sample_snapshots"
  unfolding sample_snapshots_def fold_simps
  by (intro reach_step reach_init; unfold positive_interval_def; code_simp)

text \<open>
  A recorded snapshot is the newest one read back: when a snapshot with a JSON state is
  accepted, asking for the latest entry of the device returns that state and time, and the
  snapshots of every other device are untouched.
\<close>

lemma state_history_reads_back:
  assumes "reach snapshot_step positive_interval (state_history_init cap interval) h" and "0 < sh_interval h"
    and "0 < sh_max h" and "plain_json (JObj st)" and "history_record fault did st ts h = (True, h')"
  shows "getHistory did (Some 1) h' = [\<lparr>he_deviceId = did, he_state = JObj st, he_timestamp = ts\<rparr>]
    \<and> (\<forall>k. k \<noteq> did \<longrightarrow> rows_for k h' = rows_for k h)"
proof -
  have inv: "snapshots_inv h" using assms(1) by (rule snapshots.reach_inv)
  have js: "json_stringify (JObj st) = JsonText (json_text (JObj st))" using assms(4) by (rule plain_stringify)
  obtain t where t: "t = json_text (JObj st)" and h': "h' = history_prune did (with_row did t ts h)"
    and acc: "\<And>l. map_of (sh_last h) did = Some l \<Longrightarrow> l + sh_interval h \<le> ts"
    using accepted [OF assms(5)] js by (metis json_out.inject(2))
  have inv': "snapshots_inv h'" unfolding h' by (rule snapshots_inv_record [OF inv assms(2) acc])
  have ids: "distinct (map hr_id (sh_rows (with_row did t ts h)))" using inv by (auto simp: snapshots_inv_def)
  have rows: "rows_for k h' = (if k = did then drop (length (rows_for did (with_row did t ts h)) - sh_max h)
      (rows_for did (with_row did t ts h)) else rows_for k (with_row did t ts h))" for k
    using rows_for_prune [OF ids with_row_spaced [OF inv acc] assms(2)] by (simp add: h')
  have "spaced (sh_interval h') (rows_for did h')" using inv' by (simp add: snapshots_inv_def)
  moreover have "0 < sh_interval h'" using assms(2) by (simp add: h')
  ultimately have desc: "sort_key (\<lambda>r. - hr_timestamp r) (rows_for did h') = rev (rows_for did h')" by (rule sort_desc)
  have "\<exists>ys. rows_for did h' = ys @ [\<lparr>hr_id = sh_nextId h, hr_device_id = did, hr_state = t, hr_timestamp = ts\<rparr>]"
    unfolding rows using assms(3) by simp
  then have "getHistory did (Some 1) h' = [\<lparr>he_deviceId = did, he_state = JObj st, he_timestamp = ts\<rparr>]"
    using json_roundtrip [OF assms(4)]
    by (auto simp: getHistory_def desc sql_limit_def safe_entries_def t simp del: json_text.simps)
  then show ?thesis unfolding rows by simp
qed

end
