(* ===== verification/Permissions.thy ===== *)
theory Permissions
  imports Device_Registry
begin

text \<open>
  Who may reach what: tab permissions of groups (src/auth/permission-service.ts), the
  effective permission on a device or automation (permission-resolver.ts), the persisted
  mapping of automations and collections to tabs (resource-ownership-store.ts,
  collection-ownership-store.ts), the live exposure of devices (device-exposure-resolver.ts,
  device-filter.ts), the references panes carry (pane-reference-extractor.ts) and the runtime
  scope of an automation (src/automations/automation-scope-resolver.ts).

  The tables are lists of rows in \<open>auth_db\<close>; foreign keys are enforced, so an insert may
  throw, which rolls the transaction back. The live inventory is the registry. The locale
  \<open>exposure\<close> is the interface the permission resolver relies on, a single and a batch
  lookup that agree; both stores implement it. The lemmas characterise a permission by the
  rows that grant it, show that list filtering is the single check, that reconciliation makes
  the stored mapping exactly the desired one, and that an automation's scope fails closed.
\<close>

section \<open>Rows\<close>

datatype permission_level = PRead | PInteract | PWrite

fun PERMISSION_RANK :: "permission_level \<Rightarrow> nat" where
  "PERMISSION_RANK PRead = 1"
| "PERMISSION_RANK PInteract = 2"
| "PERMISSION_RANK PWrite = 3"

record user_row =
  ur_id :: string
  ur_role :: principal_role
  ur_group_id :: "string option"

record rule_row =
  ru_id :: string
  ru_authored_unrestricted :: int
  ru_owner_tab_id :: "string option"

record pane_row =
  pn_tab_id :: string
  pn_pane_type :: string
  pn_config :: string

record auth_db =
  ad_users :: "user_row list"
  ad_group_tabs :: "(string \<times> string \<times> permission_level) list"
  ad_tabs :: "string list"
  ad_rules :: "rule_row list"
  ad_automation_tabs :: "(string \<times> string) list"
  ad_collection_tabs :: "(string \<times> string) list"
  ad_panes :: "pane_row list"

definition find_user :: "string \<Rightarrow> auth_db \<Rightarrow> user_row option" where
  "find_user uid db = find (\<lambda>u. ur_id u = uid) (ad_users db)"

text \<open>A JavaScript \<open>Set\<close> filled in order.\<close>

definition js_set :: "'a list \<Rightarrow> 'a list" where
  "js_set xs = fold (\<lambda>x s. if x \<in> set s then s else s @ [x]) xs []"

definition js_set_add :: "'a \<Rightarrow> 'a list \<Rightarrow> 'a list" where
  "js_set_add x s = (if x \<in> set s then s else s @ [x])"

section \<open>Tab permissions\<close>

definition getGroupPermissions :: "string \<Rightarrow> auth_db \<Rightarrow> (string \<times> permission_level) list" where
  "getGroupPermissions gid db = map snd (filter (\<lambda>(g, a). g = gid) (ad_group_tabs db))"

definition find_assignment :: "string \<Rightarrow> string \<Rightarrow> auth_db \<Rightarrow> permission_level option" where
  "find_assignment gid tab db =
     map_option (snd \<circ> snd) (find (\<lambda>(g, t, p). g = gid \<and> t = tab) (ad_group_tabs db))"

definition hasPermission :: "string \<Rightarrow> string \<Rightarrow> permission_level \<Rightarrow> auth_db \<Rightarrow> bool" where
  "hasPermission uid tab required db =
     (case find_user uid db of
        None \<Rightarrow> False
      | Some user \<Rightarrow>
          if ur_role user = RAdmin then True
          else case ur_group_id user of
                 None \<Rightarrow> False
               | Some gid \<Rightarrow>
                   (case find_assignment gid tab db of
                      None \<Rightarrow> False
                    | Some p \<Rightarrow> PERMISSION_RANK p \<ge> PERMISSION_RANK required))"

definition getUserTabPermission :: "string \<Rightarrow> string \<Rightarrow> auth_db \<Rightarrow> permission_level option" where
  "getUserTabPermission uid tab db =
     (case find_user uid db of
        None \<Rightarrow> None
      | Some user \<Rightarrow>
          if ur_role user = RAdmin then Some PWrite
          else case ur_group_id user of
                 None \<Rightarrow> None
               | Some gid \<Rightarrow> find_assignment gid tab db)"

definition getUserAccessibleTabs :: "string \<Rightarrow> auth_db \<Rightarrow> (string \<times> permission_level) list" where
  "getUserAccessibleTabs uid db =
     (case find_user uid db of
        None \<Rightarrow> []
      | Some user \<Rightarrow>
          if ur_role user = RAdmin then map (\<lambda>t. (t, PWrite)) (ad_tabs db)
          else case ur_group_id user of
                 None \<Rightarrow> []
               | Some gid \<Rightarrow> getGroupPermissions gid db)"

section \<open>Exposure of automations and collections\<close>

definition getOwnerTab :: "string \<Rightarrow> auth_db \<Rightarrow> string option" where
  "getOwnerTab aid db = Option.bind (find (\<lambda>r. ru_id r = aid) (ad_rules db)) ru_owner_tab_id"

definition ownership_getExposingTabs :: "string \<Rightarrow> auth_db \<Rightarrow> string list" where
  "ownership_getExposingTabs aid db =
     (let tabs = js_set (map snd (filter (\<lambda>(a, t). a = aid) (ad_automation_tabs db)))
      in if set_text (getOwnerTab aid db) then js_set_add (the (getOwnerTab aid db)) tabs else tabs)"

text \<open>\<open>sets.get(id)?.add(tab)\<close>.\<close>

definition add_if_present :: "string \<Rightarrow> string \<Rightarrow> (string, string list) jsmap \<Rightarrow> (string, string list) jsmap" where
  "add_if_present k t m =
     (case map_of m k of None \<Rightarrow> m | Some s \<Rightarrow> AList.update k (js_set_add t s) m)"

definition init_empty :: "string list \<Rightarrow> (string, 'v list) jsmap" where
  "init_empty ids = fold (\<lambda>i m. AList.update i [] m) ids []"

definition ownership_getExposingTabsBatch :: "string list \<Rightarrow> auth_db \<Rightarrow> (string, string list) jsmap" where
  "ownership_getExposingTabsBatch ids db =
     (let result = init_empty ids
      in if ids = [] then result
         else let rows = filter (\<lambda>(a, t). a \<in> set ids) (ad_automation_tabs db);
                  sets = fold (\<lambda>(a, t) m. add_if_present a t m) rows (init_empty ids);
                  ownerRows = filter (\<lambda>r. ru_id r \<in> set ids) (ad_rules db);
                  sets' = fold (\<lambda>r m. if set_text (ru_owner_tab_id r)
                                      then add_if_present (ru_id r) (the (ru_owner_tab_id r)) m else m) ownerRows sets
              in fold (\<lambda>(i, tabs) m. AList.update i tabs m) sets' result)"

text \<open>
  \<open>reconcileTabInternal\<close> and \<open>reconcileAll\<close>, which the two ownership stores write the
  same way: \<open>fk\<close> says which pairs the foreign keys of the table admit.
\<close>

fun insert_missing ::
  "(string \<times> string \<Rightarrow> bool) \<Rightarrow> string \<Rightarrow> string list \<Rightarrow> string list \<Rightarrow> (string \<times> string) list \<Rightarrow> (string \<times> string) list option" where
  "insert_missing fk tab current [] rows = Some rows"
| "insert_missing fk tab current (a # as) rows =
     (if a \<in> set current then insert_missing fk tab current as rows
      else if (a, tab) \<in> set rows then insert_missing fk tab current as rows
      else if fk (a, tab) then insert_missing fk tab current as (rows @ [(a, tab)])
      else None)"

definition reconcileTabInternal ::
  "(string \<times> string \<Rightarrow> bool) \<Rightarrow> string \<Rightarrow> string list \<Rightarrow> (string \<times> string) list \<Rightarrow> (string \<times> string) list option" where
  "reconcileTabInternal fk tab desired rows =
     (let current = js_set (map fst (filter (\<lambda>(a, t). t = tab) rows))
      in map_option (\<lambda>rows1. fold (\<lambda>a rs. if a \<in> set desired then rs else filter (\<lambda>p. p \<noteq> (a, tab)) rs) current rows1)
           (insert_missing fk tab current desired rows))"

fun reconcile_each ::
  "(string \<times> string \<Rightarrow> bool) \<Rightarrow> (string, string list) jsmap \<Rightarrow> (string \<times> string) list \<Rightarrow> (string \<times> string) list option" where
  "reconcile_each fk [] rows = Some rows"
| "reconcile_each fk ((tab, desired) # ds) rows =
     Option.bind (reconcileTabInternal fk tab desired rows) (reconcile_each fk ds)"

definition reconcile_rows ::
  "(string \<times> string \<Rightarrow> bool) \<Rightarrow> (string, string list) jsmap \<Rightarrow> (string \<times> string) list \<Rightarrow> (string \<times> string) list option" where
  "reconcile_rows fk desiredByTab rows =
     Option.bind (reconcile_each fk desiredByTab rows) (\<lambda>rows1.
       reconcile_each fk
         (map (\<lambda>t. (t, [])) (filter (\<lambda>t. \<not> jm_has desiredByTab t) (js_set (map snd rows1)))) rows1)"

definition ownership_reconcileTab :: "string \<Rightarrow> string list \<Rightarrow> auth_db \<Rightarrow> auth_db option" where
  "ownership_reconcileTab tab desired db =
     map_option (\<lambda>rows. db\<lparr>ad_automation_tabs := rows\<rparr>)
       (reconcileTabInternal (\<lambda>(a, t). a \<in> ru_id ` set (ad_rules db) \<and> t \<in> set (ad_tabs db))
          tab desired (ad_automation_tabs db))"

definition ownership_reconcileAll :: "(string, string list) jsmap \<Rightarrow> auth_db \<Rightarrow> auth_db option" where
  "ownership_reconcileAll desired db =
     map_option (\<lambda>rows. db\<lparr>ad_automation_tabs := rows\<rparr>)
       (reconcile_rows (\<lambda>(a, t). a \<in> ru_id ` set (ad_rules db) \<and> t \<in> set (ad_tabs db))
          desired (ad_automation_tabs db))"

definition collection_getExposingTabs :: "string \<Rightarrow> auth_db \<Rightarrow> string list" where
  "collection_getExposingTabs c db = map snd (filter (\<lambda>(n, t). n = c) (ad_collection_tabs db))"

definition getCollectionsForTab :: "string \<Rightarrow> auth_db \<Rightarrow> string list" where
  "getCollectionsForTab tab db = map fst (filter (\<lambda>(n, t). t = tab) (ad_collection_tabs db))"

definition collection_reconcileAll :: "(string, string list) jsmap \<Rightarrow> auth_db \<Rightarrow> auth_db option" where
  "collection_reconcileAll desired db =
     map_option (\<lambda>rows. db\<lparr>ad_collection_tabs := rows\<rparr>)
       (reconcile_rows (\<lambda>(c, t). t \<in> set (ad_tabs db)) desired (ad_collection_tabs db))"

section \<open>References carried by panes\<close>

record pane_ref =
  pr_tabId :: string
  pr_paneType :: string
  pr_config :: jsobj

definition AUTOMATION_PANE_TYPE :: string where "AUTOMATION_PANE_TYPE = ''automation''"
definition DATA_COLLECTION_PANE_TYPE :: string where "DATA_COLLECTION_PANE_TYPE = ''data-collection''"

text \<open>A property that is a non-empty string.\<close>

definition text_prop :: "jsobj \<Rightarrow> string \<Rightarrow> string option" where
  "text_prop c k = (case js_prop c k of JStr s \<Rightarrow> if length s = 0 then None else Some s | _ \<Rightarrow> None)"

definition add_to_tab :: "string \<Rightarrow> string \<Rightarrow> (string, string list) jsmap \<Rightarrow> (string, string list) jsmap" where
  "add_to_tab tab x m =
     AList.update tab (js_set_add x (case map_of m tab of Some s \<Rightarrow> s | None \<Rightarrow> [])) m"

definition extractAutomationAssignments ::
  "pane_ref list \<Rightarrow> string list option \<Rightarrow> (string, string list) jsmap" where
  "extractAutomationAssignments panes existing =
     fold (\<lambda>pane m.
       if pr_paneType pane \<noteq> AUTOMATION_PANE_TYPE then m
       else case text_prop (pr_config pane) ''ruleId'' of
              None \<Rightarrow> m
            | Some ruleId \<Rightarrow>
                if (case existing of Some ids \<Rightarrow> ruleId \<notin> set ids | None \<Rightarrow> False) then m
                else add_to_tab (pr_tabId pane) ruleId m) panes []"

definition extractCollectionAssignments :: "pane_ref list \<Rightarrow> (string, string list) jsmap" where
  "extractCollectionAssignments panes =
     fold (\<lambda>pane m.
       if pr_paneType pane \<noteq> DATA_COLLECTION_PANE_TYPE then m
       else case text_prop (pr_config pane) ''collection'' of
              None \<Rightarrow> m
            | Some c \<Rightarrow> add_to_tab (pr_tabId pane) c m) panes []"

section \<open>Live exposure of devices\<close>

record device_filter_pane =
  fp_paneType :: string
  fp_config :: jsobj

definition matchesDeviceFilter :: "device_filter_pane \<Rightarrow> device \<Rightarrow> bool" where
  "matchesDeviceFilter pane d =
     (case (if fp_paneType pane = ''hue-control'' then Some (dv_integration d = ''hue'' \<and> dv_type d = ''light'')
            else if fp_paneType pane = ''kasa-control'' then Some (dv_integration d = ''kasa'')
            else if fp_paneType pane = ''sensor-panel'' then Some (dv_type d = ''sensor'')
            else None) of
        None \<Rightarrow> False
      | Some m \<Rightarrow>
          if \<not> m then False
          else case text_prop (fp_config pane) ''deviceType'' of
                 Some t \<Rightarrow> dv_type d = t
               | None \<Rightarrow> m)"

definition parseConfig :: "string \<Rightarrow> jsobj" where
  "parseConfig raw =
     (if raw = '''' then []
      else case json_parse raw of Some (JObj ob) \<Rightarrow> ob | _ \<Rightarrow> [])"

definition loadPanes :: "auth_db \<Rightarrow> (string \<times> device_filter_pane) list" where
  "loadPanes db = map (\<lambda>r. (pn_tab_id r, \<lparr>fp_paneType = pn_pane_type r, fp_config = parseConfig (pn_config r)\<rparr>)) (ad_panes db)"

definition exposingTabsFor :: "device \<Rightarrow> (string \<times> device_filter_pane) list \<Rightarrow> string list" where
  "exposingTabsFor d panes = js_set (map fst (filter (\<lambda>(t, p). matchesDeviceFilter p d) panes))"

definition device_getExposingTabs :: "registry \<Rightarrow> string \<Rightarrow> auth_db \<Rightarrow> string list" where
  "device_getExposingTabs reg did db =
     (case registry_getById did reg of None \<Rightarrow> [] | Some d \<Rightarrow> exposingTabsFor d (loadPanes db))"

definition device_getExposingTabsBatch :: "registry \<Rightarrow> string list \<Rightarrow> auth_db \<Rightarrow> (string, string list) jsmap" where
  "device_getExposingTabsBatch reg ids db =
     (let result = init_empty ids
      in if ids = [] then result
         else let panes = loadPanes db
              in fold (\<lambda>i m. case registry_getById i reg of
                               None \<Rightarrow> m
                             | Some d \<Rightarrow> AList.update i (exposingTabsFor d panes) m) ids result)"

definition getExposedDeviceIds :: "registry \<Rightarrow> string \<Rightarrow> auth_db \<Rightarrow> string list" where
  "getExposedDeviceIds reg tab db =
     (let tabPanes = filter (\<lambda>(t, p). t = tab) (loadPanes db)
      in if tabPanes = [] then []
         else map dv_id (filter (\<lambda>d. \<exists>(t, p) \<in> set tabPanes. matchesDeviceFilter p d) (registry_getAll reg)))"

section \<open>The permission resolver\<close>

datatype resource_kind = KDevice | KAutomation

definition NONE_RANK :: nat where "NONE_RANK = 0"

definition getUserGroupId :: "string \<Rightarrow> auth_db \<Rightarrow> string option" where
  "getUserGroupId uid db = Option.bind (find_user uid db) ur_group_id"

definition groupRankByTab :: "string \<Rightarrow> auth_db \<Rightarrow> (string, nat) jsmap" where
  "groupRankByTab gid db =
     fold (\<lambda>(t, p) m. AList.update t (PERMISSION_RANK p) m) (getGroupPermissions gid db) []"

definition exposingTabs :: "registry \<Rightarrow> resource_kind \<Rightarrow> string \<Rightarrow> auth_db \<Rightarrow> string list" where
  "exposingTabs reg kind rid db =
     (case kind of KAutomation \<Rightarrow> ownership_getExposingTabs rid db | KDevice \<Rightarrow> device_getExposingTabs reg rid db)"

definition maxRankOverTabs :: "string list \<Rightarrow> (string, nat) jsmap \<Rightarrow> nat" where
  "maxRankOverTabs tabs rankByTab =
     fold (\<lambda>t best. case map_of rankByTab t of
                      Some rank \<Rightarrow> if rank > best then rank else best
                    | None \<Rightarrow> best) tabs NONE_RANK"

definition rankToPermission :: "nat \<Rightarrow> permission_level option" where
  "rankToPermission rank = find (\<lambda>l. PERMISSION_RANK l = rank) [PWrite, PInteract, PRead]"

definition effectivePermission :: "registry \<Rightarrow> string \<Rightarrow> resource_kind \<Rightarrow> string \<Rightarrow> auth_db \<Rightarrow> permission_level option" where
  "effectivePermission reg uid kind rid db =
     (case getUserGroupId uid db of
        None \<Rightarrow> None
      | Some gid \<Rightarrow> rankToPermission (maxRankOverTabs (exposingTabs reg kind rid db) (groupRankByTab gid db)))"

definition hasResourcePermission ::
  "registry \<Rightarrow> string \<Rightarrow> resource_kind \<Rightarrow> string \<Rightarrow> permission_level \<Rightarrow> auth_db \<Rightarrow> bool" where
  "hasResourcePermission reg uid kind rid required db =
     (case getUserGroupId uid db of
        None \<Rightarrow> False
      | Some gid \<Rightarrow>
          maxRankOverTabs (exposingTabs reg kind rid db) (groupRankByTab gid db) \<ge> PERMISSION_RANK required)"

definition filterByPermission ::
  "registry \<Rightarrow> string \<Rightarrow> resource_kind \<Rightarrow> string list \<Rightarrow> permission_level \<Rightarrow> auth_db \<Rightarrow> string list" where
  "filterByPermission reg uid kind ids required db =
     (if ids = [] then []
      else case getUserGroupId uid db of
             None \<Rightarrow> []
           | Some gid \<Rightarrow>
               let rankByTab = groupRankByTab gid db;
                   requiredRank = PERMISSION_RANK required;
                   exposing = (case kind of KAutomation \<Rightarrow> ownership_getExposingTabsBatch ids db
                                          | KDevice \<Rightarrow> device_getExposingTabsBatch reg ids db)
               in filter (\<lambda>i. maxRankOverTabs (case map_of exposing i of Some ts \<Rightarrow> ts | None \<Rightarrow> []) rankByTab
                              \<ge> requiredRank) ids)"

definition accessibleTabIds :: "string \<Rightarrow> auth_db \<Rightarrow> string list" where
  "accessibleTabIds uid db =
     (case getUserGroupId uid db of None \<Rightarrow> [] | Some gid \<Rightarrow> jm_keys (groupRankByTab gid db))"

section \<open>The scope of an automation\<close>

datatype authorization_scope =
    Unrestricted
  | Scoped (sc_tabId: "string option") (sc_deviceIds: "string list") (sc_collections: "string list")

definition EMPTY_SCOPED :: authorization_scope where
  "EMPTY_SCOPED = Scoped None [] []"

definition scope_resolve :: "registry \<Rightarrow> string \<Rightarrow> auth_db \<Rightarrow> authorization_scope" where
  "scope_resolve reg rid db =
     (case find (\<lambda>r. ru_id r = rid) (ad_rules db) of
        None \<Rightarrow> EMPTY_SCOPED
      | Some row \<Rightarrow>
          if ru_authored_unrestricted row = 1 then Unrestricted
          else if \<not> set_text (ru_owner_tab_id row) then EMPTY_SCOPED
          else Scoped (ru_owner_tab_id row)
                 (js_set (getExposedDeviceIds reg (the (ru_owner_tab_id row)) db))
                 (js_set (getCollectionsForTab (the (ru_owner_tab_id row)) db)))"

section \<open>Sets and ranks\<close>

lemma set_js_set_add [simp]: "set (js_set_add x s) = insert x (set s)"
  by (auto simp: js_set_add_def)

lemma set_js_set [simp]: "set (js_set xs) = set xs"
proof -
  have "set (fold (\<lambda>x s. if x \<in> set s then s else s @ [x]) xs s) = set s \<union> set xs" for s
    by (induction xs arbitrary: s) auto
  then show ?thesis by (simp add: js_set_def)
qed

lemma rank_positive [simp]: "0 < PERMISSION_RANK p"
  by (cases p) auto

lemma rank_inject [simp]: "PERMISSION_RANK p = PERMISSION_RANK q \<longleftrightarrow> p = q"
  by (cases p; cases q) auto

lemma maxRank_fold:
  "(r :: nat) \<le> fold (\<lambda>t best. case map_of m t of Some rank \<Rightarrow> if rank > best then rank else best | None \<Rightarrow> best) tabs b
    \<longleftrightarrow> r \<le> b \<or> (\<exists>t \<in> set tabs. \<exists>k. map_of m t = Some k \<and> r \<le> k)"
proof (induction tabs arbitrary: b)
  case (Cons t tabs)
  show ?case
  proof (cases "map_of m t")
    case None
    then show ?thesis using Cons.IH [of b] by simp
  next
    case (Some k)
    then show ?thesis using Cons.IH [of k] Cons.IH [of b] by (cases "b < k") auto
  qed
qed simp

lemma maxRank_ge:
  "0 < r \<Longrightarrow> r \<le> maxRankOverTabs tabs m \<longleftrightarrow> (\<exists>t \<in> set tabs. \<exists>k. map_of m t = Some k \<and> r \<le> k)"
  by (simp add: maxRankOverTabs_def maxRank_fold NONE_RANK_def)

lemma maxRank_set:
  assumes "set ts = set us" shows "maxRankOverTabs ts m = maxRankOverTabs us m"
proof -
  have "r \<le> maxRankOverTabs ts m \<longleftrightarrow> r \<le> maxRankOverTabs us m" for r
    using assms maxRank_ge [of r] by (cases "r = 0") auto
  then show ?thesis by (meson order.antisym order.refl)
qed

text \<open>The keys of the tables: an assignment per group and tab, a row per rule and per user.\<close>

definition auth_keys :: "auth_db \<Rightarrow> bool" where
  "auth_keys db \<longleftrightarrow> distinct (map (\<lambda>(g, t, p). (g, t)) (ad_group_tabs db)) \<and> distinct (map ru_id (ad_rules db))"

lemma group_tabs_functional:
  "distinct (map (\<lambda>(g, t, p). (g, t)) xs) \<Longrightarrow> (g, t, p) \<in> set xs \<Longrightarrow> (g, t, q) \<in> set xs \<Longrightarrow> p = q"
  by (induction xs) (force split: prod.splits)+

lemma fold_update_map: "map_of (fold (\<lambda>(k, v) m. AList.update k (f v) m) xs m) k =
    (case map_of (rev xs) k of Some v \<Rightarrow> Some (f v) | None \<Rightarrow> map_of m k)"
  by (induction xs arbitrary: m) (auto simp: map_of_append split: option.splits)

lemma getGroupPermissions_mem: "(t, p) \<in> set (getGroupPermissions g db) \<longleftrightarrow> (g, t, p) \<in> set (ad_group_tabs db)"
  by (force simp: getGroupPermissions_def)

lemma groupRank_iff:
  assumes "auth_keys db"
  shows "map_of (groupRankByTab g db) t = Some k \<longleftrightarrow> (\<exists>p. (g, t, p) \<in> set (ad_group_tabs db) \<and> k = PERMISSION_RANK p)"
proof -
  let ?xs = "getGroupPermissions g db"
  have mem: "map_of (rev ?xs) t = Some p \<Longrightarrow> (g, t, p) \<in> set (ad_group_tabs db)" for p
    by (auto dest!: map_of_SomeD simp: getGroupPermissions_mem)
  have ex: "(g, t, p) \<in> set (ad_group_tabs db) \<Longrightarrow> map_of (rev ?xs) t \<noteq> None" for p
    unfolding map_of_eq_None_iff using getGroupPermissions_mem [of t p g db] by force
  have fn: "(g, t, p) \<in> set (ad_group_tabs db) \<Longrightarrow> (g, t, q) \<in> set (ad_group_tabs db) \<Longrightarrow> p = q" for p q
    using assms group_tabs_functional unfolding auth_keys_def by metis
  have "map_of (groupRankByTab g db) t = map_option PERMISSION_RANK (map_of (rev ?xs) t)"
    by (simp add: groupRankByTab_def fold_update_map split: option.splits)
  moreover have "map_of (rev ?xs) t = Some p \<longleftrightarrow> (g, t, p) \<in> set (ad_group_tabs db)" for p
    using mem ex fn by (metis option.exhaust)
  ultimately show ?thesis by auto
qed

lemma find_assignment_iff:
  assumes "auth_keys db" shows "find_assignment g t db = Some p \<longleftrightarrow> (g, t, p) \<in> set (ad_group_tabs db)"
proof -
  have fn: "(g, t, q) \<in> set (ad_group_tabs db) \<Longrightarrow> (g, t, p) \<in> set (ad_group_tabs db) \<Longrightarrow> q = p" for q
    using assms group_tabs_functional unfolding auth_keys_def by metis
  show ?thesis
  proof (cases "find (\<lambda>(g', t', p). g' = g \<and> t' = t) (ad_group_tabs db)")
    case None
    then have "(g, t, p) \<notin> set (ad_group_tabs db)" unfolding find_None_iff by blast
    then show ?thesis unfolding find_assignment_def None by simp
  next
    case (Some x)
    then obtain q where "x = (g, t, q)" "(g, t, q) \<in> set (ad_group_tabs db)"
      by (cases x) (auto dest: find_SomeD)
    then show ?thesis unfolding find_assignment_def Some using fn by auto
  qed
qed

section \<open>Batch and single lookups\<close>

locale exposure =
  fixes single :: "string \<Rightarrow> auth_db \<Rightarrow> string list"
    and batch :: "string list \<Rightarrow> auth_db \<Rightarrow> (string, string list) jsmap"
    and good :: "auth_db \<Rightarrow> bool"
  assumes batch_single: "good db \<Longrightarrow> i \<in> set ids \<Longrightarrow>
    \<exists>ts. map_of (batch ids db) i = Some ts \<and> set ts = set (single i db)"
begin

lemma filter_pointwise:
  assumes "good db"
  shows "filter (\<lambda>i. r \<le> maxRankOverTabs (case map_of (batch ids db) i of Some ts \<Rightarrow> ts | None \<Rightarrow> []) m) ids
    = filter (\<lambda>i. r \<le> maxRankOverTabs (single i db) m) ids"
proof (rule filter_cong [OF refl])
  fix i assume "i \<in> set ids"
  then obtain ts where "map_of (batch ids db) i = Some ts" "set ts = set (single i db)"
    using batch_single [OF assms] by blast
  then show "(r \<le> maxRankOverTabs (case map_of (batch ids db) i of Some ts \<Rightarrow> ts | None \<Rightarrow> []) m)
      = (r \<le> maxRankOverTabs (single i db) m)"
    using maxRank_set [of ts "single i db" m] by simp
qed

end

lemma init_empty_map: "map_of (init_empty ids :: (string, 'a list) jsmap) i = (if i \<in> set ids then Some [] else None)"
proof -
  have "map_of (fold (\<lambda>i m. AList.update i [] m) ids m) i = (if i \<in> set ids then Some [] else map_of m i)"
    for m :: "(string, 'a list) jsmap"
    by (induction ids arbitrary: m) auto
  then show ?thesis by (simp add: init_empty_def)
qed

interpretation device_exposure: exposure "device_getExposingTabs reg" "device_getExposingTabsBatch reg" "\<lambda>_. True" for reg
proof
  fix db :: auth_db and i :: string and ids :: "string list"
  assume "i \<in> set ids"
  have "map_of (fold (\<lambda>i m. case registry_getById i reg of None \<Rightarrow> m | Some d \<Rightarrow> AList.update i (exposingTabsFor d ps) m) js m) i
      = (case registry_getById i reg of Some d \<Rightarrow> if i \<in> set js then Some (exposingTabsFor d ps) else map_of m i
         | None \<Rightarrow> map_of m i)" for js m ps
    by (induction js arbitrary: m) (auto split: option.splits)
  then show "\<exists>ts. map_of (device_getExposingTabsBatch reg ids db) i = Some ts \<and> set ts = set (device_getExposingTabs reg i db)"
    using \<open>i \<in> set ids\<close>
    by (auto simp: device_getExposingTabsBatch_def device_getExposingTabs_def Let_def init_empty_map split: option.splits)
qed

lemma add_present_fold:
  assumes "map_of m i = Some s"
  shows "\<exists>s'. map_of (fold (\<lambda>(a, t) m. add_if_present a t m) rows m) i = Some s'
    \<and> set s' = set s \<union> {t. (i, t) \<in> set rows}"
  using assms
proof (induction rows arbitrary: m s)
  case (Cons p rows)
  show ?case
  proof (cases "fst p = i")
    case True
    have "map_of (add_if_present (fst p) (snd p) m) i = Some (js_set_add (snd p) s)"
      using Cons.prems True by (simp add: add_if_present_def)
    from Cons.IH [OF this] obtain s' where
      "map_of (fold (\<lambda>(a, t) m. add_if_present a t m) rows (add_if_present (fst p) (snd p) m)) i = Some s'"
      "set s' = insert (snd p) (set s) \<union> {t. (i, t) \<in> set rows}" by auto
    moreover have "{t. (i, t) \<in> set (p # rows)} = insert (snd p) {t. (i, t) \<in> set rows}"
      using True by (cases p) auto
    ultimately show ?thesis by (auto simp: case_prod_unfold)
  next
    case False
    have "map_of (add_if_present (fst p) (snd p) m) i = Some s"
      using Cons.prems False by (simp add: add_if_present_def split: option.splits)
    from Cons.IH [OF this] show ?thesis using False by (cases p) auto
  qed
qed simp

lemma owner_fold:
  "fold (\<lambda>r m. if set_text (ru_owner_tab_id r) then add_if_present (ru_id r) (the (ru_owner_tab_id r)) m else m) rs m
    = fold (\<lambda>(a, t) m. add_if_present a t m)
        (map (\<lambda>r. (ru_id r, the (ru_owner_tab_id r))) (filter (\<lambda>r. set_text (ru_owner_tab_id r)) rs)) m"
  by (induction rs arbitrary: m) auto

lemma owner_tab_iff:
  assumes "auth_keys db"
  shows "getOwnerTab i db = Some t \<longleftrightarrow> (\<exists>r \<in> set (ad_rules db). ru_id r = i \<and> ru_owner_tab_id r = Some t)"
proof (cases "find (\<lambda>r. ru_id r = i) (ad_rules db)")
  case None
  then have "\<not> (\<exists>r \<in> set (ad_rules db). ru_id r = i)" unfolding find_None_iff by blast
  then show ?thesis using None by (auto simp: getOwnerTab_def)
next
  case (Some r)
  then have r: "r \<in> set (ad_rules db)" "ru_id r = i" by (auto dest: find_SomeD)
  then have "q = r" if "q \<in> set (ad_rules db)" "ru_id q = i" for q
    using that assms by (auto simp: auth_keys_def distinct_map inj_on_def)
  then have "(\<exists>q \<in> set (ad_rules db). ru_id q = i \<and> ru_owner_tab_id q = Some t) \<longleftrightarrow> ru_owner_tab_id r = Some t"
    using r by blast
  then show ?thesis unfolding getOwnerTab_def Some by simp
qed

lemma update_all: "jm_wf xs \<Longrightarrow> map_of (fold (\<lambda>(i, v) m. AList.update i v m) xs m) k =
    (case map_of xs k of Some v \<Rightarrow> Some v | None \<Rightarrow> map_of m k)"
  using fold_update_map [of "\<lambda>v. v" xs m k] by (simp add: map_of_rev_wf)

lemma add_present_wf: "jm_wf m \<Longrightarrow> jm_wf (fold (\<lambda>(a, t) m. add_if_present a t m) rows m)"
  by (induction rows arbitrary: m) (auto simp: add_if_present_def split: option.splits)

lemma init_empty_wf: "jm_wf (init_empty ids :: (string, 'v list) jsmap)"
proof -
  have "jm_wf m \<Longrightarrow> jm_wf (fold (\<lambda>i m. AList.update i [] m) ids m)" for m :: "(string, 'v list) jsmap"
    by (induction ids arbitrary: m) auto
  then show ?thesis by (simp add: init_empty_def)
qed

interpretation automation_exposure: exposure ownership_getExposingTabs ownership_getExposingTabsBatch auth_keys
proof
  fix db :: auth_db and i :: string and ids :: "string list"
  assume keys: "auth_keys db" and i: "i \<in> set ids"
  let ?rows = "filter (\<lambda>(a, t). a \<in> set ids) (ad_automation_tabs db)"
  let ?own = "map (\<lambda>r. (ru_id r, the (ru_owner_tab_id r)))
    (filter (\<lambda>r. set_text (ru_owner_tab_id r)) (filter (\<lambda>r. ru_id r \<in> set ids) (ad_rules db)))"
  let ?sets = "fold (\<lambda>(a, t) m. add_if_present a t m) ?own (fold (\<lambda>(a, t) m. add_if_present a t m) ?rows (init_empty ids))"
  obtain s1 where s1: "map_of (fold (\<lambda>(a, t) m. add_if_present a t m) ?rows (init_empty ids)) i = Some s1"
    "set s1 = {t. (i, t) \<in> set ?rows}"
    using add_present_fold [of "init_empty ids" i "[]" ?rows] i by (auto simp: init_empty_map)
  obtain s2 where s2: "map_of ?sets i = Some s2" "set s2 = set s1 \<union> {t. (i, t) \<in> set ?own}"
    using add_present_fold [OF s1(1), of ?own] by blast
  have wf: "jm_wf ?sets" by (intro add_present_wf init_empty_wf)
  have b: "map_of (ownership_getExposingTabsBatch ids db) i = Some s2"
    using i s2(1) update_all [OF wf, of "init_empty ids" i]
    by (auto simp: ownership_getExposingTabsBatch_def Let_def owner_fold)
  have "(i, t) \<in> set ?own \<longleftrightarrow> set_text (getOwnerTab i db) \<and> getOwnerTab i db = Some t" for t
    using i owner_tab_iff [OF keys, of i t] by (force simp: set_text_def)
  then have "{t. (i, t) \<in> set ?own} = (if set_text (getOwnerTab i db) then {the (getOwnerTab i db)} else {})"
    by (auto simp: set_text_def)
  moreover have "{t. (i, t) \<in> set ?rows} = snd ` {x \<in> set (ad_automation_tabs db). case x of (a, t) \<Rightarrow> a = i}"
    using i by force
  ultimately have "set s2 = set (ownership_getExposingTabs i db)"
    unfolding s2(2) s1(2) by (simp add: ownership_getExposingTabs_def Let_def)
  then show "\<exists>ts. map_of (ownership_getExposingTabsBatch ids db) i = Some ts \<and> set ts = set (ownership_getExposingTabs i db)"
    using b by blast
qed

section \<open>Reconciliation\<close>

lemma insert_missing_set:
  "insert_missing fk tab cur as rows = Some rows' \<Longrightarrow>
    set rows' = set rows \<union> (\<lambda>a. (a, tab)) ` (set as - set cur)"
  by (induction fk tab cur "as" rows rule: insert_missing.induct) (auto split: if_splits)

lemma insert_missing_ok:
  "(\<And>a. a \<in> set as \<Longrightarrow> fk (a, tab)) \<Longrightarrow> \<exists>rows'. insert_missing fk tab cur as rows = Some rows'"
  by (induction fk tab cur "as" rows rule: insert_missing.induct) auto

lemma insert_missing_throws:
  "a \<in> set as \<Longrightarrow> a \<notin> set cur \<Longrightarrow> (a, tab) \<notin> set rows \<Longrightarrow> \<not> fk (a, tab) \<Longrightarrow> insert_missing fk tab cur as rows = None"
  by (induction fk tab cur "as" rows rule: insert_missing.induct) auto

lemma insert_missing_none: "set as \<subseteq> set cur \<Longrightarrow> insert_missing fk tab cur as rows = Some rows"
  by (induction "as") auto

lemma insert_missing_distinct:
  "insert_missing fk tab cur as rows = Some rows' \<Longrightarrow> distinct rows \<Longrightarrow> distinct rows'"
  by (induction fk tab cur "as" rows rule: insert_missing.induct) (auto split: if_splits)

lemma remove_stale_set:
  "set (fold (\<lambda>a rs. if a \<in> set desired then rs else filter (\<lambda>p. p \<noteq> (a, tab)) rs) cur rs) =
    set rs - (\<lambda>a. (a, tab)) ` (set cur - set desired)"
  by (induction cur arbitrary: rs) auto

lemma remove_stale_distinct:
  "distinct rs \<Longrightarrow> distinct (fold (\<lambda>a rs. if a \<in> set desired then rs else filter (\<lambda>p. p \<noteq> (a, tab)) rs) cur rs)"
  by (induction cur arbitrary: rs) auto

lemma remove_stale_none:
  "set cur \<subseteq> set desired \<Longrightarrow> fold (\<lambda>a rs. if a \<in> set desired then rs else filter (\<lambda>p. p \<noteq> (a, tab)) rs) cur rs = rs"
  by (induction cur arbitrary: rs) auto

lemma current_of_tab: "set (js_set (map fst (filter (\<lambda>(a, t). t = tab) rows))) = {a. (a, tab) \<in> set rows}"
  by force

lemma reconcileTab_set:
  assumes "reconcileTabInternal fk tab desired rows = Some rows'"
  shows "set rows' = {p \<in> set rows. snd p \<noteq> tab} \<union> (\<lambda>a. (a, tab)) ` set desired"
    and "distinct rows \<Longrightarrow> distinct rows'"
proof -
  let ?cur = "js_set (map fst (filter (\<lambda>(a, t). t = tab) rows))"
  obtain rows1 where ins: "insert_missing fk tab ?cur desired rows = Some rows1"
    and rows': "rows' = fold (\<lambda>a rs. if a \<in> set desired then rs else filter (\<lambda>p. p \<noteq> (a, tab)) rs) ?cur rows1"
    using assms by (auto simp: reconcileTabInternal_def Let_def)
  show "distinct rows \<Longrightarrow> distinct rows'"
    unfolding rows' by (rule remove_stale_distinct [OF insert_missing_distinct [OF ins]])
  show "set rows' = {p \<in> set rows. snd p \<noteq> tab} \<union> (\<lambda>a. (a, tab)) ` set desired"
    unfolding rows' remove_stale_set insert_missing_set [OF ins] current_of_tab by (auto simp: image_iff)
qed

lemma reconcileTab_ok:
  "(\<And>a. a \<in> set desired \<Longrightarrow> fk (a, tab)) \<Longrightarrow> \<exists>rows'. reconcileTabInternal fk tab desired rows = Some rows'"
  using insert_missing_ok [of desired fk tab "js_set (map fst (filter (\<lambda>(a, t). t = tab) rows))" rows]
  by (auto simp: reconcileTabInternal_def Let_def)

lemma reconcileTab_fixpoint:
  "{a. (a, tab) \<in> set rows} = set desired \<Longrightarrow> reconcileTabInternal fk tab desired rows = Some rows"
  unfolding reconcileTabInternal_def Let_def
  by (subst insert_missing_none; simp only: current_of_tab option.map remove_stale_none order.refl)

lemma reconcile_each_set:
  "reconcile_each fk ds rows = Some rows' \<Longrightarrow> jm_wf ds \<Longrightarrow>
    set rows' = {p \<in> set rows. snd p \<notin> fst ` set ds} \<union> {(a, t). \<exists>ids. map_of ds t = Some ids \<and> a \<in> set ids}"
proof (induction fk ds rows rule: reconcile_each.induct)
  case (2 fk tab desired ds rows)
  then obtain rows1 where r1: "reconcileTabInternal fk tab desired rows = Some rows1"
    and r2: "reconcile_each fk ds rows1 = Some rows'" by (auto simp: bind_eq_Some_conv)
  have "map_of ds tab = None" using "2.prems" by (auto simp: map_of_eq_None_iff)
  then show ?case
    unfolding "2.IH" [OF r1 r2, simplified, OF distinct_tl [OF "2.prems"(2), simplified]]
      reconcileTab_set(1) [OF r1] using "2.prems" by (auto simp: map_of_eq_None_iff image_iff)
qed simp

lemma reconcile_each_distinct: "reconcile_each fk ds rows = Some rows' \<Longrightarrow> distinct rows \<Longrightarrow> distinct rows'"
  by (induction fk ds rows rule: reconcile_each.induct) (auto simp: bind_eq_Some_conv dest: reconcileTab_set(2))

lemma reconcile_each_ok:
  "(\<And>t ids a. (t, ids) \<in> set ds \<Longrightarrow> a \<in> set ids \<Longrightarrow> fk (a, t)) \<Longrightarrow> \<exists>rows'. reconcile_each fk ds rows = Some rows'"
proof (induction fk ds rows rule: reconcile_each.induct)
  case (2 fk tab desired ds rows)
  obtain rows1 where "reconcileTabInternal fk tab desired rows = Some rows1"
    using reconcileTab_ok [of desired fk tab rows] "2.prems" by auto
  moreover have "\<exists>rows'. reconcile_each fk ds rows1 = Some rows'"
    by (rule "2.IH" [OF calculation]) (use "2.prems" in \<open>auto\<close>)
  ultimately show ?case by simp
qed simp

lemma reconcile_each_fixpoint:
  "(\<And>t ids. (t, ids) \<in> set ds \<Longrightarrow> {a. (a, t) \<in> set rows} = set ids) \<Longrightarrow> reconcile_each fk ds rows = Some rows"
  by (induction fk ds rows rule: reconcile_each.induct) (auto simp: reconcileTab_fixpoint)

definition desired_pairs :: "(string, string list) jsmap \<Rightarrow> (string \<times> string) set" where
  "desired_pairs ds = {(a, t). \<exists>ids. map_of ds t = Some ids \<and> a \<in> set ids}"

lemma distinct_js_set [simp]: "distinct (js_set xs)"
proof -
  have "distinct s \<Longrightarrow> distinct (fold (\<lambda>x s. if x \<in> set s then s else s @ [x]) xs s)" for s :: "'a list"
    by (induction xs arbitrary: s) auto
  then show ?thesis by (simp add: js_set_def)
qed

lemma reconcile_rows_set:
  assumes "reconcile_rows fk ds rows = Some rows'" and "jm_wf ds"
  shows "set rows' = desired_pairs ds" and "distinct rows \<Longrightarrow> distinct rows'"
proof -
  obtain rows1 where r1: "reconcile_each fk ds rows = Some rows1"
    and r2: "reconcile_each fk (map (\<lambda>t. (t, [])) (filter (\<lambda>t. \<not> jm_has ds t) (js_set (map snd rows1)))) rows1 = Some rows'"
    using assms(1) by (auto simp: reconcile_rows_def bind_eq_Some_conv)
  have wf: "jm_wf (map (\<lambda>t. (t, [])) (filter (\<lambda>t. \<not> jm_has ds t) (js_set (map snd rows1))))"
    by (simp add: comp_def)
  have none: "map_of (map (\<lambda>t. (t, [])) xs) t = Some ids \<Longrightarrow> ids = []" for xs t and ids :: "string list"
    by (auto dest: map_of_SomeD)
  have "set rows' = {p \<in> set rows1. jm_has ds (snd p)}"
    unfolding reconcile_each_set [OF r2 wf] by (auto dest!: none simp: image_iff)
  also have "\<dots> = desired_pairs ds"
    unfolding reconcile_each_set [OF r1 assms(2)] desired_pairs_def
    by (auto simp: jm_has_def) (metis domI dom_map_of_conv_image_fst option.distinct(1))+
  finally show "set rows' = desired_pairs ds" .
  show "distinct rows \<Longrightarrow> distinct rows'"
    using reconcile_each_distinct [OF r1] reconcile_each_distinct [OF r2] by blast
qed

lemma reconcile_rows_ok:
  assumes "\<And>p. p \<in> desired_pairs ds \<Longrightarrow> fk p" and "jm_wf ds"
  shows "\<exists>rows'. reconcile_rows fk ds rows = Some rows'"
proof -
  obtain rows1 where "reconcile_each fk ds rows = Some rows1"
    using reconcile_each_ok [of ds fk rows] assms by (force simp: desired_pairs_def)
  moreover have "\<exists>rows'. reconcile_each fk (map (\<lambda>t. (t, [])) ts) rows1 = Some rows'" for ts
    by (rule reconcile_each_ok) auto
  ultimately show ?thesis by (simp add: reconcile_rows_def)
qed

lemma reconcile_rows_fixpoint:
  assumes "set rows = desired_pairs ds" and "jm_wf ds"
  shows "reconcile_rows fk ds rows = Some rows"
proof -
  have "reconcile_each fk ds rows = Some rows"
    by (rule reconcile_each_fixpoint) (use assms in \<open>auto simp: desired_pairs_def dest: eq_key_imp_eq_value\<close>)
  moreover have "filter (\<lambda>t. \<not> jm_has ds t) (js_set (map snd rows)) = []"
    using assms by (auto simp: filter_empty_conv desired_pairs_def jm_has_def)
  ultimately show ?thesis by (simp add: reconcile_rows_def)
qed

lemma desired_add: "desired_pairs (add_to_tab t v m) = insert (v, t) (desired_pairs m)"
  by (auto simp: desired_pairs_def add_to_tab_def split: if_splits option.splits)

lemma wf_add: "jm_wf m \<Longrightarrow> jm_wf (add_to_tab t v m)"
  by (simp add: add_to_tab_def)

text \<open>The pairs a layout asks for.\<close>

definition automation_refs :: "pane_ref list \<Rightarrow> string list option \<Rightarrow> (string \<times> string) set" where
  "automation_refs panes existing = {(r, t). \<exists>pane \<in> set panes. pr_paneType pane = AUTOMATION_PANE_TYPE
     \<and> pr_tabId pane = t \<and> text_prop (pr_config pane) ''ruleId'' = Some r
     \<and> (\<forall>ids. existing = Some ids \<longrightarrow> r \<in> set ids)}"

definition collection_refs :: "pane_ref list \<Rightarrow> (string \<times> string) set" where
  "collection_refs panes = {(c, t). \<exists>pane \<in> set panes. pr_paneType pane = DATA_COLLECTION_PANE_TYPE
     \<and> pr_tabId pane = t \<and> text_prop (pr_config pane) ''collection'' = Some c}"

lemma extract_fold:
  fixes pick :: "'p \<Rightarrow> (string \<times> string) option"
  assumes "\<And>x m. f x m = (case pick x of None \<Rightarrow> m | Some (t, v) \<Rightarrow> add_to_tab t v m)"
  shows "desired_pairs (fold f xs m) = desired_pairs m \<union> {(v, t). \<exists>x \<in> set xs. pick x = Some (t, v)}"
    and "jm_wf m \<Longrightarrow> jm_wf (fold f xs m)"
proof (induction xs arbitrary: m)
  case (Cons x xs)
  { case 1 show ?case using Cons(1) by (cases "pick x") (auto simp: assms desired_add) }
  { case 2 then show ?case using Cons(2) by (cases "pick x") (auto simp: assms wf_add) }
qed auto

lemma extractAutomation_pairs:
  "desired_pairs (extractAutomationAssignments panes existing) = automation_refs panes existing"
  "jm_wf (extractAutomationAssignments panes existing)"
proof -
  let ?pick = "\<lambda>pane. if pr_paneType pane \<noteq> AUTOMATION_PANE_TYPE then None
    else case text_prop (pr_config pane) ''ruleId'' of None \<Rightarrow> None
         | Some r \<Rightarrow> if (case existing of Some ids \<Rightarrow> r \<notin> set ids | None \<Rightarrow> False) then None else Some (pr_tabId pane, r)"
  let ?f = "\<lambda>pane m. if pr_paneType pane \<noteq> AUTOMATION_PANE_TYPE then m
       else case text_prop (pr_config pane) ''ruleId'' of
              None \<Rightarrow> m
            | Some ruleId \<Rightarrow>
                if (case existing of Some ids \<Rightarrow> ruleId \<notin> set ids | None \<Rightarrow> False) then m
                else add_to_tab (pr_tabId pane) ruleId m"
  have f: "?f pane m = (case ?pick pane of None \<Rightarrow> m | Some (t, v) \<Rightarrow> add_to_tab t v m)" for pane m
    by (auto split: option.splits)
  show "desired_pairs (extractAutomationAssignments panes existing) = automation_refs panes existing"
    unfolding extractAutomationAssignments_def extract_fold(1) [where pick = ?pick and f = ?f, OF f]
    by (auto simp: automation_refs_def desired_pairs_def split: option.splits if_splits)
  show "jm_wf (extractAutomationAssignments panes existing)"
    unfolding extractAutomationAssignments_def
    by (rule extract_fold(2) [where pick = ?pick and f = ?f, OF f]) simp
qed

lemma extractCollection_pairs:
  "desired_pairs (extractCollectionAssignments panes) = collection_refs panes"
  "jm_wf (extractCollectionAssignments panes)"
proof -
  let ?pick = "\<lambda>pane. if pr_paneType pane \<noteq> DATA_COLLECTION_PANE_TYPE then None
    else map_option (\<lambda>c. (pr_tabId pane, c)) (text_prop (pr_config pane) ''collection'')"
  let ?f = "\<lambda>pane m. if pr_paneType pane \<noteq> DATA_COLLECTION_PANE_TYPE then m
       else case text_prop (pr_config pane) ''collection'' of
              None \<Rightarrow> m
            | Some c \<Rightarrow> add_to_tab (pr_tabId pane) c m"
  have f: "?f pane m = (case ?pick pane of None \<Rightarrow> m | Some (t, v) \<Rightarrow> add_to_tab t v m)" for pane m
    by (auto split: option.splits)
  show "desired_pairs (extractCollectionAssignments panes) = collection_refs panes"
    unfolding extractCollectionAssignments_def extract_fold(1) [where pick = ?pick and f = ?f, OF f]
    by (auto simp: collection_refs_def desired_pairs_def split: if_splits)
  show "jm_wf (extractCollectionAssignments panes)"
    unfolding extractCollectionAssignments_def
    by (rule extract_fold(2) [where pick = ?pick and f = ?f, OF f]) simp
qed

section \<open>What a layout save stores\<close>

text \<open>A small installation: two tabs, two automations, a group with rights on one tab.\<close>

definition sample_auth :: auth_db where
  "sample_auth = \<lparr>
     ad_users = [\<lparr>ur_id = ''ann'', ur_role = RUser, ur_group_id = Some ''g''\<rparr>,
                 \<lparr>ur_id = ''bob'', ur_role = RUser, ur_group_id = None\<rparr>,
                 \<lparr>ur_id = ''root'', ur_role = RAdmin, ur_group_id = None\<rparr>],
     ad_group_tabs = [(''g'', ''t1'', PInteract), (''h'', ''t2'', PWrite)],
     ad_tabs = [''t1'', ''t2''],
     ad_rules = [\<lparr>ru_id = ''r1'', ru_authored_unrestricted = 0, ru_owner_tab_id = Some ''t1''\<rparr>,
                 \<lparr>ru_id = ''r2'', ru_authored_unrestricted = 1, ru_owner_tab_id = None\<rparr>,
                 \<lparr>ru_id = ''r3'', ru_authored_unrestricted = 0, ru_owner_tab_id = None\<rparr>],
     ad_automation_tabs = [(''r1'', ''t2''), (''r2'', ''t1'')],
     ad_collection_tabs = [(''log'', ''t1'')],
     ad_panes = [\<lparr>pn_tab_id = ''t1'', pn_pane_type = ''sensor-panel'', pn_config = ''''\<rparr>]\<rparr>"

definition sample_panes :: "pane_ref list" where
  "sample_panes =
     [\<lparr>pr_tabId = ''t1'', pr_paneType = ''automation'', pr_config = [(''ruleId'', JStr ''r1'')]\<rparr>,
      \<lparr>pr_tabId = ''t2'', pr_paneType = ''automation'', pr_config = [(''ruleId'', JStr ''gone'')]\<rparr>,
      \<lparr>pr_tabId = ''t2'', pr_paneType = ''data-collection'', pr_config = [(''collection'', JStr ''log'')]\<rparr>]"

lemma layout_ok:
  assumes "jm_wf ds" and "desired_pairs ds = want" and "\<And>p. p \<in> want \<Longrightarrow> fk p"
  obtains rows' where "reconcile_rows fk ds rows = Some rows'" "set rows' = want"
    "distinct rows \<Longrightarrow> distinct rows'" "reconcile_rows fk ds rows' = Some rows'"
proof -
  obtain rows' where r: "reconcile_rows fk ds rows = Some rows'"
    using reconcile_rows_ok [of ds fk rows] assms by blast
  moreover have "set rows' = want" using reconcile_rows_set(1) [OF r assms(1)] assms(2) by simp
  moreover from this have "reconcile_rows fk ds rows' = Some rows'"
    using reconcile_rows_fixpoint assms by blast
  ultimately show ?thesis using that reconcile_rows_set(2) [OF r assms(1)] by blast
qed

text \<open>
  Saving a layout whose panes sit on existing tabs always goes through, and leaves the
  ownership table holding exactly the pairs the automation panes reference among the
  automations that exist, and the collection table exactly the pairs the data-collection panes
  reference; nothing else is touched, no pair is stored twice, and saving again changes
  nothing.
\<close>

lemma layout_save_exact:
  assumes "pr_tabId ` set panes \<subseteq> set (ad_tabs db)"
    and "existing = map ru_id (ad_rules db)"
  shows "\<exists>rows cols. ownership_reconcileAll (extractAutomationAssignments panes (Some existing)) db
          = Some (db\<lparr>ad_automation_tabs := rows\<rparr>)
      \<and> collection_reconcileAll (extractCollectionAssignments panes) db = Some (db\<lparr>ad_collection_tabs := cols\<rparr>)
      \<and> set rows = automation_refs panes (Some existing) \<and> set cols = collection_refs panes
      \<and> (distinct (ad_automation_tabs db) \<longrightarrow> distinct rows) \<and> (distinct (ad_collection_tabs db) \<longrightarrow> distinct cols)
      \<and> ownership_reconcileAll (extractAutomationAssignments panes (Some existing)) (db\<lparr>ad_automation_tabs := rows\<rparr>)
          = Some (db\<lparr>ad_automation_tabs := rows\<rparr>)
      \<and> collection_reconcileAll (extractCollectionAssignments panes) (db\<lparr>ad_collection_tabs := cols\<rparr>)
          = Some (db\<lparr>ad_collection_tabs := cols\<rparr>)"
proof -
  let ?fa = "\<lambda>(a, t). a \<in> ru_id ` set (ad_rules db) \<and> t \<in> set (ad_tabs db)"
  let ?fc = "\<lambda>(c :: string, t). t \<in> set (ad_tabs db)"
  obtain rows where "reconcile_rows ?fa (extractAutomationAssignments panes (Some existing)) (ad_automation_tabs db) = Some rows"
    "set rows = automation_refs panes (Some existing)" "distinct (ad_automation_tabs db) \<Longrightarrow> distinct rows"
    "reconcile_rows ?fa (extractAutomationAssignments panes (Some existing)) rows = Some rows"
    by (rule layout_ok [OF extractAutomation_pairs(2,1), of panes "Some existing" ?fa "ad_automation_tabs db"])
      (use assms in \<open>auto simp: automation_refs_def\<close>)
  moreover obtain cols where "reconcile_rows ?fc (extractCollectionAssignments panes) (ad_collection_tabs db) = Some cols"
    "set cols = collection_refs panes" "distinct (ad_collection_tabs db) \<Longrightarrow> distinct cols"
    "reconcile_rows ?fc (extractCollectionAssignments panes) cols = Some cols"
    by (rule layout_ok [OF extractCollection_pairs(2,1), of panes ?fc "ad_collection_tabs db"])
      (use assms in \<open>auto simp: collection_refs_def\<close>)
  ultimately show ?thesis
    by (intro exI [of _ rows] exI [of _ cols]) (simp add: ownership_reconcileAll_def collection_reconcileAll_def)
qed

text \<open>
  Reconciling one tab is all or nothing: it throws, and the transaction leaves the tables as
  they were, exactly when some desired automation is not yet stored for the tab and the
  automation or the tab does not exist; otherwise the tab's rows become exactly the desired
  ones and every other row stays.
\<close>

lemma reconcileTab_all_or_nothing:
  "(ownership_reconcileTab tab desired db = None \<longleftrightarrow>
      (\<exists>a. a \<in> set desired \<and> (a, tab) \<notin> set (ad_automation_tabs db)
         \<and> \<not> (a \<in> ru_id ` set (ad_rules db) \<and> tab \<in> set (ad_tabs db))))
   \<and> (\<forall>db'. ownership_reconcileTab tab desired db = Some db' \<longrightarrow>
        set (ad_automation_tabs db') =
          {p \<in> set (ad_automation_tabs db). snd p \<noteq> tab} \<union> (\<lambda>a. (a, tab)) ` set desired
        \<and> db' = db\<lparr>ad_automation_tabs := ad_automation_tabs db'\<rparr>)"
proof (intro conjI iffI allI impI)
  let ?fk = "\<lambda>(a, t). a \<in> ru_id ` set (ad_rules db) \<and> t \<in> set (ad_tabs db)"
  let ?rows = "ad_automation_tabs db"
  let ?cur = "js_set (map fst (filter (\<lambda>(a, t). t = tab) ?rows))"
  have cur: "a \<in> set ?cur \<longleftrightarrow> (a, tab) \<in> set ?rows" for a using current_of_tab [of tab ?rows] by blast
  have none: "ownership_reconcileTab tab desired db = None \<longleftrightarrow> insert_missing ?fk tab ?cur desired ?rows = None"
    by (simp add: ownership_reconcileTab_def reconcileTabInternal_def Let_def)
  show "\<exists>a. a \<in> set desired \<and> (a, tab) \<notin> set ?rows \<and> \<not> (a \<in> ru_id ` set (ad_rules db) \<and> tab \<in> set (ad_tabs db))"
    if "ownership_reconcileTab tab desired db = None"
  proof (rule ccontr)
    assume n: "\<not> ?thesis"
    have "insert_missing ?fk tab ?cur xs rs \<noteq> None" if "set xs \<subseteq> set desired" for xs rs
      using that n cur by (induction xs arbitrary: rs) auto
    then show False using that unfolding none by blast
  qed
  show "ownership_reconcileTab tab desired db = None"
    if "\<exists>a. a \<in> set desired \<and> (a, tab) \<notin> set ?rows \<and> \<not> (a \<in> ru_id ` set (ad_rules db) \<and> tab \<in> set (ad_tabs db))"
    unfolding none using that cur by (auto intro: insert_missing_throws)
  fix db' assume a: "ownership_reconcileTab tab desired db = Some db'"
  then show "set (ad_automation_tabs db') = {p \<in> set ?rows. snd p \<noteq> tab} \<union> (\<lambda>a. (a, tab)) ` set desired"
    using reconcileTab_set(1) by (fastforce simp: ownership_reconcileTab_def)
  show "db' = db\<lparr>ad_automation_tabs := ad_automation_tabs db'\<rparr>"
    using a by (auto simp: ownership_reconcileTab_def)
qed

section \<open>What a permission means\<close>

lemma exposure_filter:
  assumes "auth_keys db" and "getUserGroupId uid db = Some g"
  shows "filterByPermission reg uid kind ids required db =
    filter (\<lambda>i. PERMISSION_RANK required \<le> maxRankOverTabs (exposingTabs reg kind i db) (groupRankByTab g db)) ids"
proof (cases kind)
  case KDevice
  show ?thesis
    using device_exposure.filter_pointwise [where db = db and reg = reg and ids = ids
        and r = "PERMISSION_RANK required" and m = "groupRankByTab g db"] assms(2)
    by (simp add: filterByPermission_def exposingTabs_def KDevice Let_def)
next
  case KAutomation
  show ?thesis
    using automation_exposure.filter_pointwise [OF assms(1), of "PERMISSION_RANK required" ids "groupRankByTab g db"] assms(2)
    by (simp add: filterByPermission_def exposingTabs_def KAutomation Let_def)
qed

lemma rank_reaches:
  assumes "auth_keys db" and "0 < r"
  shows "r \<le> maxRankOverTabs tabs (groupRankByTab g db)
    \<longleftrightarrow> (\<exists>t p. t \<in> set tabs \<and> (g, t, p) \<in> set (ad_group_tabs db) \<and> r \<le> PERMISSION_RANK p)"
  unfolding maxRank_ge [OF assms(2)] groupRank_iff [OF assms(1)] by auto

lemma rank_le_write [simp]: "PERMISSION_RANK p \<le> 3"
  by (cases p) auto

lemma rankToPermission_iff: "rankToPermission r = Some p \<longleftrightarrow> r = PERMISSION_RANK p"
  by (cases p) (auto simp: rankToPermission_def split: if_splits)

lemma best_rank:
  assumes "auth_keys db"
  shows "maxRankOverTabs tabs (groupRankByTab g db) = PERMISSION_RANK p \<longleftrightarrow>
    PERMISSION_RANK p \<le> maxRankOverTabs tabs (groupRankByTab g db)
    \<and> (\<forall>q. PERMISSION_RANK q \<le> maxRankOverTabs tabs (groupRankByTab g db) \<longrightarrow> PERMISSION_RANK q \<le> PERMISSION_RANK p)"
    (is "?R = _ \<longleftrightarrow> ?A")
proof
  assume ?A
  show "?R = PERMISSION_RANK p"
  proof (rule ccontr)
    assume "?R \<noteq> PERMISSION_RANK p"
    with \<open>?A\<close> have "0 < ?R" "PERMISSION_RANK p < ?R" by auto
    then obtain t q where "(g, t, q) \<in> set (ad_group_tabs db)" "t \<in> set tabs" "?R \<le> PERMISSION_RANK q"
      using rank_reaches [OF assms, of ?R tabs g] by auto
    moreover from this have "PERMISSION_RANK q \<le> ?R"
      using rank_reaches [OF assms, of "PERMISSION_RANK q" tabs g] by auto
    ultimately show False using \<open>?A\<close> \<open>PERMISSION_RANK p < ?R\<close> by auto
  qed
qed auto

text \<open>
  C10. A permission on a device or an automation is exactly a row that grants it: the user's
  group has, on some tab exposing the resource, a level at least as high as required.
  The level reported for the resource is the highest one that is granted, and filtering a
  list keeps exactly the resources the single check allows, in order.
\<close>

theorem resource_permission_exact:
  assumes "auth_keys db"
  shows "(hasResourcePermission reg uid kind rid required db \<longleftrightarrow>
      (\<exists>g t p. getUserGroupId uid db = Some g \<and> t \<in> set (exposingTabs reg kind rid db)
         \<and> (g, t, p) \<in> set (ad_group_tabs db) \<and> PERMISSION_RANK required \<le> PERMISSION_RANK p))
    \<and> (effectivePermission reg uid kind rid db = Some best \<longleftrightarrow>
         hasResourcePermission reg uid kind rid best db
         \<and> (\<forall>q. hasResourcePermission reg uid kind rid q db \<longrightarrow> PERMISSION_RANK q \<le> PERMISSION_RANK best))
    \<and> filterByPermission reg uid kind ids required db =
         filter (\<lambda>i. hasResourcePermission reg uid kind i required db) ids"
proof (cases "getUserGroupId uid db")
  case None
  then show ?thesis by (simp add: hasResourcePermission_def effectivePermission_def filterByPermission_def)
next
  case (Some g)
  have has: "hasResourcePermission reg uid kind i q db \<longleftrightarrow>
    PERMISSION_RANK q \<le> maxRankOverTabs (exposingTabs reg kind i db) (groupRankByTab g db)" for i q
    by (simp add: hasResourcePermission_def Some)
  have eff: "effectivePermission reg uid kind rid db = Some best \<longleftrightarrow>
    maxRankOverTabs (exposingTabs reg kind rid db) (groupRankByTab g db) = PERMISSION_RANK best"
    by (simp add: effectivePermission_def Some rankToPermission_iff)
  show ?thesis
    unfolding has eff exposure_filter [OF assms Some] best_rank [OF assms, of _ g best]
    using rank_reaches [OF assms, of "PERMISSION_RANK required" "exposingTabs reg kind rid db" g] Some by auto
qed

theorem resource_permission_exact_witness:
  "auth_keys sample_auth
    \<and> filterByPermission sample_registry ''ann'' KAutomation [''r1'', ''r2'', ''r3''] PInteract sample_auth = [''r1'', ''r2'']
    \<and> hasResourcePermission sample_registry ''ann'' KAutomation ''r1'' PRead sample_auth"
proof (intro conjI)
  show k: "auth_keys sample_auth" by (simp add: auth_keys_def sample_auth_def)
  show "filterByPermission sample_registry ''ann'' KAutomation [''r1'', ''r2'', ''r3''] PInteract sample_auth = [''r1'', ''r2'']"
  proof -
    have "filter (\<lambda>i. hasResourcePermission sample_registry ''ann'' KAutomation i PInteract sample_auth) [''r1'', ''r2'', ''r3'']
      = [''r1'', ''r2'']" by code_simp
    then show ?thesis using resource_permission_exact [OF k] by metis
  qed
  have "''t1'' \<in> set (exposingTabs sample_registry KAutomation ''r1'' sample_auth)" by code_simp
  then show "hasResourcePermission sample_registry ''ann'' KAutomation ''r1'' PRead sample_auth"
    using resource_permission_exact [OF k, of sample_registry "''ann''" KAutomation "''r1''" PRead]
    by (auto simp: sample_auth_def getUserGroupId_def find_user_def intro!: exI [of _ "''t1''"] exI [of _ PInteract])
qed

text \<open>
  The three tab checks agree. An administrator passes every check; anybody else holds the
  level of the row for their group, so the boolean check is the comparison with the reported
  level, and the list of accessible tabs is the list of tabs with a reported level (for an
  administrator, all existing tabs).
\<close>

lemma tab_permission_consistent:
  assumes "auth_keys db"
  shows "(hasPermission uid tab required db \<longleftrightarrow>
      (\<exists>p. getUserTabPermission uid tab db = Some p \<and> PERMISSION_RANK required \<le> PERMISSION_RANK p))
    \<and> ((tab, p) \<in> set (getUserAccessibleTabs uid db) \<longleftrightarrow>
        getUserTabPermission uid tab db = Some p
        \<and> (tab \<in> set (ad_tabs db) \<or> (\<forall>u. find_user uid db = Some u \<longrightarrow> ur_role u \<noteq> RAdmin)))
    \<and> (find_user uid db = None \<longrightarrow> \<not> hasPermission uid tab required db)"
  using find_assignment_iff [OF assms, of _ tab p] getGroupPermissions_mem [of tab p _ db]
  by (auto simp: hasPermission_def getUserTabPermission_def getUserAccessibleTabs_def PERMISSION_RANK.simps
      split: option.splits if_splits intro: permission_level.exhaust)

section \<open>The scope of an automation\<close>

lemma device_exposed_iff:
  assumes "registry_inv reg"
  shows "did \<in> set (getExposedDeviceIds reg tab db) \<longleftrightarrow> tab \<in> set (device_getExposingTabs reg did db)"
proof -
  have key: "map_of (rg_devices reg) k = Some d \<Longrightarrow> dv_id d = k" for k d
    using registry_invD(5) [OF assms, of k d] by (simp add: device_ok_def)
  have val: "d \<in> set (registry_getAll reg) \<longleftrightarrow> map_of (rg_devices reg) (dv_id d) = Some d" for d
  proof
    assume "d \<in> set (registry_getAll reg)"
    then obtain k where "map_of (rg_devices reg) k = Some d"
      using registry_invD(1) [OF assms] by (auto simp: registry_getAll_def)
    then show "map_of (rg_devices reg) (dv_id d) = Some d" using key by simp
  next
    assume "map_of (rg_devices reg) (dv_id d) = Some d"
    then show "d \<in> set (registry_getAll reg)" by (auto dest!: map_of_SomeD simp: registry_getAll_def rev_image_eqI)
  qed
  have "did \<in> set (getExposedDeviceIds reg tab db) \<longleftrightarrow>
      (\<exists>d. d \<in> set (registry_getAll reg) \<and> dv_id d = did \<and> (\<exists>p. (tab, p) \<in> set (loadPanes db) \<and> matchesDeviceFilter p d))"
    by (auto simp: getExposedDeviceIds_def Let_def filter_empty_conv)
  also have "\<dots> \<longleftrightarrow> (\<exists>d p. map_of (rg_devices reg) did = Some d \<and> (tab, p) \<in> set (loadPanes db) \<and> matchesDeviceFilter p d)"
    unfolding val using key by blast
  also have "\<dots> \<longleftrightarrow> tab \<in> set (device_getExposingTabs reg did db)"
    by (force simp: device_getExposingTabs_def registry_getById_def exposingTabsFor_def split: option.splits)
  finally show ?thesis .
qed

lemma rule_found:
  assumes "auth_keys db" and "row \<in> set (ad_rules db)"
  shows "find (\<lambda>r. ru_id r = ru_id row) (ad_rules db) = Some row"
proof (cases "find (\<lambda>r. ru_id r = ru_id row) (ad_rules db)")
  case None
  then show ?thesis using assms(2) by (auto simp: find_None_iff)
next
  case (Some q)
  then show ?thesis using assms find_SomeD [OF Some] by (auto simp: auth_keys_def distinct_map inj_on_def)
qed

text \<open>
  C11. An automation's authority fails closed. It is unrestricted exactly when its stored row
  says so; otherwise, and for an unknown automation, it reaches precisely the devices of the
  live inventory that a pane of its owning tab exposes and the collections that tab surfaces,
  so nothing at all once the owning tab is gone. The devices a tab exposes and the tabs
  exposing a device are the same relation read both ways.
\<close>

theorem scope_fails_closed:
  assumes "auth_keys db" and "reach (registry_step hash) registry_ok (registry_init []) reg"
  shows "(scope_resolve reg rid db = Unrestricted \<longleftrightarrow>
      (\<exists>row. row \<in> set (ad_rules db) \<and> ru_id row = rid \<and> ru_authored_unrestricted row = 1))
    \<and> (\<forall>tab ds cs. scope_resolve reg rid db = Scoped tab ds cs \<longrightarrow>
        (\<forall>did. did \<in> set ds \<longleftrightarrow> (\<exists>t. tab = Some t \<and> t \<in> set (device_getExposingTabs reg did db)))
        \<and> (\<forall>c. c \<in> set cs \<longleftrightarrow> (\<exists>t. tab = Some t \<and> t \<in> set (collection_getExposingTabs c db)))
        \<and> (\<forall>t. tab = Some t \<longleftrightarrow> t \<noteq> '''' \<and> (\<exists>row. row \<in> set (ad_rules db) \<and> ru_id row = rid
             \<and> ru_authored_unrestricted row \<noteq> 1 \<and> ru_owner_tab_id row = Some t)))"
proof -
  have inv: "registry_inv reg" using assms(2) by (rule registry.reach_inv)
  have col: "c \<in> set (getCollectionsForTab t db) \<longleftrightarrow> t \<in> set (collection_getExposingTabs c db)" for c t
    by (force simp: getCollectionsForTab_def collection_getExposingTabs_def)
  show ?thesis
  proof (cases "\<exists>row. row \<in> set (ad_rules db) \<and> ru_id row = rid")
    case False
    then have "find (\<lambda>r. ru_id r = rid) (ad_rules db) = None" by (simp add: find_None_iff)
    then show ?thesis using False by (auto simp: scope_resolve_def EMPTY_SCOPED_def)
  next
    case True
    then obtain row where row: "row \<in> set (ad_rules db)" "ru_id row = rid" by blast
    then have uniq: "q \<in> set (ad_rules db) \<and> ru_id q = rid \<longleftrightarrow> q = row" for q
      using assms(1) by (auto simp: auth_keys_def distinct_map inj_on_def)
    have "(\<exists>q. q \<in> set (ad_rules db) \<and> ru_id q = rid \<and> P q) \<longleftrightarrow> P row" for P
      using row uniq by metis
    then show ?thesis
      using rule_found [OF assms(1) row(1)] row(2) col device_exposed_iff [OF inv]
      by (cases "ru_owner_tab_id row") (auto simp: scope_resolve_def EMPTY_SCOPED_def set_text_def)
  qed
qed

theorem scope_fails_closed_witness:
  "scope_resolve sample_registry ''r3'' sample_auth = EMPTY_SCOPED \<and> scope_resolve sample_registry ''r2'' sample_auth = Unrestricted
    \<and> ''log'' \<in> set (sc_collections (scope_resolve sample_registry ''r1'' sample_auth))"
proof -
  have k: "auth_keys sample_auth" by (simp add: auth_keys_def sample_auth_def)
  note sc = scope_fails_closed [OF k sample_registry_reach]
  have "scope_resolve sample_registry ''r2'' sample_auth = Unrestricted"
    by (rule sc [of "''r2''", THEN conjunct1, THEN iffD2])
      (rule exI [of _ "\<lparr>ru_id = ''r2'', ru_authored_unrestricted = 1, ru_owner_tab_id = None\<rparr>"], simp add: sample_auth_def)
  moreover have "scope_resolve sample_registry ''r3'' sample_auth = EMPTY_SCOPED" by code_simp
  moreover obtain ds cs where r1: "scope_resolve sample_registry ''r1'' sample_auth = Scoped (Some ''t1'') ds cs"
    by (simp add: scope_resolve_def sample_auth_def set_text_def)
  have "''t1'' \<in> set (collection_getExposingTabs ''log'' sample_auth)" by code_simp
  then have "''log'' \<in> set cs" using sc [of "''r1''", THEN conjunct2, rule_format, OF r1] by simp
  ultimately show ?thesis using r1 by simp
qed

end
