(* ===== verification/Command_Service.thy ===== *)
theory Command_Service
  imports Pending_Tracker Command_History Permissions
begin

text \<open>
  The physical-command boundary (src/automations/command-service.ts): the handlers, the
  authorization gate, the choice of the completion tier, and \<open>execute\<close>, which is
  asynchronous and therefore three steps here, one up to each \<open>await\<close>: \<open>execute_start\<close>
  runs until the handler has been called, \<open>execute_dispatched\<close> when the handler's promise has
  settled, \<open>execute_resolved\<close> when the tracker's promise has. Between the steps the tracker
  may route replies, observe states and time out, and its transition callback writes the
  history (src/index.ts). The service keeps the history tables, the tracker, the calls in
  flight, the results already returned and the handler calls made.

  The lemmas show that every result a caller gets is the outcome the durable record states,
  for every interleaving of replies, timeouts and calls; that a success means the tier the
  command had to prove; and that a scoped automation never gets an action outside its scope to
  a handler.
\<close>

section \<open>Sources, actions, results\<close>

datatype command_source =
    SrcAutomation string
  | SrcRest "string option"
  | SrcSystem string

definition automationSource :: "string \<Rightarrow> command_source" where "automationSource rid = SrcAutomation rid"
definition restSource :: "string option \<Rightarrow> command_source" where "restSource label = SrcRest label"
definition systemSource :: "string \<Rightarrow> command_source" where "systemSource label = SrcSystem label"

fun source_kind_of :: "command_source \<Rightarrow> source_kind" where
  "source_kind_of (SrcAutomation _) = SkAutomation"
| "source_kind_of (SrcRest _) = SkRest"
| "source_kind_of (SrcSystem _) = SkSystem"

fun source_logId :: "command_source \<Rightarrow> string" where
  "source_logId (SrcAutomation rid) = rid"
| "source_logId (SrcRest label) = (case label of Some l \<Rightarrow> l | None \<Rightarrow> ''rest'')"
| "source_logId (SrcSystem label) = label"

record command_correlation =
  co_correlationId :: string
  co_responseTopic :: string

record action_descriptor =
  an_type :: string
  an_target :: string
  an_params :: jsobj
  an_correlation :: "command_correlation option"

record action_result =
  ar_success :: bool
  ar_data :: "jsobj option"
  ar_error :: "string option"
  ar_lifecycleState :: "lifecycle_state option"
  ar_correlationId :: "string option"
  ar_commandId :: "string option"
  ar_failureKind :: "failure_reason option"

definition quoted :: "string \<Rightarrow> string" where
  "quoted x = CHR 0x27 # x @ [CHR 0x27]"

definition failed_result :: "string \<Rightarrow> failure_reason option \<Rightarrow> action_result" where
  "failed_result err kind =
     \<lparr>ar_success = False, ar_data = None, ar_error = Some err, ar_lifecycleState = Some FAILED,
      ar_correlationId = None, ar_commandId = None, ar_failureKind = kind\<rparr>"

record confirm_options =
  cf_deviceId :: "string option"
  cf_condition :: condition_fun
  cf_timeoutMs :: "int option"
  cf_conditionSpec :: "jsobj option"

definition DEFAULT_CONFIRM_TIMEOUT_MS :: int where "DEFAULT_CONFIRM_TIMEOUT_MS = 5000"

record ack_capability =
  ac_supported :: bool
  ac_responseTopic :: "string option"
  ac_ackIndicatorField :: "string option"
  ac_ackIndicatorValues :: "string list option"

record execution_context =
  ec_executionId :: "string option"
  ec_causationId :: "string option"
  ec_triggerKind :: "string option"
  ec_triggerId :: "string option"
  ec_triggerTopic :: "string option"

text \<open>
  The deps object. What the connector manager declares of a device is a function; the
  tracker and the history store are in the state, here only whether they were injected.
\<close>

record service_deps =
  sd_connected :: bool
  sd_ackCapability :: "string \<Rightarrow> ack_capability option"
  sd_deviceRegistry :: "registry option"
  sd_tracker :: bool
  sd_ackResponseTopicBase :: "string option"
  sd_scopeResolver :: "(string \<Rightarrow> authorization_scope) option"
  sd_history :: bool

definition ackResponseTopicBase :: "service_deps \<Rightarrow> string" where
  "ackResponseTopicBase deps = (case sd_ackResponseTopicBase deps of Some b \<Rightarrow> b | None \<Rightarrow> ''aeolus/acks'')"

section \<open>Handlers\<close>

datatype handler = HPublish | HToggle | HDeviceAction | HLog | HDelay | HWebhook | HContributed nat

datatype handler_effect =
    EffThrow string
  | EffPublish string "string option"
  | EffConnector string string jsobj "command_correlation option"
  | EffLog string "string option"
  | EffDelay int
  | EffNothing
  | EffWebhook action_descriptor
  | EffContributed nat action_descriptor

text \<open>\<open>typeof v === "string" ? v : JSON.stringify(v)\<close>.\<close>

definition text_or_json :: "jsval \<Rightarrow> json_out" where
  "text_or_json v = (case v of JStr s \<Rightarrow> JsonText s | _ \<Rightarrow> json_stringify v)"

definition handlePublish :: "bool \<Rightarrow> action_descriptor \<Rightarrow> handler_effect" where
  "handlePublish isConnected action =
     (if \<not> isConnected then EffThrow ''MQTT client not connected''
      else case text_or_json (js_prop (an_params action) ''payload'') of
             JsonThrow msg \<Rightarrow> EffThrow msg
           | JsonNone \<Rightarrow> EffPublish (an_target action) None
           | JsonText t \<Rightarrow> EffPublish (an_target action) (Some t))"

definition handleToggle :: "action_descriptor \<Rightarrow> handler_effect" where
  "handleToggle action = EffConnector (an_target action) ''toggle'' (an_params action) (an_correlation action)"

definition handleDeviceAction :: "action_descriptor \<Rightarrow> handler_effect" where
  "handleDeviceAction action =
     EffConnector (an_target action)
       (case js_prop (an_params action) ''actionType'' of JStr t \<Rightarrow> t | _ \<Rightarrow> ''unknown'')
       (an_params action) (an_correlation action)"

definition handleLog :: "action_descriptor \<Rightarrow> string \<Rightarrow> handler_effect" where
  "handleLog action ruleId =
     (case text_or_json (js_prop (an_params action) ''message'') of
        JsonThrow msg \<Rightarrow> EffThrow msg
      | JsonNone \<Rightarrow> EffLog ruleId None
      | JsonText t \<Rightarrow> EffLog ruleId (Some t))"

definition handleDelay :: "action_descriptor \<Rightarrow> handler_effect" where
  "handleDelay action =
     (let duration = (case js_prop (an_params action) ''duration'' of JNum n \<Rightarrow> n | _ \<Rightarrow> 0)
      in if duration \<le> 0 then EffNothing else EffDelay duration)"

fun call_handler :: "handler \<Rightarrow> bool \<Rightarrow> action_descriptor \<Rightarrow> string \<Rightarrow> handler_effect" where
  "call_handler HPublish c a rid = handlePublish c a"
| "call_handler HToggle c a rid = handleToggle a"
| "call_handler HDeviceAction c a rid = handleDeviceAction a"
| "call_handler HLog c a rid = handleLog a rid"
| "call_handler HDelay c a rid = handleDelay a"
| "call_handler HWebhook c a rid = EffWebhook a"
| "call_handler (HContributed n) c a rid = EffContributed n a"

text \<open>How the handler's promise settles.\<close>

datatype handler_outcome = Threw string | Returned "action_result option"

section \<open>The state of the service\<close>

datatype call_phase = Dispatching | Waiting "jsobj option"

record call =
  cl_action :: action_descriptor
  cl_source :: command_source
  cl_commandId :: "string option"
  cl_stored :: bool
  cl_tier :: confirmation_tier
  cl_correlationId :: "string option"
  cl_confirm :: "confirm_options option"
  cl_observedDeviceId :: string
  cl_timeoutMs :: int
  cl_promise :: "nat option"
  cl_phase :: call_phase

record service =
  sv_handlers :: "(string, handler) jsmap"
  sv_physical :: "string list"
  sv_db :: command_db
  sv_tracker :: tracker
  sv_calls :: "(nat, call) jsmap"
  sv_results :: "(nat \<times> string option \<times> action_result) list"
  sv_effects :: "(command_source \<times> action_descriptor \<times> handler_effect) list"
  sv_next :: nat

definition service_init :: service where
  "service_init = \<lparr>sv_handlers = [], sv_physical = [], sv_db = command_db_init, sv_tracker = tracker_init,
     sv_calls = [], sv_results = [], sv_effects = [], sv_next = 0\<rparr>"

definition registerHandler :: "string \<Rightarrow> handler \<Rightarrow> bool option \<Rightarrow> service \<Rightarrow> service" where
  "registerHandler ty h physicalOpt s =
     (let physical = (case physicalOpt of Some b \<Rightarrow> b | None \<Rightarrow> ty = ''toggle'' \<or> ty = ''device_action'')
      in s\<lparr>sv_handlers := AList.update ty h (sv_handlers s),
           sv_physical := (if physical then js_set_add ty (sv_physical s) else removeAll ty (sv_physical s))\<rparr>)"

definition unregisterHandler :: "string \<Rightarrow> service \<Rightarrow> service" where
  "unregisterHandler ty s =
     s\<lparr>sv_handlers := AList.delete ty (sv_handlers s), sv_physical := removeAll ty (sv_physical s)\<rparr>"

definition isVerifiedPhysicalAction :: "string \<Rightarrow> service \<Rightarrow> bool" where
  "isVerifiedPhysicalAction ty s \<longleftrightarrow> ty \<in> set (sv_physical s)"

section \<open>Gate, tier, identity\<close>

definition resolveEffectiveTier ::
  "confirmation_tier option \<Rightarrow> confirmation_tier \<Rightarrow> bool \<Rightarrow> bool \<Rightarrow> confirmation_tier" where
  "resolveEffectiveTier requiredTier tierCeiling hasConfirm hasAckCapability =
     (case requiredTier of
        None \<Rightarrow> tierCeiling
      | Some t \<Rightarrow>
          if t = TDispatch \<or> t = TAcknowledged \<and> hasAckCapability \<or> t = TObserved \<and> hasConfirm
          then t else tierCeiling)"

definition checkScope :: "service_deps \<Rightarrow> action_descriptor \<Rightarrow> command_source \<Rightarrow> action_result option" where
  "checkScope deps action src =
     (case src of
        SrcAutomation ruleId \<Rightarrow>
          (case sd_scopeResolver deps of
             None \<Rightarrow> None
           | Some resolve \<Rightarrow>
               (case resolve ruleId of
                  Unrestricted \<Rightarrow> None
                | Scoped tab deviceIds collections \<Rightarrow>
                    if an_type action = ''publish'' \<or> an_type action = ''webhook''
                    then Some (failed_result
                           (''Action '' @ quoted (an_type action) @ '' is not permitted for a scoped automation'')
                           (Some FkUnauthorized))
                    else if (an_type action = ''device_action'' \<or> an_type action = ''toggle'')
                            \<and> an_target action \<notin> set deviceIds
                    then Some (failed_result
                           (''Device '' @ quoted (an_target action) @ '' is outside this automation'' @ CHR 0x27 # ''s authorization scope'')
                           (Some FkUnauthorized))
                    else None))
      | _ \<Rightarrow> None)"

definition resolveEvidenceIdentity ::
  "service_deps \<Rightarrow> string \<Rightarrow> string option \<Rightarrow> string option \<times> string option \<times> string option" where
  "resolveEvidenceIdentity deps targetDeviceId observedDeviceId =
     (case sd_deviceRegistry deps of
        None \<Rightarrow> (None, None, None)
      | Some reg \<Rightarrow>
          let target = registry_getById targetDeviceId reg;
              observed = (case observedDeviceId of
                            Some d \<Rightarrow> if d \<noteq> targetDeviceId then registry_getById d reg else target
                          | None \<Rightarrow> target)
          in (js_truthy (map_option dv_integration target), js_truthy (map_option dv_name target),
              if observedDeviceId \<noteq> None then js_truthy (map_option dv_name observed) else None))"

section \<open>Execution\<close>

text \<open>
  The arguments of one \<open>execute\<close> call, with what the environment gives it: the active
  execution context, the two random identifiers it may draw, and the clock.
\<close>

record exec_request =
  rq_action :: action_descriptor
  rq_source :: command_source
  rq_confirm :: "confirm_options option"
  rq_requiredTier :: "confirmation_tier option"
  rq_intent :: "jsval command_intent option"
  rq_context :: "execution_context option"
  rq_commandId :: string
  rq_correlationId :: string
  rq_now :: ms

definition withId :: "string option \<Rightarrow> action_result \<Rightarrow> action_result" where
  "withId commandId result = (case commandId of Some c \<Rightarrow> result\<lparr>ar_commandId := Some c\<rparr> | None \<Rightarrow> result)"

text \<open>The closure \<open>recordTransition\<close>; \<open>stored\<close> says that the call has a store and an id.\<close>

definition recordTransition ::
  "bool \<Rightarrow> string option \<Rightarrow> lifecycle_state \<Rightarrow> bool \<Rightarrow> bool option \<Rightarrow> failure_reason option \<Rightarrow> string option
    \<Rightarrow> command_evidence option \<Rightarrow> ms \<Rightarrow> command_db \<Rightarrow> command_db" where
  "recordTransition stored commandId toState terminal ok kind error evidence now db =
     (case commandId of
        None \<Rightarrow> db
      | Some cid \<Rightarrow>
          if \<not> stored then db
          else let details = (case evidence of
                                Some e \<Rightarrow> Some e
                              | None \<Rightarrow> buildCommandEvidence \<lparr>ev_tier = None, ev_observedDeviceId = None,
                                  ev_condition = None, ev_timeoutMs = None, ev_reason = Some (describeRung toState error)\<rparr>)
               in case history_transition
                         \<lparr>ti_commandId = cid, ti_toState = toState, ti_timestamp = now, ti_success = ok,
                          ti_failureKind = kind, ti_error = error, ti_terminal = terminal, ti_details = details\<rparr> db of
                    Inr db' \<Rightarrow> db'
                  | Inl _ \<Rightarrow> db)"

text \<open>The durable \<open>REQUESTED\<close> record and the evidence of its first rung.\<close>

definition requested_record ::
  "service_deps \<Rightarrow> exec_request \<Rightarrow> string option \<Rightarrow> confirmation_tier \<Rightarrow> confirmation_tier \<Rightarrow> bool \<Rightarrow> command_record" where
  "requested_record deps rq correlationId tierCeiling tier hasAck =
     (let confirm = rq_confirm rq; target = an_target (rq_action rq);
          observedFor = map_option (\<lambda>c. case cf_deviceId c of Some d \<Rightarrow> d | None \<Rightarrow> target) confirm;
          ident = resolveEvidenceIdentity deps target observedFor;
          intent = sanitiseCommandIntent (rq_intent rq)
      in \<lparr>cr_commandId = rq_commandId rq, cr_correlationId = correlationId,
          cr_sourceKind = source_kind_of (rq_source rq),
          cr_sourceId = (case rq_source rq of SrcAutomation r \<Rightarrow> Some r | SrcRest l \<Rightarrow> js_truthy l | SrcSystem l \<Rightarrow> js_truthy (Some l)),
          cr_ruleId = (case rq_source rq of SrcAutomation r \<Rightarrow> Some r | _ \<Rightarrow> None),
          cr_executionId = js_truthy (Option.bind (rq_context rq) ec_executionId),
          cr_causationId = js_truthy (Option.bind (rq_context rq) ec_causationId),
          cr_targetDeviceId = target, cr_actionType = an_type (rq_action rq),
          cr_requestedTier = rq_requiredTier rq, cr_effectiveTier = tier, cr_lifecycleState = REQUESTED,
          cr_success = None, cr_failureKind = None, cr_error = None, cr_requestedAt = rq_now rq, cr_terminalAt = None,
          cr_snapshot = \<lparr>cs_capabilityCeiling = Some tierCeiling, cs_ackAvailable = Some hasAck,
            cs_observationConfigured = Some (confirm \<noteq> None), cs_observedDeviceId = observedFor,
            cs_conditionSpec = Option.bind confirm cf_conditionSpec,
            cs_transportKind = fst ident, cs_targetDeviceName = fst (snd ident), cs_observedDeviceName = snd (snd ident)\<rparr>,
          cr_intentLabel = Option.bind intent ci_intent, cr_observedLabel = Option.bind intent ci_observedLabel,
          cr_triggerKind = js_truthy (Option.bind (rq_context rq) ec_triggerKind),
          cr_triggerId = js_truthy (Option.bind (rq_context rq) ec_triggerId),
          cr_triggerTopic = js_truthy (Option.bind (rq_context rq) ec_triggerTopic)\<rparr>)"

definition observed_device :: "exec_request \<Rightarrow> string" where
  "observed_device rq = (case Option.bind (rq_confirm rq) cf_deviceId of Some d \<Rightarrow> d | None \<Rightarrow> an_target (rq_action rq))"

definition confirm_timeout :: "exec_request \<Rightarrow> int" where
  "confirm_timeout rq =
     (case Option.bind (rq_confirm rq) cf_timeoutMs of Some n \<Rightarrow> n | None \<Rightarrow> DEFAULT_CONFIRM_TIMEOUT_MS)"

definition requested_evidence :: "exec_request \<Rightarrow> confirmation_tier \<Rightarrow> command_evidence option" where
  "requested_evidence rq tier =
     buildCommandEvidence
       \<lparr>ev_tier = Some tier,
        ev_observedDeviceId = (if observed_device rq \<noteq> an_target (rq_action rq) then Some (observed_device rq) else None),
        ev_condition = Option.bind (rq_confirm rq) cf_conditionSpec,
        ev_timeoutMs = (if tier \<noteq> TDispatch then Some (confirm_timeout rq) else None),
        ev_reason = Some (describeRung REQUESTED None)\<rparr>"

text \<open>
  The call once it is accepted: whether it is physical, its tier, and the correlation id and
  envelope of a command that will be tracked.
\<close>

definition accept_call :: "service_deps \<Rightarrow> exec_request \<Rightarrow> service \<Rightarrow> confirmation_tier \<times> bool \<times> call" where
  "accept_call deps rq s =
     (let action = rq_action rq; target = an_target action;
          physical = isVerifiedPhysicalAction (an_type action) s;
          ackCapability = sd_ackCapability deps target;
          hasAck = (case ackCapability of Some c \<Rightarrow> ac_supported c | None \<Rightarrow> False);
          hasConfirm = (rq_confirm rq \<noteq> None);
          tierCeiling = selectRequiredTier hasConfirm hasAck;
          tier = resolveEffectiveTier (rq_requiredTier rq) tierCeiling hasConfirm hasAck;
          correlationId = (if tier \<noteq> TDispatch then Some (rq_correlationId rq) else None);
          responseTopic = (case Option.bind ackCapability ac_responseTopic of
                             Some t \<Rightarrow> t | None \<Rightarrow> ackResponseTopicBase deps @ ''/'' @ target);
          dispatchAction = (if tier \<noteq> TDispatch \<and> hasAck
                            then action\<lparr>an_correlation := Some \<lparr>co_correlationId = rq_correlationId rq, co_responseTopic = responseTopic\<rparr>\<rparr>
                            else action)
      in (tierCeiling, hasAck,
          \<lparr>cl_action = dispatchAction, cl_source = rq_source rq,
           cl_commandId = (if physical then Some (rq_commandId rq) else None),
           cl_stored = (physical \<and> sd_history deps), cl_tier = tier, cl_correlationId = correlationId,
           cl_confirm = rq_confirm rq, cl_observedDeviceId = observed_device rq, cl_timeoutMs = confirm_timeout rq,
           cl_promise = None, cl_phase = Dispatching\<rparr>))"

definition pending_of :: "service_deps \<Rightarrow> exec_request \<Rightarrow> call \<Rightarrow> pending_command" where
  "pending_of deps rq cl =
     (let cap = sd_ackCapability deps (an_target (rq_action rq))
      in \<lparr>pc_commandId = cl_commandId cl, pc_correlationId = rq_correlationId rq,
          pc_targetDeviceId = an_target (rq_action rq), pc_observedDeviceId = cl_observedDeviceId cl,
          pc_requiredTier = (if cl_tier cl = TAcknowledged then RAcknowledged else RObserved),
          pc_condition = map_option cf_condition (rq_confirm rq), pc_timeoutMs = cl_timeoutMs cl,
          pc_ackIndicatorField = js_truthy (Option.bind cap ac_ackIndicatorField),
          pc_ackIndicatorValues = Option.bind cap ac_ackIndicatorValues\<rparr>)"

text \<open>The call of the handler, recorded; the call of \<open>execute\<close> now waits for it.\<close>

definition begin_dispatch :: "service_deps \<Rightarrow> handler \<Rightarrow> call \<Rightarrow> service \<Rightarrow> service" where
  "begin_dispatch deps h cl s =
     s\<lparr>sv_calls := AList.update (sv_next s) cl (sv_calls s),
       sv_effects := sv_effects s @ [(cl_source cl, cl_action cl,
         call_handler h (sd_connected deps) (cl_action cl) (source_logId (cl_source cl)))],
       sv_next := Suc (sv_next s)\<rparr>"

text \<open>Returning to the caller: the result, with the command id the call was given, if any.\<close>

definition return_result :: "nat \<Rightarrow> string option \<Rightarrow> action_result \<Rightarrow> service \<Rightarrow> service" where
  "return_result i commandId r s = s\<lparr>sv_results := sv_results s @ [(i, commandId, withId commandId r)]\<rparr>"

definition return_now :: "string option \<Rightarrow> action_result \<Rightarrow> service \<Rightarrow> service" where
  "return_now commandId r s = (return_result (sv_next s) commandId r s)\<lparr>sv_next := Suc (sv_next s)\<rparr>"

text \<open>\<open>execute\<close> up to the handler call, after the record (if any) has been created.\<close>

definition start_dispatch :: "service_deps \<Rightarrow> exec_request \<Rightarrow> handler \<Rightarrow> call \<Rightarrow> service \<Rightarrow> service" where
  "start_dispatch deps rq h cl s =
     (if cl_tier cl = TObserved
         \<and> (case sd_deviceRegistry deps of Some reg \<Rightarrow> registry_getById (cl_observedDeviceId cl) reg = None | None \<Rightarrow> False)
      then let err = ''Confirmation observed device '' @ quoted (cl_observedDeviceId cl) @ '' not found'';
               ev = buildCommandEvidence \<lparr>ev_tier = None, ev_observedDeviceId = Some (cl_observedDeviceId cl), ev_condition = None,
                      ev_timeoutMs = None, ev_reason = Some (''Nothing could confirm this command: observed device ''
                        @ quoted (cl_observedDeviceId cl) @ '' is not present'')\<rparr>
           in return_now (cl_commandId cl) (failed_result err (Some FkNotFound))
                (s\<lparr>sv_db := recordTransition (cl_stored cl) (cl_commandId cl) FAILED True (Some False) (Some FkNotFound)
                              (Some err) ev (rq_now rq) (sv_db s)\<rparr>)
      else if cl_tier cl = TDispatch \<or> \<not> sd_tracker deps then begin_dispatch deps h cl s
      else let (p, tk) = tracker_register (pending_of deps rq cl) (sv_tracker s)
           in begin_dispatch deps h (cl\<lparr>cl_promise := Some p\<rparr>) (s\<lparr>sv_tracker := tk\<rparr>))"

definition execute_start :: "service_deps \<Rightarrow> exec_request \<Rightarrow> service \<Rightarrow> service" where
  "execute_start deps rq s =
     (case map_of (sv_handlers s) (an_type (rq_action rq)) of
        None \<Rightarrow> return_now None (failed_result (''No handler for action type: '' @ quoted (an_type (rq_action rq))) (Some FkUnsupported)) s
      | Some h \<Rightarrow>
          (case checkScope deps (rq_action rq) (rq_source rq) of
             Some refusal \<Rightarrow> return_now None refusal s
           | None \<Rightarrow>
               let (tierCeiling, hasAck, cl) = accept_call deps rq s
               in if \<not> cl_stored cl then start_dispatch deps rq h cl s
                  else case history_create (requested_record deps rq (cl_correlationId cl) tierCeiling (cl_tier cl) hasAck)
                              (requested_evidence rq (cl_tier cl)) (sv_db s) of
                         Inl msg \<Rightarrow> return_now (cl_commandId cl)
                           (failed_result ''Command history unavailable; command refused before dispatch'' (Some FkExecution)) s
                       | Inr db \<Rightarrow> start_dispatch deps rq h cl (s\<lparr>sv_db := db\<rparr>)))"

text \<open>The continuation after the handler's promise has settled.\<close>

definition finish_call :: "nat \<Rightarrow> call \<Rightarrow> action_result \<Rightarrow> service \<Rightarrow> service" where
  "finish_call i cl r s = return_result i (cl_commandId cl) r (s\<lparr>sv_calls := AList.delete i (sv_calls s)\<rparr>)"

definition fail_dispatch ::
  "nat \<Rightarrow> call \<Rightarrow> action_result \<Rightarrow> failure_reason option \<Rightarrow> string option \<Rightarrow> ms \<Rightarrow> service \<Rightarrow> service" where
  "fail_dispatch i cl r kind error now s =
     finish_call i cl r
       (s\<lparr>sv_tracker := (case cl_promise cl of
            Some _ \<Rightarrow> tracker_cancel (the (cl_correlationId cl)) (sv_tracker s) | None \<Rightarrow> sv_tracker s),
          sv_db := recordTransition (cl_stored cl) (cl_commandId cl) FAILED True (Some False) kind error None now (sv_db s)\<rparr>)"

definition dispatch_accepted :: "nat \<Rightarrow> call \<Rightarrow> jsobj option \<Rightarrow> ms \<Rightarrow> service \<Rightarrow> service" where
  "dispatch_accepted i cl data now s =
     (case cl_promise cl of
        None \<Rightarrow>
          finish_call i cl
            \<lparr>ar_success = True, ar_data = data, ar_error = None, ar_lifecycleState = Some DISPATCHED,
             ar_correlationId = cl_correlationId cl, ar_commandId = None, ar_failureKind = None\<rparr>
            (s\<lparr>sv_db := recordTransition (cl_stored cl) (cl_commandId cl) DISPATCHED True (Some True) None None None now (sv_db s)\<rparr>)
      | Some p \<Rightarrow>
          s\<lparr>sv_db := recordTransition (cl_stored cl) (cl_commandId cl) DISPATCHED False None None None None now (sv_db s),
            sv_calls := AList.update i (cl\<lparr>cl_phase := Waiting data\<rparr>) (sv_calls s)\<rparr>)"

definition execute_dispatched :: "nat \<Rightarrow> call \<Rightarrow> handler_outcome \<Rightarrow> ms \<Rightarrow> service \<Rightarrow> service" where
  "execute_dispatched i cl outcome now s =
     (case outcome of
        Threw message \<Rightarrow>
          fail_dispatch i cl (failed_result message None) (Some FkExecution) (Some message) now s
      | Returned result \<Rightarrow>
          (case result of
             Some r \<Rightarrow>
               if \<not> ar_success r
               then fail_dispatch i cl (r\<lparr>ar_lifecycleState := Some FAILED\<rparr>) (ar_failureKind r) (js_truthy (ar_error r)) now s
               else dispatch_accepted i cl (ar_data r) now s
           | None \<Rightarrow> dispatch_accepted i cl None now s))"

text \<open>The continuation after the tracker's promise has settled.\<close>

definition resolution_evidence :: "call \<Rightarrow> pending_resolution \<Rightarrow> command_evidence option" where
  "resolution_evidence cl r =
     (let unmet = (pr_lifecycleState r = TIMED_OUT \<or> pr_lifecycleState r = STATE_MISMATCH)
      in buildCommandEvidence
           \<lparr>ev_tier = Some (cl_tier cl),
            ev_observedDeviceId = (if unmet then Some (cl_observedDeviceId cl) else None),
            ev_condition = (if unmet then Option.bind (cl_confirm cl) cf_conditionSpec else None),
            ev_timeoutMs = (if unmet then Some (cl_timeoutMs cl) else None),
            ev_reason = Some (describeRung (pr_lifecycleState r) (pr_error r))\<rparr>)"

definition execute_resolved :: "nat \<Rightarrow> call \<Rightarrow> jsobj option \<Rightarrow> pending_resolution \<Rightarrow> ms \<Rightarrow> service \<Rightarrow> service" where
  "execute_resolved i cl data r now s =
     finish_call i cl
       \<lparr>ar_success = pr_success r, ar_data = data, ar_error = js_truthy (pr_error r),
        ar_lifecycleState = Some (pr_lifecycleState r), ar_correlationId = cl_correlationId cl,
        ar_commandId = None, ar_failureKind = None\<rparr>
       (s\<lparr>sv_db := recordTransition (cl_stored cl) (cl_commandId cl) (pr_lifecycleState r) True (Some (pr_success r)) None
            (js_truthy (pr_error r)) (resolution_evidence cl r) now (sv_db s)\<rparr>)"

text \<open>
  The tracker's transition callback as the composition root wires it (src/index.ts): an
  acknowledgement that overtook the dispatch record is preceded by the rung it implies. An
  exception of the store is caught and leaves the tables as they are at that point.
\<close>

definition reason_only :: "string \<Rightarrow> command_evidence option" where
  "reason_only r = buildCommandEvidence \<lparr>ev_tier = None, ev_observedDeviceId = None, ev_condition = None,
     ev_timeoutMs = None, ev_reason = Some r\<rparr>"

definition rung_input :: "string \<Rightarrow> lifecycle_state \<Rightarrow> ms \<Rightarrow> string \<Rightarrow> transition_input" where
  "rung_input cid to ts reason =
     \<lparr>ti_commandId = cid, ti_toState = to, ti_timestamp = ts, ti_success = None, ti_failureKind = None,
      ti_error = None, ti_terminal = False, ti_details = reason_only reason\<rparr>"

definition INFERRED_REASON :: string where
  "INFERRED_REASON = ''Inferred from the device'' @ CHR 0x27 # ''s reply, which arrived before the dispatch was recorded''"

definition persist_transition :: "pending_transition \<Rightarrow> command_db \<Rightarrow> command_db" where
  "persist_transition ev db =
     (case js_truthy (pt_commandId ev) of
        None \<Rightarrow> db
      | Some cid \<Rightarrow>
          (case (if currentState cid db = Some REQUESTED
                 then history_transition (rung_input cid DISPATCHED (pt_timestamp ev) INFERRED_REASON) db
                 else Inr db) of
             Inl _ \<Rightarrow> db
           | Inr db1 \<Rightarrow>
               (case history_transition (rung_input cid (pt_toState ev) (pt_timestamp ev)
                       (describeRung (pt_toState ev) None)) db1 of
                  Inl _ \<Rightarrow> db1
                | Inr db2 \<Rightarrow> db2)))"

definition persist_events :: "tracker_event list \<Rightarrow> command_db \<Rightarrow> command_db" where
  "persist_events evs db =
     fold (\<lambda>ev db. case ev of OnTransition t \<Rightarrow> persist_transition t db | _ \<Rightarrow> db) evs db"

definition tracker_call :: "tracker_op \<Rightarrow> service \<Rightarrow> service" where
  "tracker_call a s =
     (let tk = tracker_step a (sv_tracker s)
      in s\<lparr>sv_tracker := tk,
           sv_db := persist_events (drop (length (tk_events (sv_tracker s))) (tk_events tk)) (sv_db s)\<rparr>)"

text \<open>
  What happens to the service, in any order: a call of \<open>execute\<close>, the settling of a handler,
  the resumption of a call whose tracker promise has settled, and the messages, device states
  and timers the tracker receives. The identifiers drawn by a call are new.
\<close>

datatype service_op =
    SExecute exec_request
  | SHandled nat handler_outcome ms
  | SResume nat ms
  | SRoute ack_message ms
  | SObserve string jsobj
  | STimer nat
  | SRegister string handler "bool option"
  | SUnregister string

fun service_step :: "service_deps \<Rightarrow> service_op \<Rightarrow> service \<Rightarrow> service" where
  "service_step deps (SExecute rq) s = execute_start deps rq s"
| "service_step deps (SHandled i outcome now) s =
     (case map_of (sv_calls s) i of
        Some cl \<Rightarrow> if cl_phase cl = Dispatching then execute_dispatched i cl outcome now s else s
      | None \<Rightarrow> s)"
| "service_step deps (SResume i now) s =
     (case map_of (sv_calls s) i of
        Some cl \<Rightarrow>
          (case (cl_phase cl, Option.bind (cl_promise cl) (map_of (tk_settled (sv_tracker s)))) of
             (Waiting data, Some r) \<Rightarrow> execute_resolved i cl data r now s
           | _ \<Rightarrow> s)
      | None \<Rightarrow> s)"
| "service_step deps (SRoute m now) s = tracker_call (OpRoute m now) s"
| "service_step deps (SObserve d st) s = tracker_call (OpObserve d st) s"
| "service_step deps (STimer h) s = tracker_call (OpTimer h) s"
| "service_step deps (SRegister ty h p) s = registerHandler ty h p s"
| "service_step deps (SUnregister ty) s = unregisterHandler ty s"

fun service_ok :: "service_op \<Rightarrow> service \<Rightarrow> bool" where
  "service_ok (SExecute rq) s =
     (rq_commandId rq \<noteq> [] \<and> find_row (rq_commandId rq) (sv_db s) = None
      \<and> Some (rq_commandId rq) \<notin> (fst \<circ> snd) ` set (sv_results s)
      \<and> (\<forall>c \<in> set (sv_calls s). cl_commandId (snd c) \<noteq> Some (rq_commandId rq))
      \<and> \<not> tracker_has (rq_correlationId rq) (sv_tracker s))"
| "service_ok _ s = True"

section \<open>Writes to the history\<close>

definition db_steps :: "string option \<Rightarrow> command_db \<Rightarrow> command_db \<Rightarrow> bool" where
  "db_steps c db db' \<longleftrightarrow> (history_inv db \<longrightarrow> history_inv db')
     \<and> (\<forall>x. c \<noteq> Some x \<longrightarrow> find_row x db' = find_row x db)
     \<and> (\<forall>x. (\<forall>row. find_row x db = Some row \<longrightarrow> rw_terminal_at row \<noteq> None) \<longrightarrow> find_row x db' = find_row x db)"

lemma db_steps_refl [simp]: "db_steps c db db"
  by (simp add: db_steps_def)

lemma db_steps_transition:
  "history_transition i db = Inr db' \<Longrightarrow> (isTerminal (ti_toState i) \<longrightarrow> ti_terminal i) \<Longrightarrow> db_steps (Some (ti_commandId i)) db db'"
  unfolding db_steps_def
  by (auto intro: history_transition_inv find_row_transition_other find_row_transition_fixed)

lemma db_steps_trans: "db_steps c db db1 \<Longrightarrow> db_steps c db1 db2 \<Longrightarrow> db_steps c db db2"
  unfolding db_steps_def by metis

lemma recordTransition_steps:
  "(isTerminal to \<longrightarrow> fin) \<Longrightarrow> db_steps c db (recordTransition st c to fin ok kind err ev now db)"
  using db_steps_transition
  by (auto simp: recordTransition_def Let_def split: option.splits sum.splits) fastforce+

lemma evidence_condition: "buildCommandEvidence p = Some e \<Longrightarrow> ev_condition e = ev_condition p"
  by (auto simp: buildCommandEvidence_def Let_def split: if_splits)

lemma recordTransition_moves:
  assumes row: "find_row x db = Some row" "rw_terminal_at row = None" and "canTransition (rw_lifecycle_state row) to"
    and ev: "\<And>e c. ev = Some e \<Longrightarrow> ev_condition e = Some c \<Longrightarrow> \<not> has_bigint (JObj c)"
  shows "\<exists>row'. find_row x (recordTransition True (Some x) to fin ok kind err ev now db) = Some row'
    \<and> rw_lifecycle_state row' = to \<and> rw_effective_tier row' = rw_effective_tier row
    \<and> rw_terminal_at row' = (if fin then Some now else None)
    \<and> (ok \<noteq> None \<longrightarrow> rw_success row' = sql_bool ok)"
proof -
  let ?details = "case ev of Some e \<Rightarrow> Some e | None \<Rightarrow> buildCommandEvidence \<lparr>ev_tier = None, ev_observedDeviceId = None,
    ev_condition = None, ev_timeoutMs = None, ev_reason = Some (describeRung to err)\<rparr>"
  let ?i = "\<lparr>ti_commandId = x, ti_toState = to, ti_timestamp = now, ti_success = ok, ti_failureKind = kind,
    ti_error = err, ti_terminal = fin, ti_details = ?details\<rparr>"
  have "\<not> has_bigint (JObj c)" if "?details = Some e" "ev_condition e = Some c" for e c
    using that ev by (cases ev) (auto dest: evidence_condition)
  then obtain d where d: "json_column (map_option evidence_json ?details) = Inr d"
    using evidence_storable [of ?details] by blast
  obtain db' where "history_transition ?i db = Inr db'" "find_row x db' = Some (apply_transition ?i row)"
    using find_row_transition_moves [of ?i db row d] assms d by auto
  then show ?thesis
    by (auto simp: recordTransition_def Let_def apply_transition_def sql_bool_def)
qed

lemma recordTransition_same:
  assumes "find_row x db = Some row" "rw_terminal_at row = None" "\<not> canTransition (rw_lifecycle_state row) to"
  shows "recordTransition st (Some x) to fin ok kind err ev now db = db"
  using assms by (simp add: recordTransition_def history_transition_def Let_def)

lemma rung_input_fields [simp]:
  "ti_commandId (rung_input c to ts r) = c" "ti_toState (rung_input c to ts r) = to" "ti_terminal (rung_input c to ts r) = False"
  by (simp_all add: rung_input_def)

lemma rung_storable: "\<exists>d. json_column (map_option evidence_json (ti_details (rung_input c to ts r))) = Inr d"
  by (rule evidence_storable) (auto simp: rung_input_def reason_only_def dest: evidence_condition)

lemma rung_moves:
  assumes "find_row x db = Some row" "rw_terminal_at row = None" "canTransition (rw_lifecycle_state row) to"
  shows "\<exists>db'. history_transition (rung_input x to ts r) db = Inr db'
    \<and> find_row x db' = Some (apply_transition (rung_input x to ts r) row)"
proof -
  obtain d where "json_column (map_option evidence_json (ti_details (rung_input x to ts r))) = Inr d"
    using rung_storable by blast
  then show ?thesis using find_row_transition_moves [of "rung_input x to ts r" db row d] assms by simp
qed

lemma persist_steps:
  assumes "pt_toState t = ACKNOWLEDGED"
  shows "db_steps (js_truthy (pt_commandId t)) db (persist_transition t db)"
proof (cases "js_truthy (pt_commandId t)")
  case (Some x)
  have one: "db_steps (Some x) d d'" if "history_transition (rung_input x to ts r) d = Inr d'" "\<not> isTerminal to" for to ts r d d'
    using db_steps_transition [OF that(1)] that(2) by simp
  let ?first = "if currentState x db = Some REQUESTED
    then history_transition (rung_input x DISPATCHED (pt_timestamp t) INFERRED_REASON) db else Inr db"
  show ?thesis
  proof (cases ?first)
    case (Inr d1)
    then have "db_steps (Some x) db d1" using one by (auto split: if_splits)
    then show ?thesis using Inr Some assms
      by (auto simp: persist_transition_def split: sum.splits intro: db_steps_trans [OF _ one])
  qed (use Some in \<open>simp add: persist_transition_def\<close>)
qed (simp add: persist_transition_def)

lemma apply_rung [simp]: "rw_effective_tier (apply_transition i row) = rw_effective_tier row"
  by (simp add: apply_transition_def)

lemma persist_row:
  assumes row: "find_row x db = Some row" "rw_terminal_at row = None"
    "rw_lifecycle_state row \<in> {REQUESTED, DISPATCHED, ACKNOWLEDGED}"
    and t: "js_truthy (pt_commandId t) = Some x" "pt_toState t = ACKNOWLEDGED"
  shows "\<exists>row'. find_row x (persist_transition t db) = Some row' \<and> rw_terminal_at row' = None
    \<and> rw_effective_tier row' = rw_effective_tier row \<and> rw_lifecycle_state row' = ACKNOWLEDGED"
proof -
  have ack: "\<exists>d'. history_transition (rung_input x ACKNOWLEDGED ts r) d = Inr d'
      \<and> find_row x d' = Some (apply_transition (rung_input x ACKNOWLEDGED ts r) q)"
    if "find_row x d = Some q" "rw_terminal_at q = None" "rw_lifecycle_state q = DISPATCHED" for d q ts r
    using rung_moves [OF that(1,2)] that(3) by simp
  consider (req) "rw_lifecycle_state row = REQUESTED" | (dis) "rw_lifecycle_state row = DISPATCHED"
    | (acked) "rw_lifecycle_state row = ACKNOWLEDGED" using row(3) by blast
  then show ?thesis
  proof cases
    case req
    let ?i = "rung_input x DISPATCHED (pt_timestamp t) INFERRED_REASON"
    obtain d1 where d1: "history_transition ?i db = Inr d1" "find_row x d1 = Some (apply_transition ?i row)"
      using rung_moves [OF row(1,2), of DISPATCHED "pt_timestamp t" INFERRED_REASON] req by auto
    obtain d2 where "history_transition (rung_input x ACKNOWLEDGED (pt_timestamp t) (describeRung ACKNOWLEDGED None)) d1 = Inr d2"
      "find_row x d2 = Some (apply_transition (rung_input x ACKNOWLEDGED (pt_timestamp t) (describeRung ACKNOWLEDGED None))
        (apply_transition ?i row))"
      using ack [OF d1(2), of "pt_timestamp t" "describeRung ACKNOWLEDGED None"] by auto
    then show ?thesis using d1(1) t req row(1) by (simp add: persist_transition_def currentState_def)
  next
    case dis
    then show ?thesis
      using ack [OF row(1,2) dis, of "pt_timestamp t" "describeRung ACKNOWLEDGED None"] t row(1)
      by (auto simp: persist_transition_def currentState_def)
  next
    case acked
    then show ?thesis using t row
      by (simp add: persist_transition_def currentState_def history_transition_def Let_def)
  qed
qed

section \<open>The invariant of the service\<close>

definition required_of :: "confirmation_tier \<Rightarrow> required_tier" where
  "required_of t = (if t = TAcknowledged then RAcknowledged else RObserved)"

text \<open>The states the record of a call in flight may be in.\<close>

definition stage_ok :: "call \<Rightarrow> lifecycle_state \<Rightarrow> bool" where
  "stage_ok c st \<longleftrightarrow>
     (if cl_promise c = None then st = REQUESTED
      else if cl_phase c = Dispatching then st = REQUESTED \<or> cl_tier c = TObserved \<and> st \<in> {DISPATCHED, ACKNOWLEDGED}
      else st = DISPATCHED \<or> cl_tier c = TObserved \<and> st = ACKNOWLEDGED)"

definition call_recorded :: "call \<Rightarrow> command_db \<Rightarrow> bool" where
  "call_recorded c db \<longleftrightarrow> (cl_stored c \<longrightarrow>
     (\<exists>x row. cl_commandId c = Some x \<and> find_row x db = Some row \<and> rw_terminal_at row = None
        \<and> rw_effective_tier row = cl_tier c \<and> stage_ok c (rw_lifecycle_state row)
        \<and> (\<forall>f sp. cl_confirm c = Some f \<longrightarrow> cf_conditionSpec f = Some sp \<longrightarrow> \<not> has_bigint (JObj sp))))"

definition call_tracked :: "service_deps \<Rightarrow> call \<Rightarrow> tracker \<Rightarrow> bool" where
  "call_tracked deps c tk \<longleftrightarrow>
     (case cl_promise c of
        None \<Rightarrow> cl_phase c = Dispatching \<and> (cl_tier c = TDispatch \<or> \<not> sd_tracker deps)
      | Some h \<Rightarrow> cl_tier c \<noteq> TDispatch \<and> sd_tracker deps \<and>
          (\<exists>k. cl_correlationId c = Some k \<and>
             ((\<exists>r. map_of (tk_settled tk) h = Some r \<and> resolution_fits (required_of (cl_tier c)) r)
              \<or> (\<exists>e. map_of (tk_pending tk) k = Some e \<and> te_resolve e = h
                   \<and> pc_requiredTier (te_command e) = required_of (cl_tier c)))))"

definition entry_owned :: "(nat \<rightharpoonup> call) \<Rightarrow> tracked_entry \<Rightarrow> bool" where
  "entry_owned C e \<longleftrightarrow> (\<exists>i c. C i = Some c \<and> cl_promise c = Some (te_resolve e) \<and> cl_tier c \<noteq> TDispatch
     \<and> pc_commandId (te_command e) = cl_commandId c \<and> pc_requiredTier (te_command e) = required_of (cl_tier c))"

text \<open>The state a successful command must have reached.\<close>

definition proven_state :: "service_deps \<Rightarrow> confirmation_tier \<Rightarrow> lifecycle_state" where
  "proven_state deps t =
     (if \<not> sd_tracker deps then DISPATCHED
      else case t of TDispatch \<Rightarrow> DISPATCHED | TAcknowledged \<Rightarrow> ACKNOWLEDGED | TObserved \<Rightarrow> OBSERVED)"

definition result_matches :: "service_deps \<Rightarrow> action_result \<Rightarrow> command_row \<Rightarrow> bool" where
  "result_matches deps r row \<longleftrightarrow> rw_terminal_at row \<noteq> None \<and> ar_lifecycleState r = Some (rw_lifecycle_state row)
     \<and> rw_success row = sql_bool (Some (ar_success r))
     \<and> (ar_success r \<longleftrightarrow> isSuccessState (rw_lifecycle_state row))
     \<and> (ar_success r \<longrightarrow> rw_lifecycle_state row = proven_state deps (rw_effective_tier row))"

definition outcome_recorded :: "service_deps \<Rightarrow> command_db \<Rightarrow> nat \<times> string option \<times> action_result \<Rightarrow> bool" where
  "outcome_recorded deps db p \<longleftrightarrow> (\<forall>x. fst (snd p) = Some x \<longrightarrow> ar_commandId (snd (snd p)) = Some x \<and>
     (sd_history deps \<longrightarrow>
       (case find_row x db of
          None \<Rightarrow> \<not> ar_success (snd (snd p)) \<and> ar_lifecycleState (snd (snd p)) = Some FAILED
        | Some row \<Rightarrow> result_matches deps (snd (snd p)) row)))"

definition calls_ok :: "service_deps \<Rightarrow> command_db \<Rightarrow> tracker \<Rightarrow> (nat \<rightharpoonup> call) \<Rightarrow> bool" where
  "calls_ok deps db tk C \<longleftrightarrow>
     (\<forall>i c. C i = Some c \<longrightarrow> call_recorded c db \<and> call_tracked deps c tk
        \<and> (cl_commandId c \<noteq> None \<longrightarrow> sd_history deps \<longrightarrow> cl_stored c))
     \<and> (\<forall>i j c d x. C i = Some c \<longrightarrow> C j = Some d \<longrightarrow> cl_commandId c = Some x \<longrightarrow> cl_commandId d = Some x \<longrightarrow> i = j)
     \<and> (\<forall>k e. map_of (tk_pending tk) k = Some e \<longrightarrow> entry_owned C e)"

definition service_inv :: "service_deps \<Rightarrow> service \<Rightarrow> bool" where
  "service_inv deps s \<longleftrightarrow> history_inv (sv_db s) \<and> tracker_inv (sv_tracker s)
     \<and> jm_wf (sv_calls s) \<and> (\<forall>i \<in> fst ` set (sv_calls s). i < sv_next s)
     \<and> calls_ok deps (sv_db s) (sv_tracker s) (map_of (sv_calls s))
     \<and> (\<forall>p \<in> set (sv_results s). outcome_recorded deps (sv_db s) p)"

lemma calls_okI:
  assumes "\<And>i c. C i = Some c \<Longrightarrow> call_recorded c db" "\<And>i c. C i = Some c \<Longrightarrow> call_tracked deps c tk"
    and "\<And>i c. C i = Some c \<Longrightarrow> cl_commandId c \<noteq> None \<Longrightarrow> sd_history deps \<Longrightarrow> cl_stored c"
    and "\<And>i j c d x. C i = Some c \<Longrightarrow> C j = Some d \<Longrightarrow> cl_commandId c = Some x \<Longrightarrow> cl_commandId d = Some x \<Longrightarrow> i = j"
    and "\<And>k e. map_of (tk_pending tk) k = Some e \<Longrightarrow> entry_owned C e"
  shows "calls_ok deps db tk C"
  using assms unfolding calls_ok_def by blast

lemma calls_okD:
  assumes "calls_ok deps db tk C"
  shows "C i = Some c \<Longrightarrow> call_recorded c db" "C i = Some c \<Longrightarrow> call_tracked deps c tk"
    "C i = Some c \<Longrightarrow> cl_commandId c \<noteq> None \<Longrightarrow> sd_history deps \<Longrightarrow> cl_stored c"
    "C i = Some c \<Longrightarrow> C j = Some d \<Longrightarrow> cl_commandId c = Some x \<Longrightarrow> cl_commandId d = Some x \<Longrightarrow> i = j"
    "map_of (tk_pending tk) k = Some e \<Longrightarrow> entry_owned C e"
  using assms unfolding calls_ok_def by blast+

lemma call_recorded_frame:
  "call_recorded c db \<Longrightarrow> (\<And>x. cl_commandId c = Some x \<Longrightarrow> find_row x db' = find_row x db) \<Longrightarrow> call_recorded c db'"
  unfolding call_recorded_def by metis

lemma call_tracked_evolves:
  assumes "call_tracked deps c tk" "tracker_evolves tk tk'"
  shows "call_tracked deps c tk'"
proof (cases "cl_promise c")
  case None
  then show ?thesis using assms(1) by (simp add: call_tracked_def)
next
  case (Some h)
  from assms(2) have mono: "map_of (tk_settled tk) g = Some r \<Longrightarrow> map_of (tk_settled tk') g = Some r" for g r
    by (simp add: tracker_evolves_def)
  from assms(2) have step: "map_of (tk_pending tk) k = Some e \<Longrightarrow>
      (\<exists>e'. map_of (tk_pending tk') k = Some e' \<and> te_command e' = te_command e \<and> te_resolve e' = te_resolve e)
      \<or> (\<exists>r. map_of (tk_settled tk') (te_resolve e) = Some r \<and> resolution_fits (pc_requiredTier (te_command e)) r)" for k e
    by (simp add: tracker_evolves_def)
  from assms(1) Some obtain k where k: "cl_tier c \<noteq> TDispatch" "sd_tracker deps" "cl_correlationId c = Some k"
    and "(\<exists>r. map_of (tk_settled tk) h = Some r \<and> resolution_fits (required_of (cl_tier c)) r)
      \<or> (\<exists>e. map_of (tk_pending tk) k = Some e \<and> te_resolve e = h \<and> pc_requiredTier (te_command e) = required_of (cl_tier c))"
    by (auto simp: call_tracked_def)
  then have "(\<exists>r. map_of (tk_settled tk') h = Some r \<and> resolution_fits (required_of (cl_tier c)) r)
      \<or> (\<exists>e. map_of (tk_pending tk') k = Some e \<and> te_resolve e = h \<and> pc_requiredTier (te_command e) = required_of (cl_tier c))"
  proof (elim disjE exE conjE)
    fix e assume e: "map_of (tk_pending tk) k = Some e" "te_resolve e = h" "pc_requiredTier (te_command e) = required_of (cl_tier c)"
    from step [OF e(1)] show ?thesis using e(2,3) by (elim disjE exE conjE) simp_all
  qed (use mono in blast)
  then show ?thesis using k Some by (simp add: call_tracked_def)
qed

lemma entry_owned_evolves:
  assumes "tracker_evolves tk tk'" "\<And>k e. map_of (tk_pending tk) k = Some e \<Longrightarrow> entry_owned C e"
    "map_of (tk_pending tk') k = Some e'"
  shows "entry_owned C e'"
proof -
  obtain e where "map_of (tk_pending tk) k = Some e" "te_command e = te_command e'" "te_resolve e = te_resolve e'"
    using assms(1,3) unfolding tracker_evolves_def by blast
  then show ?thesis using assms(2) [of k e] by (simp add: entry_owned_def)
qed

lemma outcome_kept:
  assumes "outcome_recorded deps db p" "\<And>x. fst (snd p) = Some x \<Longrightarrow> find_row x db' = find_row x db"
  shows "outcome_recorded deps db' p"
  using assms by (auto simp: outcome_recorded_def)

lemma outcome_steps:
  assumes "outcome_recorded deps db p" "db_steps c db db'" "sd_history deps"
  shows "outcome_recorded deps db' p"
  using assms(1)
proof (rule outcome_kept)
  fix x assume x: "fst (snd p) = Some x"
  have "rw_terminal_at row \<noteq> None" if "find_row x db = Some row" for row
    using assms(1,3) x that by (auto simp: outcome_recorded_def result_matches_def)
  then show "find_row x db' = find_row x db" using assms(2) by (simp add: db_steps_def)
qed

lemma outcome_no_history: "\<not> sd_history deps \<Longrightarrow> outcome_recorded deps db p = outcome_recorded deps db' p"
  by (simp add: outcome_recorded_def)

lemma outcomes_steps:
  assumes "\<forall>p \<in> set ps. outcome_recorded deps db p" "db_steps c db db'"
  shows "\<forall>p \<in> set ps. outcome_recorded deps db' p"
  using assms outcome_steps outcome_no_history by metis

lemma service_invI:
  assumes "history_inv (sv_db s)" "tracker_inv (sv_tracker s)" "jm_wf (sv_calls s)"
    "\<And>i. i \<in> fst ` set (sv_calls s) \<Longrightarrow> i < sv_next s"
    "calls_ok deps (sv_db s) (sv_tracker s) (map_of (sv_calls s))"
    "\<forall>p \<in> set (sv_results s). outcome_recorded deps (sv_db s) p"
  shows "service_inv deps s"
  using assms unfolding service_inv_def by blast

lemma service_invD:
  assumes "service_inv deps s"
  shows "history_inv (sv_db s)" "tracker_inv (sv_tracker s)" "jm_wf (sv_calls s)"
    "\<And>i. i \<in> fst ` set (sv_calls s) \<Longrightarrow> i < sv_next s"
    "calls_ok deps (sv_db s) (sv_tracker s) (map_of (sv_calls s))"
    "\<forall>p \<in> set (sv_results s). outcome_recorded deps (sv_db s) p"
  using assms unfolding service_inv_def by blast+

text \<open>A call that ends: its record may have moved, and no other call is affected.\<close>

lemma finish_inv:
  assumes inv: "service_inv deps s" and c: "map_of (sv_calls s) i = Some c"
    and tk: "tracker_evolves (sv_tracker s) tk'" "tracker_inv tk'"
    and db: "db_steps (cl_commandId c) (sv_db s) db'"
    and gone: "\<And>k e. map_of (tk_pending tk') k = Some e \<Longrightarrow> cl_promise c \<noteq> Some (te_resolve e)"
    and out: "outcome_recorded deps db' (i, cl_commandId c, withId (cl_commandId c) r)"
  shows "service_inv deps (finish_call i c r (s\<lparr>sv_tracker := tk', sv_db := db'\<rparr>))"
proof (rule service_invI)
  let ?s = "finish_call i c r (s\<lparr>sv_tracker := tk', sv_db := db'\<rparr>)"
  note d = service_invD [OF inv] and ok = calls_okD [OF service_invD(5) [OF inv]]
  show "history_inv (sv_db ?s)" "tracker_inv (sv_tracker ?s)" "jm_wf (sv_calls ?s)"
    using d(1,3) db tk(2) by (simp_all add: finish_call_def return_result_def db_steps_def)
  show "j < sv_next ?s" if "j \<in> fst ` set (sv_calls ?s)" for j
    using that d(4) by (auto simp: finish_call_def return_result_def set_delete_jm)
  show "\<forall>p \<in> set (sv_results ?s). outcome_recorded deps (sv_db ?s) p"
    using outcomes_steps [OF d(6) db] out by (simp add: finish_call_def return_result_def)
  have other: "j \<noteq> i \<and> map_of (sv_calls s) j = Some e" if "((map_of (sv_calls s))(i := None)) j = Some e" for j e
    using that unfolding fun_upd_apply by (metis option.distinct(1))
  have "calls_ok deps db' tk' ((map_of (sv_calls s))(i := None))"
  proof (rule calls_okI)
    fix j e assume "((map_of (sv_calls s))(i := None)) j = Some e"
    note j = other [OF this, THEN conjunct1] other [OF this, THEN conjunct2]
    show "call_recorded e db'" using ok(1) [OF j(2)]
    proof (rule call_recorded_frame)
      fix x assume "cl_commandId e = Some x"
      then have "cl_commandId c \<noteq> Some x" using ok(4) [OF j(2) c] j(1) by blast
      then show "find_row x db' = find_row x (sv_db s)" using db by (simp add: db_steps_def)
    qed
    show "call_tracked deps e tk'" using call_tracked_evolves [OF ok(2) [OF j(2)] tk(1)] .
    show "cl_commandId e \<noteq> None \<Longrightarrow> sd_history deps \<Longrightarrow> cl_stored e" using ok(3) [OF j(2)] .
  next
    fix j l e f x
    assume "((map_of (sv_calls s))(i := None)) j = Some e" "((map_of (sv_calls s))(i := None)) l = Some f"
      "cl_commandId e = Some x" "cl_commandId f = Some x"
    then show "j = l" using other ok(4) by blast
  next
    fix k e assume e: "map_of (tk_pending tk') k = Some e"
    have "entry_owned (map_of (sv_calls s)) e" by (rule entry_owned_evolves [OF tk(1) _ e]) (rule ok(5))
    then obtain j d where j: "map_of (sv_calls s) j = Some d"
      "cl_promise d = Some (te_resolve e)" "cl_tier d \<noteq> TDispatch" "pc_commandId (te_command e) = cl_commandId d"
      "pc_requiredTier (te_command e) = required_of (cl_tier d)" unfolding entry_owned_def by blast
    moreover have "j \<noteq> i" using gone [OF e] j(1,2) c by auto
    ultimately show "entry_owned ((map_of (sv_calls s))(i := None)) e"
      unfolding entry_owned_def by (intro exI [of _ j] exI [of _ d]) simp
  qed
  then show "calls_ok deps (sv_db ?s) (sv_tracker ?s) (map_of (sv_calls ?s))"
    by (simp add: finish_call_def return_result_def)
qed

text \<open>The write that ends a call makes the record what the caller is told.\<close>

lemma closing_write:
  assumes rec: "call_recorded c db" and hist: "cl_commandId c \<noteq> None \<Longrightarrow> sd_history deps \<Longrightarrow> cl_stored c"
    and move: "\<And>st. stage_ok c st \<Longrightarrow> canTransition st to"
    and ev: "\<And>e sp. ev = Some e \<Longrightarrow> ev_condition e = Some sp \<Longrightarrow>
      \<exists>f. cl_confirm c = Some f \<and> cf_conditionSpec f = Some sp"
    and r: "ar_success r = isSuccessState to" "ar_lifecycleState r = Some to"
      "ar_success r \<Longrightarrow> to = proven_state deps (cl_tier c)"
  shows "outcome_recorded deps
    (recordTransition (cl_stored c) (cl_commandId c) to True (Some (ar_success r)) kind err ev now db)
    (i, cl_commandId c, withId (cl_commandId c) r)"
  unfolding outcome_recorded_def
proof (intro allI impI conjI)
  fix x assume "fst (snd (i, cl_commandId c, withId (cl_commandId c) r)) = Some x"
  then have x: "cl_commandId c = Some x" by simp
  then show "ar_commandId (snd (snd (i, cl_commandId c, withId (cl_commandId c) r))) = Some x" by (simp add: withId_def)
  assume "sd_history deps"
  then have st: "cl_stored c" using hist x by simp
  then obtain row where row: "find_row x db = Some row" "rw_terminal_at row = None"
    "rw_effective_tier row = cl_tier c" "stage_ok c (rw_lifecycle_state row)"
    and spec: "\<And>f sp. cl_confirm c = Some f \<Longrightarrow> cf_conditionSpec f = Some sp \<Longrightarrow> \<not> has_bigint (JObj sp)"
    using rec x by (auto simp: call_recorded_def)
  obtain row' where "find_row x (recordTransition True (Some x) to True (Some (ar_success r)) kind err ev now db) = Some row'"
    "rw_lifecycle_state row' = to" "rw_effective_tier row' = cl_tier c" "rw_terminal_at row' = Some now"
    "rw_success row' = sql_bool (Some (ar_success r))"
    using recordTransition_moves [OF row(1,2) move [OF row(4)], of ev True "Some (ar_success r)" kind err now] ev spec row(3)
    by (metis (no_types, lifting) option.distinct(1))
  then show "case find_row x (recordTransition (cl_stored c) (cl_commandId c) to True (Some (ar_success r)) kind err ev now db) of
      None \<Rightarrow> \<not> ar_success (snd (snd (i, cl_commandId c, withId (cl_commandId c) r)))
        \<and> ar_lifecycleState (snd (snd (i, cl_commandId c, withId (cl_commandId c) r))) = Some FAILED
    | Some row \<Rightarrow> result_matches deps (snd (snd (i, cl_commandId c, withId (cl_commandId c) r))) row"
    using r x st by (simp add: result_matches_def withId_def)
qed

lemma stage_fails: "stage_ok c st \<Longrightarrow> canTransition st FAILED"
  by (auto simp: stage_ok_def split: if_splits)

lemma fail_dispatch_inv:
  assumes inv: "service_inv deps s" and c: "map_of (sv_calls s) i = Some c"
    and r: "\<not> ar_success r" "ar_lifecycleState r = Some FAILED"
  shows "service_inv deps (fail_dispatch i c r kind err now s)"
proof -
  let ?tk = "case cl_promise c of Some _ \<Rightarrow> tracker_cancel (the (cl_correlationId c)) (sv_tracker s) | None \<Rightarrow> sv_tracker s"
  let ?db = "recordTransition (cl_stored c) (cl_commandId c) FAILED True (Some (ar_success r)) kind err None now (sv_db s)"
  note tki = service_invD(2) [OF inv] and trk = calls_okD(2) [OF service_invD(5) [OF inv] c]
  have gone: "cl_promise c \<noteq> Some (te_resolve e)" if e: "map_of (tk_pending ?tk) k = Some e" for k e
  proof
    assume p: "cl_promise c = Some (te_resolve e)"
    then obtain k' where k': "cl_correlationId c = Some k'"
      "(\<exists>q. map_of (tk_settled (sv_tracker s)) (te_resolve e) = Some q)
       \<or> (\<exists>f. map_of (tk_pending (sv_tracker s)) k' = Some f \<and> te_resolve f = te_resolve e)"
      using trk by (auto simp: call_tracked_def)
    from e p k' have here: "map_of (tk_pending (sv_tracker s)) k = Some e" "k \<noteq> k'"
      by (auto simp: tracker_cancel_def split: option.splits if_splits)
    from k'(2) show False
    proof (elim disjE exE conjE)
      fix f assume "map_of (tk_pending (sv_tracker s)) k' = Some f" "te_resolve f = te_resolve e"
      then show False using tracker_core_inj [OF tracker_inv_core [OF tki] here(1), of k' f] here(2) by simp
    qed (use tracker_inv_pending(3) [OF tki here(1)] in simp)
  qed
  have "service_inv deps (finish_call i c r (s\<lparr>sv_tracker := ?tk, sv_db := ?db\<rparr>))"
  proof (rule finish_inv [OF inv c _ _ _ gone])
    show "tracker_evolves (sv_tracker s) ?tk" "tracker_inv ?tk"
      using cancel_evolves [OF tki] tracker_inv_cancel [OF tki] tki
      by (auto simp: tracker_evolves_refl split: option.splits)
    show "db_steps (cl_commandId c) (sv_db s) ?db" by (rule recordTransition_steps) simp
    show "outcome_recorded deps ?db (i, cl_commandId c, withId (cl_commandId c) r)"
      by (rule closing_write [OF calls_okD(1,3) [OF service_invD(5) [OF inv] c] stage_fails]) (use r in auto)
  qed
  then show ?thesis using r(1) by (simp add: fail_dispatch_def)
qed

lemma fits_state:
  assumes "resolution_fits (required_of t) r" "t \<noteq> TDispatch"
  shows "pr_lifecycleState r \<notin> {REQUESTED, DISPATCHED}" "t = TObserved \<Longrightarrow> pr_lifecycleState r \<noteq> ACKNOWLEDGED"
    "pr_success r = isSuccessState (pr_lifecycleState r)"
    "sd_tracker deps \<Longrightarrow> pr_success r \<Longrightarrow> pr_lifecycleState r = proven_state deps t"
proof -
  show n: "pr_lifecycleState r \<notin> {REQUESTED, DISPATCHED}" "t = TObserved \<Longrightarrow> pr_lifecycleState r \<noteq> ACKNOWLEDGED"
    and s: "pr_success r = isSuccessState (pr_lifecycleState r)"
    using assms by (auto simp: resolution_fits_def resolution_ok_def required_of_def split: if_splits)
  show "pr_lifecycleState r = proven_state deps t" if "sd_tracker deps" "pr_success r"
    using that n s assms
    by (cases t; cases "pr_lifecycleState r") (auto simp: proven_state_def resolution_fits_def required_of_def)
qed

lemma execute_resolved_inv:
  assumes inv: "service_inv deps s" and c: "map_of (sv_calls s) i = Some c"
    and ph: "cl_phase c = Waiting data" and p: "cl_promise c = Some h" and r: "map_of (tk_settled (sv_tracker s)) h = Some r"
  shows "service_inv deps (execute_resolved i c data r now s)"
proof -
  note tki = service_invD(2) [OF inv] and trk = calls_okD(2) [OF service_invD(5) [OF inv] c]
  have gone: "cl_promise c \<noteq> Some (te_resolve e)" if "map_of (tk_pending (sv_tracker s)) k = Some e" for k e
    using tracker_inv_pending(3) [OF tki that] r p by auto
  obtain k where k: "cl_tier c \<noteq> TDispatch" "sd_tracker deps" "resolution_fits (required_of (cl_tier c)) r"
  proof -
    from trk p have "cl_tier c \<noteq> TDispatch" "sd_tracker deps" by (auto simp: call_tracked_def)
    moreover have "\<And>k e. map_of (tk_pending (sv_tracker s)) k = Some e \<Longrightarrow> te_resolve e \<noteq> h" using gone p by auto
    then have "resolution_fits (required_of (cl_tier c)) r" using trk p r by (auto simp: call_tracked_def)
    ultimately show ?thesis by (rule that)
  qed
  note f = fits_state [OF k(3,1)]
  let ?r = "\<lparr>ar_success = pr_success r, ar_data = data, ar_error = js_truthy (pr_error r),
    ar_lifecycleState = Some (pr_lifecycleState r), ar_correlationId = cl_correlationId c,
    ar_commandId = None, ar_failureKind = None\<rparr>"
  let ?db = "recordTransition (cl_stored c) (cl_commandId c) (pr_lifecycleState r) True (Some (ar_success ?r)) None
    (js_truthy (pr_error r)) (resolution_evidence c r) now (sv_db s)"
  have "service_inv deps (finish_call i c ?r (s\<lparr>sv_tracker := sv_tracker s, sv_db := ?db\<rparr>))"
  proof (rule finish_inv [OF inv c tracker_evolves_refl tki _ gone])
    show "db_steps (cl_commandId c) (sv_db s) ?db" by (rule recordTransition_steps) simp
    show "outcome_recorded deps ?db (i, cl_commandId c, withId (cl_commandId c) ?r)"
    proof (rule closing_write [OF calls_okD(1,3) [OF service_invD(5) [OF inv] c]])
      show "canTransition st (pr_lifecycleState r)" if "stage_ok c st" for st
        using that f(1,2) p ph by (auto simp: stage_ok_def)
      show "\<exists>f. cl_confirm c = Some f \<and> cf_conditionSpec f = Some sp"
        if "resolution_evidence c r = Some e" "ev_condition e = Some sp" for e sp
        using that by (auto simp: resolution_evidence_def Let_def bind_eq_Some_conv dest!: evidence_condition split: if_splits)
    qed (use f(3) f(4) [OF k(2)] in auto)
  qed
  then show ?thesis by (simp add: execute_resolved_def)
qed

lemma stage_waiting:
  "stage_ok c st \<Longrightarrow> cl_promise c = Some h \<Longrightarrow> cl_phase c = Dispatching \<Longrightarrow> st \<noteq> REQUESTED \<Longrightarrow>
    stage_ok (c\<lparr>cl_phase := Waiting data\<rparr>) st"
  by (auto simp: stage_ok_def)

lemma dispatch_accepted_inv:
  assumes inv: "service_inv deps s" and c: "map_of (sv_calls s) i = Some c" and ph: "cl_phase c = Dispatching"
  shows "service_inv deps (dispatch_accepted i c data now s)"
proof (cases "cl_promise c")
  case None
  let ?r = "\<lparr>ar_success = True, ar_data = data, ar_error = None, ar_lifecycleState = Some DISPATCHED,
    ar_correlationId = cl_correlationId c, ar_commandId = None, ar_failureKind = None\<rparr>"
  let ?db = "recordTransition (cl_stored c) (cl_commandId c) DISPATCHED True (Some (ar_success ?r)) None None None now (sv_db s)"
  have t: "cl_tier c = TDispatch \<or> \<not> sd_tracker deps"
    using calls_okD(2) [OF service_invD(5) [OF inv] c] None by (simp add: call_tracked_def)
  have "service_inv deps (finish_call i c ?r (s\<lparr>sv_tracker := sv_tracker s, sv_db := ?db\<rparr>))"
  proof (rule finish_inv [OF inv c tracker_evolves_refl service_invD(2) [OF inv]])
    show "db_steps (cl_commandId c) (sv_db s) ?db" by (rule recordTransition_steps) simp
    show "outcome_recorded deps ?db (i, cl_commandId c, withId (cl_commandId c) ?r)"
      by (rule closing_write [OF calls_okD(1,3) [OF service_invD(5) [OF inv] c]]) (use None t in \<open>auto simp: stage_ok_def proven_state_def\<close>)
  qed (simp add: None)
  then show ?thesis by (simp add: dispatch_accepted_def None)
next
  case (Some h)
  let ?db = "recordTransition (cl_stored c) (cl_commandId c) DISPATCHED False None None None None now (sv_db s)"
  let ?c = "c\<lparr>cl_phase := Waiting data\<rparr>"
  let ?C = "(map_of (sv_calls s))(i \<mapsto> ?c)"
  note d = service_invD [OF inv] and ok = calls_okD [OF service_invD(5) [OF inv]]
  have db: "db_steps (cl_commandId c) (sv_db s) ?db" by (rule recordTransition_steps) simp
  have own: "call_recorded ?c ?db"
    unfolding call_recorded_def
  proof
    assume st: "cl_stored ?c"
    with ok(1) [OF c] obtain x row where x: "cl_commandId c = Some x" and row: "find_row x (sv_db s) = Some row"
      "rw_terminal_at row = None" "rw_effective_tier row = cl_tier c" "stage_ok c (rw_lifecycle_state row)"
      and spec: "\<forall>f sp. cl_confirm c = Some f \<longrightarrow> cf_conditionSpec f = Some sp \<longrightarrow> \<not> has_bigint (JObj sp)"
      by (auto simp: call_recorded_def)
    have "\<exists>row'. find_row x ?db = Some row' \<and> rw_terminal_at row' = None \<and> rw_effective_tier row' = cl_tier c
      \<and> stage_ok ?c (rw_lifecycle_state row')"
    proof (cases "rw_lifecycle_state row = REQUESTED")
      case True
      with recordTransition_moves [OF row(1,2), of DISPATCHED None False None None None now] x st row(3)
      show ?thesis by (auto simp: stage_ok_def Some)
    next
      case False
      then have "\<not> canTransition (rw_lifecycle_state row) DISPATCHED" by (cases "rw_lifecycle_state row") auto
      from recordTransition_same [OF row(1,2) this] row stage_waiting [OF row(4) Some ph False] x
      show ?thesis by auto
    qed
    then show "\<exists>x row. cl_commandId ?c = Some x \<and> find_row x ?db = Some row \<and> rw_terminal_at row = None
      \<and> rw_effective_tier row = cl_tier ?c \<and> stage_ok ?c (rw_lifecycle_state row)
      \<and> (\<forall>f sp. cl_confirm ?c = Some f \<longrightarrow> cf_conditionSpec f = Some sp \<longrightarrow> \<not> has_bigint (JObj sp))"
      using x spec by auto
  qed
  have "calls_ok deps ?db (sv_tracker s) ?C"
  proof (rule calls_okI)
    fix j e assume e: "?C j = Some e"
    show "call_recorded e ?db"
    proof (cases "j = i")
      case False
      then have j: "map_of (sv_calls s) j = Some e" using e by simp
      show ?thesis using ok(1) [OF j]
      proof (rule call_recorded_frame)
        fix x assume "cl_commandId e = Some x"
        then have "cl_commandId c \<noteq> Some x" using ok(4) [OF j c] False by blast
        then show "find_row x ?db = find_row x (sv_db s)" using db by (simp add: db_steps_def)
      qed
    qed (use own e in simp)
    show "call_tracked deps e (sv_tracker s)"
    proof (cases "j = i")
      case True
      then have e': "e = ?c" using e by simp
      show ?thesis using ok(2) [OF c] Some by (simp add: e' call_tracked_def)
    qed (use ok(2) e in simp)
    show "cl_commandId e \<noteq> None \<Longrightarrow> sd_history deps \<Longrightarrow> cl_stored e"
      using ok(3) e c by (cases "j = i") auto
  next
    fix j l e f x assume "?C j = Some e" "?C l = Some f" "cl_commandId e = Some x" "cl_commandId f = Some x"
    then show "j = l" using ok(4) c by (cases "j = i"; cases "l = i") auto
  next
    fix k e assume "map_of (tk_pending (sv_tracker s)) k = Some e"
    then obtain j q where j: "map_of (sv_calls s) j = Some q" "cl_promise q = Some (te_resolve e)" "cl_tier q \<noteq> TDispatch"
      "pc_commandId (te_command e) = cl_commandId q" "pc_requiredTier (te_command e) = required_of (cl_tier q)"
      using ok(5) unfolding entry_owned_def by blast
    then show "entry_owned ?C e"
      unfolding entry_owned_def using c by (cases "j = i") auto
  qed
  moreover have "i < sv_next s" using d(4) [of i] map_of_SomeD [OF c] by force
  ultimately show ?thesis
    using d(1-4) db outcomes_steps [OF d(6) db]
    by (intro service_invI) (auto simp: dispatch_accepted_def Some db_steps_def dom_update)
qed

lemma execute_dispatched_inv:
  assumes "service_inv deps s" "map_of (sv_calls s) i = Some c" "cl_phase c = Dispatching"
  shows "service_inv deps (execute_dispatched i c outcome now s)"
  using fail_dispatch_inv [OF assms(1,2)] dispatch_accepted_inv [OF assms]
  by (auto simp: execute_dispatched_def failed_result_def split: handler_outcome.splits option.splits)

text \<open>The tracker's operations, with the transition callback they make.\<close>

lemma persist_events_kept:
  assumes "\<And>ev t. ev \<in> set evs \<Longrightarrow> ev = OnTransition t \<Longrightarrow> pt_toState t = ACKNOWLEDGED"
    and "\<And>db t. OnTransition t \<in> set evs \<Longrightarrow> P db \<Longrightarrow> db_steps (js_truthy (pt_commandId t)) db (persist_transition t db) \<Longrightarrow>
      P (persist_transition t db)"
    and "P db"
  shows "P (persist_events evs db)"
  using assms unfolding persist_events_def
proof (induction evs arbitrary: db)
  case (Cons ev evs)
  have "P (case ev of OnTransition t \<Rightarrow> persist_transition t db | _ \<Rightarrow> db)"
    using Cons.prems persist_steps by (cases ev) auto
  then show ?case using Cons by simp
qed simp

lemma tracker_call_inv:
  assumes inv: "service_inv deps s" and ev: "tracker_evolves (sv_tracker s) (tracker_step a (sv_tracker s))"
    and tki: "tracker_inv (tracker_step a (sv_tracker s))"
  shows "service_inv deps (tracker_call a s)"
proof -
  let ?tk = "tracker_step a (sv_tracker s)" and ?C = "map_of (sv_calls s)"
  note d = service_invD [OF inv] and ok = calls_okD [OF service_invD(5) [OF inv]]
  obtain evs where evs: "tk_events ?tk = tk_events (sv_tracker s) @ evs"
    "\<And>e. e \<in> set evs \<Longrightarrow> ack_event_ok (map_of (tk_pending (sv_tracker s))) e"
    using ev unfolding tracker_evolves_def by blast
  have ack: "pt_toState t = ACKNOWLEDGED" if "e \<in> set evs" "e = OnTransition t" for e t
    using evs(2) [OF that(1)] that(2) by (simp add: ack_event_ok_def)
  let ?db = "persist_events evs (sv_db s)"
  have rec: "call_recorded c ?db" if c: "?C i = Some c" for i c
  proof (rule persist_events_kept [where P = "call_recorded c", OF ack])
    show "call_recorded c (sv_db s)" by (rule ok(1) [OF c])
    fix db t assume t: "OnTransition t \<in> set evs" and r: "call_recorded c db"
      and st: "db_steps (js_truthy (pt_commandId t)) db (persist_transition t db)"
    show "call_recorded c (persist_transition t db)"
    proof (cases "\<exists>x. cl_commandId c = Some x \<and> js_truthy (pt_commandId t) = Some x")
      case False
      then show ?thesis using call_recorded_frame [OF r] st unfolding db_steps_def by metis
    next
      case True
      then obtain x where x: "cl_commandId c = Some x" "js_truthy (pt_commandId t) = Some x" by blast
      from evs(2) [OF t] obtain k e where e: "map_of (tk_pending (sv_tracker s)) k = Some e"
        "pc_requiredTier (te_command e) = RObserved" "pt_commandId t \<in> {None, pc_commandId (te_command e)}"
        by (auto simp: ack_event_ok_def)
      have px: "pc_commandId (te_command e) = Some x" using e(3) x(2) by (auto simp: js_truthy_def split: if_splits)
      obtain j q where q: "?C j = Some q" "cl_promise q = Some (te_resolve e)" "cl_tier q \<noteq> TDispatch"
        "cl_commandId q = Some x" "required_of (cl_tier q) = RObserved"
        using ok(5) [OF e(1)] e(2) px unfolding entry_owned_def by auto
      have "j = i" using ok(4) [OF q(1) c q(4) x(1)] .
      then have "q = c" using q(1) c by simp
      then have c': "cl_promise c \<noteq> None" "cl_tier c = TObserved"
        using q(2,3,5) by (cases "cl_tier c"; simp add: required_of_def)+
      show ?thesis
        unfolding call_recorded_def
      proof
        assume "cl_stored c"
        with r x(1) obtain row where row: "find_row x db = Some row" "rw_terminal_at row = None"
          "rw_effective_tier row = cl_tier c" "stage_ok c (rw_lifecycle_state row)"
          and spec: "\<forall>f sp. cl_confirm c = Some f \<longrightarrow> cf_conditionSpec f = Some sp \<longrightarrow> \<not> has_bigint (JObj sp)"
          by (auto simp: call_recorded_def)
        have "rw_lifecycle_state row \<in> {REQUESTED, DISPATCHED, ACKNOWLEDGED}"
          using row(4) by (auto simp: stage_ok_def split: if_splits)
        from persist_row [OF row(1,2) this x(2) ack [OF t refl]] c' row(3) spec x(1)
        show "\<exists>x row. cl_commandId c = Some x \<and> find_row x (persist_transition t db) = Some row
          \<and> rw_terminal_at row = None \<and> rw_effective_tier row = cl_tier c \<and> stage_ok c (rw_lifecycle_state row)
          \<and> (\<forall>f sp. cl_confirm c = Some f \<longrightarrow> cf_conditionSpec f = Some sp \<longrightarrow> \<not> has_bigint (JObj sp))"
          by (auto simp: stage_ok_def)
      qed
    qed
  qed
  have hist: "history_inv ?db"
    by (rule persist_events_kept [where P = history_inv, OF ack _ d(1)]) (auto simp: db_steps_def)
  have res: "\<forall>p \<in> set (sv_results s). outcome_recorded deps ?db p"
    by (rule persist_events_kept [where P = "\<lambda>db. \<forall>p \<in> set (sv_results s). outcome_recorded deps db p", OF ack _ d(6)])
      (auto intro: outcomes_steps [THEN bspec])
  have "calls_ok deps ?db ?tk ?C"
  proof (rule calls_okI)
    show "call_tracked deps c ?tk" if "?C i = Some c" for i c using call_tracked_evolves [OF ok(2) [OF that] ev] .
    show "entry_owned ?C e" if e: "map_of (tk_pending ?tk) k = Some e" for k e
      by (rule entry_owned_evolves [OF ev _ e]) (rule ok(5))
  qed (use rec ok(3,4) in blast)+
  then show ?thesis
    using d(3,4) tki hist res evs(1) by (intro service_invI) (auto simp: tracker_call_def Let_def)
qed

text \<open>The first step of a call.\<close>

lemma return_now_inv:
  assumes inv: "service_inv deps s" and out: "outcome_recorded deps (sv_db s) (sv_next s, c, withId c r)"
  shows "service_inv deps (return_now c r s)"
  using service_invD [OF inv] out
  by (intro service_invI) (auto simp: return_now_def return_result_def less_SucI)

lemma db_change_inv:
  assumes inv: "service_inv deps s" and db: "db_steps c (sv_db s) db'"
    and new: "\<And>i d. map_of (sv_calls s) i = Some d \<Longrightarrow> cl_commandId d \<noteq> None \<Longrightarrow> cl_commandId d \<noteq> c"
  shows "service_inv deps (s\<lparr>sv_db := db'\<rparr>)"
proof -
  note d = service_invD [OF inv] and ok = calls_okD [OF service_invD(5) [OF inv]]
  have "calls_ok deps db' (sv_tracker s) (map_of (sv_calls s))"
  proof (rule calls_okI)
    show "call_recorded e db'" if e: "map_of (sv_calls s) i = Some e" for i e
      using ok(1) [OF e]
    proof (rule call_recorded_frame)
      fix x assume "cl_commandId e = Some x"
      then have "c \<noteq> Some x" using new [OF e] by auto
      then show "find_row x db' = find_row x (sv_db s)" using db by (simp add: db_steps_def)
    qed
  qed (use ok in blast)+
  then show ?thesis
    using d db outcomes_steps [OF d(6) db] by (intro service_invI) (auto simp: db_steps_def)
qed

lemma create_inv:
  assumes inv: "service_inv deps s" and create: "history_create r ev (sv_db s) = Inr db'"
    and live: "cr_lifecycleState r = REQUESTED"
    and new: "\<And>i d. map_of (sv_calls s) i = Some d \<Longrightarrow> cl_commandId d \<noteq> Some (cr_commandId r)"
    and fresh: "Some (cr_commandId r) \<notin> (fst \<circ> snd) ` set (sv_results s)"
  shows "service_inv deps (s\<lparr>sv_db := db'\<rparr>)"
proof -
  note d = service_invD [OF inv] and ok = calls_okD [OF service_invD(5) [OF inv]]
  have frame: "find_row x db' = find_row x (sv_db s)" if "x \<noteq> cr_commandId r" for x
    using find_row_create [OF create, of x] that by simp
  have hist: "history_inv db'" using history_create_inv [OF d(1) create] live by simp
  have "calls_ok deps db' (sv_tracker s) (map_of (sv_calls s))"
  proof (rule calls_okI)
    show "call_recorded e db'" if e: "map_of (sv_calls s) i = Some e" for i e
      by (rule call_recorded_frame [OF ok(1) [OF e] frame]) (use new [OF e] in auto)
  qed (use ok in blast)+
  moreover have "outcome_recorded deps db' p" if p: "p \<in> set (sv_results s)" for p
    by (rule outcome_kept [OF bspec [OF d(6) p] frame]) (use fresh p in \<open>force simp: image_iff\<close>)
  ultimately show ?thesis using d hist by (intro service_invI) auto
qed

lemma begin_inv:
  assumes inv: "service_inv deps s" and tki: "tracker_inv tk"
    and old: "\<And>i c. map_of (sv_calls s) i = Some c \<Longrightarrow> call_tracked deps c tk"
    and own: "\<And>k e. map_of (tk_pending tk) k = Some e \<Longrightarrow> entry_owned ((map_of (sv_calls s))(sv_next s \<mapsto> cl)) e"
    and cl: "call_recorded cl (sv_db s)" "call_tracked deps cl tk" "cl_commandId cl \<noteq> None \<Longrightarrow> sd_history deps \<Longrightarrow> cl_stored cl"
    and new: "\<And>i d. map_of (sv_calls s) i = Some d \<Longrightarrow> cl_commandId d \<noteq> None \<Longrightarrow> cl_commandId d \<noteq> cl_commandId cl"
  shows "service_inv deps (begin_dispatch deps h cl (s\<lparr>sv_tracker := tk\<rparr>))"
proof -
  note d = service_invD [OF inv] and ok = calls_okD [OF service_invD(5) [OF inv]]
  let ?C = "(map_of (sv_calls s))(sv_next s \<mapsto> cl)"
  have "calls_ok deps (sv_db s) tk ?C"
  proof (rule calls_okI)
    fix i c assume "?C i = Some c"
    then have "i = sv_next s \<and> c = cl \<or> map_of (sv_calls s) i = Some c" by (auto split: if_splits)
    then show "call_recorded c (sv_db s)" "call_tracked deps c tk"
      "cl_commandId c \<noteq> None \<Longrightarrow> sd_history deps \<Longrightarrow> cl_stored c"
      using ok(1,3) old cl by blast+
  next
    fix i j c e x assume "?C i = Some c" "?C j = Some e" "cl_commandId c = Some x" "cl_commandId e = Some x"
    then show "i = j" using ok(4) new by (cases "i = sv_next s"; cases "j = sv_next s") auto
  qed (rule own)
  moreover have "i < Suc (sv_next s)" if "i \<in> fst ` set (sv_calls s)" for i using d(4) [OF that] by simp
  ultimately show ?thesis
    using d(1,3,6) tki by (intro service_invI) (auto simp: begin_dispatch_def dom_update)
qed

lemma register_maps:
  "map_of (tk_pending (snd (tracker_register c tk))) = (map_of (tk_pending tk))(pc_correlationId c \<mapsto>
     \<lparr>te_command = c, te_state = DISPATCHED, te_timer = tk_next tk, te_resolve = tk_next tk\<rparr>)"
  "map_of (tk_settled (snd (tracker_register c tk))) = map_of (tk_settled tk)" "fst (tracker_register c tk) = tk_next tk"
  by (simp_all add: tracker_register_def Let_def)

lemma begin_tracked_inv:
  assumes inv: "service_inv deps s" and t: "cl_tier cl \<noteq> TDispatch" "sd_tracker deps"
    and free: "map_of (tk_pending (sv_tracker s)) (pc_correlationId pc) = None"
    and pc: "cl_correlationId cl = Some (pc_correlationId pc)" "pc_commandId pc = cl_commandId cl"
      "pc_requiredTier pc = required_of (cl_tier cl)"
    and cl: "call_recorded (cl\<lparr>cl_promise := Some (tk_next (sv_tracker s))\<rparr>) (sv_db s)"
      "cl_commandId cl \<noteq> None \<Longrightarrow> sd_history deps \<Longrightarrow> cl_stored cl"
    and new: "\<And>i d. map_of (sv_calls s) i = Some d \<Longrightarrow> cl_commandId d \<noteq> None \<Longrightarrow> cl_commandId d \<noteq> cl_commandId cl"
  shows "service_inv deps (begin_dispatch deps h (cl\<lparr>cl_promise := Some (tk_next (sv_tracker s))\<rparr>)
    (s\<lparr>sv_tracker := snd (tracker_register pc (sv_tracker s))\<rparr>))"
proof (rule begin_inv [OF inv])
  let ?tk = "snd (tracker_register pc (sv_tracker s))" and ?cl = "cl\<lparr>cl_promise := Some (tk_next (sv_tracker s))\<rparr>"
  note d = service_invD [OF inv] and ok = calls_okD [OF service_invD(5) [OF inv]]
  show "tracker_inv ?tk" using tracker_inv_register [OF d(2) free] .
  show "call_tracked deps c ?tk" if c: "map_of (sv_calls s) i = Some c" for i c
    using ok(2) [OF c] free by (fastforce simp: call_tracked_def register_maps split: option.splits)
  show "call_tracked deps ?cl ?tk"
    using t pc by (auto simp: call_tracked_def register_maps)
  show "entry_owned ((map_of (sv_calls s))(sv_next s \<mapsto> ?cl)) e" if e: "map_of (tk_pending ?tk) k = Some e" for k e
  proof (cases "k = pc_correlationId pc")
    case True
    then have "te_command e = pc" "te_resolve e = tk_next (sv_tracker s)" using e by (auto simp: register_maps)
    then show ?thesis unfolding entry_owned_def
      using pc t by (intro exI [of _ "sv_next s"] exI [of _ ?cl]) simp
  next
    case False
    then have "map_of (tk_pending (sv_tracker s)) k = Some e" using e by (simp add: register_maps)
    then obtain j q where j: "map_of (sv_calls s) j = Some q" "cl_promise q = Some (te_resolve e)" "cl_tier q \<noteq> TDispatch"
      "pc_commandId (te_command e) = cl_commandId q" "pc_requiredTier (te_command e) = required_of (cl_tier q)"
      using ok(5) unfolding entry_owned_def by blast
    moreover have "j < sv_next s" using d(4) [of j] map_of_SomeD [OF j(1)] by force
    ultimately show ?thesis unfolding entry_owned_def by (intro exI [of _ j] exI [of _ q]) simp
  qed
qed (use cl new in simp_all)

lemma accept_call_fields:
  assumes "accept_call deps rq s = (ceil, ack, cl)"
  shows "cl_promise cl = None" "cl_phase cl = Dispatching" "cl_stored cl \<longleftrightarrow> cl_commandId cl \<noteq> None \<and> sd_history deps"
    "cl_commandId cl \<in> {None, Some (rq_commandId rq)}" "cl_confirm cl = rq_confirm rq"
    "cl_tier cl \<noteq> TDispatch \<Longrightarrow> cl_correlationId cl = Some (rq_correlationId rq)"
  using assms by (auto simp: accept_call_def Let_def split: if_splits)

lemma pending_of_fields [simp]:
  "pc_correlationId (pending_of deps rq cl) = rq_correlationId rq" "pc_commandId (pending_of deps rq cl) = cl_commandId cl"
  "pc_requiredTier (pending_of deps rq cl) = required_of (cl_tier cl)"
  by (simp_all add: pending_of_def Let_def required_of_def)

lemma start_dispatch_inv:
  assumes inv: "service_inv deps s" and acc: "accept_call deps rq s0 = (ceil, ack, cl)"
    and rec: "call_recorded cl (sv_db s)" and free: "map_of (tk_pending (sv_tracker s)) (rq_correlationId rq) = None"
    and new: "\<And>i d. map_of (sv_calls s) i = Some d \<Longrightarrow> cl_commandId d \<noteq> Some (rq_commandId rq)"
  shows "service_inv deps (start_dispatch deps rq h cl s)"
proof -
  note f = accept_call_fields [OF acc]
  have new': "cl_commandId d \<noteq> cl_commandId cl" if "map_of (sv_calls s) i = Some d" "cl_commandId d \<noteq> None" for i d
    using new [OF that(1)] that(2) f(4) by auto
  have st: "cl_commandId cl \<noteq> None \<Longrightarrow> sd_history deps \<Longrightarrow> cl_stored cl" using f(3) by simp
  have missing: "service_inv deps (return_now (cl_commandId cl) (failed_result err (Some FkNotFound))
      (s\<lparr>sv_db := recordTransition (cl_stored cl) (cl_commandId cl) FAILED True (Some False) (Some FkNotFound) (Some err) ev now (sv_db s)\<rparr>))"
    if ev: "\<And>e. ev = Some e \<Longrightarrow> ev_condition e = None" for err ev now
  proof (rule return_now_inv)
    show "service_inv deps (s\<lparr>sv_db := recordTransition (cl_stored cl) (cl_commandId cl) FAILED True (Some False) (Some FkNotFound) (Some err) ev now (sv_db s)\<rparr>)"
      by (rule db_change_inv [OF inv recordTransition_steps new']) auto
    have "outcome_recorded deps (recordTransition (cl_stored cl) (cl_commandId cl) FAILED True
        (Some (ar_success (failed_result err (Some FkNotFound)))) (Some FkNotFound) (Some err) ev now (sv_db s))
        (sv_next s, cl_commandId cl, withId (cl_commandId cl) (failed_result err (Some FkNotFound)))"
      by (rule closing_write [OF rec st stage_fails]) (use ev in \<open>auto simp: failed_result_def\<close>)
    then show "outcome_recorded deps (sv_db (s\<lparr>sv_db := recordTransition (cl_stored cl) (cl_commandId cl) FAILED True (Some False)
          (Some FkNotFound) (Some err) ev now (sv_db s)\<rparr>))
        (sv_next (s\<lparr>sv_db := recordTransition (cl_stored cl) (cl_commandId cl) FAILED True (Some False)
          (Some FkNotFound) (Some err) ev now (sv_db s)\<rparr>), cl_commandId cl, withId (cl_commandId cl) (failed_result err (Some FkNotFound)))"
      by (simp add: failed_result_def)
  qed
  have direct: "service_inv deps (begin_dispatch deps h cl s)" if "cl_tier cl = TDispatch \<or> \<not> sd_tracker deps"
  proof -
    have "service_inv deps (begin_dispatch deps h cl (s\<lparr>sv_tracker := sv_tracker s\<rparr>))"
    proof (rule begin_inv [OF inv service_invD(2) [OF inv]])
      note ok = calls_okD [OF service_invD(5) [OF inv]]
      show "call_tracked deps c (sv_tracker s)" if "map_of (sv_calls s) i = Some c" for i c using ok(2) [OF that] .
      show "entry_owned ((map_of (sv_calls s))(sv_next s \<mapsto> cl)) e" if e: "map_of (tk_pending (sv_tracker s)) k = Some e" for k e
      proof -
        obtain j q where j: "map_of (sv_calls s) j = Some q" "cl_promise q = Some (te_resolve e)" "cl_tier q \<noteq> TDispatch"
          "pc_commandId (te_command e) = cl_commandId q" "pc_requiredTier (te_command e) = required_of (cl_tier q)"
          using ok(5) [OF e] unfolding entry_owned_def by blast
        moreover have "j < sv_next s" using service_invD(4) [OF inv, of j] map_of_SomeD [OF j(1)] by force
        ultimately show ?thesis unfolding entry_owned_def by (intro exI [of _ j] exI [of _ q]) simp
      qed
      show "call_tracked deps cl (sv_tracker s)" using f(1,2) that by (simp add: call_tracked_def)
    qed (use rec st new' in auto)
    then show ?thesis by simp
  qed
  have tracked: "service_inv deps (begin_dispatch deps h (cl\<lparr>cl_promise := Some (tk_next (sv_tracker s))\<rparr>)
      (s\<lparr>sv_tracker := snd (tracker_register (pending_of deps rq cl) (sv_tracker s))\<rparr>))"
    if "cl_tier cl \<noteq> TDispatch" "sd_tracker deps"
  proof (rule begin_tracked_inv [OF inv that])
    show "call_recorded (cl\<lparr>cl_promise := Some (tk_next (sv_tracker s))\<rparr>) (sv_db s)"
      using rec f(1,2) by (auto simp: call_recorded_def stage_ok_def)
  qed (use f(6) that free st new' in auto)
  have reg: "(case tracker_register p (sv_tracker s) of (q, tk) \<Rightarrow>
      begin_dispatch deps h (cl\<lparr>cl_promise := Some q\<rparr>) (s\<lparr>sv_tracker := tk\<rparr>))
    = begin_dispatch deps h (cl\<lparr>cl_promise := Some (tk_next (sv_tracker s))\<rparr>)
        (s\<lparr>sv_tracker := snd (tracker_register p (sv_tracker s))\<rparr>)" for p
    by (simp add: tracker_register_def Let_def)
  show ?thesis
    unfolding start_dispatch_def Let_def reg
  proof (split if_split, intro conjI impI)
    show "service_inv deps (if cl_tier cl = TDispatch \<or> \<not> sd_tracker deps then begin_dispatch deps h cl s
      else begin_dispatch deps h (cl\<lparr>cl_promise := Some (tk_next (sv_tracker s))\<rparr>)
        (s\<lparr>sv_tracker := snd (tracker_register (pending_of deps rq cl) (sv_tracker s))\<rparr>))"
      using direct tracked by simp
  qed (rule missing, auto dest: evidence_condition)
qed

lemma execute_start_inv:
  assumes inv: "service_inv deps s" and ok: "service_ok (SExecute rq) s"
  shows "service_inv deps (execute_start deps rq s)"
proof -
  have refuse: "service_inv deps (return_now None r s)" for r
    by (rule return_now_inv [OF inv]) (simp add: outcome_recorded_def)
  have free: "map_of (tk_pending (sv_tracker s)) (rq_correlationId rq) = None"
    using ok by (simp add: tracker_has_def jm_has_def)
  have new: "cl_commandId d \<noteq> Some (rq_commandId rq)" if "map_of (sv_calls s) i = Some d" for i d
    using ok map_of_SomeD [OF that] by fastforce
  obtain ceil ack cl where acc: "accept_call deps rq s = (ceil, ack, cl)" by (metis prod_cases3)
  note f = accept_call_fields [OF acc]
  let ?r = "requested_record deps rq (cl_correlationId cl) ceil (cl_tier cl) ack"
  have r: "cr_commandId ?r = rq_commandId rq" "cr_lifecycleState ?r = REQUESTED" "cr_terminalAt ?r = None"
    "cr_effectiveTier ?r = cl_tier cl" "cs_conditionSpec (cr_snapshot ?r) = Option.bind (rq_confirm rq) cf_conditionSpec"
    by (simp_all add: requested_record_def Let_def)
  have plain: "service_inv deps (start_dispatch deps rq h cl s)" if "\<not> cl_stored cl" for h
    by (rule start_dispatch_inv [OF inv acc _ free new]) (use that in \<open>simp_all add: call_recorded_def\<close>)
  have stored: "service_inv deps (start_dispatch deps rq h cl (s\<lparr>sv_db := db\<rparr>))"
    if st: "cl_stored cl" and c: "history_create ?r ev (sv_db s) = Inr db" for h ev db
  proof (rule start_dispatch_inv [OF _ acc])
    show "service_inv deps (s\<lparr>sv_db := db\<rparr>)"
      by (rule create_inv [OF inv c r(2)]) (use new ok r(1) in auto)
    obtain cond where row: "find_row (rq_commandId rq) db = Some (recordToRow ?r cond)"
      using find_row_create [OF c, of "rq_commandId rq"] r(1) by auto
    have "\<not> has_bigint (JObj sp)" if "rq_confirm rq = Some g" "cf_conditionSpec g = Some sp" for g sp
      using create_condition [OF c] that r(5) by simp
    then show "call_recorded cl (sv_db (s\<lparr>sv_db := db\<rparr>))"
      using st f row r by (auto simp: call_recorded_def stage_ok_def recordToRow_def)
  qed (use free new in auto)
  have lost: "service_inv deps (return_now (cl_commandId cl) (failed_result msg kind) s)" for msg kind
    by (rule return_now_inv [OF inv])
      (use f(4) ok in \<open>auto simp: outcome_recorded_def withId_def failed_result_def\<close>)
  show ?thesis
    unfolding execute_start_def acc Let_def
    using refuse plain stored lost by (auto split: option.splits sum.splits)
qed

lemma service_step_inv: "service_inv deps s \<Longrightarrow> service_ok a s \<Longrightarrow> service_inv deps (service_step deps a s)"
proof (cases a)
  case (SHandled i outcome now)
  assume "service_inv deps s"
  then show ?thesis using SHandled execute_dispatched_inv by (auto split: option.splits)
next
  case (SResume i now)
  assume "service_inv deps s"
  then show ?thesis using SResume execute_resolved_inv
    by (auto simp: bind_eq_Some_conv split: option.splits call_phase.splits)
next
  case (SRegister ty h p)
  assume "service_inv deps s"
  then show ?thesis using SRegister by (simp add: service_inv_def registerHandler_def Let_def)
next
  case (SUnregister ty)
  assume "service_inv deps s"
  then show ?thesis using SUnregister by (simp add: service_inv_def unregisterHandler_def)
qed (simp_all add: execute_start_inv tracker_call_inv service_invD(2) route_evolves observe_evolves timer_evolves
    tracker_inv_route tracker_inv_observe tracker_inv_timer)

interpretation service: invariant_machine "service_step deps" service_ok service_init "service_inv deps" for deps
proof
  have "tk_pending tracker_init = []" by (simp add: tracker_init_def)
  then show "service_inv deps service_init"
    by (intro service_invI) (auto simp: service_init_def calls_ok_def tracker_inv_init history.inv_init)
qed (rule service_step_inv)

section \<open>What callers are told\<close>

lemma record_outcome:
  "cr_lifecycleState (rowToRecord row) = rw_lifecycle_state row" "cr_terminalAt (rowToRecord row) = rw_terminal_at row"
  "cr_effectiveTier (rowToRecord row) = rw_effective_tier row"
  "rw_success row = sql_bool b \<Longrightarrow> cr_success (rowToRecord row) = b"
  by (simp_all add: rowToRecord_def)

definition sample_deps :: service_deps where
  "sample_deps = \<lparr>sd_connected = True,
     sd_ackCapability = (\<lambda>d. if d = ''pump'' then Some \<lparr>ac_supported = True, ac_responseTopic = None,
        ac_ackIndicatorField = None, ac_ackIndicatorValues = None\<rparr> else None),
     sd_deviceRegistry = None, sd_tracker = True, sd_ackResponseTopicBase = None,
     sd_scopeResolver = None, sd_history = True\<rparr>"

definition sample_exec :: "string \<Rightarrow> string \<Rightarrow> string \<Rightarrow> command_source \<Rightarrow> exec_request" where
  "sample_exec cid corr target src =
     \<lparr>rq_action = \<lparr>an_type = ''device_action'', an_target = target, an_params = [(''actionType'', JStr ''on'')], an_correlation = None\<rparr>,
      rq_source = src, rq_confirm = None, rq_requiredTier = None, rq_intent = None, rq_context = None,
      rq_commandId = cid, rq_correlationId = corr, rq_now = 10\<rparr>"

definition sample_reply :: ack_message where
  "sample_reply = \<lparr>am_correlationId = ''k1'', am_success = Some True, am_error = None, am_status = None,
     am_payload = None, am_state = None\<rparr>"

definition sample_waiting :: service where
  "sample_waiting = fold (service_step sample_deps)
     [SRegister ''device_action'' HDeviceAction None,
      SExecute (sample_exec ''c1'' ''k1'' ''pump'' (SrcRest None)), SHandled 0 (Returned None) 11] service_init"

definition sample_service :: service where
  "sample_service = fold (service_step sample_deps) [SRoute sample_reply 12, SResume 0 14] sample_waiting"

lemmas start_evals = execute_start_def accept_call_def start_dispatch_def begin_dispatch_def registerHandler_def
  isVerifiedPhysicalAction_def checkScope_def selectRequiredTier_def resolveEffectiveTier_def observed_device_def
  confirm_timeout_def requested_record_def requested_evidence_def resolveEvidenceIdentity_def pending_of_def
  sanitiseCommandIntent_def ackResponseTopicBase_def js_set_add_def js_truthy_def Let_def

lemmas history_evals = history_create_def json_column_def json_stringify_def evidence_json_def buildCommandEvidence_def
  unique_ok_def recordToRow_def insert_transition_def emitRecorded_def recordTransition_def history_transition_def
  find_row_def update_row_def apply_transition_def sql_bool_def describeRung_def

lemmas finish_evals = execute_dispatched_def dispatch_accepted_def execute_resolved_def finish_call_def
  return_result_def withId_def resolution_evidence_def tracker_call_def persist_events_def

lemmas sample_evals = sample_exec_def sample_deps_def sample_reply_def service_init_def command_db_init_def tracker_init_def

lemma sample_waiting_calls:
  "service_ok (SExecute (sample_exec ''c1'' ''k1'' ''pump'' (SrcRest None)))
     (service_step sample_deps (SRegister ''device_action'' HDeviceAction None) service_init)"
  "map_of (sv_calls sample_waiting) 0 \<noteq> None" "sv_results sample_waiting = []"
  "map (\<lambda>p. (fst p, cl_phase (snd p), cl_promise (snd p))) (sv_calls sample_waiting) = [(0, Waiting None, Some 0)]"
  by (simp_all add: sample_waiting_def sample_evals start_evals history_evals finish_evals tracker_register_def
      tracker_has_def jm_has_def del: json_text.simps)

lemma sample_waiting_reach: "reach (service_step sample_deps) service_ok service_init sample_waiting"
  unfolding sample_waiting_def fold_simps by (intro reach_step reach_init sample_waiting_calls(1)) simp_all

lemma sample_service_reach: "reach (service_step sample_deps) service_ok service_init sample_service"
  unfolding sample_service_def fold_simps by (intro reach_step sample_waiting_reach) simp_all

lemma sample_service_results:
  "map (\<lambda>p. (fst p, fst (snd p), ar_success (snd (snd p)), ar_lifecycleState (snd (snd p)))) (sv_results sample_service)
      = [(0, Some ''c1'', True, Some ACKNOWLEDGED)]"
  by (simp add: sample_service_def sample_waiting_def sample_evals start_evals history_evals finish_evals
      tracker_register_def tracker_route_def isAcknowledgement_def tracker_finalize_def settle_entry_def
      settle_promise_def jm_has_def mk_resolution_def del: json_text.simps)



section \<open>No call waits for ever\<close>

lemma tracker_call_frame [simp]:
  "sv_calls (tracker_call a s) = sv_calls s" "sv_results (tracker_call a s) = sv_results s"
  "sv_tracker (tracker_call a s) = tracker_step a (sv_tracker s)" "sv_effects (tracker_call a s) = sv_effects s"
  by (simp_all add: tracker_call_def Let_def)

text \<open>
  C5. Every call comes back. When the handler settles, a call without a tracker promise returns,
  and any other call returns or waits; a waiting call returns after its timer has fired, whatever
  messages did or did not arrive. In each case the call is no longer in flight and exactly one
  result has been added, the one for this call.
\<close>

theorem every_call_returns:
  assumes "reach (service_step deps) service_ok service_init s" and "map_of (sv_calls s) i = Some c"
  shows "(cl_phase c = Dispatching \<longrightarrow>
      (let s' = service_step deps (SHandled i outcome now) s
       in (map_of (sv_calls s') i = None \<and> (\<exists>r. sv_results s' = sv_results s @ [(i, cl_commandId c, r)]))
          \<or> cl_promise c \<noteq> None \<and> (\<exists>data. map_of (sv_calls s') i = Some (c\<lparr>cl_phase := Waiting data\<rparr>))))
    \<and> (cl_phase c \<noteq> Dispatching \<longrightarrow>
      (\<exists>h. cl_promise c = Some h \<and>
        (let s' = service_step deps (SResume i now) (service_step deps (STimer h) s)
         in map_of (sv_calls s') i = None \<and> (\<exists>r. sv_results s' = sv_results s @ [(i, cl_commandId c, r)]))))"
proof (intro conjI impI)
  note inv = service.reach_inv [OF assms(1)]
  note tki = service_invD(2) [OF inv] and trk = calls_okD(2) [OF service_invD(5) [OF inv] assms(2)]
  show "let s' = service_step deps (SHandled i outcome now) s
       in (map_of (sv_calls s') i = None \<and> (\<exists>r. sv_results s' = sv_results s @ [(i, cl_commandId c, r)]))
          \<or> cl_promise c \<noteq> None \<and> (\<exists>data. map_of (sv_calls s') i = Some (c\<lparr>cl_phase := Waiting data\<rparr>))"
    if "cl_phase c = Dispatching"
    using that assms(2)
    by (auto simp: Let_def execute_dispatched_def fail_dispatch_def dispatch_accepted_def finish_call_def return_result_def
        split: handler_outcome.splits option.splits)
  assume ph: "cl_phase c \<noteq> Dispatching"
  then obtain data where data: "cl_phase c = Waiting data" by (cases "cl_phase c") auto
  from ph trk obtain h where h: "cl_promise c = Some h" by (cases "cl_promise c") (auto simp: call_tracked_def)
  have "\<exists>r. map_of (tk_settled (timer_fires h (sv_tracker s))) h = Some r"
  proof -
    from trk h obtain k where "(\<exists>r. map_of (tk_settled (sv_tracker s)) h = Some r)
        \<or> (\<exists>e. map_of (tk_pending (sv_tracker s)) k = Some e \<and> te_resolve e = h)" by (auto simp: call_tracked_def)
    then show ?thesis
    proof (elim disjE exE conjE)
      fix r assume "map_of (tk_settled (sv_tracker s)) h = Some r"
      then show ?thesis using timer_evolves [OF tki, of h] by (auto simp: tracker_evolves_def)
    next
      fix e assume e: "map_of (tk_pending (sv_tracker s)) k = Some e" "te_resolve e = h"
      have ok: "entry_ok k e" by (rule tracker_inv_pending(1) [OF tki e(1)])
      then have t: "timer_fires h (sv_tracker s) = settle_entry e (mk_resolution TIMED_OUT False None) (sv_tracker s)"
        using timer_fires_eq [OF tki e(1)] e(2) by (simp add: entry_ok_def)
      have "pc_correlationId (te_command e) = k" using ok by (simp add: entry_ok_def)
      from settle_entry_maps(2) [OF tki e(1) this refl] show ?thesis by (simp add: t e(2))
    qed
  qed
  then show "\<exists>h. cl_promise c = Some h \<and>
        (let s' = service_step deps (SResume i now) (service_step deps (STimer h) s)
         in map_of (sv_calls s') i = None \<and> (\<exists>r. sv_results s' = sv_results s @ [(i, cl_commandId c, r)]))"
    using h data assms(2) by (auto simp: Let_def execute_resolved_def finish_call_def return_result_def)
qed

theorem every_call_returns_witness:
  "\<exists>c h. map_of (sv_calls sample_waiting) 0 = Some c \<and> cl_promise c = Some h
    \<and> map_of (sv_calls (service_step sample_deps (SResume 0 20) (service_step sample_deps (STimer h) sample_waiting))) 0 = None"
proof -
  obtain c where c: "map_of (sv_calls sample_waiting) 0 = Some c" using sample_waiting_calls(2) by blast
  then have "(0, cl_phase c, cl_promise c) \<in> set (map (\<lambda>p. (fst p, cl_phase (snd p), cl_promise (snd p))) (sv_calls sample_waiting))"
    by (force dest: map_of_SomeD)
  then have "cl_phase c \<noteq> Dispatching" unfolding sample_waiting_calls(4) by simp
  from every_call_returns [OF sample_waiting_reach c, THEN conjunct2, THEN mp, OF this, of 20] c
  show ?thesis unfolding Let_def by blast
qed

section \<open>Authority of an automation\<close>

definition effects_scoped :: "service_deps \<Rightarrow> service \<Rightarrow> bool" where
  "effects_scoped deps s \<longleftrightarrow> (\<forall>(src, a, eff) \<in> set (sv_effects s). checkScope deps a src = None)"

lemma checkScope_correlation: "checkScope deps (a\<lparr>an_correlation := x\<rparr>) src = checkScope deps a src"
  by (cases src) (simp_all add: checkScope_def split: option.split authorization_scope.split)

lemma accept_call_scope:
  "accept_call deps rq s = (ceil, ack, cl) \<Longrightarrow>
    cl_source cl = rq_source rq \<and> checkScope deps (cl_action cl) src = checkScope deps (rq_action rq) src"
  by (auto simp: accept_call_def Let_def checkScope_correlation)

lemma start_dispatch_effects:
  "\<exists>evs. sv_effects (start_dispatch deps rq h cl s) = sv_effects s @ evs
    \<and> (\<forall>e \<in> set evs. fst e = cl_source cl \<and> fst (snd e) = cl_action cl)"
  by (auto simp: start_dispatch_def Let_def begin_dispatch_def return_now_def return_result_def split: prod.splits)

lemma start_scoped:
  assumes "effects_scoped deps s" shows "effects_scoped deps (execute_start deps rq s)"
proof -
  obtain ceil ack cl where acc: "accept_call deps rq s = (ceil, ack, cl)" by (metis prod_cases3)
  have go: "effects_scoped deps (start_dispatch deps rq h cl s')"
    if "sv_effects s' = sv_effects s" "checkScope deps (rq_action rq) (rq_source rq) = None" for h s'
    using start_dispatch_effects [of deps rq h cl s'] accept_call_scope [OF acc] that assms
    by (fastforce simp: effects_scoped_def)
  have "effects_scoped deps (return_now c r s)" for c r
    using assms by (simp add: effects_scoped_def return_now_def return_result_def)
  then show ?thesis using go by (auto simp: execute_start_def acc Let_def split: option.splits sum.splits)
qed

interpretation scoped: invariant_machine "service_step deps" service_ok service_init "effects_scoped deps" for deps
proof
  show "effects_scoped deps service_init" by (simp add: effects_scoped_def service_init_def)
  show "effects_scoped deps (service_step deps a s)" if "effects_scoped deps s" "service_ok a s" for a s
    using that start_scoped [OF that(1)]
    by (cases a) (auto simp: effects_scoped_def execute_dispatched_def fail_dispatch_def dispatch_accepted_def execute_resolved_def
        finish_call_def return_result_def registerHandler_def unregisterHandler_def Let_def
        split: option.splits call_phase.splits handler_outcome.splits)
qed


definition sensor_registry :: registry where
  "sensor_registry = registry_step (\<lambda>t. rev t)
     (RUpsert ((sample_event ''probe'' ''probe'' [] 1)\<lparr>ne_deviceType := ''sensor''\<rparr>)) (registry_init [])"

lemma sensor_registry_reach: "reach (registry_step (\<lambda>t. rev t)) registry_ok (registry_init []) sensor_registry"
  unfolding sensor_registry_def by (intro reach_step reach_init) (simp_all add: sample_event_def)

definition scoped_deps :: service_deps where
  "scoped_deps = sample_deps\<lparr>sd_scopeResolver := Some (\<lambda>rid. scope_resolve sensor_registry rid sample_auth),
     sd_history := False\<rparr>"

definition scoped_service :: service where
  "scoped_service = service_step scoped_deps (SExecute (sample_exec ''c1'' ''k1'' ''probe'' (SrcAutomation ''r1'')))
     (service_step scoped_deps (SRegister ''device_action'' HDeviceAction None) service_init)"

lemma scoped_service_reach: "reach (service_step scoped_deps) service_ok service_init scoped_service"
proof -
  have ok: "service_ok (SExecute (sample_exec ''c1'' ''k1'' ''probe'' (SrcAutomation ''r1'')))
      (service_step scoped_deps (SRegister ''device_action'' HDeviceAction None) service_init)" by code_simp
  show ?thesis unfolding scoped_service_def by (intro reach_step reach_init ok) simp_all
qed


text \<open>
  The tier a command must prove is always one it can prove. It is the requested tier when the
  device and the caller's options can prove that, and otherwise the highest provable one;
  observation is demanded only with confirmation options, acknowledgement only with a declared
  capability. It never exceeds the capability ceiling. A request can be raised as well as lowered:
  an acknowledgement asked of a device that cannot give one becomes an observation when
  confirmation options are present.
\<close>

lemma effective_tier_provable:
  "(let t = resolveEffectiveTier req (selectRequiredTier conf ack) conf ack
    in (t = TObserved \<longrightarrow> conf) \<and> (t = TAcknowledged \<longrightarrow> ack)
       \<and> tierRank t \<le> tierRank (selectRequiredTier conf ack)
       \<and> (\<forall>q. req = Some q \<longrightarrow> (q = TObserved \<longrightarrow> conf) \<longrightarrow> (q = TAcknowledged \<longrightarrow> ack) \<longrightarrow> t = q)
       \<and> (req = None \<longrightarrow> t = selectRequiredTier conf ack))
   \<and> resolveEffectiveTier (Some TAcknowledged) (selectRequiredTier True False) True False = TObserved"
  by (cases req; cases "the req"; cases conf; cases ack)
    (simp_all add: resolveEffectiveTier_def selectRequiredTier_def Let_def tierRank_def)

end
