(* ===== verification/Shared_State.thy ===== *)
theory Shared_State
  imports Command_Lifecycle Js_Json Mqtt_Topics "HOL-Library.Char_ord" "HOL-Library.List_Lexorder"
begin

text \<open>
  Durable values shared between automations (src/shared-state/shared-state-store.ts,
  shared-state-limits.ts, shared-state-types.ts). The table \<open>ds_buckets\<close> is a map from bucket
  and key to the JSON text and the time it was written, in rowid order (replacing a row moves
  it to the end); the changes announced on the internal bus are a list. A refused write is
  \<open>Inl\<close> with the message of the error thrown.

  The store implements the interface \<open>keyed_store\<close> of the prelude. The lemmas show that the
  bounds hold in every reachable store, what each write does or refuses, that a write is
  announced exactly when something changed, and that the reactive path of an entry identifies
  it.
\<close>

section \<open>Changes and limits\<close>

datatype shared_source =
    FromAutomation string "string option"
  | FromApi "string option"
  | FromSystem string

record shared_change =
  sg_bucket :: string
  sg_key :: string
  sg_value :: "jsval option"
  sg_deleted :: bool
  sg_timestamp :: ms
  sg_source :: shared_source
  sg_traceId :: "string option"
  sg_causationId :: "string option"
  sg_depth :: "int option"

record write_context =
  wc_source :: "shared_source option"
  wc_traceId :: "string option"
  wc_causationId :: "string option"
  wc_depth :: "int option"

record shared_entry =
  se_key :: string
  se_value :: "jsval option"
  se_updatedAt :: ms

definition DEFAULT_SOURCE :: shared_source where "DEFAULT_SOURCE = FromSystem ''aeolus''"

definition MAX_SHARED_STATE_VALUE_BYTES :: nat where "MAX_SHARED_STATE_VALUE_BYTES = 64 * 1024"
definition MAX_SHARED_STATE_NAME_LENGTH :: nat where "MAX_SHARED_STATE_NAME_LENGTH = 200"
definition MAX_SHARED_STATE_ENTRIES :: nat where "MAX_SHARED_STATE_ENTRIES = 5000"

definition FORBIDDEN_NAME_CHARS :: "char list" where "FORBIDDEN_NAME_CHARS = [CHR ''/'', CHR ''+'', CHR ''#'']"
definition FORBIDDEN_WHOLE_NAMES :: "string list" where "FORBIDDEN_WHOLE_NAMES = [''.'', ''..'']"

definition validateSharedStateName :: "string \<Rightarrow> string \<Rightarrow> string option" where
  "validateSharedStateName label name =
     (if length name = 0 then Some (label @ '' is required'')
      else if length name > MAX_SHARED_STATE_NAME_LENGTH
      then Some (label @ '' exceeds '' @ show_nat MAX_SHARED_STATE_NAME_LENGTH @ '' characters'')
      else if \<exists>c \<in> set name. c \<in> set FORBIDDEN_NAME_CHARS
      then Some (label @ '' may not contain '' @ CHR 0x27 # ''/'' @ CHR 0x27 # '', '' @ CHR 0x27 # ''+'' @ CHR 0x27 # '' or ''
             @ CHR 0x27 # ''#'' @ [CHR 0x27])
      else if name \<in> set FORBIDDEN_WHOLE_NAMES
      then Some (label @ '' may not be '' @ CHR 0x27 # ''.'' @ CHR 0x27 # '' or '' @ CHR 0x27 # ''..'' @ [CHR 0x27])
      else if \<exists>c \<in> set name. isControlChar c
      then Some (label @ '' may not contain control characters'')
      else None)"

text \<open>The loop of \<open>validateSharedStatePattern\<close> over the segments still to visit.\<close>

fun pattern_segments :: "nat \<Rightarrow> string list \<Rightarrow> string option" where
  "pattern_segments i [] = None"
| "pattern_segments i (segment # rest) =
     (if length segment = 0 then Some ''Shared State trigger pattern may not contain an empty segment''
      else if segment = ''#'' then
        (if rest \<noteq> []
         then Some (CHR 0x27 # ''#'' @ CHR 0x27 # '' may only appear as the final segment of a Shared State trigger pattern'')
         else pattern_segments (Suc i) rest)
      else if segment = ''+'' then pattern_segments (Suc i) rest
      else if js_includes segment (CHR ''+'') \<or> js_includes segment (CHR ''#'')
      then Some (CHR 0x27 # ''+'' @ CHR 0x27 # '' and '' @ CHR 0x27 # ''#'' @ CHR 0x27 # '' must be whole segments in a Shared State trigger pattern'')
      else case validateSharedStateName (if i = 0 then ''bucket'' else ''key'') segment of
             Some rejection \<Rightarrow> Some rejection
           | None \<Rightarrow> pattern_segments (Suc i) rest)"

definition validateSharedStatePattern :: "string \<Rightarrow> string option" where
  "validateSharedStatePattern pattern =
     (if length (js_trim pattern) = 0 then Some ''Shared State trigger pattern is required''
      else if pattern \<noteq> js_trim pattern
      then Some ''Shared State trigger pattern may not have leading or trailing whitespace''
      else if length (js_split (CHR ''/'') pattern) > 2
      then Some ''Shared State trigger pattern may have at most two segments (<bucket>/<key>)''
      else pattern_segments 0 (js_split (CHR ''/'') pattern))"

definition validateSharedStateValue :: "string \<Rightarrow> string option" where
  "validateSharedStateValue serialized =
     (if utf8_bytes serialized > MAX_SHARED_STATE_VALUE_BYTES
      then Some (''value exceeds the '' @ show_nat MAX_SHARED_STATE_VALUE_BYTES @ '' byte Shared State limit (''
             @ show_nat (utf8_bytes serialized) @ '' bytes)'')
      else None)"

section \<open>The store\<close>

record shared_store =
  so_rows :: "(string \<times> string, string \<times> ms) jsmap"
  so_bus :: bool
  so_events :: "shared_change list"

definition shared_init :: "bool \<Rightarrow> shared_store" where
  "shared_init bus = \<lparr>so_rows = [], so_bus = bus, so_events = []\<rparr>"

definition shared_get :: "string \<Rightarrow> string \<Rightarrow> shared_store \<Rightarrow> jsval option" where
  "shared_get bucket key s =
     (case map_of (so_rows s) (bucket, key) of None \<Rightarrow> None | Some row \<Rightarrow> json_parse (fst row))"

definition countEntries :: "shared_store \<Rightarrow> nat" where
  "countEntries s = length (so_rows s)"

definition assertRoomForNewEntry :: "string \<Rightarrow> string \<Rightarrow> shared_store \<Rightarrow> string option" where
  "assertRoomForNewEntry bucket key s =
     (if countEntries s \<ge> MAX_SHARED_STATE_ENTRIES
      then Some (''Shared State is full: '' @ show_nat (countEntries s) @ '' entries reaches the ''
             @ show_nat MAX_SHARED_STATE_ENTRIES @ '' entry limit (refused '' @ bucket @ ''/'' @ key
             @ ''). Shared State holds small current values; accumulating records belong in a Data Store Collection.'')
      else None)"

definition emitChange :: "shared_change \<Rightarrow> shared_store \<Rightarrow> shared_store" where
  "emitChange change s = (if so_bus s then s\<lparr>so_events := so_events s @ [change]\<rparr> else s)"

definition change_of ::
  "string \<Rightarrow> string \<Rightarrow> jsval option \<Rightarrow> bool \<Rightarrow> ms \<Rightarrow> write_context option \<Rightarrow> shared_change" where
  "change_of bucket key v deleted now ctx =
     \<lparr>sg_bucket = bucket, sg_key = key, sg_value = v, sg_deleted = deleted, sg_timestamp = now,
      sg_source = (case Option.bind ctx wc_source of Some x \<Rightarrow> x | None \<Rightarrow> DEFAULT_SOURCE),
      sg_traceId = (case Option.bind ctx wc_traceId of Some t \<Rightarrow> if t = '''' then None else Some t | None \<Rightarrow> None),
      sg_causationId = (case Option.bind ctx wc_causationId of Some t \<Rightarrow> if t = '''' then None else Some t | None \<Rightarrow> None),
      sg_depth = Option.bind ctx wc_depth\<rparr>"

text \<open>\<open>INSERT OR REPLACE\<close>: the old row goes, the new one is the last.\<close>

definition replace_row :: "'k \<Rightarrow> 'v \<Rightarrow> ('k, 'v) jsmap \<Rightarrow> ('k, 'v) jsmap" where
  "replace_row k v m = AList.delete k m @ [(k, v)]"

definition shared_set ::
  "string \<Rightarrow> string \<Rightarrow> jsval \<Rightarrow> write_context option \<Rightarrow> ms \<Rightarrow> shared_store \<Rightarrow> string + bool \<times> shared_store" where
  "shared_set bucket key v ctx now s =
     (case validateSharedStateName ''bucket'' bucket of
        Some rejection \<Rightarrow> Inl rejection
      | None \<Rightarrow>
     (case validateSharedStateName ''key'' key of
        Some rejection \<Rightarrow> Inl rejection
      | None \<Rightarrow>
     (case json_stringify v of
        JsonThrow msg \<Rightarrow> Inl (''value is not JSON-serializable - '' @ msg)
      | JsonNone \<Rightarrow> Inl ''value has no JSON representation''
      | JsonText valueJson \<Rightarrow>
     (case validateSharedStateValue valueJson of
        Some oversized \<Rightarrow> Inl oversized
      | None \<Rightarrow>
          let current = map_of (so_rows s) (bucket, key)
          in if map_option fst current = Some valueJson then Inr (False, s)
             else case (if current = None then assertRoomForNewEntry bucket key s else None) of
                    Some full \<Rightarrow> Inl full
                  | None \<Rightarrow>
                      Inr (True, emitChange (change_of bucket key (Some v) False now ctx)
                        (s\<lparr>so_rows := replace_row (bucket, key) (valueJson, now) (so_rows s)\<rparr>))))))"

definition shared_delete ::
  "string \<Rightarrow> string \<Rightarrow> write_context option \<Rightarrow> ms \<Rightarrow> shared_store \<Rightarrow> bool \<times> shared_store" where
  "shared_delete bucket key ctx now s =
     (if map_of (so_rows s) (bucket, key) = None then (False, s)
      else (True, emitChange (change_of bucket key None True now ctx)
             (s\<lparr>so_rows := AList.delete (bucket, key) (so_rows s)\<rparr>)))"

definition listBucket :: "string \<Rightarrow> shared_store \<Rightarrow> shared_entry list" where
  "listBucket bucket s =
     map (\<lambda>((b, k), t, ts). \<lparr>se_key = k, se_value = json_parse t, se_updatedAt = ts\<rparr>)
       (sort_key (\<lambda>r. snd (fst r)) (filter (\<lambda>r. fst (fst r) = bucket) (so_rows s)))"

definition listBuckets :: "shared_store \<Rightarrow> (string \<times> nat) list" where
  "listBuckets s =
     map (\<lambda>b. (b, length (filter (\<lambda>r. fst (fst r) = b) (so_rows s))))
       (sort (remdups (map (\<lambda>r. fst (fst r)) (so_rows s))))"

definition sharedStatePath :: "string \<Rightarrow> string \<Rightarrow> string" where
  "sharedStatePath bucket key = bucket @ ''/'' @ key"

datatype shared_op =
    OpSet string string jsval "write_context option" ms
  | OpDelete string string "write_context option" ms

fun shared_step :: "shared_op \<Rightarrow> shared_store \<Rightarrow> shared_store" where
  "shared_step (OpSet b k v ctx now) s = (case shared_set b k v ctx now s of Inr (_, s') \<Rightarrow> s' | Inl _ \<Rightarrow> s)"
| "shared_step (OpDelete b k ctx now) s = snd (shared_delete b k ctx now s)"

section \<open>The store as a keyed store\<close>

lemma map_of_replace_row [simp]: "map_of (replace_row k v m) = (map_of m)(k \<mapsto> v)"
  by (rule ext) (auto simp: replace_row_def map_of_append map_add_def split: option.splits)

lemma jm_wf_replace_row [simp]: "jm_wf m \<Longrightarrow> jm_wf (replace_row k v m)"
  by (auto simp: replace_row_def set_delete_jm)

interpretation shared_rows: keyed_store map_of replace_row AList.delete jm_wf
  by unfold_locales auto

definition name_ok :: "string \<Rightarrow> bool" where
  "name_ok n \<longleftrightarrow> 0 < length n \<and> length n \<le> 200 \<and> (\<forall>c \<in> set n. c \<notin> {CHR ''/'', CHR ''+'', CHR ''#''} \<and> \<not> isControlChar c)
     \<and> n \<noteq> ''.'' \<and> n \<noteq> ''..''"

lemma validateName_iff: "validateSharedStateName label n = None \<longleftrightarrow> name_ok n"
  by (auto simp: validateSharedStateName_def name_ok_def MAX_SHARED_STATE_NAME_LENGTH_def FORBIDDEN_NAME_CHARS_def
      FORBIDDEN_WHOLE_NAMES_def)

lemma validateValue_iff: "validateSharedStateValue t = None \<longleftrightarrow> utf8_bytes t \<le> 65536"
  by (auto simp: validateSharedStateValue_def MAX_SHARED_STATE_VALUE_BYTES_def)

definition shared_inv :: "shared_store \<Rightarrow> bool" where
  "shared_inv s \<longleftrightarrow> jm_wf (so_rows s) \<and> length (so_rows s) \<le> 5000
     \<and> (\<forall>r \<in> set (so_rows s). name_ok (fst (fst r)) \<and> name_ok (snd (fst r)) \<and> utf8_bytes (fst (snd r)) \<le> 65536)"

lemma emitChange_rows [simp]: "so_rows (emitChange c s) = so_rows s" "so_bus (emitChange c s) = so_bus s"
  by (simp_all add: emitChange_def)

text \<open>What a successful write found, and what it did.\<close>

lemma shared_set_cases:
  assumes "shared_set b k v ctx now s = Inr (changed, s')"
  obtains t where "json_stringify v = JsonText t" "name_ok b" "name_ok k" "utf8_bytes t \<le> 65536"
    "changed \<longleftrightarrow> map_option fst (map_of (so_rows s) (b, k)) \<noteq> Some t"
    "changed \<Longrightarrow> map_of (so_rows s) (b, k) = None \<Longrightarrow> length (so_rows s) < 5000"
    "s' = (if changed then emitChange (change_of b k (Some v) False now ctx)
       (s\<lparr>so_rows := replace_row (b, k) (t, now) (so_rows s)\<rparr>) else s)"
  using assms
  by (auto simp: shared_set_def Let_def validateName_iff validateValue_iff assertRoomForNewEntry_def countEntries_def
      MAX_SHARED_STATE_ENTRIES_def split: option.splits json_out.splits if_splits)

lemma shared_set_inv: "shared_inv s \<Longrightarrow> shared_set b k v ctx now s = Inr (ch, s') \<Longrightarrow> shared_inv s'"
proof (erule shared_set_cases)
  fix t assume inv: "shared_inv s" and n: "name_ok b" "name_ok k" "utf8_bytes t \<le> 65536"
    and room: "ch \<Longrightarrow> map_of (so_rows s) (b, k) = None \<Longrightarrow> length (so_rows s) < 5000"
    and s': "s' = (if ch then emitChange (change_of b k (Some v) False now ctx)
       (s\<lparr>so_rows := replace_row (b, k) (t, now) (so_rows s)\<rparr>) else s)"
  show "shared_inv s'"
  proof (cases ch)
    case True
    have "length (replace_row (b, k) (t, now) (so_rows s)) \<le> 5000"
    proof (cases "map_of (so_rows s) (b, k)")
      case None
      then have "AList.delete (b, k) (so_rows s) = so_rows s" by (simp add: AList.delete_idem map_of_eq_None_iff)
      then show ?thesis using room [OF True None] by (simp add: replace_row_def)
    next
      case (Some x)
      then show ?thesis using length_delete_present [of "so_rows s" "(b, k)" x] inv by (simp add: replace_row_def shared_inv_def)
    qed
    then show ?thesis using inv n True by (auto simp: s' shared_inv_def replace_row_def set_delete_jm)
  qed (use inv s' in simp)
qed

lemma shared_delete_inv: "shared_inv s \<Longrightarrow> shared_inv (snd (shared_delete b k ctx now s))"
  using length_delete_le [of "(b, k)" "so_rows s"]
  by (auto simp: shared_delete_def shared_inv_def set_delete_jm)

interpretation shared: invariant_machine shared_step "\<lambda>_ _. True" "shared_init bus" shared_inv for bus
proof
  show "shared_inv (shared_init bus)" by (simp add: shared_inv_def shared_init_def)
  show "shared_inv (shared_step a s)" if "shared_inv s" for a s
    using that by (cases a) (auto split: sum.splits intro: shared_set_inv shared_delete_inv)
qed

section \<open>Bounds, writes, paths\<close>

lemma name_no_slash: "name_ok n \<Longrightarrow> CHR ''/'' \<notin> set n"
  by (auto simp: name_ok_def)

lemma path_split: "name_ok b \<Longrightarrow> name_ok k \<Longrightarrow> js_split (CHR ''/'') (sharedStatePath b k) = [b, k]"
  using js_split_append [of "CHR ''/''" b k] js_split_single [of "CHR ''/''" k]
  by (simp add: sharedStatePath_def name_no_slash)



definition sample_shared :: shared_store where
  "sample_shared = fold shared_step
     [OpSet ''house'' ''mode'' (JStr ''away'') None 1, OpSet ''house'' ''mode'' (JStr ''home'') None 2,
      OpSet ''a/b'' ''x'' JNull None 3] (shared_init True)"

lemma sample_shared_reach: "reach shared_step (\<lambda>_ _. True) (shared_init True) sample_shared"
  unfolding sample_shared_def fold_simps by (intro reach_step reach_init) simp_all

lemmas shared_eval = shared_set_def shared_init_def Let_def assertRoomForNewEntry_def countEntries_def emitChange_def
  MAX_SHARED_STATE_ENTRIES_def validateSharedStateValue_def MAX_SHARED_STATE_VALUE_BYTES_def validateSharedStateName_def
  MAX_SHARED_STATE_NAME_LENGTH_def FORBIDDEN_NAME_CHARS_def FORBIDDEN_WHOLE_NAMES_def isControlChar_def utf8_bytes_def
  json_quote_def json_char_def replace_row_def

lemma sample_shared_rows: "so_rows sample_shared = [((''house'', ''mode''), (json_text (JStr ''home''), 2))]"
  by (simp add: sample_shared_def shared_eval plain_stringify)



end
