(* ===== verification/Outbound_Http.thy ===== *)
theory Outbound_Http
  imports Command_Lifecycle Js_Json Mqtt_Topics "HOL-Library.Sublist"
begin

text \<open>
  The policy for authored outbound HTTP (src/security/outbound-http.ts): which addresses are
  public, the validation of a URL and of every DNS answer, the bounded reading of a response,
  and the request that puts them together. The WHATWG URL parser, the DNS lookup, \<open>fetch\<close>
  and the UTF-8 decoder are parameters. Addresses are unbounded integers, as the \<open>bigint\<close>s of
  the source. A rejection is \<open>Inl\<close>.

  The lemmas compare the classification with the numeric ranges it stands for, for IPv4 and for
  full and compressed IPv6 text, and show what a request that was made had to satisfy.
\<close>

unbundle bit_operations_syntax

section \<open>Library functions\<close>

text \<open>\<open>replace(/^\[|\]$/g, "")\<close>\<close>

definition strip_brackets :: "string \<Rightarrow> string" where
  "strip_brackets s =
     (let s1 = (case s of [] \<Rightarrow> [] | c # r \<Rightarrow> if c = CHR 0x5B then r else s)
      in if s1 \<noteq> [] \<and> last s1 = CHR 0x5D then butlast s1 else s1)"

text \<open>
  \<open>Number(part)\<close> of a text of decimal digits with an optional sign, surrounding white space
  ignored, nothing being zero. The parts of an address that \<open>isIP\<close> accepts are digits.
\<close>

definition js_Number :: "string \<Rightarrow> int option" where
  "js_Number s =
     (let t = js_trim s;
          u = (if t \<noteq> [] \<and> hd t \<in> {CHR ''+'', CHR ''-''} then tl t else t)
      in if t = [] then Some 0
         else if u \<noteq> [] \<and> list_all is_digit u
         then Some (if hd t = CHR ''-'' then - int (nat_of_digits u) else int (nat_of_digits u))
         else None)"

text \<open>\<open>s.split("::")\<close>\<close>

fun split_dcolon :: "string \<Rightarrow> string list" where
  "split_dcolon [] = [[]]"
| "split_dcolon [c] = [[c]]"
| "split_dcolon (c # d # s) =
     (if c = CHR '':'' \<and> d = CHR '':'' then [] # split_dcolon s
      else case split_dcolon (d # s) of [] \<Rightarrow> [[c]] | w # ws \<Rightarrow> (c # w) # ws)"

definition hex_value :: "char \<Rightarrow> nat option" where
  "hex_value c = (let n = of_char c :: nat
     in if 48 \<le> n \<and> n \<le> 57 then Some (n - 48) else if 97 \<le> n \<and> n \<le> 102 then Some (n - 87) else None)"

text \<open>\<open>/^[0-9a-f]{1,4}$/\<close> and \<open>parseInt(part, 16)\<close>\<close>

definition hextet :: "string \<Rightarrow> bool" where
  "hextet p \<longleftrightarrow> p \<noteq> [] \<and> length p \<le> 4 \<and> list_all (\<lambda>c. hex_value c \<noteq> None) p"

definition parse_hex :: "string \<Rightarrow> int" where
  "parse_hex p = fold (\<lambda>c v. 16 * v + (case hex_value c of Some d \<Rightarrow> int d | None \<Rightarrow> 0)) p 0"

text \<open>
  \<open>isIP\<close> of node:net: 4 for dotted decimals without leading zeros, 6 for eight groups of hex
  digits, one run of at least one zero group being \<open>::\<close>, the last two groups possibly dotted,
  with an optional zone.
\<close>

definition ipv4_part :: "string \<Rightarrow> bool" where
  "ipv4_part p \<longleftrightarrow> p \<noteq> [] \<and> list_all is_digit p \<and> length p \<le> 3 \<and> (length p > 1 \<longrightarrow> hd p \<noteq> CHR ''0'')
     \<and> nat_of_digits p \<le> 255"

definition is_ipv4 :: "string \<Rightarrow> bool" where
  "is_ipv4 s \<longleftrightarrow> length (js_split (CHR ''.'') s) = 4 \<and> list_all ipv4_part (js_split (CHR ''.'') s)"

definition colon_parts :: "string \<Rightarrow> string list" where
  "colon_parts h = (if h = [] then [] else js_split (CHR '':'') h)"

definition hex_group :: "string \<Rightarrow> bool" where
  "hex_group p \<longleftrightarrow> hextet (js_toLowerCase p)"

definition ipv6_groups :: "string list \<Rightarrow> nat option" where
  "ipv6_groups ps =
     (if list_all hex_group ps then Some (length ps)
      else if list_all hex_group (butlast ps) \<and> is_ipv4 (last ps) then Some (Suc (length ps)) else None)"

definition is_ipv6 :: "string \<Rightarrow> bool" where
  "is_ipv6 s =
     (let addr = takeWhile (\<lambda>c. c \<noteq> CHR ''%'') s; zone = dropWhile (\<lambda>c. c \<noteq> CHR ''%'') s
      in (zone = [] \<or> length zone > 1 \<and>
            list_all (\<lambda>c. is_digit c \<or> c \<in> {CHR ''-'', CHR ''.'', CHR '':''}
              \<or> 97 \<le> (of_char (lower_char c) :: nat) \<and> (of_char (lower_char c) :: nat) \<le> 122) (tl zone))
         \<and> (case split_dcolon addr of
              [one] \<Rightarrow> one \<noteq> [] \<and> ipv6_groups (js_split (CHR '':'') one) = Some 8
            | [left, right] \<Rightarrow> list_all hex_group (colon_parts left) \<and>
                (case ipv6_groups (colon_parts right) of
                   Some n \<Rightarrow> length (colon_parts left) + n \<le> 7
                 | None \<Rightarrow> False)
            | _ \<Rightarrow> False))"

definition isIP :: "string \<Rightarrow> nat" where
  "isIP s = (if is_ipv4 s then 4 else if is_ipv6 s then 6 else 0)"

section \<open>Public addresses\<close>

definition parseIpv4 :: "string \<Rightarrow> int list option" where
  "parseIpv4 address =
     (let parts = js_split (CHR ''.'') address
      in if length parts \<noteq> 4 then None
         else let numbers = map js_Number parts
              in if \<exists>n \<in> set numbers. case n of None \<Rightarrow> True | Some part \<Rightarrow> part < 0 \<or> part > 255 then None
                 else Some (map the numbers))"

definition isPublicIpv4 :: "string \<Rightarrow> bool" where
  "isPublicIpv4 address =
     (case parseIpv4 address of
        None \<Rightarrow> False
      | Some octets \<Rightarrow>
          let a = octets ! 0; b = octets ! 1; c = octets ! 2
          in if a = 0 \<or> a = 10 \<or> a = 127 then False
             else if a = 100 \<and> b \<ge> 64 \<and> b \<le> 127 then False
             else if a = 169 \<and> b = 254 then False
             else if a = 172 \<and> b \<ge> 16 \<and> b \<le> 31 then False
             else if a = 192 \<and> b = 168 then False
             else if a = 192 \<and> b = 0 \<and> c = 0 then False
             else if a = 192 \<and> b = 0 \<and> c = 2 then False
             else if a = 198 \<and> (b = 18 \<or> b = 19) then False
             else if a = 198 \<and> b = 51 \<and> c = 100 then False
             else if a = 203 \<and> b = 0 \<and> c = 113 then False
             else if a \<ge> 224 then False
             else True)"

definition normalize_address :: "string \<Rightarrow> string" where
  "normalize_address address = takeWhile (\<lambda>c. c \<noteq> CHR ''%'') (strip_brackets (js_toLowerCase address))"

text \<open>The loop over the eight parts.\<close>

fun ipv6_value :: "string list \<Rightarrow> int \<Rightarrow> int option" where
  "ipv6_value [] v = Some v"
| "ipv6_value (part # parts) v =
     (if \<not> hextet part then None else ipv6_value parts (push_bit 16 v OR parse_hex part))"

definition parseIpv6BigInt :: "string \<Rightarrow> int option" where
  "parseIpv6BigInt address =
     (let normalized = normalize_address address
      in if js_includes normalized (CHR ''.'') then None
         else let halves = split_dcolon normalized
              in if length halves > 2 then None
                 else let left = colon_parts (halves ! 0);
                          right = (if length halves = 2 then colon_parts (halves ! 1) else []);
                          missing = 8 - int (length left) - int (length right)
                      in if length halves = 1 \<and> missing \<noteq> 0 \<or> length halves = 2 \<and> missing < 1 then None
                         else let parts = (if length halves = 2 then left @ replicate (nat missing) ''0'' @ right else left)
                              in if length parts \<noteq> 8 then None else ipv6_value parts 0)"

definition ipv6InCidr :: "int \<Rightarrow> int \<Rightarrow> nat \<Rightarrow> bool" where
  "ipv6InCidr v base prefixBits = (drop_bit (128 - prefixBits) v = drop_bit (128 - prefixBits) base)"

text \<open>
  \<open>match(/::ffff:(\d+\.\d+\.\d+\.\d+)$/)\<close>: the group has no colon, so it is the last
  colon-separated field.
\<close>

definition mapped_ipv4 :: "string \<Rightarrow> string option" where
  "mapped_ipv4 s =
     (let w = last (js_split (CHR '':'') s); ps = js_split (CHR ''.'') w
      in if suffix (''::ffff:'' @ w) s \<and> length ps = 4 \<and> list_all (\<lambda>p. p \<noteq> [] \<and> list_all is_digit p) ps
         then Some w else None)"

definition globalBase :: int where "globalBase = 0x20000000000000000000000000000000"

definition blocked :: "(int \<times> nat) list" where
  "blocked =
     [(0x20010000000000000000000000000000, 23),
      (0x20010db8000000000000000000000000, 32),
      (0x20020000000000000000000000000000, 16),
      (0x3fff0000000000000000000000000000, 20)]"

definition isPublicIpv6 :: "string \<Rightarrow> bool" where
  "isPublicIpv6 address =
     (let normalized = normalize_address address
      in case mapped_ipv4 normalized of
           Some mapped \<Rightarrow> isPublicIpv4 mapped
         | None \<Rightarrow>
             (case parseIpv6BigInt normalized of
                None \<Rightarrow> False
              | Some v \<Rightarrow>
                  if \<not> ipv6InCidr v globalBase 3 then False
                  else \<not> (\<exists>(base, prefix) \<in> set blocked. ipv6InCidr v base prefix)))"

definition isPublicIpAddress :: "string \<Rightarrow> bool" where
  "isPublicIpAddress address =
     (let family = isIP (strip_brackets address)
      in if family = 4 then isPublicIpv4 address
         else if family = 6 then isPublicIpv6 address else False)"

section \<open>Requests\<close>

definition OUTBOUND_HTTP_TIMEOUT_MS :: ms where "OUTBOUND_HTTP_TIMEOUT_MS = 10000"
definition OUTBOUND_HTTP_MAX_REQUEST_BYTES :: nat where "OUTBOUND_HTTP_MAX_REQUEST_BYTES = 256 * 1024"
definition OUTBOUND_HTTP_MAX_RESPONSE_BYTES :: nat where "OUTBOUND_HTTP_MAX_RESPONSE_BYTES = 1024 * 1024"

datatype outbound_error =
    OutboundHttpPolicyError string
  | OtherError string

text \<open>What the policy reads of a parsed \<open>URL\<close>.\<close>

record url =
  url_href :: string
  url_protocol :: string
  url_username :: string
  url_password :: string
  url_hostname :: string

record resolved_address =
  ra_address :: string
  ra_family :: nat

type_synonym outbound_lookup = "string \<Rightarrow> string + resolved_address list"

definition validatePublicHttpUrl :: "(string \<Rightarrow> url option) \<Rightarrow> outbound_lookup \<Rightarrow> string \<Rightarrow> outbound_error + url" where
  "validatePublicHttpUrl new_URL lookup rawUrl =
     (case new_URL rawUrl of
        None \<Rightarrow> Inl (OutboundHttpPolicyError ''Invalid outbound URL'')
      | Some url \<Rightarrow>
          if url_protocol url \<noteq> ''http:'' \<and> url_protocol url \<noteq> ''https:''
          then Inl (OutboundHttpPolicyError ''Only public HTTP and HTTPS URLs are allowed'')
          else if url_username url \<noteq> '''' \<or> url_password url \<noteq> ''''
          then Inl (OutboundHttpPolicyError ''Credentials in outbound URLs are not allowed'')
          else let hostname = strip_brackets (url_hostname url)
               in if hostname = '''' then Inl (OutboundHttpPolicyError ''Outbound URL has no hostname'')
                  else if isIP hostname \<noteq> 0
                  then (if \<not> isPublicIpAddress hostname
                        then Inl (OutboundHttpPolicyError ''Private, local, link-local, or reserved destinations are blocked'')
                        else Inr url)
                  else (case lookup hostname of
                          Inl msg \<Rightarrow> Inl (OutboundHttpPolicyError (''DNS lookup failed for outbound host: '' @ msg))
                        | Inr answers \<Rightarrow>
                            if length answers = 0
                            then Inl (OutboundHttpPolicyError ''Outbound hostname did not resolve'')
                            else if \<exists>answer \<in> set answers. \<not> isPublicIpAddress (ra_address answer)
                            then Inl (OutboundHttpPolicyError
                                   ''Outbound hostname resolves to a private, local, link-local, or reserved address'')
                            else Inr url))"

text \<open>
  The reads of a response body, in order; the end of the list is \<open>done\<close>. A read gives a chunk of
  bytes, gives no value, or rejects.
\<close>

datatype body_read = Chunk "nat list" | NoValue | ReadFails string

text \<open>
  The loop of \<open>readBodyLimited\<close>. It returns the bytes handed to the decoder, in order; decoding
  them as a stream is decoding their concatenation. The flag tells whether the reader was
  cancelled.
\<close>

fun read_loop :: "nat \<Rightarrow> nat \<Rightarrow> nat list \<Rightarrow> body_read list \<Rightarrow> (outbound_error + nat list) \<times> bool" where
  "read_loop maxBytes bytes body [] = (Inr body, False)"
| "read_loop maxBytes bytes body (NoValue # reads) = read_loop maxBytes bytes body reads"
| "read_loop maxBytes bytes body (ReadFails msg # reads) = (Inl (OtherError msg), False)"
| "read_loop maxBytes bytes body (Chunk value # reads) =
     (if bytes + length value > maxBytes
      then (Inl (OutboundHttpPolicyError (''Outbound response exceeds '' @ show_nat maxBytes @ '' bytes'')), True)
      else read_loop maxBytes (bytes + length value) (body @ value) reads)"

record http_response =
  hr_status :: nat
  hr_statusText :: string
  hr_headers :: "(string, string) jsmap"
  hr_body :: "body_read list option"

definition readBodyLimited ::
  "(nat list \<Rightarrow> string) \<Rightarrow> http_response \<Rightarrow> nat \<Rightarrow> (outbound_error + string) \<times> bool" where
  "readBodyLimited decode response maxBytes =
     (case hr_body response of
        None \<Rightarrow> (Inr '''', False)
      | Some reads \<Rightarrow>
          (case read_loop maxBytes 0 [] reads of
             (Inl e, cancelled) \<Rightarrow> (Inl e, cancelled)
           | (Inr bytes, cancelled) \<Rightarrow> (Inr (decode bytes), cancelled)))"

datatype redirect_mode = RedirectManual | RedirectFollow

text \<open>What \<open>fetch\<close> is called with; the signal is aborted when the timer of that many ms fires.\<close>

record fetch_init =
  fi_method :: string
  fi_headers :: "(string, string) jsmap option"
  fi_body :: "string option"
  fi_abortAfter :: ms
  fi_redirect :: redirect_mode

type_synonym fetch_impl = "url \<Rightarrow> fetch_init \<Rightarrow> string + http_response"

record request_options =
  ro_method :: "string option"
  ro_headers :: "(string, string) jsmap option"
  ro_body :: "string option"
  ro_timeoutMs :: "ms option"
  ro_maxRequestBytes :: "nat option"
  ro_maxResponseBytes :: "nat option"

record public_http_response =
  ph_status :: nat
  ph_statusText :: string
  ph_headers :: "(string, string) jsmap"
  ph_body :: string

text \<open>
  A request leaves the calls of \<open>fetch\<close> it made, the timers still armed, whether the response
  was cancelled, and its outcome. The options \<open>lookup\<close> and \<open>fetchImpl\<close> are arguments.
\<close>

record outbound_run =
  or_fetches :: "(url \<times> fetch_init) list"
  or_timers :: "ms list"
  or_cancelled :: bool
  or_outcome :: "outbound_error + public_http_response"

definition requestPublicHttp ::
  "(string \<Rightarrow> url option) \<Rightarrow> outbound_lookup \<Rightarrow> fetch_impl \<Rightarrow> (nat list \<Rightarrow> string) \<Rightarrow> string \<Rightarrow> request_options \<Rightarrow> outbound_run" where
  "requestPublicHttp new_URL lookup fetchImpl decode rawUrl options =
     (let refused = (\<lambda>e. \<lparr>or_fetches = [], or_timers = [], or_cancelled = False, or_outcome = Inl e\<rparr>)
      in case validatePublicHttpUrl new_URL lookup rawUrl of
           Inl e \<Rightarrow> refused e
         | Inr url \<Rightarrow>
             let body = ro_body options;
                 maxRequestBytes = (case ro_maxRequestBytes options of Some n \<Rightarrow> n | None \<Rightarrow> OUTBOUND_HTTP_MAX_REQUEST_BYTES)
             in if (case body of Some b \<Rightarrow> utf8_bytes b > maxRequestBytes | None \<Rightarrow> False)
                then refused (OutboundHttpPolicyError (''Outbound request body exceeds '' @ show_nat maxRequestBytes @ '' bytes''))
                else
                  let timer = (case ro_timeoutMs options of Some t \<Rightarrow> t | None \<Rightarrow> OUTBOUND_HTTP_TIMEOUT_MS);
                      timers = [timer];
                      init = \<lparr>fi_method = (case ro_method options of Some m \<Rightarrow> m | None \<Rightarrow> ''GET''),
                              fi_headers = ro_headers options, fi_body = body, fi_abortAfter = timer,
                              fi_redirect = RedirectManual\<rparr>;
                      finally = (\<lambda>cancelled outcome. \<lparr>or_fetches = [(url, init)], or_timers = remove1 timer timers,
                                   or_cancelled = cancelled, or_outcome = outcome\<rparr>)
                  in case fetchImpl url init of
                       Inl msg \<Rightarrow> finally False (Inl (OtherError msg))
                     | Inr response \<Rightarrow>
                         (case readBodyLimited decode response
                                 (case ro_maxResponseBytes options of Some n \<Rightarrow> n | None \<Rightarrow> OUTBOUND_HTTP_MAX_RESPONSE_BYTES) of
                            (Inl e, cancelled) \<Rightarrow> finally cancelled (Inl e)
                          | (Inr responseBody, cancelled) \<Rightarrow>
                              finally cancelled (Inr \<lparr>ph_status = hr_status response, ph_statusText = hr_statusText response,
                                ph_headers = hr_headers response, ph_body = responseBody\<rparr>)))"

section \<open>Text of addresses\<close>

definition dotted :: "nat \<Rightarrow> nat \<Rightarrow> nat \<Rightarrow> nat \<Rightarrow> string" where
  "dotted a b c d = js_join ''.'' (map show_nat [a, b, c, d])"

lemma digit_plain: "is_digit c \<Longrightarrow> \<not> isWhitespace c \<and> c \<noteq> CHR ''+'' \<and> c \<noteq> CHR ''-'' \<and> c \<noteq> CHR ''.'' \<and> c \<noteq> CHR '':''"
  by (auto simp: is_digit_def isWhitespace_def)

lemma js_Number_show_nat [simp]: "js_Number (show_nat n) = Some (int n)"
proof -
  have d: "list_all is_digit (show_nat n)" by (simp add: list_all_iff show_nat_digits)
  have "is_digit (hd (show_nat n))" "is_digit (last (show_nat n))"
    by (rule show_nat_digits, rule hd_in_set, simp, rule show_nat_digits, rule last_in_set, simp)
  then show ?thesis using d digit_plain js_trim_id [of "show_nat n"]
    by (auto simp: js_Number_def nat_of_show_nat)
qed

lemma js_Number_show_int: "js_Number (show_int i) = Some i"
proof (cases "i < 0")
  case True
  have d: "list_all is_digit (show_nat (nat (- i)))" using show_nat_digits by (auto simp: list_all_iff)
  then have "is_digit (last (show_nat (nat (- i))))" by (simp add: list_all_iff)
  then have "js_trim (CHR ''-'' # show_nat (nat (- i))) = CHR ''-'' # show_nat (nat (- i))"
    using digit_plain by (intro js_trim_id) (simp_all add: isWhitespace_def)
  then show ?thesis using True d by (simp add: js_Number_def show_int_def nat_of_show_nat)
qed (simp add: show_int_def)

lemma split_dotted: "js_split (CHR ''.'') (dotted a b c d) = map show_nat [a, b, c, d]"
  unfolding dotted_def using show_nat_digits digit_plain by (intro js_split_join) auto

lemma parseIpv4_dotted:
  "parseIpv4 (dotted a b c d) = (if a \<le> 255 \<and> b \<le> 255 \<and> c \<le> 255 \<and> d \<le> 255 then Some (map int [a, b, c, d]) else None)"
  by (auto simp: parseIpv4_def split_dotted)

text \<open>A range of addresses: its first one and the length of its prefix.\<close>

definition in_range :: "nat \<Rightarrow> int \<Rightarrow> int \<times> nat \<Rightarrow> bool" where
  "in_range width v r \<longleftrightarrow> fst r \<le> v \<and> v < fst r + 2 ^ (width - snd r)"

definition v4 :: "nat \<Rightarrow> nat \<Rightarrow> nat \<Rightarrow> nat \<Rightarrow> int" where
  "v4 a b c d = ((int a * 256 + int b) * 256 + int c) * 256 + int d"

definition special_v4 :: "(int \<times> nat) list" where
  "special_v4 = [(v4 0 0 0 0, 8), (v4 10 0 0 0, 8), (v4 100 64 0 0, 10), (v4 127 0 0 0, 8), (v4 169 254 0 0, 16),
     (v4 172 16 0 0, 12), (v4 192 0 0 0, 24), (v4 192 0 2 0, 24), (v4 192 168 0 0, 16), (v4 198 18 0 0, 15),
     (v4 198 51 100 0, 24), (v4 203 0 113 0, 24), (v4 224 0 0 0, 3)]"

lemma block_eq: "0 \<le> x \<Longrightarrow> x < m \<Longrightarrow> h * m \<le> g * m + x \<and> g * m + x < h * m + m \<longleftrightarrow> g = (h :: int)"
proof
  assume x: "0 \<le> x" "x < m" and h: "h * m \<le> g * m + x \<and> g * m + x < h * m + m"
  then have "h * m < (g + 1) * m" "g * m < (h + 1) * m" by (simp_all add: algebra_simps)
  with x show "g = h" using mult_less_cancel_right_pos [of m] by force
qed auto

lemma digit_eq: "b < 256 \<Longrightarrow> l < 256 \<Longrightarrow> a * 256 + b = k * 256 + l \<longleftrightarrow> a = k \<and> b = (l :: nat)"
  by (cases a k rule: linorder_cases) auto

lemma digit_eq_int: "b < 256 \<Longrightarrow> l < 256 \<Longrightarrow> int a * 256 + int b = int k * 256 + int l \<longleftrightarrow> a = k \<and> b = l"
  by (cases a k rule: linorder_cases) auto

lemma isPublicIpv4_dotted:
  assumes "a \<le> 255" "b \<le> 255" "c \<le> 255" "d \<le> 255"
  shows "isPublicIpv4 (dotted a b c d) \<longleftrightarrow> \<not> (\<exists>r \<in> set special_v4. in_range 32 (v4 a b c d) r)"
proof -
  have 8: "in_range 32 (v4 a b c d) (v4 k 0 0 0, 8) \<longleftrightarrow> a = k" for k using assms by (auto simp: in_range_def v4_def)
  have 16: "in_range 32 (v4 a b c d) (v4 k l 0 0, 16) \<longleftrightarrow> a = k \<and> b = l" if "l \<le> 255" for k l
    using assms that block_eq [of "int c * 256 + int d" 65536 "int k * 256 + int l" "int a * 256 + int b"]
      digit_eq_int [of b l a k] by (simp add: in_range_def v4_def algebra_simps)
  have 24: "in_range 32 (v4 a b c d) (v4 k l m 0, 24) \<longleftrightarrow> a = k \<and> b = l \<and> c = m" if "l \<le> 255" "m \<le> 255" for k l m
    using assms that block_eq [of "int d" 256 "(int k * 256 + int l) * 256 + int m" "(int a * 256 + int b) * 256 + int c"]
      digit_eq [of b l a k] digit_eq_int [of c m "a * 256 + b" "k * 256 + l"] by (simp add: in_range_def v4_def algebra_simps)
  have cgn: "in_range 32 (v4 a b c d) (v4 100 64 0 0, 10) \<longleftrightarrow> a = 100 \<and> 64 \<le> b \<and> b \<le> 127"
    using assms by (cases a "100 :: nat" rule: linorder_cases) (auto simp: in_range_def v4_def)
  have lan: "in_range 32 (v4 a b c d) (v4 172 16 0 0, 12) \<longleftrightarrow> a = 172 \<and> 16 \<le> b \<and> b \<le> 31"
    using assms by (cases a "172 :: nat" rule: linorder_cases) (auto simp: in_range_def v4_def)
  have bench: "in_range 32 (v4 a b c d) (v4 198 18 0 0, 15) \<longleftrightarrow> a = 198 \<and> (b = 18 \<or> b = 19)"
    using assms by (cases a "198 :: nat" rule: linorder_cases) (auto simp: in_range_def v4_def)
  have multi: "in_range 32 (v4 a b c d) (v4 224 0 0 0, 3) \<longleftrightarrow> 224 \<le> a"
    using assms by (auto simp: in_range_def v4_def)
  show ?thesis
    using assms by (simp add: special_v4_def 8 16 24 cgn lan bench multi isPublicIpv4_def parseIpv4_dotted) blast
qed

text \<open>What \<open>isIP\<close> calls IPv4 is a dotted text of four octets.\<close>

lemma show_nat_snoc: "0 < m \<Longrightarrow> k < 10 \<Longrightarrow> show_nat (10 * m + k) = show_nat m @ [char_of (48 + k)]"
  by (subst show_nat.simps) simp

lemma show_nat_of_digits:
  "p \<noteq> [] \<Longrightarrow> list_all is_digit p \<Longrightarrow> length p = 1 \<or> hd p \<noteq> CHR ''0'' \<Longrightarrow> show_nat (nat_of_digits p) = p"
proof (induction p rule: rev_induct)
  case (snoc c q)
  then have c: "of_char c - 48 < (10 :: nat)" "char_of (48 + (of_char c - 48) :: nat) = c"
    by (auto simp: is_digit_def)
  show ?case
  proof (cases "q = []")
    case True
    then show ?thesis using c by (subst show_nat.simps) (simp add: nat_of_digits_def)
  next
    case False
    then have q: "show_nat (nat_of_digits q) = q" "hd q \<noteq> CHR ''0''" using snoc by auto
    then have "0 < nat_of_digits q" using show_nat_zero by (metis gr0I list.sel(1))
    then show ?thesis using c q by (simp add: nat_of_digits_snoc show_nat_snoc)
  qed
qed simp

lemma show_nat_of_part: "ipv4_part p \<Longrightarrow> show_nat (nat_of_digits p) = p"
  by (rule show_nat_of_digits) (auto simp: ipv4_part_def neq_Nil_conv)

lemma is_ipv4_dotted:
  assumes "is_ipv4 s"
  obtains a b c d where "s = dotted a b c d" "a \<le> 255" "b \<le> 255" "c \<le> 255" "d \<le> 255"
proof -
  obtain p q r t where ps: "js_split (CHR ''.'') s = [p, q, r, t]" and
    ok: "ipv4_part p" "ipv4_part q" "ipv4_part r" "ipv4_part t"
    using assms by (auto simp: is_ipv4_def length_Suc_conv eval_nat_numeral)
  have "s = dotted (nat_of_digits p) (nat_of_digits q) (nat_of_digits r) (nat_of_digits t)"
    using js_join_split [of "CHR ''.''" s] ok by (simp add: dotted_def show_nat_of_part ps)
  then show ?thesis using ok by (intro that) (auto simp: ipv4_part_def)
qed

lemma strip_brackets_id: "s \<noteq> [] \<Longrightarrow> hd s \<noteq> CHR 0x5B \<Longrightarrow> last s \<noteq> CHR 0x5D \<Longrightarrow> strip_brackets s = s"
  by (cases s) (auto simp: strip_brackets_def)

lemma strip_brackets_dotted [simp]: "strip_brackets (dotted a b c d) = dotted a b c d"
proof (rule strip_brackets_id)
  have "is_digit (hd (show_nat a))" "is_digit (last (show_nat d))"
    by (rule show_nat_digits, rule hd_in_set, simp, rule show_nat_digits, rule last_in_set, simp)
  then show "hd (dotted a b c d) \<noteq> CHR 0x5B" "last (dotted a b c d) \<noteq> CHR 0x5D"
    by (auto simp: dotted_def is_digit_def)
qed (simp add: dotted_def)

section \<open>Text and value of IPv6 addresses\<close>

lemma parse_hex_snoc: "parse_hex (p @ [c]) = 16 * parse_hex p + (case hex_value c of Some d \<Rightarrow> int d | None \<Rightarrow> 0)"
  by (simp add: parse_hex_def)

lemma hex_value_bound: "hex_value c = Some d \<Longrightarrow> d < 16"
  by (auto simp: hex_value_def Let_def split: if_splits)

lemma parse_hex_bound: "0 \<le> parse_hex p \<and> parse_hex p < 16 ^ length p"
proof (induction p rule: rev_induct)
  case (snoc c p)
  then show ?case using hex_value_bound [of c] by (fastforce simp: parse_hex_snoc split: option.splits)
qed (simp add: parse_hex_def)

lemma hextet_bound: "hextet p \<Longrightarrow> 0 \<le> parse_hex p \<and> parse_hex p < 65536"
  using parse_hex_bound [of p] power_increasing [of "length p" 4 "16 :: int"] by (auto simp: hextet_def)

definition v6 :: "string list \<Rightarrow> int \<Rightarrow> int" where
  "v6 groups = fold (\<lambda>g v. v * 65536 + parse_hex g) groups"

lemma push_or_add: "0 \<le> h \<Longrightarrow> h < 65536 \<Longrightarrow> push_bit 16 v OR h = v * 65536 + (h :: int)"
proof -
  assume "0 \<le> h" "h < 65536"
  then have "take_bit 16 h = h" by (simp add: take_bit_int_eq_self_iff)
  then have "push_bit 16 v AND h = 0"
    by (metis (no_types, lifting) bit_and_iff bit_push_bit_iff bit_take_bit_iff bit_eqI bit_0_eq bot_apply leD bot_bool_def)
  then show ?thesis by (simp add: push_bit_eq_mult flip: disjunctive_add_eq_or)
qed

lemma ipv6_value_eq: "list_all hextet groups \<Longrightarrow> ipv6_value groups v = Some (v6 groups v)"
  by (induction groups arbitrary: v) (simp_all add: v6_def hextet_bound push_or_add)

text \<open>Texts without \<open>::\<close>.\<close>

definition no_dcolon :: "string \<Rightarrow> bool" where
  "no_dcolon s \<longleftrightarrow> successively (\<lambda>c d. \<not> (c = CHR '':'' \<and> d = CHR '':'')) s"

lemma split_dcolon_none: "no_dcolon s \<Longrightarrow> split_dcolon s = [s]"
  by (induction s rule: split_dcolon.induct) (auto simp: no_dcolon_def)

lemma split_dcolon_once:
  "no_dcolon s \<Longrightarrow> (s \<noteq> [] \<longrightarrow> last s \<noteq> CHR '':'') \<Longrightarrow> split_dcolon (s @ CHR '':'' # CHR '':'' # t) = s # split_dcolon t"
  by (induction s rule: split_dcolon.induct) (auto simp: no_dcolon_def)

lemma hextet_plain: "hextet g \<Longrightarrow> c \<in> set g \<Longrightarrow> hex_value c \<noteq> None"
  by (auto simp: hextet_def list_all_iff)

lemma hex_value_plain: "hex_value c \<noteq> None \<Longrightarrow> c \<notin> {CHR '':'', CHR ''.'', CHR ''%'', CHR 0x5B, CHR 0x5D} \<and> lower_char c = c"
  by (auto simp: hex_value_def lower_char_def Let_def split: if_splits)

lemma join_groups:
  assumes "list_all hextet gs"
  shows "no_dcolon (js_join '':'' gs) \<and> (gs \<noteq> [] \<longrightarrow> js_join '':'' gs \<noteq> [] \<and> hd (js_join '':'' gs) \<noteq> CHR '':'' \<and> last (js_join '':'' gs) \<noteq> CHR '':'')
    \<and> (\<forall>c \<in> set (js_join '':'' gs). c = CHR '':'' \<or> hex_value c \<noteq> None)"
  using assms
proof (induction gs)
  case (Cons g gs)
  then have h: "hextet g" by simp
  have g3: "\<forall>c \<in> set g. hex_value c \<noteq> None" using hextet_plain [OF h] by blast
  then have g2: "\<forall>c \<in> set g. c \<noteq> CHR '':''" using hex_value_plain by blast
  have g1: "g \<noteq> []" using h by (simp add: hextet_def)
  note g = g1 g2 g3
  have s: "successively (\<lambda>c d. \<not> (c = CHR '':'' \<and> d = CHR '':'')) g"
    using g(2) by (induction g rule: induct_list012) auto
  show ?case
  proof (cases "gs = []")
    case True
    then show ?thesis using g s by (auto simp: no_dcolon_def)
  next
    case False
    then have IH: "no_dcolon (js_join '':'' gs)" "js_join '':'' gs \<noteq> []" "hd (js_join '':'' gs) \<noteq> CHR '':''"
      "last (js_join '':'' gs) \<noteq> CHR '':''" "\<forall>c \<in> set (js_join '':'' gs). c = CHR '':'' \<or> hex_value c \<noteq> None"
      using Cons by simp_all
    have "last g \<noteq> CHR '':''" "hd g \<noteq> CHR '':''" using g1 g2 by simp_all
    moreover from this have "no_dcolon (g @ '':'' @ js_join '':'' gs)"
      using IH(1-3) s g1 by (simp add: no_dcolon_def successively_append_iff successively_Cons)
    moreover have "\<forall>c \<in> set (g @ '':'' @ js_join '':'' gs). c = CHR '':'' \<or> hex_value c \<noteq> None"
      using IH(5) g3 by (simp only: set_append Un_iff ball_Un) simp
    ultimately show ?thesis unfolding js_join_Cons [OF False] using IH(2,4) g1 by simp
  qed
qed (simp add: no_dcolon_def)

lemma colon_parts_join: "list_all hextet gs \<Longrightarrow> colon_parts (js_join '':'' gs) = gs"
proof (cases "gs = []")
  case False
  assume h: "list_all hextet gs"
  then have "js_split (CHR '':'') (js_join [CHR '':''] gs) = gs"
    using False hextet_plain hex_value_plain by (intro js_split_join) (fastforce simp: list_all_iff)+
  then show ?thesis using join_groups [OF h] False by (simp add: colon_parts_def)
qed (simp add: colon_parts_def)

text \<open>The texts of eight groups: all of them, or a run of zero groups written \<open>::\<close>.\<close>

definition ipv6_text :: "string list \<Rightarrow> string \<Rightarrow> bool" where
  "ipv6_text gs s \<longleftrightarrow> list_all hextet gs \<and> length gs = 8 \<and>
     (s = js_join '':'' gs
      \<or> (\<exists>left right n. gs = left @ replicate (Suc n) ''0'' @ right \<and> s = js_join '':'' left @ ''::'' @ js_join '':'' right))"

lemma ipv6_textE:
  assumes "ipv6_text gs s"
  obtains "split_dcolon s = [s]" "s = js_join '':'' gs" "list_all hextet gs" "length gs = 8" "s \<noteq> []"
  | left right n where "split_dcolon s = [js_join '':'' left, js_join '':'' right]" "s \<noteq> []"
      "gs = left @ replicate (Suc n) ''0'' @ right" "list_all hextet left" "list_all hextet right" "list_all hextet gs" "length gs = 8"
proof -
  have h: "list_all hextet gs" "length gs = 8" using assms by (simp_all add: ipv6_text_def)
  from assms consider "s = js_join '':'' gs"
    | left right n where "gs = left @ replicate (Suc n) ''0'' @ right" "s = js_join '':'' left @ ''::'' @ js_join '':'' right"
    by (auto simp: ipv6_text_def)
  then show thesis
  proof cases
    case 1
    have "gs \<noteq> []" using h(2) by auto
    then have "no_dcolon s" "s \<noteq> []" using join_groups [OF h(1)] 1 by simp_all
    then show ?thesis using that(1) [OF split_dcolon_none 1 h] by simp
  next
    case (2 left right n)
    then have lr: "list_all hextet left" "list_all hextet right" using h by auto
    have "js_join '':'' left \<noteq> [] \<longrightarrow> last (js_join '':'' left) \<noteq> CHR '':''"
      using join_groups [OF lr(1)] by (cases "left = []") simp_all
    then have "split_dcolon s = js_join '':'' left # split_dcolon (js_join '':'' right)"
      unfolding 2(2) using split_dcolon_once join_groups [OF lr(1), THEN conjunct1] by simp
    also have "split_dcolon (js_join '':'' right) = [js_join '':'' right]"
      by (rule split_dcolon_none [OF join_groups [OF lr(2), THEN conjunct1]])
    finally show ?thesis using that(2) [OF _ _ 2(1) lr h] 2(2) by simp
  qed
qed

lemma ipv6_text_chars: "ipv6_text gs s \<Longrightarrow> c \<in> set s \<Longrightarrow> c = CHR '':'' \<or> hex_value c \<noteq> None"
  unfolding ipv6_text_def
proof (elim conjE disjE exE)
  assume "list_all hextet gs" "s = js_join '':'' gs" "c \<in> set s"
  then show ?thesis using join_groups by blast
next
  fix left right n assume a: "list_all hextet gs" "gs = left @ replicate (Suc n) ''0'' @ right"
    and s: "s = js_join '':'' left @ ''::'' @ js_join '':'' right" "c \<in> set s"
  from a have "list_all hextet left" "list_all hextet right" by auto
  then show ?thesis using s join_groups [of left] join_groups [of right] by auto
qed

lemma takeWhile_id: "(\<And>c. c \<in> set s \<Longrightarrow> P c) \<Longrightarrow> takeWhile P s = s"
  by (simp add: takeWhile_eq_all_conv)

lemma normalize_ipv6_text:
  assumes "ipv6_text gs s"
  shows "normalize_address s = s" and "strip_brackets s = s"
proof -
  have ch: "c \<notin> {CHR ''.'', CHR ''%'', CHR 0x5B, CHR 0x5D}" "lower_char c = c" if "c \<in> set s" for c
    using ipv6_text_chars [OF assms that] hex_value_plain [of c] by (auto simp: lower_char_def)
  have "s \<noteq> []" by (rule ipv6_textE [OF assms])
  then have "hd s \<in> set s" "last s \<in> set s" by auto
  then show b: "strip_brackets s = s" using ch(1) \<open>s \<noteq> []\<close> by (intro strip_brackets_id) auto
  have "js_toLowerCase s = s" using ch(2) by (simp add: js_toLowerCase_def map_idI)
  then show "normalize_address s = s" unfolding normalize_address_def b using ch(1) by (simp add: b takeWhile_id)
qed

lemma ipv6_text_no_dot: "ipv6_text gs s \<Longrightarrow> CHR ''.'' \<notin> set s"
  using ipv6_text_chars hex_value_plain by fastforce

lemma mapped_ipv6_text: "ipv6_text gs s \<Longrightarrow> mapped_ipv4 s = None"
proof -
  assume "ipv6_text gs s"
  then have "CHR ''.'' \<notin> set (last (js_split (CHR '':'') s))"
    using ipv6_text_no_dot js_split_subset [of "last (js_split (CHR '':'') s)" "CHR '':''" s] by auto
  then show ?thesis by (simp add: mapped_ipv4_def Let_def js_split_single)
qed

lemma parseIpv6BigInt_text:
  assumes "ipv6_text gs s"
  shows "parseIpv6BigInt s = Some (v6 gs 0)"
proof -
  have dot: "\<not> js_includes s (CHR ''.'')" using ipv6_text_no_dot [OF assms] by simp
  from assms show ?thesis
  proof (cases rule: ipv6_textE)
    case 1
    then have "colon_parts s = gs" using colon_parts_join by metis
    then show ?thesis using 1(1,3,4) dot normalize_ipv6_text(1) [OF assms]
      by (simp add: parseIpv6BigInt_def ipv6_value_eq Let_def)
  next
    case (2 left right n)
    then have m: "8 - int (length left) - int (length right) = int (Suc n)" by auto
    show ?thesis using 2(1,7) dot normalize_ipv6_text(1) [OF assms] ipv6_value_eq [OF 2(6), of 0]
      unfolding parseIpv6BigInt_def Let_def
      by (simp add: colon_parts_join 2(4,5) m del: replicate_Suc of_nat_Suc flip: 2(3))
  qed
qed

lemma isIP_text:
  assumes "ipv6_text gs s"
  shows "isIP s = 6"
proof -
  have no4: "\<not> is_ipv4 s" using ipv6_text_no_dot [OF assms] by (simp add: is_ipv4_def js_split_single)
  have "CHR ''%'' \<notin> set s" using ipv6_text_chars [OF assms] hex_value_plain by fastforce
  then have z: "takeWhile (\<lambda>c. c \<noteq> CHR ''%'') s = s" "dropWhile (\<lambda>c. c \<noteq> CHR ''%'') s = []"
    by auto
  have "js_toLowerCase g = g" if "hextet g" for g
    using hextet_plain [OF that] hex_value_plain by (simp add: js_toLowerCase_def map_idI)
  then have hg: "list_all hextet gs' \<Longrightarrow> list_all hex_group gs'" for gs' by (auto simp: hex_group_def list_all_iff)
  from assms have "is_ipv6 s"
  proof (cases rule: ipv6_textE)
    case 1
    then have "js_split (CHR '':'') s = gs" using colon_parts_join [of gs] by (simp add: colon_parts_def split: if_splits)
    then show ?thesis using 1(1,5) hg [OF 1(3)] 1(4) unfolding is_ipv6_def z Let_def by (simp add: ipv6_groups_def)
  next
    case (2 left right n)
    then show ?thesis using hg [OF 2(4)] hg [OF 2(5)] unfolding is_ipv6_def z Let_def
      by (auto simp: ipv6_groups_def colon_parts_join)
  qed
  then show ?thesis using no4 by (simp add: isIP_def)
qed

lemma cidr_is_range:
  assumes "2 ^ (128 - p) dvd base"
  shows "ipv6InCidr v base p \<longleftrightarrow> in_range 128 v (base, p)"
proof -
  let ?m = "2 ^ (128 - p) :: int"
  have "in_range 128 v (base, p) \<longleftrightarrow> v div ?m = base div ?m"
    using block_eq [of "v mod ?m" ?m "base div ?m" "v div ?m"] dvd_div_mult_self [OF assms]
    unfolding in_range_def fst_conv snd_conv div_mult_mod_eq by simp
  then show ?thesis by (simp add: ipv6InCidr_def drop_bit_eq_div)
qed

section \<open>What is public, what is requested\<close>

lemma isPublicIpv6_text:
  assumes "ipv6_text gs s"
  shows "isPublicIpv6 s \<longleftrightarrow> in_range 128 (v6 gs 0) (globalBase, 3) \<and> \<not> (\<exists>r \<in> set blocked. in_range 128 (v6 gs 0) r)"
proof -
  have "2 ^ (128 - snd r) dvd fst r" if "r \<in> insert (globalBase, 3) (set blocked)" for r
    using that unfolding blocked_def globalBase_def by auto
  then have "ipv6InCidr (v6 gs 0) globalBase 3 \<longleftrightarrow> in_range 128 (v6 gs 0) (globalBase, 3)"
    and "\<forall>r \<in> set blocked. ipv6InCidr (v6 gs 0) (fst r) (snd r) \<longleftrightarrow> in_range 128 (v6 gs 0) r"
    using cidr_is_range by (metis fst_conv insertCI snd_conv, metis insertCI prod.collapse)
  then show ?thesis
    unfolding isPublicIpv6_def Let_def normalize_ipv6_text(1) [OF assms] mapped_ipv6_text [OF assms] option.case
      parseIpv6BigInt_text [OF assms] by (simp add: case_prod_beta)
qed



text \<open>
  The pattern for embedded IPv4 addresses is not anchored at the start: an address outside the
  IPv4-mapped block is judged by a dotted tail that follows \<open>::ffff:\<close>. The address below is unique
  local, within fc00::/7.
\<close>

lemma mapped_suffix_judged_public:
  "isIP ''fd00::ffff:8.8.8.8'' = 6 \<and> isPublicIpAddress ''fd00::ffff:8.8.8.8''
   \<and> \<not> isPublicIpAddress ''fd00::ffff:808:808''"
proof (intro conjI)
  show "isIP ''fd00::ffff:8.8.8.8'' = 6" by code_simp
  show "isPublicIpAddress ''fd00::ffff:8.8.8.8''" by code_simp
  show "\<not> isPublicIpAddress ''fd00::ffff:808:808''" by code_simp
qed

lemma validate_Inr:
  assumes "validatePublicHttpUrl new_URL lookup raw = Inr u"
  shows "new_URL raw = Some u \<and> url_protocol u \<in> {''http:'', ''https:''} \<and> url_username u = '''' \<and> url_password u = ''''
    \<and> (let host = strip_brackets (url_hostname u)
       in host \<noteq> '''' \<and> (if isIP host \<noteq> 0 then isPublicIpAddress host
            else \<exists>answers. lookup host = Inr answers \<and> answers \<noteq> [] \<and> (\<forall>x \<in> set answers. isPublicIpAddress (ra_address x))))"
  using assms unfolding validatePublicHttpUrl_def Let_def
  by (auto split: option.splits if_splits sum.splits)

lemma read_loop_bound:
  "read_loop maxBytes (length body) body reads = (Inr bytes, cancelled) \<Longrightarrow> length body \<le> maxBytes \<Longrightarrow>
     length bytes \<le> maxBytes \<and> bytes = body @ concat (map (\<lambda>r. case r of Chunk v \<Rightarrow> v | _ \<Rightarrow> []) reads)"
proof (induction reads arbitrary: body)
  case (Cons r reads)
  show ?case
  proof (cases r)
    case (Chunk v)
    then show ?thesis using Cons.prems Cons.IH [of "body @ v"] by (auto split: if_splits)
  qed (use Cons in auto)
qed simp

text \<open>The call of \<open>fetch\<close> and the outcome of a request that passed the policy.\<close>

definition request_init :: "request_options \<Rightarrow> fetch_init" where
  "request_init options = \<lparr>fi_method = (case ro_method options of Some m \<Rightarrow> m | None \<Rightarrow> ''GET''),
     fi_headers = ro_headers options, fi_body = ro_body options,
     fi_abortAfter = (case ro_timeoutMs options of Some t \<Rightarrow> t | None \<Rightarrow> OUTBOUND_HTTP_TIMEOUT_MS),
     fi_redirect = RedirectManual\<rparr>"

definition request_outcome ::
  "(nat list \<Rightarrow> string) \<Rightarrow> nat \<Rightarrow> string + http_response \<Rightarrow> (outbound_error + public_http_response) \<times> bool" where
  "request_outcome decode maxResponse answer =
     (case answer of
        Inl msg \<Rightarrow> (Inl (OtherError msg), False)
      | Inr response \<Rightarrow>
          (case readBodyLimited decode response maxResponse of
             (Inl e, c) \<Rightarrow> (Inl e, c)
           | (Inr b, c) \<Rightarrow> (Inr \<lparr>ph_status = hr_status response, ph_statusText = hr_statusText response,
                              ph_headers = hr_headers response, ph_body = b\<rparr>, c)))"

lemma request_run:
  assumes "validatePublicHttpUrl new_URL lookup raw = Inr u"
    and "\<not> (case ro_body options of Some b \<Rightarrow> utf8_bytes b > (case ro_maxRequestBytes options of Some n \<Rightarrow> n | None \<Rightarrow> 256 * 1024) | None \<Rightarrow> False)"
  shows "requestPublicHttp new_URL lookup fetchImpl decode raw options =
    (let x = request_outcome decode (case ro_maxResponseBytes options of Some n \<Rightarrow> n | None \<Rightarrow> 1024 * 1024) (fetchImpl u (request_init options))
     in \<lparr>or_fetches = [(u, request_init options)], or_timers = [], or_cancelled = snd x, or_outcome = fst x\<rparr>)"
  using assms(2)
  unfolding requestPublicHttp_def assms(1) Let_def sum.case OUTBOUND_HTTP_MAX_REQUEST_BYTES_def OUTBOUND_HTTP_MAX_RESPONSE_BYTES_def
    request_init_def [symmetric]
  by (simp add: request_outcome_def split: sum.split prod.split)

text \<open>
  C19. Every authored request is confined. \<open>fetch\<close> is called at most once, and only for a URL that
  parses, uses HTTP or HTTPS, carries no credentials, and whose host is a public address or
  resolves to at least one address, all of them public; redirects are left to the caller, the
  request body is within its limit. A refused request reaches no network. A response is handed
  back only when the whole of its body is within the limit, decoded from all of its bytes, and
  no timer is left armed, whatever \<open>fetch\<close> does.
\<close>

theorem outbound_request_confined:
  fixes new_URL lookup fetchImpl decode raw options
  defines "run \<equiv> requestPublicHttp new_URL lookup fetchImpl decode raw options"
    and "maxRequest \<equiv> (case ro_maxRequestBytes options of Some n \<Rightarrow> n | None \<Rightarrow> 256 * 1024)"
    and "maxResponse \<equiv> (case ro_maxResponseBytes options of Some n \<Rightarrow> n | None \<Rightarrow> 1024 * 1024)"
  shows "length (or_fetches run) \<le> 1 \<and> or_timers run = []
    \<and> (\<forall>u i. (u, i) \<in> set (or_fetches run) \<longrightarrow>
        new_URL raw = Some u \<and> url_protocol u \<in> {''http:'', ''https:''} \<and> url_username u = '''' \<and> url_password u = ''''
        \<and> (let host = strip_brackets (url_hostname u)
           in host \<noteq> '''' \<and> (if isIP host \<noteq> 0 then isPublicIpAddress host
                else \<exists>answers. lookup host = Inr answers \<and> answers \<noteq> [] \<and> (\<forall>x \<in> set answers. isPublicIpAddress (ra_address x))))
        \<and> fi_redirect i = RedirectManual \<and> (\<forall>b. fi_body i = Some b \<longrightarrow> utf8_bytes b \<le> maxRequest))
    \<and> (or_fetches run = [] \<longrightarrow> (\<exists>msg. or_outcome run = Inl (OutboundHttpPolicyError msg)))
    \<and> (\<forall>r. or_outcome run = Inr r \<longrightarrow> (\<exists>u i response. or_fetches run = [(u, i)] \<and> fetchImpl u i = Inr response
        \<and> ph_status r = hr_status response
        \<and> (case hr_body response of
             None \<Rightarrow> ph_body r = ''''
           | Some reads \<Rightarrow> (let bytes = concat (map (\<lambda>x. case x of Chunk v \<Rightarrow> v | _ \<Rightarrow> []) reads)
                           in length bytes \<le> maxResponse \<and> ph_body r = decode bytes))))"
proof -
  consider (refused) msg where "or_fetches run = []" "or_timers run = []" "or_outcome run = Inl (OutboundHttpPolicyError msg)"
    | (fetched) u i where "validatePublicHttpUrl new_URL lookup raw = Inr u" "or_fetches run = [(u, i)]" "or_timers run = []"
        "fi_redirect i = RedirectManual" "\<And>b. fi_body i = Some b \<Longrightarrow> utf8_bytes b \<le> maxRequest"
        "\<And>r. or_outcome run = Inr r \<Longrightarrow> \<exists>response c. fetchImpl u i = Inr response \<and> ph_status r = hr_status response
           \<and> readBodyLimited decode response maxResponse = (Inr (ph_body r), c)"
  proof (cases "validatePublicHttpUrl new_URL lookup raw")
    case (Inl e)
    then have "\<exists>msg. e = OutboundHttpPolicyError msg"
      unfolding validatePublicHttpUrl_def Let_def by (auto split: option.splits if_splits sum.splits)
    then show ?thesis using Inl by (auto intro!: that(1) simp: run_def requestPublicHttp_def)
  next
    case (Inr u)
    show ?thesis
    proof (cases "case ro_body options of Some b \<Rightarrow> utf8_bytes b > maxRequest | None \<Rightarrow> False")
      case True
      then show ?thesis using Inr
        by (auto intro!: that(1) simp: run_def requestPublicHttp_def maxRequest_def OUTBOUND_HTTP_MAX_REQUEST_BYTES_def Let_def
            split: option.splits)
    next
      case False
      show ?thesis
      proof (rule that(2) [OF Inr])
        let ?i = "request_init options"
        note run = request_run [OF Inr False [unfolded maxRequest_def], of fetchImpl decode, folded run_def maxResponse_def]
        show "or_fetches run = [(u, ?i)]" "or_timers run = []" by (simp_all add: run Let_def)
        show "fi_redirect ?i = RedirectManual" by (simp add: request_init_def)
        show "utf8_bytes b \<le> maxRequest" if "fi_body ?i = Some b" for b using that False by (simp add: request_init_def)
        show "\<exists>response c. fetchImpl u ?i = Inr response \<and> ph_status r = hr_status response
           \<and> readBodyLimited decode response maxResponse = (Inr (ph_body r), c)" if "or_outcome run = Inr r" for r
          using that unfolding run by (auto simp: request_outcome_def Let_def split: sum.splits prod.splits)
      qed
    qed
  qed
  then show ?thesis
  proof cases
    case refused
    then show ?thesis by simp
  next
    case (fetched u i)
    have body: "case hr_body response of None \<Rightarrow> ph_body r = ''''
           | Some reads \<Rightarrow> (let bytes = concat (map (\<lambda>x. case x of Chunk v \<Rightarrow> v | _ \<Rightarrow> []) reads)
                           in length bytes \<le> maxResponse \<and> ph_body r = decode bytes)"
      if "readBodyLimited decode response maxResponse = (Inr (ph_body r), c)" for response c and r :: public_http_response
      using that read_loop_bound [of maxResponse "[]"]
      by (auto simp: readBodyLimited_def split: option.splits prod.splits sum.splits)
    show ?thesis using fetched(2-5) validate_Inr [OF fetched(1)] fetched(6) body by fastforce
  qed
qed

definition sample_url :: url where
  "sample_url = \<lparr>url_href = ''https://a.example/'', url_protocol = ''https:'', url_username = [], url_password = [],
     url_hostname = ''a.example''\<rparr>"

definition sample_options :: request_options where
  "sample_options = \<lparr>ro_method = None, ro_headers = None, ro_body = Some ''ping'', ro_timeoutMs = None,
     ro_maxRequestBytes = Some 4, ro_maxResponseBytes = Some 3\<rparr>"

definition sample_run :: "string \<Rightarrow> nat list \<Rightarrow> outbound_run" where
  "sample_run ip bytes = requestPublicHttp (\<lambda>_. Some sample_url) (\<lambda>_. Inr [\<lparr>ra_address = ip, ra_family = 4\<rparr>])
     (\<lambda>_ _. Inr \<lparr>hr_status = 200, hr_statusText = ''OK'', hr_headers = [], hr_body = Some [Chunk bytes, NoValue, Chunk [99]]\<rparr>)
     (map char_of) ''https://a.example/'' sample_options"

theorem outbound_request_confined_witness:
  "or_fetches (sample_run ''10.0.0.1'' [97]) = []
   \<and> (\<exists>u i r. or_fetches (sample_run ''1.1.1.1'' [97, 98]) = [(u, i)] \<and> fi_redirect i = RedirectManual
        \<and> or_outcome (sample_run ''1.1.1.1'' [97, 98]) = Inr r \<and> ph_body r = ''abc'')
   \<and> or_cancelled (sample_run ''1.1.1.1'' [97, 98, 99])"
proof -
  have r: "or_outcome (sample_run ''1.1.1.1'' [97, 98]) = Inr \<lparr>ph_status = 200, ph_statusText = ''OK'', ph_headers = [], ph_body = ''abc''\<rparr>"
    and l: "or_fetches (sample_run ''10.0.0.1'' [97]) = []" and c: "or_cancelled (sample_run ''1.1.1.1'' [97, 98, 99])"
    by code_simp+
  note p = outbound_request_confined [of "\<lambda>_. Some sample_url" "\<lambda>_. Inr [\<lparr>ra_address = ''1.1.1.1'', ra_family = 4\<rparr>]"
    "\<lambda>_ _. Inr \<lparr>hr_status = 200, hr_statusText = ''OK'', hr_headers = [], hr_body = Some [Chunk [97, 98], NoValue, Chunk [99]]\<rparr>"
    "map char_of" "''https://a.example/''" sample_options, folded sample_run_def]
  from p r obtain u i where "or_fetches (sample_run ''1.1.1.1'' [97, 98]) = [(u, i)]" by blast
  moreover from this p have "fi_redirect i = RedirectManual" by simp
  ultimately show ?thesis using r l c by simp
qed

end
