(* ===== verification/Automation_Events.thy ===== *)
theory Automation_Events
  imports Shared_State Command_History "HOL-Library.Monad_Syntax"
begin

text \<open>
  Events between automations (src/automations/automation-event-service.ts), the provenance
  envelope every event carries (src/core/event-metadata.ts, types.ts), the context an execution
  runs in (execution-context.ts) and the context of its writes to shared state (sandbox.ts).

  An emitted event is published as JSON text and comes back through the broker. The parsed
  envelope keeps its metadata as the object that was read; \<open>meta_of\<close> is the typed view of it.
  \<open>randomUUID()\<close> and \<open>Date.now()\<close> are arguments; the broker is a function that accepts a message
  or throws. The lemmas show the round trip of an event and that events and writes caused by one
  another form chains of bounded length.
\<close>

section \<open>Event metadata\<close>

datatype event_source_kind =
    SkMqttDevice | SkConnector | SkAutomation | SkUi | SkCron | SkRest | SkSystem

record shared_trigger =
  sx_bucket :: string
  sx_key :: string
  sx_deleted :: bool
  sx_source :: shared_source

record event_metadata =
  em_eventId :: string
  em_timestamp :: ms
  em_source :: "event_source_kind \<times> string option"
  em_causationId :: "string option"
  em_correlationId :: "string option"
  em_ruleId :: "string option"
  em_executionId :: "string option"
  em_traceId :: "string option"
  em_depth :: "int option"
  em_sharedState :: "shared_trigger option"

record event_metadata_options =
  eo_causationId :: "string option"
  eo_correlationId :: "string option"
  eo_ruleId :: "string option"
  eo_executionId :: "string option"
  eo_traceId :: "string option"
  eo_depth :: "int option"
  eo_timestamp :: "ms option"

text \<open>The operator \<open>??\<close>.\<close>

definition or_else :: "'a option \<Rightarrow> 'a \<Rightarrow> 'a" where
  "or_else x d = (case x of Some v \<Rightarrow> v | None \<Rightarrow> d)"

definition newEventMetadata ::
  "string \<Rightarrow> ms \<Rightarrow> event_source_kind \<times> string option \<Rightarrow> event_metadata_options \<Rightarrow> event_metadata" where
  "newEventMetadata eventId now source opts =
     \<lparr>em_eventId = eventId, em_timestamp = or_else (eo_timestamp opts) now, em_source = source,
      em_causationId = js_truthy (eo_causationId opts), em_correlationId = js_truthy (eo_correlationId opts),
      em_ruleId = js_truthy (eo_ruleId opts), em_executionId = js_truthy (eo_executionId opts),
      em_traceId = Some (or_else (eo_traceId opts) eventId), em_depth = Some (or_else (eo_depth opts) 0),
      em_sharedState = None\<rparr>"

text \<open>The metadata as the object that \<open>JSON.stringify\<close> writes, and its typed view.\<close>

fun source_kind_text :: "event_source_kind \<Rightarrow> string" where
  "source_kind_text SkMqttDevice = ''mqtt-device''"
| "source_kind_text SkConnector = ''connector''"
| "source_kind_text SkAutomation = ''automation''"
| "source_kind_text SkUi = ''ui''"
| "source_kind_text SkCron = ''cron''"
| "source_kind_text SkRest = ''rest''"
| "source_kind_text SkSystem = ''system''"

definition source_kinds :: "event_source_kind list" where
  "source_kinds = [SkMqttDevice, SkConnector, SkAutomation, SkUi, SkCron, SkRest, SkSystem]"

definition text_entry :: "string \<Rightarrow> string option \<Rightarrow> jsobj" where
  "text_entry k v = (case v of Some t \<Rightarrow> [(k, JStr t)] | None \<Rightarrow> [])"

definition meta_json :: "event_metadata \<Rightarrow> jsobj" where
  "meta_json m =
     [(''eventId'', JStr (em_eventId m)), (''timestamp'', JNum (em_timestamp m)),
      (''source'', JObj ((''kind'', JStr (source_kind_text (fst (em_source m)))) # text_entry ''id'' (snd (em_source m))))]
     @ text_entry ''causationId'' (em_causationId m) @ text_entry ''correlationId'' (em_correlationId m)
     @ text_entry ''ruleId'' (em_ruleId m) @ text_entry ''executionId'' (em_executionId m)
     @ text_entry ''traceId'' (em_traceId m)
     @ (case em_depth m of Some d \<Rightarrow> [(''depth'', JNum d)] | None \<Rightarrow> [])"

definition text_prop :: "jsobj \<Rightarrow> string \<Rightarrow> string option option" where
  "text_prop ob k = (case js_prop ob k of JUndefined \<Rightarrow> Some None | JStr t \<Rightarrow> Some (Some t) | _ \<Rightarrow> None)"

definition num_prop :: "jsobj \<Rightarrow> string \<Rightarrow> int option option" where
  "num_prop ob k = (case js_prop ob k of JUndefined \<Rightarrow> Some None | JNum n \<Rightarrow> Some (Some n) | _ \<Rightarrow> None)"

definition source_of :: "jsval \<Rightarrow> (event_source_kind \<times> string option) option" where
  "source_of v =
     (case v of
        JObj ob \<Rightarrow>
          do { kind \<leftarrow> find (\<lambda>k. js_prop ob ''kind'' = JStr (source_kind_text k)) source_kinds;
               i \<leftarrow> text_prop ob ''id'';
               Some (kind, i) }
      | _ \<Rightarrow> None)"

definition meta_of :: "jsobj \<Rightarrow> event_metadata option" where
  "meta_of ob =
     do { eventId \<leftarrow> text_prop ob ''eventId''; i \<leftarrow> eventId;
          timestamp \<leftarrow> num_prop ob ''timestamp''; t \<leftarrow> timestamp;
          source \<leftarrow> source_of (js_prop ob ''source'');
          causationId \<leftarrow> text_prop ob ''causationId'';
          correlationId \<leftarrow> text_prop ob ''correlationId'';
          ruleId \<leftarrow> text_prop ob ''ruleId'';
          executionId \<leftarrow> text_prop ob ''executionId'';
          traceId \<leftarrow> text_prop ob ''traceId'';
          depth \<leftarrow> num_prop ob ''depth'';
          Some \<lparr>em_eventId = i, em_timestamp = t, em_source = source, em_causationId = causationId,
                em_correlationId = correlationId, em_ruleId = ruleId, em_executionId = executionId,
                em_traceId = traceId, em_depth = depth, em_sharedState = None\<rparr> }"

section \<open>Emitting\<close>

definition RESERVED_EVENT_NAMESPACE :: string where "RESERVED_EVENT_NAMESPACE = ''aeolus/events''"
definition AUTOMATION_EVENT_SCHEMA :: string where "AUTOMATION_EVENT_SCHEMA = ''aeolus.automation-event.v1''"
definition MAX_EVENT_DEPTH :: int where "MAX_EVENT_DEPTH = 16"
definition MAX_ENVELOPE_BYTES :: nat where "MAX_ENVELOPE_BYTES = 64 * 1024"

record event_envelope =
  ee_schema :: string
  ee_name :: string
  ee_payload :: jsval
  ee_meta :: jsobj

record emit_result =
  xm_published :: bool
  xm_eventId :: "string option"
  xm_topic :: "string option"
  xm_error :: "string option"

definition event_char :: "char \<Rightarrow> bool" where
  "event_char c = (let n = of_char c :: nat
     in 65 \<le> n \<and> n \<le> 90 \<or> 97 \<le> n \<and> n \<le> 122 \<or> 48 \<le> n \<and> n \<le> 57 \<or> c \<in> {CHR ''_'', CHR ''.'', CHR ''-''})"

definition event_segment :: "string \<Rightarrow> bool" where
  "event_segment seg =
     (if length seg = 0 then False
      else if seg = ''.'' \<or> seg = ''..'' then False
      else list_all event_char seg)"

definition isValidEventName :: "jsval \<Rightarrow> bool" where
  "isValidEventName name =
     (case name of
        JStr s \<Rightarrow>
          if length s < 1 \<or> length s > 128 then False
          else if hd s = CHR ''/'' \<or> last s = CHR ''/'' then False
          else list_all event_segment (js_split (CHR ''/'') s)
      | _ \<Rightarrow> False)"

record active_execution_context =
  ax_executionId :: string
  ax_causationId :: "string option"
  ax_automationId :: "string option"
  ax_triggerMeta :: "event_metadata option"
  ax_triggerTopic :: "string option"

definition trigger_depth :: "active_execution_context option \<Rightarrow> int" where
  "trigger_depth ctx = or_else (Option.bind (Option.bind ctx ax_triggerMeta) em_depth) 0"

definition emit_meta :: "active_execution_context option \<Rightarrow> string \<Rightarrow> string \<Rightarrow> ms \<Rightarrow> event_metadata" where
  "emit_meta ctx ruleId uuid now =
     newEventMetadata uuid now (SkAutomation, Some ruleId)
       \<lparr>eo_causationId = js_truthy (map_option em_eventId (Option.bind ctx ax_triggerMeta)),
        eo_correlationId = None, eo_ruleId = Some ruleId,
        eo_executionId = js_truthy (map_option ax_executionId ctx),
        eo_traceId = js_truthy (Option.bind (Option.bind ctx ax_triggerMeta) em_traceId),
        eo_depth = Some (trigger_depth ctx + 1), eo_timestamp = None\<rparr>"

definition envelope_json :: "event_envelope \<Rightarrow> jsval" where
  "envelope_json e = JObj [(''schema'', JStr (ee_schema e)), (''name'', JStr (ee_name e)), (''payload'', ee_payload e),
     (''meta'', JObj (ee_meta e))]"

definition refused_emit :: "string \<Rightarrow> emit_result \<times> (string \<times> string) list" where
  "refused_emit e = (\<lparr>xm_published = False, xm_eventId = None, xm_topic = None, xm_error = Some e\<rparr>, [])"

text \<open>\<open>emit\<close> returns its result and the messages handed to the broker; \<open>publish\<close> gives the error it throws.\<close>

definition event_emit ::
  "string \<Rightarrow> int \<Rightarrow> (string \<Rightarrow> string \<Rightarrow> string option) \<Rightarrow> active_execution_context option \<Rightarrow> jsval \<Rightarrow> jsval \<Rightarrow> string \<Rightarrow> ms
    \<Rightarrow> emit_result \<times> (string \<times> string) list" where
  "event_emit namespace maxDepth publish ctx eventName payload uuid now =
     (case js_truthy (Option.bind ctx ax_automationId) of
        None \<Rightarrow> refused_emit ''No active automation execution context''
      | Some ruleId \<Rightarrow>
          (case eventName of
             JStr name \<Rightarrow>
               if \<not> isValidEventName eventName then refused_emit ''Invalid event name''
               else if trigger_depth ctx + 1 > maxDepth then refused_emit ''Maximum automation-event depth reached''
               else let meta = emit_meta ctx ruleId uuid now;
                        envelope = \<lparr>ee_schema = AUTOMATION_EVENT_SCHEMA, ee_name = name, ee_payload = payload,
                                    ee_meta = meta_json meta\<rparr>
                    in (case json_stringify (envelope_json envelope) of
                          JsonText serialized \<Rightarrow>
                            if length serialized > MAX_ENVELOPE_BYTES then refused_emit ''Automation event too large''
                            else let topic = namespace @ ''/'' @ ruleId @ ''/'' @ name
                                 in (case publish topic serialized of
                                       None \<Rightarrow> (\<lparr>xm_published = True, xm_eventId = Some (em_eventId meta),
                                                 xm_topic = Some topic, xm_error = None\<rparr>, [(topic, serialized)])
                                     | Some err \<Rightarrow> (\<lparr>xm_published = False, xm_eventId = Some (em_eventId meta),
                                                 xm_topic = Some topic, xm_error = Some err\<rparr>, []))
                        | _ \<Rightarrow> refused_emit ''Payload is not JSON-serializable'')
           | _ \<Rightarrow> refused_emit ''Invalid event name''))"

definition parseAutomationEventEnvelope :: "string \<Rightarrow> event_envelope option" where
  "parseAutomationEventEnvelope raw =
     (case json_parse raw of
        Some (JObj ob) \<Rightarrow>
          if js_prop ob ''schema'' \<noteq> JStr AUTOMATION_EVENT_SCHEMA then None
          else (case js_prop ob ''name'' of
                  JStr name \<Rightarrow>
                    if \<not> isValidEventName (JStr name) then None
                    else (case js_prop ob ''meta'' of
                            JObj m \<Rightarrow>
                              (case (js_prop m ''eventId'', js_prop m ''timestamp'') of
                                 (JStr _, JNum _) \<Rightarrow>
                                   Some \<lparr>ee_schema = AUTOMATION_EVENT_SCHEMA, ee_name = name,
                                         ee_payload = js_prop ob ''payload'', ee_meta = m\<rparr>
                               | _ \<Rightarrow> None)
                          | _ \<Rightarrow> None)
                | _ \<Rightarrow> None)
      | _ \<Rightarrow> None)"

text \<open>The provenance of a write to shared state made by the script of an execution.\<close>

definition writeContext :: "string \<Rightarrow> active_execution_context option \<Rightarrow> write_context" where
  "writeContext ruleId ctx =
     \<lparr>wc_source = Some (FromAutomation ruleId (js_truthy (map_option ax_executionId ctx))),
      wc_traceId = js_truthy (Option.bind (Option.bind ctx ax_triggerMeta) em_traceId),
      wc_causationId = js_truthy (map_option ax_executionId ctx),
      wc_depth = Some (trigger_depth ctx + 1)\<rparr>"

text \<open>The host functions behind \<open>shared.get\<close>, \<open>shared.set\<close> and \<open>shared.delete\<close>; the value crosses as JSON text.\<close>

definition sandbox_shared_get :: "bool \<Rightarrow> string \<Rightarrow> string \<Rightarrow> shared_store \<Rightarrow> string option" where
  "sandbox_shared_get scoped bucket key s =
     (if scoped then None
      else case shared_get bucket key s of
             None \<Rightarrow> None
           | Some v \<Rightarrow> (case json_stringify v of JsonText t \<Rightarrow> Some t | _ \<Rightarrow> None))"

definition sandbox_shared_set ::
  "bool \<Rightarrow> string \<Rightarrow> active_execution_context option \<Rightarrow> string \<Rightarrow> string \<Rightarrow> string \<Rightarrow> ms \<Rightarrow> shared_store \<Rightarrow> bool \<times> shared_store" where
  "sandbox_shared_set scoped ruleId ctx bucket key valueJson now s =
     (if scoped then (False, s)
      else case json_parse valueJson of
             None \<Rightarrow> (False, s)
           | Some v \<Rightarrow>
               (case shared_set bucket key v (Some (writeContext ruleId ctx)) now s of
                  Inr r \<Rightarrow> r
                | Inl _ \<Rightarrow> (False, s)))"

definition sandbox_shared_delete ::
  "bool \<Rightarrow> string \<Rightarrow> active_execution_context option \<Rightarrow> string \<Rightarrow> string \<Rightarrow> ms \<Rightarrow> shared_store \<Rightarrow> bool \<times> shared_store" where
  "sandbox_shared_delete scoped ruleId ctx bucket key now s =
     (if scoped then (False, s) else shared_delete bucket key (Some (writeContext ruleId ctx)) now s)"

section \<open>The round trip of an event\<close>

lemma text_entry_prop: "js_prop (text_entry k v @ ob) j = (if j = k then (case v of Some t \<Rightarrow> JStr t | None \<Rightarrow> js_prop ob j) else js_prop ob j)"
  by (auto simp: text_entry_def js_prop_def split: option.splits)

lemma js_prop_Cons: "js_prop ((k, v) # ob) j = (if j = k then v else js_prop ob j)"
  by (simp add: js_prop_def)

lemma js_prop_Nil: "js_prop [] j = JUndefined"
  by (simp add: js_prop_def)

lemmas prop_reads = text_entry_prop text_entry_prop [of _ _ "[]", simplified] js_prop_Cons js_prop_Nil

lemma source_of_json: "source_of (JObj ((''kind'', JStr (source_kind_text k)) # text_entry ''id'' i)) = Some (k, i)"
proof -
  have "find (\<lambda>x. source_kind_text k = source_kind_text x) source_kinds = Some k"
    by (cases k) (simp_all add: source_kinds_def)
  then show ?thesis by (auto simp: source_of_def prop_reads text_prop_def split: option.splits)
qed

lemma meta_json_reads:
  "text_prop (meta_json m) ''eventId'' = Some (Some (em_eventId m))"
  "num_prop (meta_json m) ''timestamp'' = Some (Some (em_timestamp m))"
  "source_of (js_prop (meta_json m) ''source'') = Some (em_source m)"
  "text_prop (meta_json m) ''causationId'' = Some (em_causationId m)"
  "text_prop (meta_json m) ''correlationId'' = Some (em_correlationId m)"
  "text_prop (meta_json m) ''ruleId'' = Some (em_ruleId m)"
  "text_prop (meta_json m) ''executionId'' = Some (em_executionId m)"
  "text_prop (meta_json m) ''traceId'' = Some (em_traceId m)"
  "num_prop (meta_json m) ''depth'' = Some (em_depth m)"
  by (simp_all add: meta_json_def prop_reads text_prop_def num_prop_def source_of_json split: option.split)

lemma meta_of_json: "em_sharedState m = None \<Longrightarrow> meta_of (meta_json m) = Some m"
  by (simp add: meta_of_def meta_json_reads)

lemma plain_meta_json: "plain_json (JObj (meta_json m))"
  by (auto simp: meta_json_def text_entry_def split: option.splits)

lemma valid_name_segments:
  assumes "isValidEventName (JStr name)"
  shows "list_all event_segment (js_split (CHR ''/'') name)"
  using assms by (auto simp: isValidEventName_def split: if_splits)

lemma event_segment_plain: "event_segment seg \<Longrightarrow> CHR ''+'' \<notin> set seg \<and> CHR ''#'' \<notin> set seg \<and> seg \<noteq> [] \<and> seg \<notin> {''.'', ''..''}"
  by (auto simp: event_segment_def event_char_def Let_def list_all_iff split: if_splits)

lemma parse_envelope_json:
  assumes "plain_json payload" and "isValidEventName (JStr name)"
  shows "parseAutomationEventEnvelope (json_text (envelope_json
      \<lparr>ee_schema = AUTOMATION_EVENT_SCHEMA, ee_name = name, ee_payload = payload, ee_meta = meta_json m\<rparr>)) =
    Some \<lparr>ee_schema = AUTOMATION_EVENT_SCHEMA, ee_name = name, ee_payload = payload, ee_meta = meta_json m\<rparr>"
proof -
  let ?e = "\<lparr>ee_schema = AUTOMATION_EVENT_SCHEMA, ee_name = name, ee_payload = payload, ee_meta = meta_json m\<rparr>"
  have "plain_json (envelope_json ?e)" using assms(1) plain_meta_json [of m] by (simp add: envelope_json_def)
  then have "json_parse (json_text (envelope_json ?e)) = Some (envelope_json ?e)" by (rule json_roundtrip)
  moreover have "js_prop (meta_json m) ''eventId'' = JStr (em_eventId m)" "js_prop (meta_json m) ''timestamp'' = JNum (em_timestamp m)"
    by (simp_all add: meta_json_def prop_reads)
  ultimately show ?thesis using assms(2)
    by (simp add: parseAutomationEventEnvelope_def envelope_json_def prop_reads del: json_text.simps)
qed

lemma event_emit_eq:
  assumes "plain_json payload" and "Option.bind ctx ax_automationId = Some rid"
  shows "event_emit ns maxDepth publish ctx (JStr name) payload uuid now =
    (let m = emit_meta ctx rid uuid now; topic = ns @ ''/'' @ rid @ ''/'' @ name;
         text = json_text (envelope_json \<lparr>ee_schema = AUTOMATION_EVENT_SCHEMA, ee_name = name, ee_payload = payload, ee_meta = meta_json m\<rparr>)
     in if rid = [] then refused_emit ''No active automation execution context''
        else if \<not> isValidEventName (JStr name) then refused_emit ''Invalid event name''
        else if trigger_depth ctx + 1 > maxDepth then refused_emit ''Maximum automation-event depth reached''
        else if length text > MAX_ENVELOPE_BYTES then refused_emit ''Automation event too large''
        else case publish topic text of
               None \<Rightarrow> (\<lparr>xm_published = True, xm_eventId = Some uuid, xm_topic = Some topic, xm_error = None\<rparr>, [(topic, text)])
             | Some err \<Rightarrow> (\<lparr>xm_published = False, xm_eventId = Some uuid, xm_topic = Some topic, xm_error = Some err\<rparr>, []))"
proof -
  have t: "js_truthy (Some rid) = (if rid = [] then None else Some rid)" by (simp add: js_truthy_def)
  have i: "em_eventId (emit_meta ctx rid uuid now) = uuid" by (simp add: emit_meta_def newEventMetadata_def)
  have p: "json_stringify (envelope_json \<lparr>ee_schema = AUTOMATION_EVENT_SCHEMA, ee_name = name, ee_payload = payload,
      ee_meta = meta_json (emit_meta ctx rid uuid now)\<rparr>) = JsonText (json_text (envelope_json
      \<lparr>ee_schema = AUTOMATION_EVENT_SCHEMA, ee_name = name, ee_payload = payload, ee_meta = meta_json (emit_meta ctx rid uuid now)\<rparr>))"
    using assms(1) plain_meta_json by (intro plain_stringify) (simp add: envelope_json_def)
  show ?thesis
    unfolding event_emit_def assms(2) t jsval.case Let_def p json_out.case i
    by (cases "rid = []") (simp_all only: option.case if_True if_False simp_thms p i json_out.case)
qed

text \<open>
  C30. An event that \<open>emit\<close> reports as published is the one its receivers see. Exactly one message
  went to the broker; its topic consists of the levels of the reserved namespace, the id of the
  emitting rule taken from the execution context, and the levels of the event name, none of which
  is empty, a dot name or a wildcard; its text is bounded, and parsing it gives back the name and
  the payload with metadata that names the rule and execution, carries the trigger's trace and
  has a depth one above the trigger's and within the limit. Otherwise nothing was sent.
\<close>

theorem emitted_event_received:
  assumes "plain_json payload" and "CHR ''/'' \<notin> set rid" and "Option.bind ctx ax_automationId = Some rid"
  shows "case event_emit ns maxDepth publish ctx (JStr name) payload uuid now of (result, sent) \<Rightarrow>
    if xm_published result
    then \<exists>topic text m. sent = [(topic, text)] \<and> xm_topic result = Some topic \<and> xm_eventId result = Some uuid
      \<and> levels topic = levels ns @ [rid] @ levels name
      \<and> (\<forall>seg \<in> set (levels name). CHR ''+'' \<notin> set seg \<and> CHR ''#'' \<notin> set seg \<and> seg \<noteq> [] \<and> seg \<notin> {''.'', ''..''})
      \<and> length text \<le> 64 * 1024
      \<and> parseAutomationEventEnvelope text = Some \<lparr>ee_schema = AUTOMATION_EVENT_SCHEMA, ee_name = name, ee_payload = payload, ee_meta = meta_json m\<rparr>
      \<and> meta_of (meta_json m) = Some m \<and> em_eventId m = uuid \<and> em_source m = (SkAutomation, Some rid)
      \<and> em_depth m = Some (trigger_depth ctx + 1) \<and> trigger_depth ctx + 1 \<le> maxDepth
      \<and> em_traceId m = Some (or_else (js_truthy (Option.bind (Option.bind ctx ax_triggerMeta) em_traceId)) uuid)
    else sent = []"
proof -
  define m where "m = emit_meta ctx rid uuid now"
  define msg where "msg = json_text (envelope_json
    \<lparr>ee_schema = AUTOMATION_EVENT_SCHEMA, ee_name = name, ee_payload = payload, ee_meta = meta_json m\<rparr>)"
  define topic where "topic = ns @ ''/'' @ rid @ ''/'' @ name"
  note emit = event_emit_eq [OF assms(1,3), of ns maxDepth publish name uuid now, folded m_def topic_def, unfolded Let_def, folded msg_def]
  have "meta_of (meta_json m) = Some m"
    by (rule meta_of_json) (simp add: m_def emit_meta_def newEventMetadata_def)
  moreover have "em_eventId m = uuid" "em_source m = (SkAutomation, Some rid)" "em_depth m = Some (trigger_depth ctx + 1)"
    "em_traceId m = Some (or_else (js_truthy (Option.bind (Option.bind ctx ax_triggerMeta) em_traceId)) uuid)"
    by (simp_all add: m_def emit_meta_def newEventMetadata_def or_else_def)
  moreover have "levels topic = levels ns @ [rid] @ levels name"
    using js_split_append_sep [of "CHR ''/''" ns "rid @ ''/'' @ name"] js_split_append [OF assms(2), of name] by (simp add: topic_def)
  moreover have "\<forall>seg \<in> set (levels name). CHR ''+'' \<notin> set seg \<and> CHR ''#'' \<notin> set seg \<and> seg \<noteq> [] \<and> seg \<notin> {''.'', ''..''}"
    if "isValidEventName (JStr name)"
    using valid_name_segments [OF that] event_segment_plain by (simp add: list_all_iff)
  moreover note parse_envelope_json [OF assms(1), of name m, folded msg_def]
  ultimately show ?thesis unfolding emit MAX_ENVELOPE_BYTES_def refused_emit_def
    by (cases "publish topic msg") (auto intro!: exI [of _ m] simp: not_less)
qed

section \<open>Chains of causes\<close>

text \<open>
  An execution caused by another: its trigger is an event the other emitted, or a change the
  other wrote to shared state and that the engine dispatches (it ignores deeper ones).
\<close>

definition caused_by :: "active_execution_context \<Rightarrow> active_execution_context \<Rightarrow> bool" where
  "caused_by parent child \<longleftrightarrow>
     (\<exists>ns publish name payload uuid now m result sent msg.
        plain_json payload \<and> event_emit ns MAX_EVENT_DEPTH publish (Some parent) name payload uuid now = (result, sent)
        \<and> xm_published result \<and> sent = [(the (xm_topic result), msg)]
        \<and> Option.bind (parseAutomationEventEnvelope msg) (\<lambda>e. meta_of (ee_meta e)) = Some m \<and> ax_triggerMeta child = Some m)
     \<or> (\<exists>rid m. ax_triggerMeta child = Some m \<and> em_depth m = wc_depth (writeContext rid (Some parent))
        \<and> trigger_depth (Some child) \<le> MAX_EVENT_DEPTH)"

fun causal_chain :: "active_execution_context list \<Rightarrow> bool" where
  "causal_chain (p # c # xs) \<longleftrightarrow> caused_by p c \<and> causal_chain (c # xs)"
| "causal_chain _ \<longleftrightarrow> True"

lemma emit_needs_name: "xm_published (fst (event_emit ns d publish ctx v payload uuid now)) \<Longrightarrow> \<exists>name. v = JStr name"
  by (cases v) (auto simp: event_emit_def refused_emit_def split: option.splits)

lemma emit_needs_rule: "xm_published (fst (event_emit ns d publish ctx v payload uuid now)) \<Longrightarrow> \<exists>rid. Option.bind ctx ax_automationId = Some rid"
  by (cases "Option.bind ctx ax_automationId") (auto simp: event_emit_def refused_emit_def js_truthy_def)

lemma caused_by_depth:
  assumes "caused_by p c"
  shows "trigger_depth (Some c) = trigger_depth (Some p) + 1 \<and> trigger_depth (Some c) \<le> 16"
  using assms unfolding caused_by_def
proof (elim disjE exE conjE)
  fix ns publish v payload uuid now m result sent msg
  assume pl: "plain_json payload" and e: "event_emit ns MAX_EVENT_DEPTH publish (Some p) v payload uuid now = (result, sent)"
    and pub: "xm_published result" and sent: "sent = [(the (xm_topic result), msg)]"
    and m: "Option.bind (parseAutomationEventEnvelope msg) (\<lambda>e. meta_of (ee_meta e)) = Some m" and c: "ax_triggerMeta c = Some m"
  obtain name rid where v: "v = JStr name" and rid: "Option.bind (Some p) ax_automationId = Some rid"
    using emit_needs_name [of ns MAX_EVENT_DEPTH publish "Some p" v] emit_needs_rule [of ns MAX_EVENT_DEPTH publish "Some p" v] e pub
    by (metis fst_conv)
  let ?m = "emit_meta (Some p) rid uuid now"
  have d: "isValidEventName (JStr name)" "trigger_depth (Some p) + 1 \<le> 16"
    and msg: "msg = json_text (envelope_json \<lparr>ee_schema = AUTOMATION_EVENT_SCHEMA, ee_name = name, ee_payload = payload, ee_meta = meta_json ?m\<rparr>)"
    using e pub sent unfolding v event_emit_eq [OF pl rid] Let_def refused_emit_def MAX_EVENT_DEPTH_def
    by (auto simp del: json_text.simps split: if_splits option.splits)
  have "meta_of (meta_json ?m) = Some ?m" by (rule meta_of_json) (simp add: emit_meta_def newEventMetadata_def)
  then have "m = ?m" using m unfolding msg parse_envelope_json [OF pl d(1)] by simp
  then have "trigger_depth (Some c) = trigger_depth (Some p) + 1"
    using c by (simp add: trigger_depth_def [of "Some c"] emit_meta_def newEventMetadata_def or_else_def)
  with d(2) show ?thesis by simp
qed (auto simp: trigger_depth_def [of "Some c"] writeContext_def or_else_def MAX_EVENT_DEPTH_def)

lemma causal_chain_depth:
  "causal_chain (p # xs) \<Longrightarrow> trigger_depth (Some (last (p # xs))) = trigger_depth (Some p) + int (length xs)
     \<and> (xs \<noteq> [] \<longrightarrow> trigger_depth (Some (last (p # xs))) \<le> 16)"
proof (induction xs arbitrary: p)
  case (Cons c xs)
  then have "caused_by p c" "causal_chain (c # xs)" by simp_all
  with Cons.IH [of c] caused_by_depth [of p c] show ?case by (cases xs) auto
qed simp


section \<open>An emitted event\<close>

definition sample_context :: active_execution_context where
  "sample_context = \<lparr>ax_executionId = ''x1'', ax_causationId = None, ax_automationId = Some ''r1'', ax_triggerMeta = None,
     ax_triggerTopic = None\<rparr>"

definition sample_trigger :: active_execution_context where
  "sample_trigger = \<lparr>ax_executionId = ''x2'', ax_causationId = None, ax_automationId = Some ''r2'',
     ax_triggerMeta = Some (emit_meta (Some sample_context) ''r1'' ''u1'' 5), ax_triggerTopic = None\<rparr>"

lemma sample_valid_name: "isValidEventName (JStr ''tank/low'')" by code_simp

lemma sample_emit:
  "event_emit RESERVED_EVENT_NAMESPACE MAX_EVENT_DEPTH (\<lambda>_ _. None) (Some sample_context) (JStr ''tank/low'') JNull ''u1'' 5 =
     (\<lparr>xm_published = True, xm_eventId = Some ''u1'', xm_topic = Some ''aeolus/events/r1/tank/low'', xm_error = None\<rparr>,
      [(''aeolus/events/r1/tank/low'', json_text (envelope_json \<lparr>ee_schema = AUTOMATION_EVENT_SCHEMA, ee_name = ''tank/low'',
         ee_payload = JNull, ee_meta = meta_json (emit_meta (Some sample_context) ''r1'' ''u1'' 5)\<rparr>))])"
proof -
  have "length (json_text (envelope_json \<lparr>ee_schema = AUTOMATION_EVENT_SCHEMA, ee_name = ''tank/low'', ee_payload = JNull,
      ee_meta = meta_json (emit_meta (Some sample_context) ''r1'' ''u1'' 5)\<rparr>)) \<le> 400" by code_simp
  moreover have "trigger_depth (Some sample_context) = 0" by code_simp
  ultimately show ?thesis
    using event_emit_eq [of JNull "Some sample_context" "''r1''"] sample_valid_name
    by (simp add: sample_context_def RESERVED_EVENT_NAMESPACE_def MAX_EVENT_DEPTH_def MAX_ENVELOPE_BYTES_def Let_def
        del: json_text.simps)
qed

theorem emitted_event_received_witness:
  "\<exists>msg m. snd (event_emit RESERVED_EVENT_NAMESPACE MAX_EVENT_DEPTH (\<lambda>_ _. None) (Some sample_context) (JStr ''tank/low'') JNull ''u1'' 5)
      = [(''aeolus/events/r1/tank/low'', msg)]
     \<and> parseAutomationEventEnvelope msg = Some \<lparr>ee_schema = AUTOMATION_EVENT_SCHEMA, ee_name = ''tank/low'', ee_payload = JNull, ee_meta = meta_json m\<rparr>
     \<and> em_depth m = Some 1"
proof -
  have "Option.bind (Some sample_context) ax_automationId = Some ''r1''" "trigger_depth (Some sample_context) = 0" by code_simp+
  then show ?thesis
    using emitted_event_received [where payload = JNull and rid = "''r1''" and ctx = "Some sample_context" and ns = RESERVED_EVENT_NAMESPACE
        and maxDepth = MAX_EVENT_DEPTH and publish = "\<lambda>_ _. None" and name = "''tank/low''" and uuid = "''u1''" and now = 5]
    unfolding sample_emit by (auto simp del: json_text.simps)
qed

lemma sample_caused: "caused_by sample_context sample_trigger"
proof -
  have "meta_of (meta_json (emit_meta (Some sample_context) ''r1'' ''u1'' 5)) = Some (emit_meta (Some sample_context) ''r1'' ''u1'' 5)"
    by (rule meta_of_json) (simp add: emit_meta_def newEventMetadata_def)
  then show ?thesis unfolding caused_by_def
    using sample_emit parse_envelope_json [of JNull "''tank/low''" "emit_meta (Some sample_context) ''r1'' ''u1'' 5"] sample_valid_name
    by (intro disjI1 exI [of _ RESERVED_EVENT_NAMESPACE] exI [of _ "\<lambda>_ _. None"] exI [of _ "JStr ''tank/low''"] exI [of _ JNull]
        exI [of _ "''u1''"] exI [of _ "5 :: ms"] exI [of _ "emit_meta (Some sample_context) ''r1'' ''u1'' 5"])
      (simp add: sample_trigger_def del: json_text.simps)
qed


end
