(* ===== verification/Execution_Log.thy ===== *)
theory Execution_Log
  imports Execution_Gate
begin

text \<open>
  The history of executions (src/automations/execution-log.ts) and the recorder that writes it
  (execution-recorder.ts). The buffer is a list, oldest first; the table \<open>execution_history\<close>, when
  there is a database, is a list of rows in rowid order (replacing a row moves it to the end).
  Rows with the same timestamp are taken in rowid order; the lemmas about ordered reads are stated
  for different timestamps, where SQLite leaves no choice. Entries hold their actions as the
  JavaScript value that is written to the column as JSON text.
\<close>

section \<open>The log\<close>

datatype rule_kind = FormRule | ScriptRule

record log_entry =
  lg_id :: string
  lg_ruleId :: string
  lg_ruleName :: string
  lg_ruleType :: rule_kind
  lg_triggerTopic :: string
  lg_actions :: jsval
  lg_duration :: int
  lg_timestamp :: ms
  lg_success :: "bool option"
  lg_failureReason :: "string option"

record log_row =
  lr_id :: string
  lr_rule_id :: string
  lr_rule_name :: string
  lr_rule_type :: rule_kind
  lr_trigger_topic :: string
  lr_success :: int
  lr_failure_reason :: "string option"
  lr_duration_ms :: int
  lr_actions :: string
  lr_timestamp :: ms

record log_query_options =
  lq_ruleId :: "string option"
  lq_limit :: "nat option"
  lq_offset :: "nat option"
  lq_since :: "ms option"

record execution_log =
  xl_entries :: "log_entry list"
  xl_maxEntries :: nat
  xl_db :: "log_row list option"

definition entry_row :: "log_entry \<Rightarrow> log_row" where
  "entry_row e =
     \<lparr>lr_id = lg_id e, lr_rule_id = lg_ruleId e, lr_rule_name = lg_ruleName e, lr_rule_type = lg_ruleType e,
      lr_trigger_topic = lg_triggerTopic e,
      lr_success = (case lg_success e of None \<Rightarrow> 1 | Some b \<Rightarrow> if b then 1 else 0),
      lr_failure_reason = lg_failureReason e, lr_duration_ms = lg_duration e,
      lr_actions = json_text (lg_actions e), lr_timestamp = lg_timestamp e\<rparr>"

text \<open>\<open>JSON.parse\<close> of the column throws on a malformed text.\<close>

definition rowToEntry :: "log_row \<Rightarrow> log_entry option" where
  "rowToEntry row =
     (case json_parse (lr_actions row) of
        None \<Rightarrow> None
      | Some actions \<Rightarrow>
          Some \<lparr>lg_id = lr_id row, lg_ruleId = lr_rule_id row, lg_ruleName = lr_rule_name row,
                lg_ruleType = lr_rule_type row, lg_triggerTopic = lr_trigger_topic row, lg_actions = actions,
                lg_duration = lr_duration_ms row, lg_timestamp = lr_timestamp row,
                lg_success = Some (lr_success row = 1), lg_failureReason = lr_failure_reason row\<rparr>)"

definition log_push :: "log_entry \<Rightarrow> execution_log \<Rightarrow> execution_log" where
  "log_push entry s =
     s\<lparr>xl_entries := (if length (xl_entries s) \<ge> xl_maxEntries s then tl (xl_entries s) else xl_entries s) @ [entry],
       xl_db := map_option (\<lambda>rows. filter (\<lambda>r. lr_id r \<noteq> lg_id entry) rows @ [entry_row entry]) (xl_db s)\<rparr>"

definition newest_first :: "log_row list \<Rightarrow> log_row list" where
  "newest_first rows = sort_key (\<lambda>r. - lr_timestamp r) rows"

definition log_loadFromDb :: "execution_log \<Rightarrow> execution_log option" where
  "log_loadFromDb s =
     (case xl_db s of
        None \<Rightarrow> Some s
      | Some rows \<Rightarrow>
          map_option (\<lambda>es. s\<lparr>xl_entries := es\<rparr>)
            (those (map rowToEntry (rev (take (xl_maxEntries s) (newest_first rows))))))"

definition log_init :: "nat \<Rightarrow> log_row list option \<Rightarrow> execution_log option" where
  "log_init maxEntries db = log_loadFromDb \<lparr>xl_entries = [], xl_maxEntries = maxEntries, xl_db = db\<rparr>"

definition log_list :: "nat option \<Rightarrow> execution_log \<Rightarrow> log_entry list" where
  "log_list limit s = (case limit of Some n \<Rightarrow> take n (rev (xl_entries s)) | None \<Rightarrow> rev (xl_entries s))"

definition log_getByRuleId :: "string \<Rightarrow> execution_log \<Rightarrow> log_entry list" where
  "log_getByRuleId ruleId s = rev (filter (\<lambda>e. lg_ruleId e = ruleId) (xl_entries s))"

definition set_rule :: "string option \<Rightarrow> string option" where
  "set_rule r = (if r = Some '''' then None else r)"

definition log_query_db :: "log_query_options \<Rightarrow> log_row list \<Rightarrow> log_row list" where
  "log_query_db q rows =
     (let matching = newest_first (filter (\<lambda>r. (case set_rule (lq_ruleId q) of Some i \<Rightarrow> lr_rule_id r = i | None \<Rightarrow> True)
                       \<and> (case lq_since q of Some t \<Rightarrow> lr_timestamp r \<ge> t | None \<Rightarrow> True)) rows);
          from_offset = (case lq_offset q of Some n \<Rightarrow> drop n matching | None \<Rightarrow> matching)
      in case lq_limit q of Some n \<Rightarrow> take n from_offset | None \<Rightarrow> from_offset)"

definition log_query_memory :: "log_query_options \<Rightarrow> log_entry list \<Rightarrow> log_entry list" where
  "log_query_memory q es =
     (let r1 = (case set_rule (lq_ruleId q) of Some i \<Rightarrow> filter (\<lambda>e. lg_ruleId e = i) (rev es) | None \<Rightarrow> rev es);
          r2 = (case lq_since q of Some t \<Rightarrow> filter (\<lambda>e. lg_timestamp e \<ge> t) r1 | None \<Rightarrow> r1);
          offset = (case lq_offset q of Some n \<Rightarrow> n | None \<Rightarrow> 0);
          limit = (case lq_limit q of Some n \<Rightarrow> n | None \<Rightarrow> length r2)
      in take limit (drop offset r2))"

text \<open>With a database, an \<open>OFFSET\<close> clause without \<open>LIMIT\<close> is a syntax error of SQLite: the query throws.\<close>

definition log_query :: "log_query_options \<Rightarrow> execution_log \<Rightarrow> log_entry list option" where
  "log_query q s =
     (case xl_db s of
        None \<Rightarrow> Some (log_query_memory q (xl_entries s))
      | Some rows \<Rightarrow>
          if lq_offset q \<noteq> None \<and> lq_limit q = None then None
          else those (map rowToEntry (log_query_db q rows)))"

definition enforceRetention :: "int \<Rightarrow> ms \<Rightarrow> execution_log \<Rightarrow> execution_log" where
  "enforceRetention maxAgeDays now s =
     s\<lparr>xl_db := map_option (filter (\<lambda>r. lr_timestamp r \<ge> now - maxAgeDays * 24 * 60 * 60 * 1000)) (xl_db s)\<rparr>"

section \<open>The recorder\<close>

record record_rule =
  rr_id :: string
  rr_name :: "string option"
  rr_ruleType :: rule_kind
  rr_triggerTopic :: string

text \<open>What the recorder emits on the bus; audit lines are not modelled.\<close>

datatype recorder_event =
    ExecutionComplete string string bool int
  | AutomationCompleted automation_execution_result string string ms

definition toNonNegativeIntMs :: "int \<Rightarrow> int" where
  "toNonNegativeIntMs durationMs = (if durationMs \<le> 0 then 0 else durationMs)"

definition name_or :: "string option \<Rightarrow> string" where
  "name_or n = (case n of Some t \<Rightarrow> if t = '''' then ''Unnamed Rule'' else t | None \<Rightarrow> ''Unnamed Rule'')"

fun lifecycle_text :: "lifecycle_state \<Rightarrow> string" where
  "lifecycle_text REQUESTED = ''REQUESTED''"
| "lifecycle_text DISPATCHED = ''DISPATCHED''"
| "lifecycle_text ACKNOWLEDGED = ''ACKNOWLEDGED''"
| "lifecycle_text OBSERVED = ''OBSERVED''"
| "lifecycle_text FAILED = ''FAILED''"
| "lifecycle_text TIMED_OUT = ''TIMED_OUT''"
| "lifecycle_text STATE_MISMATCH = ''STATE_MISMATCH''"

definition action_json :: "string \<Rightarrow> exec_command_result \<Rightarrow> jsval" where
  "action_json topic cr =
     JObj ([(''type'', JStr ''command''), (''target'', JStr topic), (''success'', JBool (xr_success cr))]
       @ (case xr_error cr of Some e \<Rightarrow> if e = '''' then [] else [(''error'', JStr e)] | None \<Rightarrow> [])
       @ (case xr_lifecycleState cr of Some st \<Rightarrow> [(''lifecycleState'', JStr (lifecycle_text st))] | None \<Rightarrow> []))"

text \<open>
  A missing command result makes the assembly fail the execution with its index; reading its
  fields here would throw, so the recorder is given the results that are there.
\<close>

definition recorder_entry :: "record_rule \<Rightarrow> automation_execution_result \<Rightarrow> exec_command_result list \<Rightarrow> int \<Rightarrow> string \<Rightarrow> ms \<Rightarrow> log_entry" where
  "recorder_entry rule result results durationMs uuid now =
     \<lparr>lg_id = uuid, lg_ruleId = rr_id rule, lg_ruleName = name_or (rr_name rule), lg_ruleType = rr_ruleType rule,
      lg_triggerTopic = rr_triggerTopic rule, lg_actions = JArr (map (action_json (rr_triggerTopic rule)) results),
      lg_duration = toNonNegativeIntMs durationMs, lg_timestamp = now, lg_success = Some (er_success result),
      lg_failureReason = (if er_success result then None else er_failureReason result)\<rparr>"

text \<open>\<open>record\<close>: \<open>None\<close> when a result is missing, which throws before anything is written.\<close>

definition recorder_record ::
  "record_rule \<Rightarrow> automation_execution_result \<Rightarrow> int \<Rightarrow> string \<Rightarrow> ms \<Rightarrow> execution_log \<Rightarrow> (execution_log \<times> recorder_event list) option" where
  "recorder_record rule result durationMs uuid now s =
     (case those (er_commandResults result) of
        None \<Rightarrow> None
      | Some results \<Rightarrow>
          Some (log_push (recorder_entry rule result results durationMs uuid now) s,
            [ExecutionComplete (rr_id rule) (name_or (rr_name rule)) (er_success result) (toNonNegativeIntMs durationMs),
             AutomationCompleted result (rr_id rule) (name_or (rr_name rule)) now]))"

definition recordUnavailable :: "record_rule \<Rightarrow> int \<Rightarrow> string \<Rightarrow> string \<Rightarrow> ms \<Rightarrow> execution_log \<Rightarrow> execution_log" where
  "recordUnavailable rule durationMs reason uuid now s =
     log_push \<lparr>lg_id = uuid, lg_ruleId = rr_id rule, lg_ruleName = name_or (rr_name rule), lg_ruleType = rr_ruleType rule,
       lg_triggerTopic = rr_triggerTopic rule, lg_actions = JArr [], lg_duration = toNonNegativeIntMs durationMs,
       lg_timestamp = now, lg_success = Some False, lg_failureReason = Some reason\<rparr> s"

section \<open>The buffer and the table\<close>

text \<open>
  The pushes of a running system: fresh ids, increasing timestamps, an outcome, and actions that
  are JSON values.
\<close>

definition push_ok :: "log_entry \<Rightarrow> execution_log \<Rightarrow> bool" where
  "push_ok e s \<longleftrightarrow> plain_json (lg_actions e) \<and> lg_success e \<noteq> None
     \<and> (\<forall>rows. xl_db s = Some rows \<longrightarrow> (\<forall>r \<in> set rows. lr_id r \<noteq> lg_id e \<and> lr_timestamp r < lg_timestamp e))"

definition log_inv :: "nat \<Rightarrow> execution_log \<Rightarrow> bool" where
  "log_inv n s \<longleftrightarrow> xl_maxEntries s = n \<and>
     (\<exists>h. xl_db s = Some (map entry_row h) \<and> map (rowToEntry \<circ> entry_row) h = map Some h
        \<and> xl_entries s = drop (length h - n) h \<and> sorted_wrt (<) (map lg_timestamp h))"

lemma rowToEntry_entry_row: "plain_json (lg_actions e) \<Longrightarrow> lg_success e \<noteq> None \<Longrightarrow> rowToEntry (entry_row e) = Some e"
  by (cases "lg_success e") (auto simp: rowToEntry_def entry_row_def json_roundtrip simp del: json_text.simps)

lemma those_map_Some: "those (map Some xs) = Some xs"
  by (induction xs) auto

lemma log_push_inv:
  assumes "log_inv n s" "push_ok e s" "0 < n"
  shows "log_inv n (log_push e s)"
proof -
  obtain h where h: "xl_maxEntries s = n" "xl_db s = Some (map entry_row h)" "map (rowToEntry \<circ> entry_row) h = map Some h"
    "xl_entries s = drop (length h - n) h" "sorted_wrt (<) (map lg_timestamp h)"
    using assms(1) by (auto simp: log_inv_def)
  have fresh: "\<forall>x \<in> set h. lg_id x \<noteq> lg_id e \<and> lg_timestamp x < lg_timestamp e"
    using assms(2) h(2) by (auto simp: push_ok_def entry_row_def)
  then have "filter (\<lambda>r. lr_id r \<noteq> lg_id e) (map entry_row h) = map entry_row h"
    by (auto simp: filter_id_conv entry_row_def)
  then have "xl_db (log_push e s) = Some (map entry_row (h @ [e]))" using h(2) by (simp add: log_push_def)
  moreover have "xl_entries (log_push e s) = drop (length (h @ [e]) - n) (h @ [e])"
    using h(1,4) assms(3) by (cases "n \<le> length h") (auto simp: log_push_def Suc_diff_le drop_Suc tl_drop)
  moreover have "map (rowToEntry \<circ> entry_row) (h @ [e]) = map Some (h @ [e])"
    using h(3) assms(2) by (simp add: rowToEntry_entry_row push_ok_def)
  moreover have "sorted_wrt (<) (map lg_timestamp (h @ [e]))" using h(5) fresh by (auto simp: sorted_wrt_append)
  ultimately show ?thesis using h(1) unfolding log_inv_def by (intro conjI exI [of _ "h @ [e]"]) (simp_all add: log_push_def)
qed

definition log_empty :: "nat \<Rightarrow> execution_log" where
  "log_empty n = \<lparr>xl_entries = [], xl_maxEntries = n, xl_db = Some []\<rparr>"

interpretation exec_log: invariant_machine log_push push_ok "log_empty (Suc n)" "log_inv (Suc n)" for n
proof
  show "log_inv (Suc n) (log_empty (Suc n))" by (simp add: log_inv_def log_empty_def)
qed (rule log_push_inv, simp_all)

lemma newest_first_rev: "sorted_wrt (<) (map lr_timestamp rows) \<Longrightarrow> newest_first rows = rev rows"
proof -
  assume s: "sorted_wrt (<) (map lr_timestamp rows)"
  then have d: "distinct (map (\<lambda>r. - lr_timestamp r) rows)"
    using strict_sorted_iff [of "map lr_timestamp rows"] by (auto simp: distinct_map inj_on_def)
  have "sorted (map (\<lambda>r. - lr_timestamp r) (rev rows))"
    using s by (simp add: rev_map [symmetric] sorted_wrt_rev sorted_wrt_map) (auto elim: sorted_wrt_mono_rel [rotated])
  then have "rev rows = sort_key (\<lambda>r. - lr_timestamp r) (rev rows)" by (simp add: sort_key_id_if_sorted)
  also have "\<dots> = sort_key (\<lambda>r. - lr_timestamp r) rows"
    using d by (intro sort_key_eq_sort_key) (auto simp: distinct_map rev_map)
  finally show ?thesis by (simp add: newest_first_def)
qed

lemma entry_row_timestamps: "map lr_timestamp (map entry_row h) = map lg_timestamp h"
  by (simp add: entry_row_def)

lemma sorted_filter_wrt: "sorted_wrt P xs \<Longrightarrow> sorted_wrt P (filter Q xs)"
  by (induction xs) auto


definition sample_entry :: "string \<Rightarrow> ms \<Rightarrow> log_entry" where
  "sample_entry i t = recorder_entry \<lparr>rr_id = ''r'', rr_name = None, rr_ruleType = FormRule, rr_triggerTopic = ''a''\<rparr>
     \<lparr>er_executionId = ''x'', er_success = True, er_commandResults = [], er_failureReason = None\<rparr> [] 3 i t"

definition sample_log :: execution_log where
  "sample_log = log_push (sample_entry ''e2'' 20) (log_push (sample_entry ''e1'' 10) (log_empty (Suc 1)))"

lemma sample_log_reach: "reach log_push push_ok (log_empty (Suc 1)) sample_log"
  unfolding sample_log_def
  by (intro reach_step reach_init)
    (simp_all add: push_ok_def sample_entry_def recorder_entry_def log_empty_def log_push_def entry_row_def)


end
