(* ===== verification/Automation_Engine.thy ===== *)
theory Automation_Engine
  imports Automation_Events Execution_Log Permissions
begin

text \<open>
  The automation engine (src/automations/automation-engine.ts) with its rule registry
  (rule-registry.ts) and cron timers (cron-timer-manager.ts, cron-utils.ts). It listens for device
  state, automation events and shared-state changes, decides which rules they wake, submits one
  execution per rule to the gate, and turns each finished execution into a recorded result.

  A thunk handed to the gate is a number; \<open>en_thunks\<close> holds the closures, each with the handler
  that made it. Whatever the gate starts is started here at once, in order: it emits
  \<open>AUTOMATION_FIRED\<close> and opens a buffer for command results. What the script or the action does is
  a later step: results it pushes, and its outcome. The sandbox is an argument that says whether
  there is one. Rules are values with a condition that may throw; \<open>node-cron\<close>'s validation is a
  parameter. \<open>randomUUID()\<close> gives successive numbers. Log lines are not modelled.
\<close>

section \<open>Rules, contexts, state\<close>

datatype trigger_type = TrMqtt | TrCron | TrNone | TrSharedState

record event_context =
  ec_topic :: string
  ec_deviceId :: string
  ec_state :: jsobj
  ec_timestamp :: ms
  ec_meta :: "event_metadata option"

record automation_rule =
  al_id :: string
  al_topic :: string
  al_condition :: "(event_context \<Rightarrow> string + bool) option"
  al_name :: "string option"
  al_triggerType :: "trigger_type option"
  al_cronExpression :: "string option"
  al_compiled_js :: "string option"

text \<open>The handler that submitted an execution.\<close>

datatype handler = OnDevice string | OnEvent | OnSharedState shared_change | OnCron | OnFire

record engine_thunk =
  th_rule :: automation_rule
  th_context :: event_context
  th_handler :: handler
  th_deferred :: "nat option"

record running =
  rn_thunk :: engine_thunk
  rn_executionId :: string
  rn_start :: ms

datatype bus_event =
    AutomationFired string string string string string ms
  | RuleRegistered string string
  | RuleUnregistered string
  | Recorded recorder_event

record engine_deps =
  ed_sandbox :: bool
  ed_scopeResolver :: "(string \<Rightarrow> authorization_scope) option"
  ed_recorder :: bool
  ed_validCron :: "string \<Rightarrow> bool"

record engine =
  en_rules :: "(string, automation_rule) jsmap"
  en_timers :: "(string, automation_rule) jsmap"
  en_gate :: gate
  en_thunks :: "engine_thunk list"
  en_running :: "(nat, running) jsmap"
  en_collector :: "exec_command_result collector"
  en_bus :: "bus_event list"
  en_log :: execution_log
  en_resolved :: "(nat \<times> automation_execution_result) list"
  en_next :: nat

definition engine_init :: "int option \<Rightarrow> int option \<Rightarrow> execution_log \<Rightarrow> engine" where
  "engine_init ma mq xl =
     \<lparr>en_rules = [], en_timers = [], en_gate = gate_init ma mq, en_thunks = [], en_running = [], en_collector = [],
      en_bus = [], en_log = xl, en_resolved = [], en_next = 0\<rparr>"

definition uuid_of :: "nat \<Rightarrow> string" where "uuid_of n = show_nat n"

section \<open>Matching and admission\<close>

text \<open>The loop of \<open>topicMatches\<close> from index \<open>i\<close>: the pattern parts still to visit.\<close>

fun topic_loop :: "nat \<Rightarrow> string list \<Rightarrow> string list \<Rightarrow> bool" where
  "topic_loop i [] topicParts = (i = length topicParts)"
| "topic_loop i (part # rest) topicParts =
     (if part = ''#'' then True
      else if part = ''+'' then topic_loop (Suc i) rest topicParts
      else if i \<ge> length topicParts \<or> part \<noteq> topicParts ! i then False
      else topic_loop (Suc i) rest topicParts)"

definition topicMatches :: "string \<Rightarrow> string \<Rightarrow> bool" where
  "topicMatches pattern topic =
     (if pattern = '''' then False
      else if pattern = topic then True
      else topic_loop 0 (js_split (CHR ''/'') pattern) (js_split (CHR ''/'') topic))"

definition wakesOnTopics :: "automation_rule \<Rightarrow> bool" where
  "wakesOnTopics r \<longleftrightarrow> al_triggerType r \<noteq> Some TrSharedState"

definition admitDeviceEvent :: "engine_deps \<Rightarrow> string \<Rightarrow> string \<Rightarrow> bool" where
  "admitDeviceEvent deps ruleId deviceId =
     (case ed_scopeResolver deps of
        None \<Rightarrow> True
      | Some resolve \<Rightarrow>
          (case resolve ruleId of Unrestricted \<Rightarrow> True | Scoped tab deviceIds collections \<Rightarrow> deviceId \<in> set deviceIds))"

definition admitSharedStateChange :: "engine_deps \<Rightarrow> string \<Rightarrow> bool" where
  "admitSharedStateChange deps ruleId =
     (case ed_scopeResolver deps of
        None \<Rightarrow> True
      | Some resolve \<Rightarrow> (case resolve ruleId of Unrestricted \<Rightarrow> True | Scoped _ _ _ \<Rightarrow> False))"

text \<open>A condition that throws counts as false.\<close>

definition condition_holds :: "automation_rule \<Rightarrow> event_context \<Rightarrow> bool" where
  "condition_holds r ctx =
     (case al_condition r of None \<Rightarrow> True | Some c \<Rightarrow> (case c ctx of Inr b \<Rightarrow> b | Inl _ \<Rightarrow> False))"

fun sharedStateEventSource :: "shared_source \<Rightarrow> event_source_kind \<times> string option" where
  "sharedStateEventSource (FromAutomation i x) = (SkAutomation, Some i)"
| "sharedStateEventSource (FromApi u) = (SkRest, js_truthy u)"
| "sharedStateEventSource (FromSystem i) = (SkSystem, Some i)"

section \<open>Starting executions\<close>

definition emitFired :: "automation_rule \<Rightarrow> event_context \<Rightarrow> string \<Rightarrow> ms \<Rightarrow> bus_event" where
  "emitFired r ctx xid now = AutomationFired xid (al_id r) (name_or (al_name r)) (ec_topic ctx) (ec_deviceId ctx) now"

text \<open>The part of \<open>executeScriptRule\<close> and \<open>executeDirectRule\<close> before the first \<open>await\<close>.\<close>

definition start_execution :: "ms \<Rightarrow> nat \<Rightarrow> engine \<Rightarrow> engine" where
  "start_execution now h e =
     (let th = en_thunks e ! (g_started (en_gate e) ! h); xid = uuid_of (en_next e)
      in e\<lparr>en_next := Suc (en_next e),
           en_bus := en_bus e @ [emitFired (th_rule th) (th_context th) xid now],
           en_collector := collector_open xid (en_collector e),
           en_running := AList.update h \<lparr>rn_thunk = th, rn_executionId = xid, rn_start = now\<rparr> (en_running e)\<rparr>)"

text \<open>Everything the gate has started since its first \<open>k\<close> thunks.\<close>

definition start_new :: "nat \<Rightarrow> ms \<Rightarrow> engine \<Rightarrow> engine" where
  "start_new k now e = fold (start_execution now) [k..<length (g_started (en_gate e))] e"

definition submit_rule ::
  "automation_rule \<Rightarrow> event_context \<Rightarrow> handler \<Rightarrow> nat option \<Rightarrow> string \<Rightarrow> string option \<Rightarrow> ms \<Rightarrow> engine \<Rightarrow> engine \<times> admit_result" where
  "submit_rule r ctx handler deferred deviceId coalesceKey now e =
     (let req = \<lparr>rq_ruleId = al_id r, rq_deviceId = deviceId, rq_topic = ec_topic ctx, rq_coalesceKey = coalesceKey,
                 rq_execute = length (en_thunks e)\<rparr>;
          (g, res) = gate_submit req now (en_gate e);
          e1 = e\<lparr>en_thunks := en_thunks e @ [\<lparr>th_rule = r, th_context = ctx, th_handler = handler, th_deferred = deferred\<rparr>],
                 en_gate := g\<rparr>
      in (start_new (length (g_started (en_gate e))) now e1, res))"

definition listRules :: "engine \<Rightarrow> automation_rule list" where
  "listRules e = map snd (en_rules e)"

section \<open>Events\<close>

definition device_context :: "normalized_event \<Rightarrow> event_metadata option \<Rightarrow> event_context" where
  "device_context ev meta =
     \<lparr>ec_topic = ne_topic ev, ec_deviceId = ne_deviceId ev, ec_state = ne_state ev, ec_timestamp = ne_timestamp ev, ec_meta = meta\<rparr>"

definition evaluate_rule :: "engine_deps \<Rightarrow> normalized_event \<Rightarrow> event_metadata option \<Rightarrow> ms \<Rightarrow> automation_rule \<Rightarrow> engine \<Rightarrow> engine" where
  "evaluate_rule deps ev meta now r e =
     (let context = device_context ev meta
      in if \<not> wakesOnTopics r then e
         else if \<not> topicMatches (al_topic r) (ne_topic ev) then e
         else if \<not> admitDeviceEvent deps (al_id r) (ne_deviceId ev) then e
         else if \<not> condition_holds r context then e
         else fst (submit_rule r context (OnDevice (ne_deviceId ev)) None (ec_deviceId context)
                     (Some (al_id r @ '':'' @ ec_deviceId context @ '':'' @ ec_topic context)) now e))"

definition evaluate :: "engine_deps \<Rightarrow> normalized_event \<Rightarrow> event_metadata option \<Rightarrow> ms \<Rightarrow> engine \<Rightarrow> engine" where
  "evaluate deps ev meta now e = fold (evaluate_rule deps ev meta now) (listRules e) e"

text \<open>A payload that is not a plain object is wrapped.\<close>

definition state_of_value :: "jsval \<Rightarrow> jsobj" where
  "state_of_value v = (case v of JObj ob \<Rightarrow> ob | _ \<Rightarrow> [(''value'', v)])"

definition event_context_of :: "string \<Rightarrow> jsval \<Rightarrow> event_metadata \<Rightarrow> event_context" where
  "event_context_of topic payload meta =
     \<lparr>ec_topic = topic, ec_deviceId = '''', ec_state = state_of_value payload, ec_timestamp = em_timestamp meta, ec_meta = Some meta\<rparr>"

definition evaluate_event_rule :: "string \<Rightarrow> jsval \<Rightarrow> event_metadata \<Rightarrow> ms \<Rightarrow> automation_rule \<Rightarrow> engine \<Rightarrow> engine" where
  "evaluate_event_rule topic payload meta now r e =
     (let context = event_context_of topic payload meta
      in if \<not> wakesOnTopics r then e
         else if \<not> topicMatches (al_topic r) topic then e
         else if \<not> condition_holds r context then e
         else fst (submit_rule r context OnEvent None (em_eventId meta) None now e))"

definition evaluateAutomationEvent :: "string \<Rightarrow> jsval \<Rightarrow> event_metadata \<Rightarrow> ms \<Rightarrow> engine \<Rightarrow> engine" where
  "evaluateAutomationEvent topic payload meta now e = fold (evaluate_event_rule topic payload meta now) (listRules e) e"

definition shared_context :: "shared_change \<Rightarrow> string \<Rightarrow> event_context" where
  "shared_context change eventId =
     \<lparr>ec_topic = sharedStatePath (sg_bucket change) (sg_key change), ec_deviceId = '''',
      ec_state = (case sg_value change of Some v \<Rightarrow> state_of_value v | None \<Rightarrow> [(''value'', JUndefined)]),
      ec_timestamp = sg_timestamp change,
      ec_meta = Some \<lparr>em_eventId = eventId, em_timestamp = sg_timestamp change,
        em_source = sharedStateEventSource (sg_source change), em_causationId = js_truthy (sg_causationId change),
        em_correlationId = None, em_ruleId = None, em_executionId = None, em_traceId = js_truthy (sg_traceId change),
        em_depth = Some (or_else (sg_depth change) 0),
        em_sharedState = Some \<lparr>sx_bucket = sg_bucket change, sx_key = sg_key change, sx_deleted = sg_deleted change,
          sx_source = sg_source change\<rparr>\<rparr>\<rparr>"

definition evaluate_shared_rule :: "engine_deps \<Rightarrow> shared_change \<Rightarrow> string \<Rightarrow> ms \<Rightarrow> automation_rule \<Rightarrow> engine \<Rightarrow> engine" where
  "evaluate_shared_rule deps change eventId now r e =
     (let path = sharedStatePath (sg_bucket change) (sg_key change); context = shared_context change eventId
      in if al_triggerType r \<noteq> Some TrSharedState then e
         else if \<not> topicMatches (al_topic r) path then e
         else if \<not> admitSharedStateChange deps (al_id r) then e
         else if \<not> condition_holds r context then e
         else fst (submit_rule r context (OnSharedState change) None path
                     (Some (''shared-state:'' @ al_id r @ '':'' @ sg_bucket change @ '':'' @ sg_key change)) now e))"

definition evaluateSharedStateChange :: "engine_deps \<Rightarrow> shared_change \<Rightarrow> string \<Rightarrow> ms \<Rightarrow> engine \<Rightarrow> engine" where
  "evaluateSharedStateChange deps change eventId now e =
     (if or_else (sg_depth change) 0 > MAX_EVENT_DEPTH then e
      else fold (evaluate_shared_rule deps change eventId now) (listRules e) e)"

section \<open>Rules and timers\<close>

definition isValidCron :: "(string \<Rightarrow> bool) \<Rightarrow> string \<Rightarrow> bool" where
  "isValidCron validate expression = (if expression = '''' then False else validate expression)"

definition timer_stop :: "string \<Rightarrow> engine \<Rightarrow> engine" where
  "timer_stop ruleId e = e\<lparr>en_timers := AList.delete ruleId (en_timers e)\<rparr>"

definition timer_start :: "engine_deps \<Rightarrow> automation_rule \<Rightarrow> string \<Rightarrow> engine \<Rightarrow> engine" where
  "timer_start deps r expression e =
     (if \<not> isValidCron (ed_validCron deps) expression then e
      else let e1 = timer_stop (al_id r) e in e1\<lparr>en_timers := AList.update (al_id r) r (en_timers e1)\<rparr>)"

definition engine_register :: "engine_deps \<Rightarrow> automation_rule \<Rightarrow> engine \<Rightarrow> engine" where
  "engine_register deps r e =
     (let e1 = e\<lparr>en_rules := AList.update (al_id r) r (en_rules e),
                 en_bus := en_bus e @ [RuleRegistered (al_id r) (name_or (al_name r))]\<rparr>
      in case js_truthy (al_cronExpression r) of
           Some expression \<Rightarrow> if al_triggerType r = Some TrCron then timer_start deps r expression e1 else e1
         | None \<Rightarrow> e1)"

definition engine_unregister :: "string \<Rightarrow> engine \<Rightarrow> engine" where
  "engine_unregister ruleId e =
     (let e1 = timer_stop ruleId e
      in e1\<lparr>en_rules := AList.delete ruleId (en_rules e1), en_bus := en_bus e1 @ [RuleUnregistered ruleId]\<rparr>)"

definition engine_dispose :: "engine \<Rightarrow> engine" where
  "engine_dispose e = e\<lparr>en_timers := []\<rparr>"

definition name_or_id :: "automation_rule \<Rightarrow> string" where
  "name_or_id r = (case js_truthy (al_name r) of Some n \<Rightarrow> n | None \<Rightarrow> al_id r)"

definition cron_context :: "automation_rule \<Rightarrow> ms \<Rightarrow> event_context" where
  "cron_context r now =
     \<lparr>ec_topic = ''cron/'' @ name_or_id r, ec_deviceId = al_id r,
      ec_state = [(''ruleId'', JStr (al_id r)),
        (''cronExpression'', case al_cronExpression r of Some x \<Rightarrow> JStr x | None \<Rightarrow> JUndefined), (''firedAt'', JNum now)],
      ec_timestamp = now, ec_meta = None\<rparr>"

text \<open>The callback of a timer, with the rule it captured.\<close>

definition cron_fires :: "string \<Rightarrow> ms \<Rightarrow> engine \<Rightarrow> engine" where
  "cron_fires ruleId now e =
     (case map_of (en_timers e) ruleId of
        None \<Rightarrow> e
      | Some r \<Rightarrow> fst (submit_rule r (cron_context r now) OnCron None (al_id r) None now e))"

text \<open>
  \<open>fire\<close>: an unknown rule throws; a request the gate takes returns a promise, here the number of
  the deferred; any other answer is a failure result at once.
\<close>

datatype fire_result = FireThrows string | FirePromise nat | FireResult automation_execution_result

definition engine_fire :: "string \<Rightarrow> event_context \<Rightarrow> nat \<Rightarrow> ms \<Rightarrow> engine \<Rightarrow> engine \<times> fire_result" where
  "engine_fire ruleId context deferred now e =
     (case map_of (en_rules e) ruleId of
        None \<Rightarrow> (e, FireThrows (''Rule '' @ ruleId @ '' not found''))
      | Some r \<Rightarrow>
          (case submit_rule r context OnFire (Some deferred) (ec_deviceId context) None now e of
             (e1, res) \<Rightarrow>
               (e1, case res of
                      Admitted _ \<Rightarrow> FirePromise deferred
                    | Queued \<Rightarrow> FirePromise deferred
                    | _ \<Rightarrow> FireResult \<lparr>er_executionId = '''', er_success = False, er_commandResults = [],
                             er_failureReason = Some (if res = DroppedQueueFull then ''Execution gate: dropped (queue full)''
                               else ''Execution gate: suppressed (duplicate)'')\<rparr>)))"

section \<open>Finishing executions\<close>

text \<open>
  What the script or the action came to: the sandbox resolves with a result or nothing, an
  action returns a command result or nothing, or throws.
\<close>

datatype outcome =
    SandboxSucceeded
  | SandboxFailed "string option"
  | ActionReturned "exec_command_result option"
  | ActionThrew string

fun logic_of :: "outcome \<Rightarrow> logic_outcome" where
  "logic_of SandboxSucceeded = \<lparr>lo_ok = True, lo_error = None\<rparr>"
| "logic_of (SandboxFailed (Some e)) = \<lparr>lo_ok = False, lo_error = Some e\<rparr>"
| "logic_of (SandboxFailed None) = \<lparr>lo_ok = False, lo_error = Some ''Sandbox execution failed''\<rparr>"
| "logic_of (ActionReturned r) = \<lparr>lo_ok = True, lo_error = None\<rparr>"
| "logic_of (ActionThrew e) = \<lparr>lo_ok = False, lo_error = Some e\<rparr>"

definition is_script :: "engine_deps \<Rightarrow> automation_rule \<Rightarrow> bool" where
  "is_script deps r \<longleftrightarrow> js_truthy (al_compiled_js r) \<noteq> None \<and> ed_sandbox deps"

fun outcome_fits :: "bool \<Rightarrow> outcome \<Rightarrow> bool" where
  "outcome_fits script SandboxSucceeded = script"
| "outcome_fits script (SandboxFailed _) = script"
| "outcome_fits script (ActionReturned _) = (\<not> script)"
| "outcome_fits script (ActionThrew _) = (\<not> script)"

definition record_rule_of :: "engine_thunk \<Rightarrow> record_rule" where
  "record_rule_of th =
     \<lparr>rr_id = al_id (th_rule th), rr_name = js_truthy (al_name (th_rule th)),
      rr_ruleType = (if js_truthy (al_compiled_js (th_rule th)) \<noteq> None then ScriptRule else FormRule),
      rr_triggerTopic = ec_topic (th_context th)\<rparr>"

definition record_execution :: "engine_deps \<Rightarrow> running \<Rightarrow> automation_execution_result \<Rightarrow> ms \<Rightarrow> engine \<Rightarrow> engine" where
  "record_execution deps run result now e =
     (if \<not> ed_recorder deps then e
      else case recorder_record (record_rule_of (rn_thunk run)) result (now - rn_start run) (uuid_of (en_next e)) now (en_log e) of
             None \<Rightarrow> e
           | Some (xl, events) \<Rightarrow> e\<lparr>en_log := xl, en_bus := en_bus e @ map Recorded events, en_next := Suc (en_next e)\<rparr>)"

text \<open>
  The rest of an execution, once its script or action has settled: the returned result is
  collected, the buffer closed, the result assembled and recorded, the deferred of a manual fire
  resolved, the slot of the gate freed.
\<close>

definition settle_execution :: "engine_deps \<Rightarrow> nat \<Rightarrow> outcome \<Rightarrow> ms \<Rightarrow> engine \<Rightarrow> engine" where
  "settle_execution deps h outcome now e =
     (case map_of (en_running e) h of
        None \<Rightarrow> e
      | Some run \<Rightarrow>
          let xid = rn_executionId run;
              c1 = (case outcome of ActionReturned (Some r) \<Rightarrow> collector_push xid r (en_collector e) | _ \<Rightarrow> en_collector e);
              (results, c2) = collector_close xid c1;
              result = assembleExecutionResult xid (logic_of outcome) (map Some results);
              e1 = record_execution deps run result now (e\<lparr>en_collector := c2\<rparr>);
              e2 = e1\<lparr>en_resolved := en_resolved e1 @ (case th_deferred (rn_thunk run) of Some d \<Rightarrow> [(d, result)] | None \<Rightarrow> []),
                      en_running := AList.delete h (en_running e1),
                      en_gate := gate_complete h (en_gate e1)\<rparr>
          in start_new (length (g_started (en_gate e))) now e2)"

text \<open>A command issued inside an execution hands its result to the collector.\<close>

definition push_result :: "string \<Rightarrow> exec_command_result \<Rightarrow> engine \<Rightarrow> engine" where
  "push_result xid r e = e\<lparr>en_collector := collector_push xid r (en_collector e)\<rparr>"

section \<open>Runs\<close>

datatype engine_op =
    ERegister automation_rule
  | EUnregister string
  | EDevice normalized_event "event_metadata option" ms
  | EEvent string jsval event_metadata ms
  | EShared shared_change string ms
  | ECron string ms
  | EFire string event_context nat ms
  | EPush string exec_command_result
  | ESettle nat outcome ms
  | EDispose

fun engine_step :: "engine_deps \<Rightarrow> engine_op \<Rightarrow> engine \<Rightarrow> engine" where
  "engine_step deps (ERegister r) e = engine_register deps r e"
| "engine_step deps (EUnregister i) e = engine_unregister i e"
| "engine_step deps (EDevice ev meta now) e = evaluate deps ev meta now e"
| "engine_step deps (EEvent topic payload meta now) e = evaluateAutomationEvent topic payload meta now e"
| "engine_step deps (EShared change i now) e = evaluateSharedStateChange deps change i now e"
| "engine_step deps (ECron i now) e = cron_fires i now e"
| "engine_step deps (EFire i ctx d now) e = fst (engine_fire i ctx d now e)"
| "engine_step deps (EPush xid r) e = push_result xid r e"
| "engine_step deps (ESettle h outcome now) e = settle_execution deps h outcome now e"
| "engine_step deps EDispose e = engine_dispose e"

text \<open>
  A result is pushed from within a running execution; a script settles as a script and an action
  as an action; deferreds are fresh; a rule is registered when it is not registered.
\<close>

fun engine_ok :: "engine_deps \<Rightarrow> engine_op \<Rightarrow> engine \<Rightarrow> bool" where
  "engine_ok deps (EPush xid r) e = (xid \<in> (rn_executionId \<circ> snd) ` set (en_running e))"
| "engine_ok deps (ESettle h outcome now) e =
     (case map_of (en_running e) h of None \<Rightarrow> False | Some run \<Rightarrow> outcome_fits (is_script deps (th_rule (rn_thunk run))) outcome)"
| "engine_ok deps (EFire i ctx d now) e = (d \<notin> set (List.map_filter th_deferred (en_thunks e)))"
| "engine_ok deps (ERegister r) e = (al_id r \<notin> fst ` set (en_rules e))"
| "engine_ok deps _ e = True"

section \<open>Pattern matching\<close>

lemma topic_loop_beyond:
  "length ts \<le> i \<Longrightarrow> topic_loop i ps ts \<longleftrightarrow> (i = length ts \<and> ps = []) \<or> (\<exists>n rest. ps = replicate n ''+'' @ ''#'' # rest)"
proof (induction ps arbitrary: i)
  case (Cons p ps)
  show ?case
  proof (cases "p = ''+''")
    case True
    have "(\<exists>n rest. p # ps = replicate n ''+'' @ ''#'' # rest) \<longleftrightarrow> (\<exists>n rest. ps = replicate n ''+'' @ ''#'' # rest)"
    proof
      assume "\<exists>n rest. p # ps = replicate n ''+'' @ ''#'' # rest"
      then obtain n rest where "p # ps = replicate n ''+'' @ ''#'' # rest" by blast
      then show "\<exists>n rest. ps = replicate n ''+'' @ ''#'' # rest" using True by (cases n) auto
    next
      assume "\<exists>n rest. ps = replicate n ''+'' @ ''#'' # rest"
      then obtain n rest where "p # ps = replicate (Suc n) ''+'' @ ''#'' # rest" using True by auto
      then show "\<exists>n rest. p # ps = replicate n ''+'' @ ''#'' # rest" by blast
    qed
    then show ?thesis using Cons.IH [of "Suc i"] Cons.prems True by auto
  next
    case False
    have "p # ps = replicate n ''+'' @ ''#'' # rest \<longleftrightarrow> n = 0 \<and> p = ''#'' \<and> ps = rest" for n rest
      using False by (cases n) auto
    then show ?thesis using False Cons.prems by auto
  qed
qed auto

lemma match_loop_beyond: "length ts \<le> i \<Longrightarrow> match_loop i ps ts \<longleftrightarrow> (i = length ts \<and> ps = []) \<or> (\<exists>rest. ps = ''#'' # rest)"
  by (cases ps) auto

definition level_fits :: "string \<Rightarrow> string \<Rightarrow> bool" where
  "level_fits p l \<longleftrightarrow> p = ''+'' \<or> p = l"

text \<open>A pattern whose first levels fit the whole topic and that goes on with \<open>+\<close> levels before a \<open>#\<close>.\<close>

definition overlong :: "string list \<Rightarrow> string list \<Rightarrow> bool" where
  "overlong ps ts \<longleftrightarrow> (\<exists>pre n rest. ps = pre @ replicate (Suc n) ''+'' @ ''#'' # rest \<and> ''#'' \<notin> set pre \<and> list_all2 level_fits pre ts)"

lemma overlong_Nil: "overlong ps [] \<longleftrightarrow> (\<exists>n rest. ps = replicate (Suc n) ''+'' @ ''#'' # rest)"
  by (simp add: overlong_def)

lemma overlong_Cons: "overlong (p # ps) (t # ts) \<longleftrightarrow> p \<noteq> ''#'' \<and> level_fits p t \<and> overlong ps ts"
proof
  assume "overlong (p # ps) (t # ts)"
  then obtain pre n rest where *: "p # ps = pre @ replicate (Suc n) ''+'' @ ''#'' # rest" "''#'' \<notin> set pre" "list_all2 level_fits pre (t # ts)"
    unfolding overlong_def by blast
  then obtain q pre' where "pre = q # pre'" by (cases pre) auto
  with * show "p \<noteq> ''#'' \<and> level_fits p t \<and> overlong ps ts" unfolding overlong_def by auto
next
  assume *: "p \<noteq> ''#'' \<and> level_fits p t \<and> overlong ps ts"
  then obtain pre n rest where "ps = pre @ replicate (Suc n) ''+'' @ ''#'' # rest" "''#'' \<notin> set pre" "list_all2 level_fits pre ts"
    unfolding overlong_def by blast
  with * show "overlong (p # ps) (t # ts)" unfolding overlong_def
    by (intro exI [of _ "p # pre", where P = "\<lambda>x. \<exists>n rest. p # ps = x @ replicate (Suc n) ''+'' @ ''#'' # rest \<and> ''#'' \<notin> set x \<and> list_all2 level_fits x (t # ts)"])
      auto
qed

lemma overlong_empty: "\<not> overlong [] ts" by (auto simp: overlong_def)

lemma topic_loop_exact:
  "i \<le> length ts \<Longrightarrow> topic_loop i ps ts \<longleftrightarrow> match_loop i ps ts \<or> overlong ps (drop i ts)"
proof (induction ps arbitrary: i)
  case Nil
  then show ?case by (simp add: overlong_empty)
next
  case (Cons p ps)
  show ?case
  proof (cases "i = length ts")
    case True
    have e: "(\<exists>n rest. p # ps = replicate n ''+'' @ ''#'' # rest)
        \<longleftrightarrow> (\<exists>rest. p # ps = ''#'' # rest) \<or> (\<exists>n rest. p # ps = replicate (Suc n) ''+'' @ ''#'' # rest)"
    proof
      assume "\<exists>n rest. p # ps = replicate n ''+'' @ ''#'' # rest"
      then obtain n rest where "p # ps = replicate n ''+'' @ ''#'' # rest" by blast
      then show "(\<exists>rest. p # ps = ''#'' # rest) \<or> (\<exists>n rest. p # ps = replicate (Suc n) ''+'' @ ''#'' # rest)" by (cases n) auto
    next
      assume "(\<exists>rest. p # ps = ''#'' # rest) \<or> (\<exists>n rest. p # ps = replicate (Suc n) ''+'' @ ''#'' # rest)"
      then show "\<exists>n rest. p # ps = replicate n ''+'' @ ''#'' # rest" by (metis append_Nil replicate_0)
    qed
    show ?thesis using e topic_loop_beyond [of ts i "p # ps"] match_loop_beyond [of ts i "p # ps"] True
      by (simp add: overlong_Nil del: topic_loop.simps match_loop.simps)
  next
    case False
    then obtain t where t: "drop i ts = t # drop (Suc i) ts" "ts ! i = t" "i < length ts"
      using Cons.prems by (metis Cons_nth_drop_Suc le_neq_implies_less)
    then show ?thesis using Cons.IH [of "Suc i"] by (auto simp: overlong_Cons level_fits_def)
  qed
qed

text \<open>
  The engine matches rule patterns like the broker does, with one exception. On a topic
  that is not empty a pattern matches exactly when it matches as an MQTT filter, or when its
  first levels fit the whole topic and the rest consists of one or more single-level wildcards
  before a multi-level one: such a pattern asks for more levels than the topic has.
\<close>

lemma topicMatches_exact:
  assumes "topic \<noteq> []"
  shows "topicMatches pattern topic \<longleftrightarrow> matchesTopicFilter pattern topic \<or> overlong (levels pattern) (levels topic)"
proof -
  have "\<not> overlong [[]] ts" for ts by (auto simp: overlong_def Cons_eq_append_conv)
  then show ?thesis using topic_loop_exact [of 0 "levels topic" "levels pattern"]
    using assms by (auto simp: topicMatches_def matchesTopicFilter_def)
qed

section \<open>Which rules are woken\<close>

lemma start_execution_frame [simp]:
  "en_thunks (start_execution now h e) = en_thunks e" "en_gate (start_execution now h e) = en_gate e"
  "en_rules (start_execution now h e) = en_rules e" "en_timers (start_execution now h e) = en_timers e"
  "en_resolved (start_execution now h e) = en_resolved e" "en_log (start_execution now h e) = en_log e"
  by (simp_all add: start_execution_def Let_def)

lemma start_new_frame [simp]:
  "en_thunks (start_new k now e) = en_thunks e" "en_gate (start_new k now e) = en_gate e"
  "en_rules (start_new k now e) = en_rules e" "en_timers (start_new k now e) = en_timers e"
  "en_resolved (start_new k now e) = en_resolved e" "en_log (start_new k now e) = en_log e"
proof -
  have "en_thunks (fold (start_execution now) hs e) = en_thunks e \<and> en_gate (fold (start_execution now) hs e) = en_gate e
      \<and> en_rules (fold (start_execution now) hs e) = en_rules e \<and> en_timers (fold (start_execution now) hs e) = en_timers e
      \<and> en_resolved (fold (start_execution now) hs e) = en_resolved e \<and> en_log (fold (start_execution now) hs e) = en_log e" for hs
    by (induction hs arbitrary: e) simp_all
  then show "en_thunks (start_new k now e) = en_thunks e" "en_gate (start_new k now e) = en_gate e"
    "en_rules (start_new k now e) = en_rules e" "en_timers (start_new k now e) = en_timers e"
    "en_resolved (start_new k now e) = en_resolved e" "en_log (start_new k now e) = en_log e"
    by (simp_all add: start_new_def)
qed

lemma submit_rule_thunks:
  "en_thunks (fst (submit_rule r ctx hn df d ck now e)) =
     en_thunks e @ [\<lparr>th_rule = r, th_context = ctx, th_handler = hn, th_deferred = df\<rparr>]"
  "en_rules (fst (submit_rule r ctx hn df d ck now e)) = en_rules e"
  by (simp_all add: submit_rule_def Let_def case_prod_beta)

lemma fold_submits:
  assumes "\<And>r e. f r e = (if P r then fst (submit_rule r (ctx r) hn None (d r) (ck r) now e) else e)"
  shows "en_thunks (fold f rs e) = en_thunks e @ map (\<lambda>r. \<lparr>th_rule = r, th_context = ctx r, th_handler = hn, th_deferred = None\<rparr>) (filter P rs)"
  by (induction rs arbitrary: e) (simp_all add: assms submit_rule_thunks)

lemma admitDeviceEvent_iff:
  "admitDeviceEvent deps i d \<longleftrightarrow>
     (\<forall>resolve. ed_scopeResolver deps = Some resolve \<longrightarrow> resolve i = Unrestricted \<or> d \<in> set (sc_deviceIds (resolve i)) \<and> resolve i \<noteq> Unrestricted)"
  by (auto simp: admitDeviceEvent_def split: option.splits authorization_scope.splits)

lemma admitSharedStateChange_iff:
  "admitSharedStateChange deps i \<longleftrightarrow> (\<forall>resolve. ed_scopeResolver deps = Some resolve \<longrightarrow> resolve i = Unrestricted)"
  by (auto simp: admitSharedStateChange_def split: option.splits authorization_scope.splits)


section \<open>The invariant of the engine\<close>

fun fired_id :: "bus_event \<Rightarrow> string option" where
  "fired_id (AutomationFired xid _ _ _ _ _) = Some xid"
| "fired_id _ = None"

fun completed_id :: "bus_event \<Rightarrow> string option" where
  "completed_id (Recorded (AutomationCompleted res _ _ _)) = Some (er_executionId res)"
| "completed_id _ = None"

definition fired_ids :: "bus_event list \<Rightarrow> string list" where
  "fired_ids bus = List.map_filter fired_id bus"

definition completed_ids :: "bus_event list \<Rightarrow> string list" where
  "completed_ids bus = List.map_filter completed_id bus"

lemma ids_append [simp]:
  "fired_ids (xs @ ys) = fired_ids xs @ fired_ids ys" "completed_ids (xs @ ys) = completed_ids xs @ completed_ids ys"
  "fired_ids [] = []" "completed_ids [] = []"
  "fired_ids (b # ys) = (case fired_id b of Some i \<Rightarrow> i # fired_ids ys | None \<Rightarrow> fired_ids ys)"
  "completed_ids (b # ys) = (case completed_id b of Some i \<Rightarrow> i # completed_ids ys | None \<Rightarrow> completed_ids ys)"
  by (simp_all add: fired_ids_def completed_ids_def List.map_filter_def split: option.split)

text \<open>No execution completes before it has fired.\<close>

fun completes_fired :: "string set \<Rightarrow> bus_event list \<Rightarrow> bool" where
  "completes_fired f [] = True"
| "completes_fired f (b # bus) =
     ((\<forall>i. completed_id b = Some i \<longrightarrow> i \<in> f) \<and> completes_fired (f \<union> set_option (fired_id b)) bus)"

lemma completes_fired_append:
  "completes_fired f (xs @ ys) \<longleftrightarrow> completes_fired f xs \<and> completes_fired (f \<union> set (fired_ids xs)) ys"
  by (induction xs arbitrary: f) (auto simp: Un_assoc split: option.split)

definition running_ids :: "engine \<Rightarrow> string list" where
  "running_ids e = map (\<lambda>p. rn_executionId (snd p)) (en_running e)"

definition handler_ok :: "engine_deps \<Rightarrow> engine_thunk \<Rightarrow> bool" where
  "handler_ok deps th \<longleftrightarrow>
     (let r = th_rule th; ctx = th_context th
      in case th_handler th of
           OnDevice d \<Rightarrow> wakesOnTopics r \<and> topicMatches (al_topic r) (ec_topic ctx) \<and> admitDeviceEvent deps (al_id r) d
             \<and> ec_deviceId ctx = d \<and> condition_holds r ctx
         | OnEvent \<Rightarrow> wakesOnTopics r \<and> topicMatches (al_topic r) (ec_topic ctx) \<and> ec_deviceId ctx = '''' \<and> condition_holds r ctx
         | OnSharedState c \<Rightarrow> al_triggerType r = Some TrSharedState \<and> topicMatches (al_topic r) (sharedStatePath (sg_bucket c) (sg_key c))
             \<and> admitSharedStateChange deps (al_id r) \<and> or_else (sg_depth c) 0 \<le> MAX_EVENT_DEPTH \<and> ec_deviceId ctx = ''''
             \<and> condition_holds r ctx
         | OnCron \<Rightarrow> al_triggerType r = Some TrCron \<and> ec_deviceId ctx = al_id r
         | OnFire \<Rightarrow> True)"

text \<open>The part about identities: buffers, running executions, what the bus has seen.\<close>

definition ids_ok :: "engine_deps \<Rightarrow> engine \<Rightarrow> bool" where
  "ids_ok deps e \<longleftrightarrow>
     jm_wf (en_collector e) \<and> fst ` set (en_collector e) = set (running_ids e) \<and> distinct (running_ids e)
     \<and> (\<forall>i \<in> set (fired_ids (en_bus e)). \<exists>n < en_next e. i = uuid_of n)
     \<and> distinct (fired_ids (en_bus e)) \<and> set (running_ids e) \<subseteq> set (fired_ids (en_bus e))
     \<and> completes_fired {} (en_bus e)
     \<and> (ed_recorder deps \<longrightarrow> distinct (completed_ids (en_bus e)) \<and> set (completed_ids (en_bus e)) \<inter> set (running_ids e) = {}
          \<and> set (fired_ids (en_bus e)) = set (completed_ids (en_bus e)) \<union> set (running_ids e))"

definition thunks_ok :: "engine_deps \<Rightarrow> engine \<Rightarrow> bool" where
  "thunks_ok deps e \<longleftrightarrow> (\<forall>th \<in> set (en_thunks e). handler_ok deps th)
     \<and> jm_wf (en_rules e) \<and> jm_wf (en_timers e)
     \<and> (\<forall>i r. map_of (en_rules e) i = Some r \<longrightarrow> al_id r = i)
     \<and> (\<forall>i r. map_of (en_timers e) i = Some r \<longrightarrow> map_of (en_rules e) i = Some r \<and> al_triggerType r = Some TrCron)
     \<and> (\<forall>b \<in> set (en_bus e). \<forall>xid i n t d now. b = AutomationFired xid i n t d now \<longrightarrow>
          (\<exists>th \<in> set (en_thunks e). al_id (th_rule th) = i \<and> ec_topic (th_context th) = t \<and> ec_deviceId (th_context th) = d))"

text \<open>The first \<open>k\<close> thunks the gate has started are under way or finished; the others are about to be started.\<close>

definition engine_core :: "engine_deps \<Rightarrow> nat \<Rightarrow> engine \<Rightarrow> bool" where
  "engine_core deps k e \<longleftrightarrow>
     gate_good (en_gate e) \<and> slots.once (length (en_thunks e)) (en_gate e)
     \<and> {k..<length (g_started (en_gate e))} \<subseteq> gate_handles (en_gate e) \<and> k \<le> length (g_started (en_gate e))
     \<and> jm_wf (en_running e) \<and> fst ` set (en_running e) = {h \<in> gate_handles (en_gate e). h < k}
     \<and> (\<forall>h run. map_of (en_running e) h = Some run \<longrightarrow> rn_thunk run = en_thunks e ! (g_started (en_gate e) ! h))
     \<and> length (fired_ids (en_bus e)) = k
     \<and> ids_ok deps e \<and> thunks_ok deps e"

definition engine_inv :: "engine_deps \<Rightarrow> engine \<Rightarrow> bool" where
  "engine_inv deps e \<longleftrightarrow> engine_core deps (length (g_started (en_gate e))) e"

lemma uuid_inject: "uuid_of m = uuid_of n \<longleftrightarrow> m = n"
  by (metis nat_of_show_nat uuid_of_def)

lemma started_thunk:
  assumes "gate_good g" "slots.once n g" "h < length (g_started g)"
  shows "g_started g ! h < n"
  using slots.once_distinct [OF assms(2)] assms(3) nth_mem [OF assms(3)] by blast

section \<open>Starting and finishing keep the invariant\<close>

lemma dom_update: "fst ` set (AList.update k v m) = insert k (fst ` set m)"
  by (simp add: dom_update)

lemma fired_id_emit [simp]:
  "fired_id (emitFired r ctx xid now) = Some xid" "completed_id (emitFired r ctx xid now) = None"
  by (simp_all add: emitFired_def)

lemma ids_ok_start:
  assumes i: "ids_ok deps e" and h: "h \<notin> fst ` set (en_running e)"
  shows "ids_ok deps (start_execution now h e)"
proof -
  let ?x = "uuid_of (en_next e)"
  have new: "?x \<notin> set (fired_ids (en_bus e))"
    using i by (auto simp: ids_ok_def uuid_inject)
  have run: "?x \<notin> set (running_ids e)" using i new by (auto simp: ids_ok_def)
  have comp: "ed_recorder deps \<Longrightarrow> ?x \<notin> set (completed_ids (en_bus e))" using i new by (auto simp: ids_ok_def)
  have ids: "running_ids (start_execution now h e) = running_ids e @ [?x]"
    by (simp add: start_execution_def Let_def running_ids_def update_fresh [OF h])
  have bus: "fired_ids (en_bus (start_execution now h e)) = fired_ids (en_bus e) @ [?x]"
    "completed_ids (en_bus (start_execution now h e)) = completed_ids (en_bus e)"
    "completes_fired {} (en_bus (start_execution now h e)) = completes_fired {} (en_bus e)"
    by (simp_all add: start_execution_def Let_def completes_fired_append)
  have col: "jm_wf (en_collector (start_execution now h e))"
    "fst ` set (en_collector (start_execution now h e)) = insert ?x (set (running_ids e))"
    using i by (simp_all add: start_execution_def Let_def collector_open_def dom_update ids_ok_def)
  have nx: "en_next (start_execution now h e) = Suc (en_next e)" by (simp add: start_execution_def Let_def)
  show ?thesis using i new run comp col(1)
    unfolding ids_ok_def ids bus col(2) nx by (auto simp: less_Suc_eq)
qed

lemma thunks_ok_start:
  assumes t: "thunks_ok deps e" and h: "g_started (en_gate e) ! h < length (en_thunks e)"
  shows "thunks_ok deps (start_execution now h e)"
proof -
  have "en_thunks e ! (g_started (en_gate e) ! h) \<in> set (en_thunks e)" using h by simp
  moreover have "en_bus (start_execution now h e) = en_bus e @
    [emitFired (th_rule (en_thunks e ! (g_started (en_gate e) ! h))) (th_context (en_thunks e ! (g_started (en_gate e) ! h))) (uuid_of (en_next e)) now]"
    by (simp add: start_execution_def Let_def)
  ultimately show ?thesis using t unfolding thunks_ok_def by (auto simp: emitFired_def)
qed

lemma start_execution_core:
  assumes c: "engine_core deps k e" and k: "k < length (g_started (en_gate e))"
  shows "engine_core deps (Suc k) (start_execution now k e)"
proof -
  have core: "gate_good (en_gate e)" "slots.once (length (en_thunks e)) (en_gate e)"
    "{k..<length (g_started (en_gate e))} \<subseteq> gate_handles (en_gate e)"
    "jm_wf (en_running e)" "fst ` set (en_running e) = {h \<in> gate_handles (en_gate e). h < k}"
    "\<forall>h run. map_of (en_running e) h = Some run \<longrightarrow> rn_thunk run = en_thunks e ! (g_started (en_gate e) ! h)"
    "length (fired_ids (en_bus e)) = k" "ids_ok deps e" "thunks_ok deps e"
    using c by (simp_all add: engine_core_def)
  have fresh: "k \<notin> fst ` set (en_running e)" using core(5) by simp
  have hk: "k \<in> gate_handles (en_gate e)" using core(3) k by auto
  have "fst ` set (en_running (start_execution now k e)) = {h \<in> gate_handles (en_gate e). h < Suc k}"
    using hk by (auto simp: start_execution_def Let_def dom_update core(5) less_Suc_eq)
  moreover have "jm_wf (en_running (start_execution now k e))"
    using core(4) by (simp add: start_execution_def Let_def)
  moreover have "\<forall>h run. map_of (en_running (start_execution now k e)) h = Some run \<longrightarrow>
      rn_thunk run = en_thunks e ! (g_started (en_gate e) ! h)"
    using core(6) by (simp add: start_execution_def Let_def)
  moreover have "length (fired_ids (en_bus (start_execution now k e))) = Suc k"
    using core(7) by (simp add: start_execution_def Let_def)
  moreover have "{Suc k..<length (g_started (en_gate e))} \<subseteq> gate_handles (en_gate e)" using core(3) by auto
  ultimately show ?thesis using core(1,2) k ids_ok_start [OF core(8) fresh] thunks_ok_start [OF core(9)] started_thunk [OF core(1,2) k]
    by (simp add: engine_core_def)
qed

lemma start_new_induct:
  assumes core: "engine_core deps k e" and P: "P e"
    and step: "\<And>j e. engine_core deps j e \<Longrightarrow> j < length (g_started (en_gate e)) \<Longrightarrow> P e \<Longrightarrow> P (start_execution now j e)"
  shows "engine_inv deps (start_new k now e) \<and> P (start_new k now e)"
proof -
  have "engine_core deps (max k n) (fold (start_execution now) [k..<n] e) \<and> P (fold (start_execution now) [k..<n] e)"
    if "n \<le> length (g_started (en_gate e))" for n
    using that
  proof (induction n)
    case 0
    then show ?case using core P by simp
  next
    case (Suc n)
    let ?e = "fold (start_execution now) [k..<n] e"
    have g: "en_gate ?e = en_gate e" by (induction n) (simp_all add: fold_append)
    show ?case
    proof (cases "k \<le> n")
      case True
      then have "engine_core deps n ?e \<and> P ?e" using Suc by (simp add: max_absorb2)
      then have "engine_core deps (Suc n) (start_execution now n ?e) \<and> P (start_execution now n ?e)"
        using Suc.prems start_execution_core [of deps n ?e now] step [of n ?e] g by simp
      then show ?thesis using True by (simp add: max_absorb2)
    next
      case False
      then show ?thesis using Suc core P by (simp add: max_absorb1)
    qed
  qed
  moreover have "k \<le> length (g_started (en_gate e))" using core by (simp add: engine_core_def)
  ultimately have "engine_core deps (length (g_started (en_gate e))) (start_new k now e) \<and> P (start_new k now e)"
    by (metis max_absorb2 order_refl start_new_def)
  then show ?thesis by (simp add: engine_inv_def)
qed

text \<open>An execution under way keeps its place and its buffer while others start.\<close>

definition keeps :: "nat \<Rightarrow> running \<Rightarrow> exec_command_result list \<Rightarrow> engine \<Rightarrow> bool" where
  "keeps h run b e \<longleftrightarrow> map_of (en_running e) h = Some run \<and> map_of (en_collector e) (rn_executionId run) = Some b"

lemma running_fired:
  assumes "ids_ok deps e" "map_of (en_running e) h = Some run"
  shows "rn_executionId run \<in> set (running_ids e)" "rn_executionId run \<noteq> uuid_of (en_next e)"
proof -
  show r: "rn_executionId run \<in> set (running_ids e)" using map_of_SomeD [OF assms(2)] by (force simp: running_ids_def)
  then have "rn_executionId run \<in> set (fired_ids (en_bus e))" using assms(1) unfolding ids_ok_def by blast
  then obtain n where "n < en_next e" "rn_executionId run = uuid_of n" using assms(1) unfolding ids_ok_def by blast
  then show "rn_executionId run \<noteq> uuid_of (en_next e)" by (simp add: uuid_inject)
qed

lemma start_execution_keeps:
  assumes c: "engine_core deps j e" and "keeps h run b e"
  shows "keeps h run b (start_execution now j e)"
proof -
  have "h \<in> fst ` set (en_running e)" using assms(2) map_of_SomeD [of "en_running e" h run] by (force simp: keeps_def)
  moreover have "fst ` set (en_running e) = {h \<in> gate_handles (en_gate e). h < j}" using c by (simp add: engine_core_def)
  ultimately have "h \<noteq> j" by blast
  moreover have "rn_executionId run \<noteq> uuid_of (en_next e)"
    using assms running_fired(2) [of deps e h run] by (simp add: keeps_def engine_core_def)
  ultimately show ?thesis using assms(2) by (simp add: keeps_def start_execution_def Let_def collector_open_def)
qed

lemma start_new_keeps:
  "engine_core deps k e \<Longrightarrow> keeps h run b e \<Longrightarrow> engine_inv deps (start_new k now e) \<and> keeps h run b (start_new k now e)"
  by (rule start_new_induct) (auto intro: start_execution_keeps)

lemma start_new_core: "engine_core deps k e \<Longrightarrow> engine_inv deps (start_new k now e)"
  using start_new_induct [where P = "\<lambda>_. True"] by blast

lemma submit_rule_core:
  assumes inv: "engine_inv deps e" and ok: "handler_ok deps \<lparr>th_rule = r, th_context = ctx, th_handler = hn, th_deferred = df\<rparr>"
  obtains e1 where "fst (submit_rule r ctx hn df d ck now e) = start_new (length (g_started (en_gate e))) now e1"
    "engine_core deps (length (g_started (en_gate e))) e1" "en_running e1 = en_running e" "en_collector e1 = en_collector e"
proof -
  let ?th = "\<lparr>th_rule = r, th_context = ctx, th_handler = hn, th_deferred = df\<rparr>"
  let ?req = "\<lparr>rq_ruleId = al_id r, rq_deviceId = d, rq_topic = ec_topic ctx, rq_coalesceKey = ck, rq_execute = length (en_thunks e)\<rparr>"
  let ?g = "fst (gate_submit ?req now (en_gate e))"
  let ?k = "length (g_started (en_gate e))"
  let ?e1 = "e\<lparr>en_thunks := en_thunks e @ [?th], en_gate := ?g\<rparr>"
  have core: "gate_good (en_gate e)" "slots.once (length (en_thunks e)) (en_gate e)"
    "jm_wf (en_running e)" "fst ` set (en_running e) = {h \<in> gate_handles (en_gate e). h < ?k}"
    "\<forall>h run. map_of (en_running e) h = Some run \<longrightarrow> rn_thunk run = en_thunks e ! (g_started (en_gate e) ! h)"
    "length (fired_ids (en_bus e)) = ?k" "ids_ok deps e" "thunks_ok deps e"
    using inv by (simp_all add: engine_core_def engine_inv_def)
  obtain new where new: "g_started ?g = g_started (en_gate e) @ new"
    "gate_handles ?g = gate_handles (en_gate e) \<union> {?k..<?k + length new}"
    using slots.submit_starts [OF core(1), of "(?req, now)"] by auto
  have good: "gate_good ?g" using slots.good_submit [OF core(1), of "(?req, now)"] by simp
  have once: "slots.once (Suc (length (en_thunks e))) ?g"
    using slots.once_submit [OF core(1,2), of "(?req, now)"] by simp
  have old: "g_started ?g ! h = g_started (en_gate e) ! h \<and> (en_thunks e @ [?th]) ! (g_started (en_gate e) ! h) = en_thunks e ! (g_started (en_gate e) ! h)"
    if "map_of (en_running e) h = Some run" for h run
  proof -
    have "h < ?k" using that core(4) by (metis (mono_tags, lifting) map_of_SomeD fst_conv imageI mem_Collect_eq)
    then show ?thesis using started_thunk [OF core(1,2)] by (simp add: new(1) nth_append)
  qed
  have hs: "{h \<in> gate_handles ?g. h < ?k} = {h \<in> gate_handles (en_gate e). h < ?k}" using new(2) by auto
  have "engine_core deps ?k ?e1"
    unfolding engine_core_def
  proof (intro conjI)
    show "gate_good (en_gate ?e1)" "slots.once (length (en_thunks ?e1)) (en_gate ?e1)" using good once by simp_all
    show "{?k..<length (g_started (en_gate ?e1))} \<subseteq> gate_handles (en_gate ?e1)" "?k \<le> length (g_started (en_gate ?e1))"
      using new by auto
    show "jm_wf (en_running ?e1)" "length (fired_ids (en_bus ?e1)) = ?k" using core by simp_all
    show "fst ` set (en_running ?e1) = {h \<in> gate_handles (en_gate ?e1). h < ?k}" using core(4) hs by simp
    show "\<forall>h run. map_of (en_running ?e1) h = Some run \<longrightarrow> rn_thunk run = en_thunks ?e1 ! (g_started (en_gate ?e1) ! h)"
      using core(5) old by simp
    show "ids_ok deps ?e1" using core(7) by (simp add: ids_ok_def running_ids_def)
    show "thunks_ok deps ?e1" using core(8) ok by (auto simp: thunks_ok_def)
  qed
  then show ?thesis using that [of ?e1] by (simp add: submit_rule_def Let_def case_prod_beta)
qed

lemma submit_rule_inv:
  assumes "engine_inv deps e" and "handler_ok deps \<lparr>th_rule = r, th_context = ctx, th_handler = hn, th_deferred = df\<rparr>"
  shows "engine_inv deps (fst (submit_rule r ctx hn df d ck now e))"
  by (rule submit_rule_core [OF assms, of d ck now]) (simp add: start_new_core)

lemma submit_rule_keeps:
  assumes "engine_inv deps e" and "handler_ok deps \<lparr>th_rule = r, th_context = ctx, th_handler = hn, th_deferred = df\<rparr>"
    and "keeps h run b e"
  shows "keeps h run b (fst (submit_rule r ctx hn df d ck now e))"
proof (rule submit_rule_core [OF assms(1,2), of d ck now])
  fix e1 assume e1: "fst (submit_rule r ctx hn df d ck now e) = start_new (length (g_started (en_gate e))) now e1"
    "engine_core deps (length (g_started (en_gate e))) e1" "en_running e1 = en_running e" "en_collector e1 = en_collector e"
  then have "keeps h run b e1" using assms(3) by (simp add: keeps_def)
  then show ?thesis using e1 start_new_keeps by simp
qed

text \<open>What closing an execution does to the identities.\<close>

lemma delete_wf_dom: "fst ` set (AList.delete k m) = fst ` set m - {k}"
  by (auto simp: set_delete_jm)

lemma collector_push_wf: "jm_wf c \<Longrightarrow> jm_wf (collector_push xid r c)"
  by (simp add: collector_push_def split: option.split)

lemma collector_push_dom: "fst ` set (collector_push xid r c) = insert xid (fst ` set c)"
  by (simp add: collector_push_def dom_update split: option.split)

lemma running_ids_delete:
  assumes "jm_wf m" "map_of m h = Some run" "distinct (map (\<lambda>p. rn_executionId (snd p)) m)"
  shows "set (map (\<lambda>p. rn_executionId (snd p)) (AList.delete h m)) = set (map (\<lambda>p. rn_executionId (snd p)) m) - {rn_executionId run}"
    "distinct (map (\<lambda>p. rn_executionId (snd p)) (AList.delete h m))"
proof -
  have mem: "(h, run) \<in> set m" using assms(2) by (rule map_of_SomeD)
  have "rn_executionId (snd p) = rn_executionId run \<longleftrightarrow> fst p = h" if "p \<in> set m" for p
    using that mem assms(1,3) by (metis (no_types, lifting) distinct_map fst_conv inj_onD snd_conv)
  then show "set (map (\<lambda>p. rn_executionId (snd p)) (AList.delete h m)) = set (map (\<lambda>p. rn_executionId (snd p)) m) - {rn_executionId run}"
    by (auto simp: set_delete_jm)
  show "distinct (map (\<lambda>p. rn_executionId (snd p)) (AList.delete h m))"
    using assms(3) by (auto simp: AList.delete_eq distinct_map_filter)
qed

lemma assembleExecutionResult_fields [simp]:
  "er_executionId (assembleExecutionResult xid l rs) = xid" "er_commandResults (assembleExecutionResult xid l rs) = rs"
  by (simp_all add: assembleExecutionResult_def split: option.split)

text \<open>The results an execution ends with: those pushed, and the one its action returned.\<close>

definition collected :: "running \<Rightarrow> outcome \<Rightarrow> engine \<Rightarrow> exec_command_result list" where
  "collected run outcome e =
     (case map_of (en_collector e) (rn_executionId run) of Some b \<Rightarrow> b | None \<Rightarrow> [])
       @ (case outcome of ActionReturned (Some r) \<Rightarrow> [r] | _ \<Rightarrow> [])"

definition result_of :: "running \<Rightarrow> outcome \<Rightarrow> engine \<Rightarrow> automation_execution_result" where
  "result_of run outcome e =
     assembleExecutionResult (rn_executionId run) (logic_of outcome) (map Some (collected run outcome e))"

lemma record_execution_eq:
  "record_execution deps run (result_of run outcome e0) now e =
     (if ed_recorder deps
      then e\<lparr>en_log := log_push (recorder_entry (record_rule_of (rn_thunk run)) (result_of run outcome e0)
                (collected run outcome e0) (now - rn_start run) (uuid_of (en_next e)) now) (en_log e),
              en_bus := en_bus e @
                [Recorded (ExecutionComplete (al_id (th_rule (rn_thunk run))) (name_or (js_truthy (al_name (th_rule (rn_thunk run)))))
                   (er_success (result_of run outcome e0)) (toNonNegativeIntMs (now - rn_start run))),
                 Recorded (AutomationCompleted (result_of run outcome e0) (al_id (th_rule (rn_thunk run)))
                   (name_or (js_truthy (al_name (th_rule (rn_thunk run))))) now)],
              en_next := Suc (en_next e)\<rparr>
      else e)"
proof -
  have "er_commandResults (result_of run outcome e0) = map Some (collected run outcome e0)" by (simp add: result_of_def)
  then show ?thesis
    by (simp add: record_execution_def recorder_record_def those_map_Some record_rule_of_def)
qed

text \<open>The state between the end of an execution and the start of those its slot lets in.\<close>

definition settled :: "engine_deps \<Rightarrow> nat \<Rightarrow> running \<Rightarrow> outcome \<Rightarrow> ms \<Rightarrow> engine \<Rightarrow> engine" where
  "settled deps h run outcome now e =
     (let e1 = record_execution deps run (result_of run outcome e) now
                 (e\<lparr>en_collector := AList.delete (rn_executionId run) (en_collector e)\<rparr>)
      in e1\<lparr>en_resolved := en_resolved e1 @ (case th_deferred (rn_thunk run) of Some d \<Rightarrow> [(d, result_of run outcome e)] | None \<Rightarrow> []),
            en_running := AList.delete h (en_running e1), en_gate := gate_complete h (en_gate e1)\<rparr>)"

lemma collector_push_close:
  "collector_close xid (collector_push xid r c) =
     ((case map_of c xid of Some b \<Rightarrow> b | None \<Rightarrow> []) @ [r], AList.delete xid c)"
  by (simp add: collector_close_def collector_push_def delete_update_same split: option.split)

lemma settle_settled:
  assumes "map_of (en_running e) h = Some run"
  shows "settle_execution deps h outcome now e = start_new (length (g_started (en_gate e))) now (settled deps h run outcome now e)"
proof -
  have "collector_close (rn_executionId run)
      (case outcome of ActionReturned (Some r) \<Rightarrow> collector_push (rn_executionId run) r (en_collector e) | _ \<Rightarrow> en_collector e) =
    (collected run outcome e, AList.delete (rn_executionId run) (en_collector e))"
    by (simp add: collected_def collector_push_close collector_close_def [of _ "en_collector e"] split: outcome.split option.split)
  then show ?thesis using assms
    by (simp add: settle_execution_def settled_def Let_def result_of_def cong: option.case_cong)
qed

lemma settled_fields [simp]:
  "en_running (settled deps h run outcome now e) = AList.delete h (en_running e)"
  "en_gate (settled deps h run outcome now e) = gate_complete h (en_gate e)"
  "en_thunks (settled deps h run outcome now e) = en_thunks e"
  "en_rules (settled deps h run outcome now e) = en_rules e" "en_timers (settled deps h run outcome now e) = en_timers e"
  "en_collector (settled deps h run outcome now e) = AList.delete (rn_executionId run) (en_collector e)"
  by (simp_all add: settled_def record_execution_eq Let_def)

lemma settled_bus:
  "\<exists>n. en_bus (settled deps h run outcome now e) = en_bus e @
     (if ed_recorder deps then [Recorded (ExecutionComplete (al_id (th_rule (rn_thunk run))) n (er_success (result_of run outcome e))
          (toNonNegativeIntMs (now - rn_start run))),
        Recorded (AutomationCompleted (result_of run outcome e) (al_id (th_rule (rn_thunk run))) n now)] else [])"
  "en_next e \<le> en_next (settled deps h run outcome now e)"
  by (auto simp: settled_def record_execution_eq Let_def)

lemma result_of_id [simp]: "er_executionId (result_of run outcome e) = rn_executionId run"
  by (simp add: result_of_def)

lemma ids_ok_settled:
  assumes i: "ids_ok deps e" and wf: "jm_wf (en_running e)" and run: "map_of (en_running e) h = Some run"
  shows "ids_ok deps (settled deps h run outcome now e)"
proof -
  let ?e = "settled deps h run outcome now e" and ?x = "rn_executionId run"
  have dist: "distinct (map (\<lambda>p. rn_executionId (snd p)) (en_running e))" using i by (simp add: ids_ok_def running_ids_def)
  have ids: "set (running_ids ?e) = set (running_ids e) - {?x}" "distinct (running_ids ?e)"
    using running_ids_delete [OF wf run dist] by (simp_all add: running_ids_def)
  have x: "?x \<in> set (running_ids e)" using map_of_SomeD [OF run] by (force simp: running_ids_def)
  have fired: "?x \<in> set (fired_ids (en_bus e))" using i x by (auto simp: ids_ok_def)
  have bus: "fired_ids (en_bus ?e) = fired_ids (en_bus e)"
    "completed_ids (en_bus ?e) = completed_ids (en_bus e) @ (if ed_recorder deps then [?x] else [])"
    "completes_fired {} (en_bus ?e) = completes_fired {} (en_bus e)"
    using settled_bus(1) [of deps h run outcome now e] fired by (auto simp: completes_fired_append)
  have nx: "i \<in> set (fired_ids (en_bus e)) \<Longrightarrow> \<exists>n < en_next ?e. i = uuid_of n" for i
    using i settled_bus(2) [of e deps h run outcome now] unfolding ids_ok_def by (meson less_le_trans)
  have col: "jm_wf (en_collector ?e)" "fst ` set (en_collector ?e) = set (running_ids e) - {?x}"
    using i by (simp_all add: ids_ok_def delete_wf_dom)
  show ?thesis using i ids(2) x nx col(1) unfolding ids_ok_def bus ids(1) col(2) by (auto split: if_splits)
qed

lemma thunks_ok_settled:
  assumes "thunks_ok deps e" shows "thunks_ok deps (settled deps h run outcome now e)"
  using assms settled_bus(1) [of deps h run outcome now e] by (auto simp: thunks_ok_def split: if_splits)

lemma settled_core:
  assumes inv: "engine_inv deps e" and Some: "map_of (en_running e) h = Some run"
  shows "engine_core deps (length (g_started (en_gate e))) (settled deps h run outcome now e)"
proof -
  let ?k = "length (g_started (en_gate e))" and ?e = "settled deps h run outcome now e"
  have core: "gate_good (en_gate e)" "slots.once (length (en_thunks e)) (en_gate e)"
    "jm_wf (en_running e)" "fst ` set (en_running e) = {h \<in> gate_handles (en_gate e). h < ?k}"
    "\<forall>h run. map_of (en_running e) h = Some run \<longrightarrow> rn_thunk run = en_thunks e ! (g_started (en_gate e) ! h)"
    "length (fired_ids (en_bus e)) = ?k" "ids_ok deps e" "thunks_ok deps e"
    using inv by (simp_all add: engine_core_def engine_inv_def)
  have h: "h \<in> gate_handles (en_gate e)" using map_of_SomeD [OF Some] core(4) by force
  obtain new where new: "g_started (gate_complete h (en_gate e)) = g_started (en_gate e) @ new"
    "gate_handles (gate_complete h (en_gate e)) = (gate_handles (en_gate e) - {h}) \<union> {?k..<?k + length new}"
    using slots.complete_starts [OF core(1) h] by auto
  have hs: "{j \<in> gate_handles (gate_complete h (en_gate e)). j < ?k} = {j \<in> gate_handles (en_gate e). j < ?k} - {h}"
    using new(2) by auto
  have old: "(g_started (en_gate e) @ new) ! j = g_started (en_gate e) ! j" if "map_of (en_running e) j = Some r" for j r
    using map_of_SomeD [OF that] core(4) by (force simp: nth_append)
  show "engine_core deps ?k ?e"
    unfolding engine_core_def
  proof (intro conjI)
    show "gate_good (en_gate ?e)" using slots.good_complete [OF core(1)] by simp
    show "slots.once (length (en_thunks ?e)) (en_gate ?e)" using slots.once_complete [OF core(1) h core(2)] by simp
    show "{?k..<length (g_started (en_gate ?e))} \<subseteq> gate_handles (en_gate ?e)" "?k \<le> length (g_started (en_gate ?e))"
      using new by auto
    show "jm_wf (en_running ?e)" using core(3) by simp
    show "fst ` set (en_running ?e) = {j \<in> gate_handles (en_gate ?e). j < ?k}" using hs core(4) by (simp add: delete_wf_dom)
    show "\<forall>j r. map_of (en_running ?e) j = Some r \<longrightarrow> rn_thunk r = en_thunks ?e ! (g_started (en_gate ?e) ! j)"
      using core(5) old new(1) by (simp split: if_splits)
    show "length (fired_ids (en_bus ?e)) = ?k" using core(6) settled_bus(1) [of deps h run outcome now e] by auto
    show "ids_ok deps ?e" by (rule ids_ok_settled [OF core(7,3) Some])
    show "thunks_ok deps ?e" by (rule thunks_ok_settled [OF core(8)])
  qed
qed

lemma settle_execution_inv:
  assumes inv: "engine_inv deps e"
  shows "engine_inv deps (settle_execution deps h outcome now e)"
proof (cases "map_of (en_running e) h")
  case None
  then show ?thesis using inv by (simp add: settle_execution_def)
next
  case (Some run)
  then show ?thesis using start_new_core [OF settled_core [OF inv]] settle_settled [OF Some] by simp
qed

section \<open>Every operation keeps the invariant\<close>

lemma engine_inv_frame:
  assumes "engine_inv deps e" "en_gate e' = en_gate e" "en_thunks e' = en_thunks e" "en_running e' = en_running e"
    "en_next e' = en_next e" "jm_wf (en_collector e')" "fst ` set (en_collector e') = fst ` set (en_collector e)"
    "fired_ids (en_bus e') = fired_ids (en_bus e)" "completed_ids (en_bus e') = completed_ids (en_bus e)"
    "completes_fired {} (en_bus e') = completes_fired {} (en_bus e)" "thunks_ok deps e'"
  shows "engine_inv deps e'"
  using assms by (simp add: engine_inv_def engine_core_def ids_ok_def running_ids_def)

lemma engine_inv_thunks: "engine_inv deps e \<Longrightarrow> thunks_ok deps e" "engine_inv deps e \<Longrightarrow> ids_ok deps e"
  by (simp_all add: engine_inv_def engine_core_def)

lemma engine_inv_wf: "engine_inv deps e \<Longrightarrow> jm_wf (en_collector e)"
  by (simp add: engine_inv_def engine_core_def ids_ok_def)

lemma engine_register_inv:
  assumes inv: "engine_inv deps e" and new: "al_id r \<notin> fst ` set (en_rules e)"
  shows "engine_inv deps (engine_register deps r e)"
proof (rule engine_inv_frame [OF inv])
  have none: "map_of (en_rules e) (al_id r) = None" using new by (simp add: map_of_eq_None_iff)
  show "thunks_ok deps (engine_register deps r e)"
    using engine_inv_thunks(1) [OF inv] none
    by (auto simp: thunks_ok_def engine_register_def timer_start_def timer_stop_def Let_def simp del: map_of_eq_Some_iff split: option.split if_splits)
qed (use engine_inv_wf [OF inv] in \<open>auto simp: engine_register_def timer_start_def timer_stop_def Let_def completes_fired_append split: option.split\<close>)

lemma engine_unregister_inv:
  assumes inv: "engine_inv deps e"
  shows "engine_inv deps (engine_unregister i e)"
proof (rule engine_inv_frame [OF inv])
  show "thunks_ok deps (engine_unregister i e)"
    using engine_inv_thunks(1) [OF inv]
    by (auto simp: thunks_ok_def engine_unregister_def timer_stop_def Let_def split: if_splits)
qed (use engine_inv_wf [OF inv] in \<open>simp_all add: engine_unregister_def timer_stop_def Let_def completes_fired_append\<close>)

lemma engine_dispose_inv:
  assumes inv: "engine_inv deps e" shows "engine_inv deps (engine_dispose e)"
proof (rule engine_inv_frame [OF inv])
  show "thunks_ok deps (engine_dispose e)"
    using engine_inv_thunks(1) [OF inv] by (auto simp: thunks_ok_def engine_dispose_def)
qed (use engine_inv_wf [OF inv] in \<open>simp_all add: engine_dispose_def\<close>)

lemma push_result_inv:
  assumes inv: "engine_inv deps e" and x: "xid \<in> (rn_executionId \<circ> snd) ` set (en_running e)"
  shows "engine_inv deps (push_result xid r e)"
proof (rule engine_inv_frame [OF inv])
  show "thunks_ok deps (push_result xid r e)"
    using engine_inv_thunks(1) [OF inv] by (simp add: thunks_ok_def push_result_def)
  have "xid \<in> fst ` set (en_collector e)" using x engine_inv_thunks(2) [OF inv] by (auto simp: ids_ok_def running_ids_def)
  then show "fst ` set (en_collector (push_result xid r e)) = fst ` set (en_collector e)"
    by (auto simp: push_result_def collector_push_dom)
qed (use engine_inv_wf [OF inv] in \<open>simp_all add: push_result_def collector_push_wf\<close>)

text \<open>The steps that only submit keep whatever a submission keeps.\<close>

lemma fold_submits_keep:
  assumes "\<And>r e. f r e = (if P r then fst (submit_rule r (ctx r) hn None (d r) (ck r) now e) else e)"
    and "\<And>r e. P r \<Longrightarrow> Q e \<Longrightarrow> Q (fst (submit_rule r (ctx r) hn None (d r) (ck r) now e))" and "Q e"
  shows "Q (fold f rs e)"
  using assms(3) by (induction rs arbitrary: e) (simp_all add: assms(1,2))

lemma submissions_keep:
  assumes sub: "\<And>r ctx hn df d ck now e. handler_ok deps \<lparr>th_rule = r, th_context = ctx, th_handler = hn, th_deferred = df\<rparr> \<Longrightarrow>
      Q e \<Longrightarrow> Q (fst (submit_rule r ctx hn df d ck now e))"
    and Q: "Q e"
  shows evaluate_keeps: "Q (evaluate deps ev meta now e)"
    and evaluateAutomationEvent_keeps: "Q (evaluateAutomationEvent topic payload m now e)"
    and evaluateSharedStateChange_keeps: "Q (evaluateSharedStateChange deps change i now e)"
    and cron_fires_keeps: "thunks_ok deps e \<Longrightarrow> Q (cron_fires i now e)"
    and engine_fire_keeps: "Q (fst (engine_fire i c dd now e))"
proof -
  show "Q (evaluate deps ev meta now e)"
    unfolding evaluate_def
    by (rule fold_submits_keep [where Q = Q and P = "\<lambda>r. wakesOnTopics r \<and> topicMatches (al_topic r) (ne_topic ev)
          \<and> admitDeviceEvent deps (al_id r) (ne_deviceId ev) \<and> condition_holds r (device_context ev meta)", OF _ sub Q])
      (auto simp: evaluate_rule_def Let_def handler_ok_def device_context_def)
  show "Q (evaluateAutomationEvent topic payload m now e)"
    unfolding evaluateAutomationEvent_def
    by (rule fold_submits_keep [where Q = Q and P = "\<lambda>r. wakesOnTopics r \<and> topicMatches (al_topic r) topic
          \<and> condition_holds r (event_context_of topic payload m)", OF _ sub Q])
      (auto simp: evaluate_event_rule_def Let_def handler_ok_def event_context_of_def)
  have "Q (fold (evaluate_shared_rule deps change i now) (listRules e) e)"
    if "or_else (sg_depth change) 0 \<le> MAX_EVENT_DEPTH"
    by (rule fold_submits_keep [where Q = Q and P = "\<lambda>r. al_triggerType r = Some TrSharedState
          \<and> topicMatches (al_topic r) (sharedStatePath (sg_bucket change) (sg_key change))
          \<and> admitSharedStateChange deps (al_id r) \<and> condition_holds r (shared_context change i)", OF _ sub Q])
      (use that in \<open>auto simp: evaluate_shared_rule_def Let_def handler_ok_def shared_context_def\<close>)
  then show "Q (evaluateSharedStateChange deps change i now e)"
    using Q by (simp add: evaluateSharedStateChange_def)
  show "Q (cron_fires i now e)" if "thunks_ok deps e"
    using that by (auto simp: cron_fires_def thunks_ok_def handler_ok_def cron_context_def Q intro!: sub split: option.split)
  show "Q (fst (engine_fire i c dd now e))"
    using Q by (auto simp: engine_fire_def handler_ok_def case_prod_beta intro!: sub split: option.split)
qed

lemmas submissions_inv = submissions_keep [where Q = "engine_inv deps" for deps, OF submit_rule_inv]

lemma engine_init_inv: "engine_inv deps (engine_init ma mq xl)"
proof -
  have "gate_inv (gate_init ma mq)" by (rule exec_gate.inv_init)
  then have "gate_good (gate_init ma mq)" by (simp add: gate_good_def) (simp add: gate_init_def)
  moreover have "g_started (gate_init ma mq) = []" "gate_handles (gate_init ma mq) = {}"
    "waiting thunk (g_queues (gate_init ma mq)) = {#}"
    by (simp_all add: gate_init_def gate_handles_def waiting_def)
  ultimately show ?thesis
    by (simp add: engine_inv_def engine_core_def engine_init_def slots.once_def ids_ok_def running_ids_def thunks_ok_def)
qed

interpretation engine: invariant_machine "engine_step deps" "engine_ok deps" "engine_init ma mq xl" "engine_inv deps"
proof
  show "engine_inv deps (engine_init ma mq xl)" by (rule engine_init_inv)
  show "engine_inv deps (engine_step deps a e)" if "engine_inv deps e" "engine_ok deps a e" for a e
    using that by (cases a)
      (simp_all add: engine_register_inv engine_unregister_inv submissions_inv engine_inv_thunks push_result_inv
        settle_execution_inv engine_dispose_inv)
qed

section \<open>What a run of the engine guarantees\<close>

text \<open>A sequence of operations, each legal when it happens.\<close>

fun engine_run :: "engine_deps \<Rightarrow> engine_op list \<Rightarrow> engine \<Rightarrow> engine" where
  "engine_run deps [] e = e"
| "engine_run deps (a # ops) e = engine_run deps ops (engine_step deps a e)"

fun legal :: "engine_deps \<Rightarrow> engine_op list \<Rightarrow> engine \<Rightarrow> bool" where
  "legal deps [] e = True"
| "legal deps (a # ops) e = (engine_ok deps a e \<and> legal deps ops (engine_step deps a e))"

lemma reach_run: "reach (engine_step deps) (engine_ok deps) e0 e \<Longrightarrow> legal deps ops e \<Longrightarrow>
    reach (engine_step deps) (engine_ok deps) e0 (engine_run deps ops e)"
  by (induction ops arbitrary: e) (auto intro: reach.reach_step)

fun pushed_by :: "string \<Rightarrow> engine_op list \<Rightarrow> exec_command_result list" where
  "pushed_by xid [] = []"
| "pushed_by xid (EPush x r # ops) = (if x = xid then r # pushed_by xid ops else pushed_by xid ops)"
| "pushed_by xid (_ # ops) = pushed_by xid ops"

fun settles :: "nat \<Rightarrow> engine_op \<Rightarrow> bool" where
  "settles h (ESettle h' _ _) = (h' = h)"
| "settles h _ = False"

lemma settle_keeps:
  assumes inv: "engine_inv deps e" and k: "keeps h run b e" and h: "h' \<noteq> h"
  shows "keeps h run b (settle_execution deps h' outcome now e)"
proof (cases "map_of (en_running e) h'")
  case None
  then show ?thesis using k by (simp add: settle_execution_def)
next
  case (Some run')
  have ids: "ids_ok deps e" "jm_wf (en_running e)" using inv by (simp_all add: engine_inv_def engine_core_def)
  have "(h, run) \<in> set (en_running e)" "(h', run') \<in> set (en_running e)"
    using k Some by (auto simp: keeps_def dest: map_of_SomeD)
  then have "rn_executionId run' \<noteq> rn_executionId run"
    using ids(1) h unfolding ids_ok_def running_ids_def by (metis (no_types, lifting) distinct_map fst_conv inj_onD snd_conv)
  then have "keeps h run b (settled deps h' run' outcome now e)" using k h by (simp add: keeps_def)
  then show ?thesis using start_new_keeps [OF settled_core [OF inv Some]] settle_settled [OF Some] by simp
qed

lemma step_keeps:
  assumes inv: "engine_inv deps e" and k: "keeps h run b e" and s: "\<not> settles h a"
  shows "keeps h run (b @ pushed_by (rn_executionId run) [a]) (engine_step deps a e)"
proof -
  have sub: "engine_inv deps (fst (submit_rule r ctx hn df d ck now e')) \<and> keeps h run b (fst (submit_rule r ctx hn df d ck now e'))"
    if "handler_ok deps \<lparr>th_rule = r, th_context = ctx, th_handler = hn, th_deferred = df\<rparr>" "engine_inv deps e' \<and> keeps h run b e'"
    for r ctx hn df d ck now e'
    using that submit_rule_inv [of deps e' r ctx hn df d ck now] submit_rule_keeps [of deps e' r ctx hn df h run b d ck now] by simp
  note subs = submissions_keep [where Q = "\<lambda>e. engine_inv deps e \<and> keeps h run b e", OF sub]
  show ?thesis
  proof (cases a)
    case (EPush x r)
    then show ?thesis using k by (simp add: push_result_def keeps_def collector_push_def split: option.split)
  next
    case (ESettle h' outcome now)
    then show ?thesis using settle_keeps [OF inv k] s by simp
  next
    case (ERegister r)
    then show ?thesis using k
      by (simp add: keeps_def engine_register_def timer_start_def timer_stop_def Let_def split: option.split)
  next
    case (EUnregister i)
    then show ?thesis using k by (simp add: keeps_def engine_unregister_def timer_stop_def Let_def)
  next
    case EDispose
    then show ?thesis using k by (simp add: keeps_def engine_dispose_def)
  qed (use inv k subs engine_inv_thunks(1) [OF inv] in \<open>simp_all\<close>)
qed

lemma run_keeps:
  assumes "engine_inv deps e" "keeps h run b e" "legal deps ops e" "\<forall>a \<in> set ops. \<not> settles h a"
  shows "keeps h run (b @ pushed_by (rn_executionId run) ops) (engine_run deps ops e) \<and> engine_inv deps (engine_run deps ops e)"
  using assms
proof (induction ops arbitrary: b e)
  case (Cons a ops)
  have a: "keeps h run (b @ pushed_by (rn_executionId run) [a]) (engine_step deps a e)" "engine_inv deps (engine_step deps a e)"
    using step_keeps Cons.prems engine.inv_step [of deps e a] by auto
  have "keeps h run ((b @ pushed_by (rn_executionId run) [a]) @ pushed_by (rn_executionId run) ops) (engine_run deps ops (engine_step deps a e))
      \<and> engine_inv deps (engine_run deps ops (engine_step deps a e))"
    by (rule Cons.IH [OF a(2,1)]) (use Cons.prems in simp_all)
  moreover have "pushed_by x [a] @ pushed_by x ops = pushed_by x (a # ops)" for x by (cases a) auto
  ultimately show ?case by (simp only: engine_run.simps append_assoc)
qed simp

lemma start_new_bus: "set (en_bus e) \<subseteq> set (en_bus (start_new k now e))"
proof -
  have "set (en_bus e) \<subseteq> set (en_bus (fold (start_execution now) hs e))" for hs
  proof (induction hs arbitrary: e)
    case (Cons h hs)
    have "set (en_bus e) \<subseteq> set (en_bus (start_execution now h e))" by (auto simp: start_execution_def Let_def)
    then show ?case using Cons.IH [of "start_execution now h e"] by auto
  qed simp
  then show ?thesis by (simp add: start_new_def)
qed

lemma running_started:
  assumes "engine_inv deps e" "map_of (en_running e) h = Some run"
  shows "h < length (g_started (en_gate e))" "\<exists>n < en_next e. rn_executionId run = uuid_of n"
proof -
  have "h \<in> fst ` set (en_running e)" using map_of_SomeD [OF assms(2)] by force
  then show "h < length (g_started (en_gate e))" using assms(1) by (simp add: engine_inv_def engine_core_def)
  have "rn_executionId run \<in> set (fired_ids (en_bus e))"
    using running_fired(1) [OF engine_inv_thunks(2) [OF assms(1)] assms(2)] engine_inv_thunks(2) [OF assms(1)]
    unfolding ids_ok_def by blast
  then show "\<exists>n < en_next e. rn_executionId run = uuid_of n"
    using engine_inv_thunks(2) [OF assms(1)] unfolding ids_ok_def by blast
qed

text \<open>A slot and an id that are gone do not come back: starting uses later slots and fresh ids.\<close>

lemma start_new_absent:
  assumes "engine_core deps k e" "h < k" "\<exists>n < en_next e. xid = uuid_of n"
    "map_of (en_running e) h = None" "map_of (en_collector e) xid = None"
  shows "map_of (en_running (start_new k now e)) h = None \<and> map_of (en_collector (start_new k now e)) xid = None"
proof -
  have "h < k \<Longrightarrow> \<exists>n < en_next e. xid = uuid_of n \<Longrightarrow> map_of (en_running e) h = None \<Longrightarrow> map_of (en_collector e) xid = None \<Longrightarrow>
    \<forall>j \<in> set hs. k \<le> j \<Longrightarrow>
    map_of (en_running (fold (start_execution now) hs e)) h = None \<and> map_of (en_collector (fold (start_execution now) hs e)) xid = None" for hs e
  proof (induction hs arbitrary: e)
    case (Cons j hs)
    obtain n where n: "n < en_next e" "xid = uuid_of n" using Cons.prems(2) by blast
    show ?case unfolding fold_simps
    proof (rule Cons.IH)
      show "\<exists>n < en_next (start_execution now j e). xid = uuid_of n" using n by (auto simp: start_execution_def Let_def intro!: exI [of _ n])
      show "map_of (en_running (start_execution now j e)) h = None" using Cons.prems by (auto simp: start_execution_def Let_def)
      show "map_of (en_collector (start_execution now j e)) xid = None"
        using Cons.prems n by (auto simp: start_execution_def Let_def collector_open_def uuid_inject)
    qed (use Cons.prems in simp_all)
  qed simp
  then show ?thesis using assms(2-5) by (simp add: start_new_def)
qed

lemma first_problem_all: "(first_problem i (map Some rs) = None) \<longleftrightarrow> (\<forall>r \<in> set rs. xr_success r)"
  using first_problem_None [of i "map Some rs"] by auto

lemma assemble_success:
  "er_success (assembleExecutionResult xid l (map Some rs)) \<longleftrightarrow> lo_ok l \<and> (\<forall>r \<in> set rs. xr_success r)"
  using first_problem_all [of 0 rs] by (auto simp: assembleExecutionResult_def split: option.split)

lemma settled_record:
  "en_resolved (settled deps h run outcome now e) =
     en_resolved e @ (case th_deferred (rn_thunk run) of Some d \<Rightarrow> [(d, result_of run outcome e)] | None \<Rightarrow> [])"
  "en_log (settled deps h run outcome now e) = (if ed_recorder deps
     then log_push (recorder_entry (record_rule_of (rn_thunk run)) (result_of run outcome e) (collected run outcome e)
            (now - rn_start run) (uuid_of (en_next e)) now) (en_log e)
     else en_log e)"
  by (simp_all add: settled_def record_execution_eq Let_def)



lemma settled_result:
  fixes outcome :: outcome and now :: ms
  assumes "reach (engine_step deps) (engine_ok deps) (engine_init ma mq xl) e"
    and "map_of (en_running e) h = Some run" and "map_of (en_collector e) (rn_executionId run) = Some []"
    and "legal deps ops e" and "\<forall>a \<in> set ops. \<not> settles h a"
  defines "e1 \<equiv> engine_run deps ops e"
  defines "rs \<equiv> pushed_by (rn_executionId run) ops @ (case outcome of ActionReturned (Some r) \<Rightarrow> [r] | _ \<Rightarrow> [])"
  defines "res \<equiv> assembleExecutionResult (rn_executionId run) (logic_of outcome) (map Some rs)"
  defines "e2 \<equiv> engine_step deps (ESettle h outcome now) e1"
  shows "(er_success res \<longleftrightarrow> lo_ok (logic_of outcome) \<and> (\<forall>r \<in> set rs. xr_success r))
    \<and> en_resolved e2 = en_resolved e1 @ (case th_deferred (rn_thunk run) of Some d \<Rightarrow> [(d, res)] | None \<Rightarrow> [])
    \<and> en_log e2 = (if ed_recorder deps
         then log_push (recorder_entry (record_rule_of (rn_thunk run)) res rs (now - rn_start run) (uuid_of (en_next e1)) now) (en_log e1)
         else en_log e1)
    \<and> (ed_recorder deps \<longrightarrow> (\<exists>n. Recorded (AutomationCompleted res (al_id (th_rule (rn_thunk run))) n now) \<in> set (en_bus e2)))
    \<and> map_of (en_running e2) h = None \<and> map_of (en_collector e2) (rn_executionId run) = None"
proof -
  have inv: "engine_inv deps e" by (rule engine.reach_inv [OF assms(1)])
  have "keeps h run [] e" using assms(2,3) by (simp add: keeps_def)
  from run_keeps [OF inv this assms(4,5)]
  have run: "map_of (en_running e1) h = Some run" and buf: "map_of (en_collector e1) (rn_executionId run) = Some (pushed_by (rn_executionId run) ops)"
    and inv1: "engine_inv deps e1" by (simp_all add: keeps_def e1_def)
  have rs: "collected run outcome e1 = rs" by (simp add: collected_def buf rs_def)
  have res: "result_of run outcome e1 = res" by (simp add: result_of_def rs res_def)
  let ?s = "settled deps h run outcome now e1"
  have e2: "e2 = start_new (length (g_started (en_gate e1))) now ?s" using settle_settled [OF run] by (simp add: e2_def)
  have core: "engine_core deps (length (g_started (en_gate e1))) ?s" by (rule settled_core [OF inv1 run])
  have "er_success res \<longleftrightarrow> lo_ok (logic_of outcome) \<and> (\<forall>r \<in> set rs. xr_success r)"
    unfolding res_def by (rule assemble_success)
  moreover have "en_resolved e2 = en_resolved e1 @ (case th_deferred (rn_thunk run) of Some d \<Rightarrow> [(d, res)] | None \<Rightarrow> [])"
    unfolding e2 start_new_frame settled_record res ..
  moreover have "en_log e2 = (if ed_recorder deps
         then log_push (recorder_entry (record_rule_of (rn_thunk run)) res rs (now - rn_start run) (uuid_of (en_next e1)) now) (en_log e1)
         else en_log e1)"
    unfolding e2 start_new_frame settled_record res rs ..
  moreover have "\<exists>n. Recorded (AutomationCompleted res (al_id (th_rule (rn_thunk run))) n now) \<in> set (en_bus e2)" if "ed_recorder deps"
    using settled_bus(1) [of deps h run outcome now e1] that start_new_bus [of ?s "length (g_started (en_gate e1))" now]
    by (auto simp: e2 res)
  moreover have "map_of (en_running e2) h = None \<and> map_of (en_collector e2) (rn_executionId run) = None"
    unfolding e2 by (rule start_new_absent [OF core]) (use running_started [OF inv1 run] settled_bus(2) [of e1 deps h run outcome now] in \<open>auto intro: less_le_trans\<close>)
  ultimately show ?thesis by blast
qed

text \<open>
  C8. An execution ends with its own results. Take an execution that has just started and any
  legal run in which it does not settle: other executions may start, push results, settle, rules
  may come and go. When it then settles, its result is assembled from exactly the command results
  pushed under its id during that run, in order, and the one its action returned; it succeeds iff
  its logic did and each of these results did. A manual fire waiting for it gets that result, the
  recorder writes it to the log and the bus, and its slot and buffer are gone.
\<close>

theorem engine_settles:
  assumes "reach (engine_step deps) (engine_ok deps) (engine_init ma mq xl) e"
    and "map_of (en_running e) h = Some run" and "map_of (en_collector e) (rn_executionId run) = Some []"
    and "legal deps ops e" and "\<forall>a \<in> set ops. \<not> settles h a"
  shows "let e1 = engine_run deps ops e;
      rs = pushed_by (rn_executionId run) ops @ (case outcome of ActionReturned (Some r) \<Rightarrow> [r] | _ \<Rightarrow> []);
      res = assembleExecutionResult (rn_executionId run) (logic_of outcome) (map Some rs);
      e2 = engine_step deps (ESettle h outcome now) e1
    in (er_success res \<longleftrightarrow> lo_ok (logic_of outcome) \<and> (\<forall>r \<in> set rs. xr_success r))
    \<and> en_resolved e2 = en_resolved e1 @ (case th_deferred (rn_thunk run) of Some d \<Rightarrow> [(d, res)] | None \<Rightarrow> [])
    \<and> en_log e2 = (if ed_recorder deps
         then log_push (recorder_entry (record_rule_of (rn_thunk run)) res rs (now - rn_start run) (uuid_of (en_next e1)) now) (en_log e1)
         else en_log e1)
    \<and> (ed_recorder deps \<longrightarrow> (\<exists>n. Recorded (AutomationCompleted res (al_id (th_rule (rn_thunk run))) n now) \<in> set (en_bus e2)))
    \<and> map_of (en_running e2) h = None \<and> map_of (en_collector e2) (rn_executionId run) = None"
  unfolding Let_def by (rule settled_result [OF assms])

section \<open>A sample engine\<close>

definition sample_engine_deps :: engine_deps where
  "sample_engine_deps = \<lparr>ed_sandbox = False, ed_scopeResolver = Some (\<lambda>i. if i = ''r2'' then Scoped (Some ''t'') [''d2''] [] else Unrestricted),
     ed_recorder = True, ed_validCron = (\<lambda>_. True)\<rparr>"

definition sample_rule :: "string \<Rightarrow> automation_rule" where
  "sample_rule i = \<lparr>al_id = i, al_topic = ''home/+'', al_condition = None, al_name = None, al_triggerType = Some TrMqtt,
     al_cronExpression = None, al_compiled_js = None\<rparr>"

definition sample_state :: "string \<Rightarrow> normalized_event" where
  "sample_state topic = sample_event ''d1'' topic [(''on'', JBool True)] 5"

definition sample_start :: engine where
  "sample_start = engine_init (Some 2) None \<lparr>xl_entries = [], xl_maxEntries = Suc 2, xl_db = None\<rparr>"

text \<open>Two rules, the second one scoped to another device; one of them runs on the device's state.\<close>

definition sample_engine :: engine where
  "sample_engine = engine_run sample_engine_deps
     [ERegister (sample_rule ''r1''), ERegister (sample_rule ''r2''), EDevice (sample_state ''home/lamp'') None 5] sample_start"

definition sample_result :: "bool \<Rightarrow> exec_command_result" where
  "sample_result b = \<lparr>xr_success = b, xr_error = None, xr_lifecycleState = None\<rparr>"

definition sample_ops :: "engine_op list" where
  "sample_ops = [EPush ''0'' (sample_result True), EFire ''r2'' (device_context (sample_state ''x'') None) 7 6, EPush ''1'' (sample_result False)]"

lemma sample_engine_reach: "reach (engine_step sample_engine_deps) (engine_ok sample_engine_deps) sample_start sample_engine"
  unfolding sample_engine_def by (rule reach_run [OF reach.reach_init]) code_simp

lemma sample_later_reach: "reach (engine_step sample_engine_deps) (engine_ok sample_engine_deps) sample_start (engine_run sample_engine_deps sample_ops sample_engine)"
  by (rule reach_run [OF sample_engine_reach]) code_simp



theorem engine_settles_witness:
  "map_of (en_running (engine_step sample_engine_deps (ESettle 0 (ActionReturned (Some (sample_result False))) 9)
      (engine_run sample_engine_deps sample_ops sample_engine))) 0 = None
   \<and> \<not> er_success (assembleExecutionResult ''0'' (logic_of (ActionReturned (Some (sample_result False))))
      (map Some [sample_result True, sample_result False]))"
proof -
  have "map_option rn_executionId (map_of (en_running sample_engine) 0) = Some ''0''" by code_simp
  then obtain run where run: "map_of (en_running sample_engine) 0 = Some run" and id: "rn_executionId run = ''0''" by auto
  have "map_of (en_collector sample_engine) ''0'' = Some []" by code_simp
  moreover have "legal sample_engine_deps sample_ops sample_engine" by code_simp
  moreover have "\<forall>a \<in> set sample_ops. \<not> settles 0 a" by code_simp
  moreover have "pushed_by ''0'' sample_ops = [sample_result True]" by code_simp
  moreover have "\<not> xr_success (sample_result False)" by code_simp
  ultimately show ?thesis
    using engine_settles [OF sample_engine_reach [unfolded sample_start_def] run, of sample_ops "ActionReturned (Some (sample_result False))" 9]
    by (simp add: id Let_def)
qed

end
