(* ===== verification/Auth_Service.thy ===== *)
theory Auth_Service
  imports Permissions Command_Lifecycle Command_History
begin

text \<open>
  Accounts and sessions: users (src/auth/user-service.ts), refresh and access tokens
  (token-service.ts), sign-in (auth-service.ts) and groups (group-service.ts).

  The tables are lists of rows with their constraints: unique ids, usernames, group names and
  token hashes, foreign keys with cascades. An operation that awaits bcrypt is split there: its
  first part leaves a task, and a later step resumes it, so everything the server does in between
  is an interleaving of \<open>auth_step\<close>. bcrypt, SHA-256, jsonwebtoken and the environment variable
  are the record \<open>auth_env\<close>; random ids, tokens and salts are arguments of the steps. Columns that
  are \<open>NOT NULL\<close> have no missing values, so a row and the \<open>User\<close> made of it are one record. Log
  lines are not modelled.
\<close>

section \<open>Rows and external functions\<close>

datatype auth_error =
    ConflictError string | BadRequestError string | UnauthorizedError string | NotFoundError string | DbError string

record account =
  us_id :: string
  us_username :: string
  us_passwordHash :: string
  us_role :: principal_role
  us_groupId :: "string option"
  us_createdAt :: ms
  us_sessionDays :: int
  us_inactivityMinutes :: int

record user_list_item =
  ul_id :: string
  ul_username :: string
  ul_role :: principal_role
  ul_groupId :: "string option"
  ul_createdAt :: ms
  ul_sessionDays :: int
  ul_inactivityMinutes :: int

record refresh_row =
  rt_id :: string
  rt_userId :: string
  rt_tokenHash :: string
  rt_expiresAt :: ms
  rt_createdAt :: ms
  rt_lastActivityAt :: "ms option"

record refresh_token_record =
  rk_id :: string
  rk_userId :: string
  rk_tokenHash :: string
  rk_expiresAt :: ms
  rk_createdAt :: ms
  rk_lastActivityAt :: ms

record group_row =
  gp_id :: string
  gp_name :: string
  gp_createdAt :: ms

record auth_state =
  as_users :: "account list"
  as_tokens :: "refresh_row list"
  as_groups :: "group_row list"
  as_group_tabs :: "(string \<times> string \<times> permission_level) list"
  as_secretRow :: "string option"
  as_cachedSecret :: "string option"

datatype session_type = SNormal | SPublicDemo

record access_token_payload =
  ap_userId :: string
  ap_username :: string
  ap_role :: principal_role
  ap_groupId :: "string option"
  ap_sessionType :: "session_type option"

text \<open>Expiry times of \<open>jsonwebtoken\<close> are in seconds, the clock in milliseconds.\<close>

record auth_env =
  ev_JWT_SECRET :: "string option"
  ev_bcrypt_hash :: "string \<Rightarrow> nat \<Rightarrow> string"
  ev_bcrypt_compare :: "string \<Rightarrow> string \<Rightarrow> bool"
  ev_sha256 :: "string \<Rightarrow> string"
  ev_jwt_sign :: "access_token_payload \<Rightarrow> string \<Rightarrow> int \<Rightarrow> ms \<Rightarrow> string"
  ev_jwt_verify :: "string \<Rightarrow> string \<Rightarrow> ms \<Rightarrow> (access_token_payload \<times> int) option"

section \<open>Tokens\<close>

definition ACCESS_TOKEN_EXPIRY :: int where "ACCESS_TOKEN_EXPIRY = 15 * 60"
definition DAY_MS :: int where "DAY_MS = 24 * 60 * 60 * 1000"

definition getSecret :: "auth_env \<Rightarrow> string \<Rightarrow> auth_state \<Rightarrow> string \<times> auth_state" where
  "getSecret env fresh s =
     (case js_truthy (as_cachedSecret s) of
        Some c \<Rightarrow> (c, s)
      | None \<Rightarrow>
          (case js_truthy (ev_JWT_SECRET env) of
             Some e \<Rightarrow> (e, s\<lparr>as_cachedSecret := Some e\<rparr>)
           | None \<Rightarrow>
               (case as_secretRow s of
                  Some v \<Rightarrow> (v, s\<lparr>as_cachedSecret := Some v\<rparr>)
                | None \<Rightarrow> (fresh, s\<lparr>as_secretRow := Some fresh, as_cachedSecret := Some fresh\<rparr>))))"

definition generateAccessToken ::
  "auth_env \<Rightarrow> access_token_payload \<Rightarrow> int option \<Rightarrow> string \<Rightarrow> ms \<Rightarrow> auth_state \<Rightarrow> string \<times> auth_state" where
  "generateAccessToken env payload expiresInMinutes fresh now s =
     (let (secret, s1) = getSecret env fresh s;
          claims = payload\<lparr>ap_sessionType := (if ap_sessionType payload \<noteq> None \<and> ap_sessionType payload \<noteq> Some SNormal
                                            then ap_sessionType payload else None)\<rparr>;
          expiresIn = (case expiresInMinutes of Some m \<Rightarrow> m * 60 | None \<Rightarrow> ACCESS_TOKEN_EXPIRY)
      in (ev_jwt_sign env claims secret expiresIn now, s1))"

definition verifyAccessTokenWithExpiry ::
  "auth_env \<Rightarrow> string \<Rightarrow> string \<Rightarrow> ms \<Rightarrow> auth_state \<Rightarrow> (access_token_payload \<times> ms) option \<times> auth_state" where
  "verifyAccessTokenWithExpiry env token fresh now s =
     (let (secret, s1) = getSecret env fresh s
      in (case ev_jwt_verify env token secret now of
            None \<Rightarrow> None
          | Some (decoded, expiry) \<Rightarrow>
              Some (decoded\<lparr>ap_sessionType := Some (if ap_sessionType decoded = Some SPublicDemo then SPublicDemo else SNormal)\<rparr>,
                    expiry * 1000), s1))"

definition verifyAccessToken ::
  "auth_env \<Rightarrow> string \<Rightarrow> string \<Rightarrow> ms \<Rightarrow> auth_state \<Rightarrow> access_token_payload option \<times> auth_state" where
  "verifyAccessToken env token fresh now s =
     (let (secret, s1) = getSecret env fresh s
      in (case ev_jwt_verify env token secret now of
            None \<Rightarrow> None
          | Some (decoded, expiry) \<Rightarrow>
              Some (decoded\<lparr>ap_sessionType := Some (if ap_sessionType decoded = Some SPublicDemo then SPublicDemo else SNormal)\<rparr>), s1))"

definition find_account :: "string \<Rightarrow> auth_state \<Rightarrow> account option" where
  "find_account i s = find (\<lambda>u. us_id u = i) (as_users s)"

definition dbSessionPolicy :: "string \<Rightarrow> auth_state \<Rightarrow> int \<times> int" where
  "dbSessionPolicy userId s =
     (case find_account userId s of Some u \<Rightarrow> (us_sessionDays u, us_inactivityMinutes u) | None \<Rightarrow> (7, 0))"

definition touchRefreshActivity :: "auth_env \<Rightarrow> string \<Rightarrow> ms \<Rightarrow> auth_state \<Rightarrow> auth_state" where
  "touchRefreshActivity env token now s =
     s\<lparr>as_tokens := map (\<lambda>r. if rt_tokenHash r = ev_sha256 env token then r\<lparr>rt_lastActivityAt := Some now\<rparr> else r) (as_tokens s)\<rparr>"

definition generateRefreshToken ::
  "auth_env \<Rightarrow> string \<Rightarrow> string \<Rightarrow> string \<Rightarrow> ms \<Rightarrow> auth_state \<Rightarrow> (auth_error + string) \<times> auth_state" where
  "generateRefreshToken env userId rawToken uuid now s =
     (let tokenHash = ev_sha256 env rawToken; (sessionDays, inactivityMinutes) = dbSessionPolicy userId s;
          row = \<lparr>rt_id = uuid, rt_userId = userId, rt_tokenHash = tokenHash, rt_expiresAt = now + sessionDays * DAY_MS,
                 rt_createdAt = now, rt_lastActivityAt = Some now\<rparr>
      in if list_ex (\<lambda>r. rt_id r = uuid \<or> rt_tokenHash r = tokenHash) (as_tokens s)
         then (Inl (DbError ''UNIQUE constraint failed''), s)
         else if find_account userId s = None then (Inl (DbError ''FOREIGN KEY constraint failed''), s)
         else (Inr rawToken, s\<lparr>as_tokens := as_tokens s @ [row]\<rparr>))"

definition validateRefreshToken ::
  "auth_env \<Rightarrow> string \<Rightarrow> ms \<Rightarrow> auth_state \<Rightarrow> refresh_token_record option \<times> auth_state" where
  "validateRefreshToken env token now s =
     (case find (\<lambda>r. rt_tokenHash r = ev_sha256 env token) (as_tokens s) of
        None \<Rightarrow> (None, s)
      | Some row \<Rightarrow>
          let (sessionDays, inactivityMinutes) = dbSessionPolicy (rt_userId row) s;
              lastActivity = (case rt_lastActivityAt row of Some t \<Rightarrow> t | None \<Rightarrow> rt_createdAt row);
              idleExpired = (inactivityMinutes > 0 \<and> now - lastActivity > inactivityMinutes * 60000)
          in if rt_expiresAt row < now \<or> rt_createdAt row + sessionDays * DAY_MS < now \<or> idleExpired
             then (None, s\<lparr>as_tokens := filter (\<lambda>r. rt_id r \<noteq> rt_id row) (as_tokens s)\<rparr>)
             else (Some \<lparr>rk_id = rt_id row, rk_userId = rt_userId row, rk_tokenHash = rt_tokenHash row,
                         rk_expiresAt = rt_expiresAt row, rk_createdAt = rt_createdAt row, rk_lastActivityAt = lastActivity\<rparr>, s))"

definition revokeRefreshToken :: "auth_env \<Rightarrow> string \<Rightarrow> auth_state \<Rightarrow> auth_state" where
  "revokeRefreshToken env token s =
     s\<lparr>as_tokens := filter (\<lambda>r. rt_tokenHash r \<noteq> ev_sha256 env token) (as_tokens s)\<rparr>"

definition revokeAllUserTokens :: "string \<Rightarrow> auth_state \<Rightarrow> auth_state" where
  "revokeAllUserTokens userId s = s\<lparr>as_tokens := filter (\<lambda>r. rt_userId r \<noteq> userId) (as_tokens s)\<rparr>"

section \<open>Users\<close>

definition MIN_PASSWORD_LENGTH :: nat where "MIN_PASSWORD_LENGTH = 8"

definition validatePassword :: "string \<Rightarrow> auth_error option" where
  "validatePassword password =
     (if length password < MIN_PASSWORD_LENGTH then Some (BadRequestError ''Password must be at least 8 characters'') else None)"

definition validateSessionPolicy :: "int \<Rightarrow> int \<Rightarrow> auth_error option" where
  "validateSessionPolicy sessionDays inactivityMinutes =
     (if sessionDays \<notin> {1, 7, 30} \<or> inactivityMinutes \<notin> {0, 30, 120, 480}
      then Some (BadRequestError ''Unsupported session policy'') else None)"

definition getUser :: "string \<Rightarrow> auth_state \<Rightarrow> account option" where
  "getUser i s = find_account i s"

definition getUserByUsername :: "string \<Rightarrow> auth_state \<Rightarrow> account option" where
  "getUserByUsername username s = find (\<lambda>u. us_username u = username) (as_users s)"

definition rowToListItem :: "account \<Rightarrow> user_list_item" where
  "rowToListItem row =
     \<lparr>ul_id = us_id row, ul_username = us_username row, ul_role = us_role row, ul_groupId = us_groupId row,
      ul_createdAt = us_createdAt row, ul_sessionDays = us_sessionDays row, ul_inactivityMinutes = us_inactivityMinutes row\<rparr>"

definition listUsers :: "auth_state \<Rightarrow> user_list_item list" where
  "listUsers s = map rowToListItem (as_users s)"

definition group_exists :: "string option \<Rightarrow> auth_state \<Rightarrow> bool" where
  "group_exists g s = (case g of None \<Rightarrow> True | Some i \<Rightarrow> list_ex (\<lambda>r. gp_id r = i) (as_groups s))"

text \<open>\<open>INSERT INTO users\<close>: a primary key, a unique name, a foreign key.\<close>

definition insert_account :: "account \<Rightarrow> auth_state \<Rightarrow> (auth_error + account) \<times> auth_state" where
  "insert_account u s =
     (if list_ex (\<lambda>v. us_id v = us_id u \<or> us_username v = us_username u) (as_users s)
      then (Inl (ConflictError ''Username already exists''), s)
      else if \<not> group_exists (us_groupId u) s then (Inl (DbError ''FOREIGN KEY constraint failed''), s)
      else (Inr u, s\<lparr>as_users := as_users s @ [u]\<rparr>))"

definition admin_count :: "auth_state \<Rightarrow> nat" where
  "admin_count s = length (filter (\<lambda>u. us_role u = RAdmin) (as_users s))"

definition assertNotLastAdmin :: "auth_state \<Rightarrow> auth_error option" where
  "assertNotLastAdmin s = (if admin_count s \<le> 1 then Some (ConflictError ''Cannot remove the last admin user'') else None)"

text \<open>\<open>UPDATE users SET ... WHERE id = ?\<close>.\<close>

definition update_account :: "string \<Rightarrow> (account \<Rightarrow> account) \<Rightarrow> auth_state \<Rightarrow> auth_state" where
  "update_account i f s = s\<lparr>as_users := map (\<lambda>u. if us_id u = i then f u else u) (as_users s)\<rparr>"

record user_updates =
  uu_groupId :: "string option option"
  uu_password :: "string option"
  uu_role :: "principal_role option"
  uu_sessionDays :: "int option"
  uu_inactivityMinutes :: "int option"

text \<open>\<open>updateUser\<close> up to the hashing of a new password, in three blocks, each of which may throw after the ones before have written.\<close>

definition update_role :: "account \<Rightarrow> user_updates \<Rightarrow> auth_state \<Rightarrow> auth_error option \<times> auth_state" where
  "update_role existing upd s =
     (case uu_role upd of
        None \<Rightarrow> (None, s)
      | Some role \<Rightarrow>
          if role = us_role existing then (None, s)
          else (case (if us_role existing = RAdmin \<and> role = RUser then assertNotLastAdmin s else None) of
                  Some e \<Rightarrow> (Some e, s)
                | None \<Rightarrow> (None, update_account (us_id existing) (\<lambda>u. u\<lparr>us_role := role\<rparr>) s)))"

definition update_policy :: "account \<Rightarrow> user_updates \<Rightarrow> auth_state \<Rightarrow> auth_error option \<times> auth_state" where
  "update_policy existing upd s =
     (if uu_sessionDays upd = None \<and> uu_inactivityMinutes upd = None then (None, s)
      else let sessionDays = (case uu_sessionDays upd of Some d \<Rightarrow> d | None \<Rightarrow> us_sessionDays existing);
               inactivityMinutes = (case uu_inactivityMinutes upd of Some m \<Rightarrow> m | None \<Rightarrow> us_inactivityMinutes existing)
           in case validateSessionPolicy sessionDays inactivityMinutes of
                Some e \<Rightarrow> (Some e, s)
              | None \<Rightarrow> (None, update_account (us_id existing)
                  (\<lambda>u. u\<lparr>us_sessionDays := sessionDays, us_inactivityMinutes := inactivityMinutes\<rparr>) s))"

definition update_group :: "string \<Rightarrow> user_updates \<Rightarrow> auth_state \<Rightarrow> auth_error option \<times> auth_state" where
  "update_group i upd s =
     (case uu_groupId upd of
        None \<Rightarrow> (None, s)
      | Some g \<Rightarrow>
          if find_account i s \<noteq> None \<and> \<not> group_exists g s then (Some (DbError ''FOREIGN KEY constraint failed''), s)
          else (None, update_account i (\<lambda>u. u\<lparr>us_groupId := g\<rparr>) s))"

definition set_password :: "string \<Rightarrow> string \<Rightarrow> auth_state \<Rightarrow> auth_state" where
  "set_password i passwordHash s = revokeAllUserTokens i (update_account i (\<lambda>u. u\<lparr>us_passwordHash := passwordHash\<rparr>) s)"

definition deleteUser :: "string \<Rightarrow> auth_state \<Rightarrow> auth_error option \<times> auth_state" where
  "deleteUser i s =
     (case getUser i s of
        None \<Rightarrow> (Some (NotFoundError ''User not found''), s)
      | Some user \<Rightarrow>
          (case (if us_role user = RAdmin then assertNotLastAdmin s else None) of
             Some e \<Rightarrow> (Some e, s)
           | None \<Rightarrow> (None, revokeAllUserTokens i (s\<lparr>as_users := filter (\<lambda>u. us_id u \<noteq> i) (as_users s)\<rparr>))))"

section \<open>Groups\<close>

record tab_group =
  tg_id :: string
  tg_name :: string
  tg_tabAssignments :: "(string \<times> permission_level) list"
  tg_createdAt :: ms

definition getTabAssignments :: "string \<Rightarrow> auth_state \<Rightarrow> (string \<times> permission_level) list" where
  "getTabAssignments gid s = map snd (filter (\<lambda>(g, a). g = gid) (as_group_tabs s))"

text \<open>Inserts under the primary key \<open>(group_id, tab_id)\<close>; a clash throws and rolls the transaction back.\<close>

fun insert_assignments :: "string \<Rightarrow> (string \<times> permission_level) list \<Rightarrow> (string \<times> string \<times> permission_level) list
    \<Rightarrow> (string \<times> string \<times> permission_level) list option" where
  "insert_assignments gid [] rows = Some rows"
| "insert_assignments gid ((tab, p) # rest) rows =
     (if list_ex (\<lambda>(g, t, q). g = gid \<and> t = tab) rows then None
      else insert_assignments gid rest (rows @ [(gid, tab, p)]))"

definition createGroup ::
  "string \<Rightarrow> (string \<times> permission_level) list \<Rightarrow> string \<Rightarrow> ms \<Rightarrow> auth_state \<Rightarrow> (auth_error + tab_group) \<times> auth_state" where
  "createGroup name tabAssignments i now s =
     (if list_ex (\<lambda>g. gp_id g = i \<or> gp_name g = name) (as_groups s) then (Inl (ConflictError ''Group name already exists''), s)
      else case insert_assignments i tabAssignments (as_group_tabs s) of
             None \<Rightarrow> (Inl (DbError ''UNIQUE constraint failed''), s)
           | Some rows \<Rightarrow>
               (Inr \<lparr>tg_id = i, tg_name = name, tg_tabAssignments = tabAssignments, tg_createdAt = now\<rparr>,
                s\<lparr>as_groups := as_groups s @ [\<lparr>gp_id = i, gp_name = name, gp_createdAt = now\<rparr>], as_group_tabs := rows\<rparr>))"

definition find_group :: "string \<Rightarrow> auth_state \<Rightarrow> group_row option" where
  "find_group i s = find (\<lambda>g. gp_id g = i) (as_groups s)"

definition rowToGroup :: "group_row \<Rightarrow> (string \<times> permission_level) list \<Rightarrow> tab_group" where
  "rowToGroup row tabAssignments =
     \<lparr>tg_id = gp_id row, tg_name = gp_name row, tg_tabAssignments = tabAssignments, tg_createdAt = gp_createdAt row\<rparr>"

definition getGroup :: "string \<Rightarrow> auth_state \<Rightarrow> tab_group option" where
  "getGroup i s = map_option (\<lambda>row. rowToGroup row (getTabAssignments i s)) (find_group i s)"

definition listGroups :: "auth_state \<Rightarrow> tab_group list" where
  "listGroups s = map (\<lambda>row. rowToGroup row (getTabAssignments (gp_id row) s)) (as_groups s)"

definition updateGroup ::
  "string \<Rightarrow> string \<Rightarrow> (string \<times> permission_level) list \<Rightarrow> auth_state \<Rightarrow> (auth_error + tab_group) \<times> auth_state" where
  "updateGroup i name tabAssignments s =
     (case find_group i s of
        None \<Rightarrow> (Inl (NotFoundError ''Group not found''), s)
      | Some existing \<Rightarrow>
          if list_ex (\<lambda>g. gp_id g \<noteq> i \<and> gp_name g = name) (as_groups s) then (Inl (ConflictError ''Group name already exists''), s)
          else case insert_assignments i tabAssignments (filter (\<lambda>(g, a). g \<noteq> i) (as_group_tabs s)) of
                 None \<Rightarrow> (Inl (DbError ''UNIQUE constraint failed''), s)
               | Some rows \<Rightarrow>
                   (Inr \<lparr>tg_id = i, tg_name = name, tg_tabAssignments = tabAssignments, tg_createdAt = gp_createdAt existing\<rparr>,
                    s\<lparr>as_groups := map (\<lambda>g. if gp_id g = i then g\<lparr>gp_name := name\<rparr> else g) (as_groups s), as_group_tabs := rows\<rparr>))"

definition deleteGroup :: "string \<Rightarrow> auth_state \<Rightarrow> auth_error option \<times> auth_state" where
  "deleteGroup i s =
     (case find_group i s of
        None \<Rightarrow> (Some (NotFoundError ''Group not found''), s)
      | Some _ \<Rightarrow>
          (None, s\<lparr>as_groups := filter (\<lambda>g. gp_id g \<noteq> i) (as_groups s),
                   as_group_tabs := filter (\<lambda>(g, a). g \<noteq> i) (as_group_tabs s),
                   as_users := map (\<lambda>u. if us_groupId u = Some i then u\<lparr>us_groupId := None\<rparr> else u) (as_users s)\<rparr>))"

section \<open>Signing in\<close>

definition needsSetup :: "auth_state \<Rightarrow> bool" where
  "needsSetup s \<longleftrightarrow> admin_count s = 0"

record login_result =
  lr_accessToken :: string
  lr_refreshToken :: string
  lr_userId :: string
  lr_username :: string
  lr_role :: principal_role
  lr_sessionDays :: int

text \<open>The random values and the clock of one step.\<close>

record fresh_values =
  fv_userId :: string
  fv_tokenId :: string
  fv_rawToken :: string
  fv_secret :: string
  fv_salt :: nat
  fv_now :: ms

definition account_payload :: "account \<Rightarrow> access_token_payload" where
  "account_payload u =
     \<lparr>ap_userId = us_id u, ap_username = us_username u, ap_role = us_role u, ap_groupId = us_groupId u, ap_sessionType = None\<rparr>"

text \<open>Both tokens of a new session; the second insert may throw.\<close>

definition open_session :: "auth_env \<Rightarrow> account \<Rightarrow> fresh_values \<Rightarrow> auth_state \<Rightarrow> (auth_error + login_result) \<times> auth_state" where
  "open_session env u fv s =
     (let (accessToken, s1) = generateAccessToken env (account_payload u) None (fv_secret fv) (fv_now fv) s
      in case generateRefreshToken env (us_id u) (fv_rawToken fv) (fv_tokenId fv) (fv_now fv) s1 of
           (Inl e, s2) \<Rightarrow> (Inl e, s2)
         | (Inr refreshToken, s2) \<Rightarrow>
             (Inr \<lparr>lr_accessToken = accessToken, lr_refreshToken = refreshToken, lr_userId = us_id u, lr_username = us_username u,
                   lr_role = us_role u, lr_sessionDays = us_sessionDays u\<rparr>, s2))"

definition setupAdmin_start :: "string \<Rightarrow> string \<Rightarrow> auth_state \<Rightarrow> auth_error option" where
  "setupAdmin_start username password s =
     (if \<not> needsSetup s then Some (ConflictError ''Setup already completed'')
      else if username = '''' \<or> length (js_trim username) = 0 then Some (BadRequestError ''Username must not be empty'')
      else if length password < MIN_PASSWORD_LENGTH then Some (BadRequestError ''Password must be at least 8 characters'')
      else None)"

definition setupAdmin_insert ::
  "auth_env \<Rightarrow> string \<Rightarrow> string \<Rightarrow> fresh_values \<Rightarrow> auth_state \<Rightarrow> (auth_error + login_result) \<times> auth_state" where
  "setupAdmin_insert env username password fv s =
     (let u = \<lparr>us_id = fv_userId fv, us_username = js_trim username, us_passwordHash = ev_bcrypt_hash env password (fv_salt fv),
               us_role = RAdmin, us_groupId = None, us_createdAt = fv_now fv, us_sessionDays = 7, us_inactivityMinutes = 0\<rparr>
      in if admin_count s > 0 then (Inl (ConflictError ''Setup already completed''), s)
         else case insert_account u s of
                (Inl e, s1) \<Rightarrow> (Inl e, s1)
              | (Inr _, s1) \<Rightarrow> open_session env u fv s1)"

definition login_verified ::
  "auth_env \<Rightarrow> account option \<Rightarrow> string \<Rightarrow> fresh_values \<Rightarrow> auth_state \<Rightarrow> (auth_error + login_result) \<times> auth_state" where
  "login_verified env user password fv s =
     (case user of
        None \<Rightarrow> (Inl (UnauthorizedError ''Invalid username or password''), s)
      | Some u \<Rightarrow>
          if \<not> ev_bcrypt_compare env password (us_passwordHash u) then (Inl (UnauthorizedError ''Invalid username or password''), s)
          else open_session env u fv s)"

definition auth_refresh ::
  "auth_env \<Rightarrow> string \<Rightarrow> bool \<Rightarrow> string \<Rightarrow> ms \<Rightarrow> auth_state \<Rightarrow> (auth_error + string) \<times> auth_state" where
  "auth_refresh env refreshToken active fresh now s =
     (case validateRefreshToken env refreshToken now s of
        (None, s1) \<Rightarrow> (Inl (UnauthorizedError ''Invalid or expired refresh token''), s1)
      | (Some tokenRecord, s1) \<Rightarrow>
          (case getUser (rk_userId tokenRecord) s1 of
             None \<Rightarrow> (Inl (UnauthorizedError ''User not found''), s1)
           | Some user \<Rightarrow>
               let s2 = (if active then touchRefreshActivity env refreshToken now s1 else s1);
                   (accessToken, s3) = generateAccessToken env (account_payload user) None fresh now s2
               in (Inr accessToken, s3)))"

definition logout :: "auth_env \<Rightarrow> string \<Rightarrow> auth_state \<Rightarrow> auth_state" where
  "logout env refreshToken s = revokeRefreshToken env refreshToken s"

definition DEMO_USERNAME :: string where "DEMO_USERNAME = ''demo''"

definition createDemoSession ::
  "auth_env \<Rightarrow> int \<Rightarrow> string \<Rightarrow> ms \<Rightarrow> auth_state \<Rightarrow> (auth_error + string \<times> account) \<times> auth_state" where
  "createDemoSession env sessionMinutes fresh now s =
     (case getUserByUsername DEMO_USERNAME s of
        None \<Rightarrow> (Inl (UnauthorizedError ''Public demo user is not provisioned''), s)
      | Some user \<Rightarrow>
          if us_role user \<noteq> RUser then (Inl (UnauthorizedError ''Public demo identity is misconfigured''), s)
          else let (accessToken, s1) = generateAccessToken env ((account_payload user)\<lparr>ap_role := RUser, ap_sessionType := Some SPublicDemo\<rparr>)
                                         (Some sessionMinutes) fresh now s
               in (Inr (accessToken, user), s1))"

section \<open>Steps\<close>

text \<open>What an operation that awaits bcrypt keeps for later: its arguments and what it has read.\<close>

datatype auth_task =
    TSetup string string
  | TLogin "account option" string
  | TCreate string string "string option" principal_role int int
  | TUpdate string user_updates string
  | TChangeCompare account string string
  | TChangeHash string string

record auth_system =
  ay_db :: auth_state
  ay_tasks :: "(nat, auth_task) jsmap"
  ay_next :: nat

definition add_task :: "auth_task \<Rightarrow> auth_system \<Rightarrow> auth_system" where
  "add_task t y = y\<lparr>ay_tasks := AList.update (ay_next y) t (ay_tasks y), ay_next := Suc (ay_next y)\<rparr>"

text \<open>\<open>updateUser\<close> up to its end or the hashing of the password.\<close>

definition updateUser_start :: "string \<Rightarrow> user_updates \<Rightarrow> auth_system \<Rightarrow> auth_error option \<times> auth_system" where
  "updateUser_start i upd y =
     (case getUser i (ay_db y) of
        None \<Rightarrow> (Some (NotFoundError ''User not found''), y)
      | Some existing \<Rightarrow>
          (case update_role existing upd (ay_db y) of
             (Some e, s1) \<Rightarrow> (Some e, y\<lparr>ay_db := s1\<rparr>)
           | (None, s1) \<Rightarrow>
               (case update_policy existing upd s1 of
                  (Some e, s2) \<Rightarrow> (Some e, y\<lparr>ay_db := s2\<rparr>)
                | (None, s2) \<Rightarrow>
                    (case uu_password upd of
                       Some password \<Rightarrow>
                         (case validatePassword password of
                            Some e \<Rightarrow> (Some e, y\<lparr>ay_db := s2\<rparr>)
                          | None \<Rightarrow> (None, add_task (TUpdate i upd password) (y\<lparr>ay_db := s2\<rparr>)))
                     | None \<Rightarrow> (case update_group i upd s2 of (e, s3) \<Rightarrow> (e, y\<lparr>ay_db := s3\<rparr>))))))"

definition updateUser_hashed :: "auth_env \<Rightarrow> string \<Rightarrow> user_updates \<Rightarrow> string \<Rightarrow> nat \<Rightarrow> auth_state \<Rightarrow> auth_error option \<times> auth_state" where
  "updateUser_hashed env i upd password salt s = update_group i upd (set_password i (ev_bcrypt_hash env password salt) s)"

definition createUser_start :: "string \<Rightarrow> int \<Rightarrow> int \<Rightarrow> auth_error option" where
  "createUser_start password sessionDays inactivityMinutes =
     (case validatePassword password of Some e \<Rightarrow> Some e | None \<Rightarrow> validateSessionPolicy sessionDays inactivityMinutes)"

definition createUser_insert ::
  "auth_env \<Rightarrow> string \<Rightarrow> string \<Rightarrow> string option \<Rightarrow> principal_role \<Rightarrow> int \<Rightarrow> int \<Rightarrow> fresh_values \<Rightarrow> auth_state
    \<Rightarrow> (auth_error + account) \<times> auth_state" where
  "createUser_insert env username password groupId role sessionDays inactivityMinutes fv s =
     insert_account \<lparr>us_id = fv_userId fv, us_username = username, us_passwordHash = ev_bcrypt_hash env password (fv_salt fv),
       us_role = role, us_groupId = groupId, us_createdAt = fv_now fv, us_sessionDays = sessionDays,
       us_inactivityMinutes = inactivityMinutes\<rparr> s"

definition changePassword_compared :: "auth_env \<Rightarrow> account \<Rightarrow> string \<Rightarrow> string \<Rightarrow> auth_error option" where
  "changePassword_compared env user currentPassword newPassword =
     (if \<not> ev_bcrypt_compare env currentPassword (us_passwordHash user) then Some (UnauthorizedError ''Current password is incorrect'')
      else validatePassword newPassword)"

datatype auth_op =
    ASetup string string
  | ALogin string string
  | ACreateUser string string "string option" principal_role int int
  | AUpdateUser string user_updates
  | AChangePassword string string string
  | AResume nat fresh_values
  | ARefresh string bool string ms
  | ALogout string
  | ADeleteUser string
  | ADemoSession int string ms
  | ACreateGroup string "(string \<times> permission_level) list" string ms
  | AUpdateGroup string string "(string \<times> permission_level) list"
  | ADeleteGroup string

text \<open>A task that is resumed: it may end, or await once more.\<close>

fun resume_task :: "auth_env \<Rightarrow> fresh_values \<Rightarrow> auth_task \<Rightarrow> auth_system \<Rightarrow> auth_system" where
  "resume_task env fv (TSetup username password) y = y\<lparr>ay_db := snd (setupAdmin_insert env username password fv (ay_db y))\<rparr>"
| "resume_task env fv (TLogin user password) y = y\<lparr>ay_db := snd (login_verified env user password fv (ay_db y))\<rparr>"
| "resume_task env fv (TCreate username password groupId role days minutes) y =
     y\<lparr>ay_db := snd (createUser_insert env username password groupId role days minutes fv (ay_db y))\<rparr>"
| "resume_task env fv (TUpdate i upd password) y = y\<lparr>ay_db := snd (updateUser_hashed env i upd password (fv_salt fv) (ay_db y))\<rparr>"
| "resume_task env fv (TChangeCompare user current new) y =
     (case changePassword_compared env user current new of Some e \<Rightarrow> y | None \<Rightarrow> add_task (TChangeHash (us_id user) new) y)"
| "resume_task env fv (TChangeHash i new) y = y\<lparr>ay_db := set_password i (ev_bcrypt_hash env new (fv_salt fv)) (ay_db y)\<rparr>"

fun auth_step :: "auth_env \<Rightarrow> auth_op \<Rightarrow> auth_system \<Rightarrow> auth_system" where
  "auth_step env (ASetup username password) y =
     (case setupAdmin_start username password (ay_db y) of Some e \<Rightarrow> y | None \<Rightarrow> add_task (TSetup username password) y)"
| "auth_step env (ALogin username password) y = add_task (TLogin (getUserByUsername username (ay_db y)) password) y"
| "auth_step env (ACreateUser username password groupId role days minutes) y =
     (case createUser_start password days minutes of
        Some e \<Rightarrow> y
      | None \<Rightarrow> add_task (TCreate username password groupId role days minutes) y)"
| "auth_step env (AUpdateUser i upd) y = snd (updateUser_start i upd y)"
| "auth_step env (AChangePassword i current new) y =
     (case getUser i (ay_db y) of None \<Rightarrow> y | Some user \<Rightarrow> add_task (TChangeCompare user current new) y)"
| "auth_step env (AResume n fv) y =
     (case map_of (ay_tasks y) n of
        None \<Rightarrow> y
      | Some t \<Rightarrow> resume_task env fv t (y\<lparr>ay_tasks := AList.delete n (ay_tasks y)\<rparr>))"
| "auth_step env (ARefresh token active fresh now) y = y\<lparr>ay_db := snd (auth_refresh env token active fresh now (ay_db y))\<rparr>"
| "auth_step env (ALogout token) y = y\<lparr>ay_db := logout env token (ay_db y)\<rparr>"
| "auth_step env (ADeleteUser i) y = y\<lparr>ay_db := snd (deleteUser i (ay_db y))\<rparr>"
| "auth_step env (ADemoSession minutes fresh now) y = y\<lparr>ay_db := snd (createDemoSession env minutes fresh now (ay_db y))\<rparr>"
| "auth_step env (ACreateGroup name tabs i now) y = y\<lparr>ay_db := snd (createGroup name tabs i now (ay_db y))\<rparr>"
| "auth_step env (AUpdateGroup i name tabs) y = y\<lparr>ay_db := snd (updateGroup i name tabs (ay_db y))\<rparr>"
| "auth_step env (ADeleteGroup i) y = y\<lparr>ay_db := snd (deleteGroup i (ay_db y))\<rparr>"

definition auth_empty :: auth_system where
  "auth_empty = \<lparr>ay_db = \<lparr>as_users = [], as_tokens = [], as_groups = [], as_group_tabs = [], as_secretRow = None, as_cachedSecret = None\<rparr>,
     ay_tasks = [], ay_next = 0\<rparr>"

section \<open>The tables stay consistent\<close>

definition policy_ok :: "account \<Rightarrow> bool" where
  "policy_ok u \<longleftrightarrow> us_sessionDays u \<in> {1, 7, 30} \<and> us_inactivityMinutes u \<in> {0, 30, 120, 480}"

definition users_ok :: "account list \<Rightarrow> group_row list \<Rightarrow> bool" where
  "users_ok us gs \<longleftrightarrow> distinct (map us_id us) \<and> distinct (map us_username us)
     \<and> (\<forall>u \<in> set us. policy_ok u \<and> (\<forall>g. us_groupId u = Some g \<longrightarrow> g \<in> gp_id ` set gs))"

definition tokens_ok :: "refresh_row list \<Rightarrow> account list \<Rightarrow> bool" where
  "tokens_ok ts us \<longleftrightarrow> distinct (map rt_id ts) \<and> distinct (map rt_tokenHash ts)
     \<and> (\<forall>r \<in> set ts. rt_userId r \<in> us_id ` set us \<and> (\<exists>d \<in> {1, 7, 30}. rt_expiresAt r = rt_createdAt r + d * DAY_MS))"

fun tab_key :: "string \<times> string \<times> permission_level \<Rightarrow> string \<times> string" where
  "tab_key (g, t, p) = (g, t)"

definition groups_ok :: "group_row list \<Rightarrow> (string \<times> string \<times> permission_level) list \<Rightarrow> bool" where
  "groups_ok gs gt \<longleftrightarrow> distinct (map gp_id gs) \<and> distinct (map gp_name gs)
     \<and> distinct (map tab_key gt) \<and> fst ` set gt \<subseteq> gp_id ` set gs"

definition auth_inv :: "auth_state \<Rightarrow> bool" where
  "auth_inv s \<longleftrightarrow> users_ok (as_users s) (as_groups s) \<and> tokens_ok (as_tokens s) (as_users s) \<and> groups_ok (as_groups s) (as_group_tabs s)"

fun task_ok :: "auth_task \<Rightarrow> bool" where
  "task_ok (TCreate username password g role days minutes) = (validateSessionPolicy days minutes = None)"
| "task_ok _ = True"

definition system_inv :: "auth_system \<Rightarrow> bool" where
  "system_inv y \<longleftrightarrow> auth_inv (ay_db y) \<and> (\<forall>t \<in> snd ` set (ay_tasks y). task_ok t)"

lemma auth_inv_frame:
  "auth_inv s \<Longrightarrow> as_users s' = as_users s \<Longrightarrow> as_tokens s' = as_tokens s \<Longrightarrow> as_groups s' = as_groups s \<Longrightarrow>
    as_group_tabs s' = as_group_tabs s \<Longrightarrow> auth_inv s'"
  by (simp add: auth_inv_def)

lemma find_account_iff:
  assumes "users_ok (as_users s) gs"
  shows "find_account i s = Some u \<longleftrightarrow> u \<in> set (as_users s) \<and> us_id u = i"
proof
  show "find_account i s = Some u \<Longrightarrow> u \<in> set (as_users s) \<and> us_id u = i"
    by (auto simp: find_account_def dest: find_SomeD)
  assume u: "u \<in> set (as_users s) \<and> us_id u = i"
  then obtain v where v: "find_account i s = Some v"
    by (cases "find_account i s") (auto simp: find_account_def find_None_iff)
  then have "v \<in> set (as_users s)" "us_id v = i" by (auto simp: find_account_def dest: find_SomeD)
  then have "v = u" using u assms by (auto simp: users_ok_def distinct_map dest: inj_onD)
  then show "find_account i s = Some u" using v by simp
qed

lemma find_account_None: "find_account i s = None \<longleftrightarrow> i \<notin> us_id ` set (as_users s)"
  by (auto simp: find_account_def find_None_iff)

lemma validateSessionPolicy_None: "validateSessionPolicy d m = None \<longleftrightarrow> d \<in> {1, 7, 30} \<and> m \<in> {0, 30, 120, 480}"
  by (simp add: validateSessionPolicy_def)

lemma group_exists_iff: "group_exists g s \<longleftrightarrow> (\<forall>i. g = Some i \<longrightarrow> i \<in> gp_id ` set (as_groups s))"
  by (auto simp: group_exists_def list_ex_iff split: option.split)

text \<open>Rewriting one row keeps the keys.\<close>

lemma users_ok_update:
  assumes ok: "users_ok us gs"
    and f: "\<And>u. u \<in> set us \<Longrightarrow> us_id u = i \<Longrightarrow> us_id (f u) = us_id u \<and> us_username (f u) = us_username u \<and> policy_ok (f u)
      \<and> (\<forall>g. us_groupId (f u) = Some g \<longrightarrow> g \<in> gp_id ` set gs)"
  shows "users_ok (map (\<lambda>u. if us_id u = i then f u else u) us) gs"
proof -
  have "map us_id (map (\<lambda>u. if us_id u = i then f u else u) us) = map us_id us"
    "map us_username (map (\<lambda>u. if us_id u = i then f u else u) us) = map us_username us"
    using f by (auto simp: map_eq_conv)
  then show ?thesis using ok f unfolding users_ok_def by (auto simp del: map_map)
qed

lemma tokens_ok_users: "tokens_ok ts us \<Longrightarrow> us_id ` set us \<subseteq> us_id ` set us' \<Longrightarrow> tokens_ok ts us'"
  by (auto simp: tokens_ok_def)

lemma tokens_ok_filter: "tokens_ok ts us \<Longrightarrow> tokens_ok (filter P ts) us"
  by (auto simp: tokens_ok_def distinct_map_filter)

lemma update_account_ids:
  assumes "\<And>u. us_id u = i \<Longrightarrow> us_id (f u) = us_id u"
  shows "us_id ` set (as_users (update_account i f s)) = us_id ` set (as_users s)"
proof -
  have "map us_id (as_users (update_account i f s)) = map us_id (as_users s)" using assms by (simp add: update_account_def)
  then show ?thesis by (metis set_map)
qed

lemma auth_inv_update:
  assumes inv: "auth_inv s"
    and f: "\<And>u. u \<in> set (as_users s) \<Longrightarrow> us_id u = i \<Longrightarrow> us_username (f u) = us_username u \<and> policy_ok (f u)
      \<and> (\<forall>g. us_groupId (f u) = Some g \<longrightarrow> g \<in> gp_id ` set (as_groups s))"
    and i: "\<And>u. us_id u = i \<Longrightarrow> us_id (f u) = us_id u"
  shows "auth_inv (update_account i f s)"
proof -
  have "users_ok (map (\<lambda>u. if us_id u = i then f u else u) (as_users s)) (as_groups s)"
    by (rule users_ok_update) (use inv f i in \<open>auto simp: auth_inv_def\<close>)
  moreover have "tokens_ok (as_tokens s) (as_users (update_account i f s))"
    by (rule tokens_ok_users [of _ "as_users s"]) (use inv update_account_ids [of i f s] i in \<open>auto simp: auth_inv_def\<close>)
  ultimately show ?thesis using inv by (simp add: auth_inv_def update_account_def)
qed

lemma auth_inv_revoke: "auth_inv s \<Longrightarrow> auth_inv (s\<lparr>as_tokens := filter P (as_tokens s)\<rparr>)"
  by (simp add: auth_inv_def tokens_ok_filter)

lemma insert_account_inv:
  "auth_inv s \<Longrightarrow> policy_ok u \<Longrightarrow> auth_inv (snd (insert_account u s))"
proof -
  assume inv: "auth_inv s" and p: "policy_ok u"
  have "auth_inv (s\<lparr>as_users := as_users s @ [u]\<rparr>)"
    if "\<not> list_ex (\<lambda>v. us_id v = us_id u \<or> us_username v = us_username u) (as_users s)" "group_exists (us_groupId u) s"
    using that inv p tokens_ok_users [of "as_tokens s" "as_users s" "as_users s @ [u]"]
    by (auto simp: auth_inv_def users_ok_def list_ex_iff group_exists_iff)
  then show ?thesis using inv by (auto simp: insert_account_def)
qed

lemma getSecret_tables [simp]:
  "as_users (snd (getSecret env f s)) = as_users s" "as_tokens (snd (getSecret env f s)) = as_tokens s"
  "as_groups (snd (getSecret env f s)) = as_groups s" "as_group_tabs (snd (getSecret env f s)) = as_group_tabs s"
  by (simp_all add: getSecret_def split: option.split)

lemma generateAccessToken_tables [simp]:
  "as_users (snd (generateAccessToken env p m f now s)) = as_users s" "as_tokens (snd (generateAccessToken env p m f now s)) = as_tokens s"
  "as_groups (snd (generateAccessToken env p m f now s)) = as_groups s"
  "as_group_tabs (snd (generateAccessToken env p m f now s)) = as_group_tabs s"
  by (simp_all add: generateAccessToken_def Let_def case_prod_beta)

lemma generateRefreshToken_inv:
  assumes "auth_inv s" shows "auth_inv (snd (generateRefreshToken env i raw uuid now s))"
proof -
  obtain d m where pol: "dbSessionPolicy i s = (d, m)" by (cases "dbSessionPolicy i s")
  have "d \<in> {1, 7, 30}"
    using pol assms find_account_iff [of s "as_groups s" i]
    by (auto simp: dbSessionPolicy_def auth_inv_def users_ok_def policy_ok_def split: option.splits)
  then show ?thesis using assms find_account_None [of i s]
    by (auto simp: generateRefreshToken_def pol Let_def auth_inv_def tokens_ok_def list_ex_iff)
qed

lemma open_session_inv: "auth_inv s \<Longrightarrow> auth_inv (snd (open_session env u fv s))"
proof -
  assume "auth_inv s"
  then have "auth_inv (snd (generateAccessToken env (account_payload u) None (fv_secret fv) (fv_now fv) s))"
    by (rule auth_inv_frame) simp_all
  then have "auth_inv (snd (generateRefreshToken env (us_id u) (fv_rawToken fv) (fv_tokenId fv) (fv_now fv)
      (snd (generateAccessToken env (account_payload u) None (fv_secret fv) (fv_now fv) s))))"
    by (rule generateRefreshToken_inv)
  then show ?thesis by (simp add: open_session_def case_prod_beta Let_def split: prod.split sum.split)
qed

lemma setupAdmin_inv: "auth_inv s \<Longrightarrow> auth_inv (snd (setupAdmin_insert env username password fv s))"
proof -
  assume inv: "auth_inv s"
  let ?u = "\<lparr>us_id = fv_userId fv, us_username = js_trim username, us_passwordHash = ev_bcrypt_hash env password (fv_salt fv),
    us_role = RAdmin, us_groupId = None, us_createdAt = fv_now fv, us_sessionDays = 7, us_inactivityMinutes = 0\<rparr>"
  have "auth_inv (snd (insert_account ?u s))" by (rule insert_account_inv [OF inv]) (simp add: policy_ok_def)
  moreover obtain r s1 where "insert_account ?u s = (r, s1)" by (cases "insert_account ?u s")
  ultimately show ?thesis using inv open_session_inv [of s1 env ?u fv]
    by (cases r) (simp_all add: setupAdmin_insert_def Let_def)
qed

lemma validate_inv: "auth_inv s \<Longrightarrow> auth_inv (snd (validateRefreshToken env token now s))"
  by (simp add: validateRefreshToken_def auth_inv_revoke case_prod_beta Let_def split: option.split)

lemma touch_inv:
  assumes inv: "auth_inv s" shows "auth_inv (touchRefreshActivity env token now s)"
proof -
  let ?ts = "map (\<lambda>r. if rt_tokenHash r = ev_sha256 env token then r\<lparr>rt_lastActivityAt := Some now\<rparr> else r) (as_tokens s)"
  have keys: "map rt_id ?ts = map rt_id (as_tokens s)" "map rt_tokenHash ?ts = map rt_tokenHash (as_tokens s)" by simp_all
  have "rt_userId r \<in> us_id ` set (as_users s) \<and> (\<exists>d \<in> {1, 7, 30}. rt_expiresAt r = rt_createdAt r + d * DAY_MS)"
    if r: "r \<in> set ?ts" for r
  proof -
    obtain r0 where r0: "r0 \<in> set (as_tokens s)" "r = (if rt_tokenHash r0 = ev_sha256 env token then r0\<lparr>rt_lastActivityAt := Some now\<rparr> else r0)"
      using r unfolding set_map by (rule imageE)
    then have "rt_userId r = rt_userId r0" "rt_expiresAt r = rt_expiresAt r0" "rt_createdAt r = rt_createdAt r0" by simp_all
    then show ?thesis using r0(1) inv by (simp add: auth_inv_def tokens_ok_def)
  qed
  then have "tokens_ok ?ts (as_users s)" using inv unfolding auth_inv_def tokens_ok_def keys by blast
  then show ?thesis using inv by (simp add: auth_inv_def touchRefreshActivity_def)
qed

lemma refresh_inv:
  assumes "auth_inv s" shows "auth_inv (snd (auth_refresh env token active f now s))"
proof -
  obtain v s1 where v: "validateRefreshToken env token now s = (v, s1)" by (cases "validateRefreshToken env token now s")
  have s1: "auth_inv s1" using validate_inv [OF assms, of env token now] v by simp
  have "auth_inv (snd (generateAccessToken env p None f now (if active then touchRefreshActivity env token now s1 else s1)))" for p
    by (rule auth_inv_frame [of "if active then touchRefreshActivity env token now s1 else s1"]) (use s1 touch_inv in auto)
  then show ?thesis using s1 by (auto simp: auth_refresh_def v Let_def case_prod_beta split: option.split)
qed

lemma policy_of: "auth_inv s \<Longrightarrow> u \<in> set (as_users s) \<Longrightarrow> policy_ok u"
  by (simp add: auth_inv_def users_ok_def)

lemma group_of: "auth_inv s \<Longrightarrow> u \<in> set (as_users s) \<Longrightarrow> us_groupId u = Some g \<Longrightarrow> g \<in> gp_id ` set (as_groups s)"
  by (auto simp: auth_inv_def users_ok_def)

lemma update_role_inv:
  "auth_inv s \<Longrightarrow> auth_inv (snd (update_role existing upd s))"
  using policy_of [of s] group_of [of s]
  by (auto simp: update_role_def policy_ok_def split: option.split intro!: auth_inv_update)

lemma update_policy_inv:
  "auth_inv s \<Longrightarrow> auth_inv (snd (update_policy existing upd s))"
  using group_of [of s]
  by (auto simp: update_policy_def Let_def validateSessionPolicy_None policy_ok_def split: option.split intro!: auth_inv_update)

lemma update_group_inv:
  assumes "auth_inv s" shows "auth_inv (snd (update_group i upd s))"
proof -
  have "auth_inv (update_account i (\<lambda>u. u\<lparr>us_groupId := g\<rparr>) s)" if "\<not> (find_account i s \<noteq> None \<and> \<not> group_exists g s)" for g
  proof (rule auth_inv_update [OF assms])
    fix u assume u: "u \<in> set (as_users s)" "us_id u = i"
    then have "find_account i s \<noteq> None" by (auto simp: find_account_None)
    then have "group_exists g s" using that by simp
    then show "us_username (u\<lparr>us_groupId := g\<rparr>) = us_username u \<and> policy_ok (u\<lparr>us_groupId := g\<rparr>)
        \<and> (\<forall>j. us_groupId (u\<lparr>us_groupId := g\<rparr>) = Some j \<longrightarrow> j \<in> gp_id ` set (as_groups s))"
      using policy_of [OF assms u(1)] by (simp add: group_exists_iff policy_ok_def)
  qed simp
  then show ?thesis using assms by (simp add: update_group_def split: option.split)
qed

lemma set_password_inv: "auth_inv s \<Longrightarrow> auth_inv (set_password i h s)"
  unfolding set_password_def revokeAllUserTokens_def
  by (intro auth_inv_revoke auth_inv_update) (auto simp: policy_ok_def dest: policy_of group_of)

lemma deleteUser_inv:
  assumes inv: "auth_inv s" shows "auth_inv (snd (deleteUser i s))"
proof -
  have "auth_inv (revokeAllUserTokens i (s\<lparr>as_users := filter (\<lambda>u. us_id u \<noteq> i) (as_users s)\<rparr>))"
    using inv by (auto simp: auth_inv_def revokeAllUserTokens_def users_ok_def tokens_ok_def distinct_map_filter)
  then show ?thesis using inv by (simp add: deleteUser_def split: option.split)
qed

lemma insert_assignments_eq: "insert_assignments gid as rows = Some rows' \<Longrightarrow> rows' = rows @ map (Pair gid) as"
  by (induction gid as rows rule: insert_assignments.induct) (auto split: if_splits)

lemma insert_assignments_distinct:
  assumes "insert_assignments gid as rows = Some rows'" "distinct (map tab_key rows)"
  shows "distinct (map tab_key rows')"
  using assms
proof (induction gid as rows rule: insert_assignments.induct)
  case (2 gid tab p rest rows)
  have new: "\<not> list_ex (\<lambda>(g, t, q). g = gid \<and> t = tab) rows" "insert_assignments gid rest (rows @ [(gid, tab, p)]) = Some rows'"
    using 2(2) by (simp_all split: if_splits)
  then have "(gid, tab) \<notin> tab_key ` set rows" by (auto simp: list_ex_iff)
  then show ?case using 2(1) [OF new] 2(3) by simp
qed simp

lemma createGroup_inv:
  assumes inv: "auth_inv s" shows "auth_inv (snd (createGroup name tabs i now s))"
proof -
  have "auth_inv (s\<lparr>as_groups := as_groups s @ [\<lparr>gp_id = i, gp_name = name, gp_createdAt = now\<rparr>], as_group_tabs := rows\<rparr>)"
    if "\<not> list_ex (\<lambda>g. gp_id g = i \<or> gp_name g = name) (as_groups s)" "insert_assignments i tabs (as_group_tabs s) = Some rows" for rows
    using inv that insert_assignments_eq [OF that(2)] insert_assignments_distinct [OF that(2)]
    by (auto simp: auth_inv_def users_ok_def groups_ok_def list_ex_iff)
  then show ?thesis using inv by (auto simp: createGroup_def split: option.split)
qed

lemma rename_keeps_ids: "map gp_id (map (\<lambda>g. if gp_id g = i then g\<lparr>gp_name := name\<rparr> else g) gs) = map gp_id gs"
  by simp

lemma rename_names:
  assumes "distinct (map gp_id gs)" "distinct (map gp_name gs)" "\<not> list_ex (\<lambda>g. gp_id g \<noteq> i \<and> gp_name g = name) gs"
  shows "distinct (map gp_name (map (\<lambda>g. if gp_id g = i then g\<lparr>gp_name := name\<rparr> else g) gs))"
  using assms
proof (induction gs)
  case (Cons g gs)
  have "gp_name x \<noteq> name" if "x \<in> set gs" "gp_id x \<noteq> i" for x using Cons.prems(3) that by (auto simp: list_ex_iff)
  then show ?case using Cons by (auto simp: image_iff)
qed simp

lemma updateGroup_inv:
  assumes inv: "auth_inv s" shows "auth_inv (snd (updateGroup i name tabs s))"
proof -
  let ?gs = "map (\<lambda>g. if gp_id g = i then g\<lparr>gp_name := name\<rparr> else g) (as_groups s)"
  let ?old = "filter (\<lambda>(g, a). g \<noteq> i) (as_group_tabs s)"
  have "auth_inv (s\<lparr>as_groups := ?gs, as_group_tabs := rows\<rparr>)"
    if g: "find_group i s = Some existing" and n: "\<not> list_ex (\<lambda>g. gp_id g \<noteq> i \<and> gp_name g = name) (as_groups s)"
      and r: "insert_assignments i tabs ?old = Some rows" for existing rows
  proof -
    have ids: "gp_id ` set ?gs = gp_id ` set (as_groups s)"
      by (metis rename_keeps_ids set_map)
    have "i \<in> gp_id ` set (as_groups s)" using g by (auto simp: find_group_def dest: find_SomeD)
    moreover have "distinct (map tab_key ?old)" using inv by (simp add: auth_inv_def groups_ok_def distinct_map_filter)
    then have "distinct (map tab_key rows)" by (rule insert_assignments_distinct [OF r])
    moreover have "fst ` set rows \<subseteq> gp_id ` set (as_groups s) \<union> {i}"
      using inv by (auto simp: insert_assignments_eq [OF r] auth_inv_def groups_ok_def)
    ultimately have "groups_ok ?gs rows"
      using inv rename_names [OF _ _ n] ids rename_keeps_ids [of i name "as_groups s"]
      unfolding groups_ok_def auth_inv_def by (auto simp del: map_map)
    then show ?thesis using inv ids by (simp add: auth_inv_def users_ok_def del: set_map)
  qed
  then show ?thesis using inv by (simp add: updateGroup_def split: option.split)
qed

lemma deleteGroup_inv:
  assumes inv: "auth_inv s" shows "auth_inv (snd (deleteGroup i s))"
proof -
  let ?us = "map (\<lambda>u. if us_groupId u = Some i then u\<lparr>us_groupId := None\<rparr> else u) (as_users s)"
  let ?gs = "filter (\<lambda>g. gp_id g \<noteq> i) (as_groups s)"
  have keys: "map us_id ?us = map us_id (as_users s)" "map us_username ?us = map us_username (as_users s)" by simp_all
  have "policy_ok u \<and> (\<forall>g. us_groupId u = Some g \<longrightarrow> g \<in> gp_id ` set ?gs)" if u: "u \<in> set ?us" for u
  proof -
    obtain v where v: "v \<in> set (as_users s)" "u = (if us_groupId v = Some i then v\<lparr>us_groupId := None\<rparr> else v)"
      using u unfolding set_map by (rule imageE)
    then have "policy_ok u" using policy_of [OF inv v(1)] by (simp add: policy_ok_def)
    moreover have "g \<in> gp_id ` set ?gs" if "us_groupId u = Some g" for g
      using that v(2) group_of [OF inv v(1), of g] by (cases "us_groupId v = Some i") auto
    ultimately show ?thesis by blast
  qed
  then have "users_ok ?us ?gs" using inv unfolding auth_inv_def users_ok_def keys by blast
  moreover have "tokens_ok (as_tokens s) ?us"
  proof (rule tokens_ok_users)
    show "tokens_ok (as_tokens s) (as_users s)" using inv by (simp add: auth_inv_def)
    have "us_id ` set ?us = us_id ` set (as_users s)"
      using keys(1) [THEN arg_cong, of set] by (simp only: set_map image_image)
    then show "us_id ` set (as_users s) \<subseteq> us_id ` set ?us" by (rule equalityD2)
  qed
  moreover have "groups_ok ?gs (filter (\<lambda>(g, a). g \<noteq> i) (as_group_tabs s))"
    using inv by (auto simp: auth_inv_def groups_ok_def distinct_map_filter)
  ultimately show ?thesis using inv by (simp add: deleteGroup_def auth_inv_def split: option.split)
qed

lemma tabs_distinct:
  assumes "distinct (map tab_key (as_group_tabs s))"
  shows "distinct (map fst (getTabAssignments g s))"
proof -
  have "distinct (map tab_key gt) \<Longrightarrow> distinct (map fst (map snd (filter (\<lambda>(h, a). h = g) gt)))" for gt
    by (induction gt) (auto simp: image_iff)
  from this [OF assms] show ?thesis by (simp add: getTabAssignments_def)
qed

lemma values_update: "snd ` set (AList.update k v m) \<subseteq> insert v (snd ` set m)"
  by (induction m) auto

lemma system_inv_task:
  assumes y: "system_inv y" and t: "task_ok t" shows "system_inv (add_task t y)"
proof -
  have "task_ok t'" if "t' \<in> snd ` set (AList.update (ay_next y) t (ay_tasks y))" for t'
    using subsetD [OF values_update that] y t by (auto simp: system_inv_def)
  then show ?thesis using y unfolding system_inv_def add_task_def by simp
qed

lemma add_task_db [simp]: "ay_db (add_task t y) = ay_db y"
  by (simp add: add_task_def)

lemma updateUser_start_inv:
  assumes "system_inv y" shows "system_inv (snd (updateUser_start i upd y))"
proof (cases "getUser i (ay_db y)")
  case None
  then show ?thesis using assms by (simp add: updateUser_start_def)
next
  case (Some existing)
  obtain e1 s1 where s1: "update_role existing upd (ay_db y) = (e1, s1)" by (cases "update_role existing upd (ay_db y)")
  obtain e2 s2 where s2: "update_policy existing upd s1 = (e2, s2)" by (cases "update_policy existing upd s1")
  have i1: "auth_inv s1" using update_role_inv [of "ay_db y" existing upd] assms s1 by (simp add: system_inv_def)
  then have i2: "auth_inv s2" using update_policy_inv [of s1 existing upd] s2 by simp
  have sys: "system_inv (y\<lparr>ay_db := s\<rparr>)" if "auth_inv s" for s using that assms by (simp add: system_inv_def)
  show ?thesis
    using sys [OF i1] sys [OF i2] sys [OF update_group_inv [OF i2]] system_inv_task [OF sys [OF i2]]
    by (auto simp: updateUser_start_def Some s1 s2 case_prod_beta split: option.split)
qed

lemma resume_inv:
  assumes y: "system_inv y" and t: "task_ok t" shows "system_inv (resume_task env fv t y)"
proof -
  have inv: "auth_inv (ay_db y)" and sys: "\<And>s. auth_inv s \<Longrightarrow> system_inv (y\<lparr>ay_db := s\<rparr>)" using y by (simp_all add: system_inv_def)
  show ?thesis
  proof (cases t)
    case (TLogin user password)
    then show ?thesis using inv y by (auto intro!: sys open_session_inv simp: login_verified_def split: option.split)
  next
    case (TCreate u p g r d m)
    have "auth_inv (snd (createUser_insert env u p g r d m fv (ay_db y)))"
      unfolding createUser_insert_def using t TCreate by (intro insert_account_inv [OF inv]) (simp add: policy_ok_def validateSessionPolicy_None)
    then show ?thesis using TCreate by (auto intro: sys)
  next
    case (TChangeCompare user c n)
    then show ?thesis using y by (auto intro: system_inv_task split: option.split)
  qed (use inv in \<open>auto intro!: sys simp: setupAdmin_inv updateUser_hashed_def update_group_inv set_password_inv\<close>)
qed

interpretation auth: invariant_machine "auth_step env" "\<lambda>_ _. True" auth_empty system_inv for env
proof
  show "system_inv auth_empty"
    by (simp add: system_inv_def auth_empty_def auth_inv_def users_ok_def tokens_ok_def groups_ok_def)
  fix y a assume y: "system_inv y"
  have inv: "auth_inv (ay_db y)" and sys: "\<And>s. auth_inv s \<Longrightarrow> system_inv (y\<lparr>ay_db := s\<rparr>)" using y by (simp_all add: system_inv_def)
  show "system_inv (auth_step env a y)"
  proof (cases a)
    case (AResume n fv)
    show ?thesis
    proof (cases "map_of (ay_tasks y) n")
      case (Some t)
      then have "task_ok t" using y map_of_SomeD [OF Some] by (force simp: system_inv_def)
      moreover have "system_inv (y\<lparr>ay_tasks := AList.delete n (ay_tasks y)\<rparr>)" using y by (auto simp: system_inv_def set_delete_jm)
      ultimately show ?thesis using AResume Some by (simp add: resume_inv)
    qed (use AResume y in simp)
  next
    case (ADemoSession m f now)
    have "auth_inv (snd (generateAccessToken env p q f now (ay_db y)))" for p q by (rule auth_inv_frame [OF inv]) simp_all
    then show ?thesis using ADemoSession inv y
      by (auto intro!: sys simp: createDemoSession_def Let_def case_prod_beta split: option.split)
  qed (use y inv in \<open>auto intro!: sys system_inv_task updateUser_start_inv simp: refresh_inv logout_def revokeRefreshToken_def auth_inv_revoke
        deleteUser_inv createGroup_inv updateGroup_inv deleteGroup_inv createUser_start_def split: option.splits\<close>)
qed

text \<open>
  C33. Whatever requests interleave, the account tables stay consistent: ids and usernames are
  unique and every user has a supported session policy and, if any, an existing group; a refresh
  token belongs to an existing user, has its own hash and expires at most thirty days after its
  creation; group names are unique and a group assigns a tab at most once.
\<close>

theorem auth_tables_consistent:
  assumes "reach (auth_step env) ok auth_empty y"
  shows "distinct (map us_id (as_users (ay_db y))) \<and> distinct (map us_username (as_users (ay_db y)))
    \<and> (\<forall>u \<in> set (as_users (ay_db y)). us_sessionDays u \<in> {1, 7, 30} \<and> us_inactivityMinutes u \<in> {0, 30, 120, 480}
         \<and> (\<forall>g. us_groupId u = Some g \<longrightarrow> getGroup g (ay_db y) \<noteq> None))
    \<and> distinct (map rt_tokenHash (as_tokens (ay_db y)))
    \<and> (\<forall>r \<in> set (as_tokens (ay_db y)). getUser (rt_userId r) (ay_db y) \<noteq> None \<and> rt_expiresAt r \<le> rt_createdAt r + 30 * DAY_MS)
    \<and> distinct (map gp_name (as_groups (ay_db y)))
    \<and> (\<forall>g. distinct (map fst (getTabAssignments g (ay_db y))))"
proof -
  have "reach (auth_step env) (\<lambda>_ _. True) auth_empty y" using assms by (induction rule: reach.induct) (auto intro: reach.intros)
  then have inv: "auth_inv (ay_db y)" using auth.reach_inv by (simp add: system_inv_def)
  have g: "getGroup g (ay_db y) \<noteq> None" if "g \<in> gp_id ` set (as_groups (ay_db y))" for g
    using that by (auto simp: getGroup_def find_group_def find_None_iff)
  have "rt_expiresAt r \<le> rt_createdAt r + 30 * DAY_MS" if "r \<in> set (as_tokens (ay_db y))" for r
    using that inv by (force simp: auth_inv_def tokens_ok_def DAY_MS_def)
  moreover have "distinct (map fst (getTabAssignments g (ay_db y)))" for g
    by (rule tabs_distinct) (use inv in \<open>simp add: auth_inv_def groups_ok_def\<close>)
  ultimately show ?thesis using inv g
    by (auto simp: auth_inv_def users_ok_def policy_ok_def tokens_ok_def groups_ok_def getUser_def find_account_None)
qed

section \<open>There is always an administrator\<close>

definition has_admin :: "auth_state \<Rightarrow> bool" where
  "has_admin s \<longleftrightarrow> (\<exists>u \<in> set (as_users s). us_role u = RAdmin)"

lemma needsSetup_iff: "needsSetup s \<longleftrightarrow> \<not> has_admin s"
  by (auto simp: needsSetup_def admin_count_def has_admin_def filter_empty_conv)

lemma another_admin:
  assumes "distinct (map us_id (as_users s))" "1 < admin_count s"
  shows "\<exists>u \<in> set (as_users s). us_role u = RAdmin \<and> us_id u \<noteq> i"
proof (rule ccontr)
  assume "\<not> ?thesis"
  then have "set (map us_id (filter (\<lambda>u. us_role u = RAdmin) (as_users s))) \<subseteq> {i}" by auto
  moreover have "distinct (map us_id (filter (\<lambda>u. us_role u = RAdmin) (as_users s)))" using assms(1) by (rule distinct_map_filter)
  ultimately have "length (map us_id (filter (\<lambda>u. us_role u = RAdmin) (as_users s))) \<le> card {i}"
    by (metis card_mono distinct_card finite.emptyI finite.insertI)
  then show False using assms(2) by (simp add: admin_count_def)
qed

lemma has_admin_other:
  "u \<in> set (as_users s) \<Longrightarrow> us_role u = RAdmin \<Longrightarrow> us_id u \<noteq> i \<Longrightarrow> has_admin (update_account i f s)"
  by (auto simp: has_admin_def update_account_def intro!: bexI [of _ u])

lemma has_admin_update:
  assumes "has_admin s" "\<And>u. us_role u = RAdmin \<Longrightarrow> us_role (f u) = RAdmin"
  shows "has_admin (update_account i f s)"
proof -
  obtain u where u: "u \<in> set (as_users s)" "us_role u = RAdmin" using assms(1) by (auto simp: has_admin_def)
  have "(if us_id u = i then f u else u) \<in> set (as_users (update_account i f s))" using u(1) by (auto simp: update_account_def)
  then show ?thesis using u(2) assms(2) unfolding has_admin_def by (metis (full_types))
qed

lemma has_admin_frame: "as_users s' = as_users s \<Longrightarrow> has_admin s' = has_admin s"
  by (simp add: has_admin_def)

lemma update_role_admin:
  assumes inv: "auth_inv s" and ad: "has_admin s" and ex: "existing \<in> set (as_users s)"
  shows "has_admin (snd (update_role existing upd s))"
proof -
  have d: "distinct (map us_id (as_users s))" using inv by (simp add: auth_inv_def users_ok_def)
  have up: "has_admin (update_account i (\<lambda>u. u\<lparr>us_role := RAdmin\<rparr>) s)" for i by (rule has_admin_update [OF ad]) simp
  have down: "has_admin (update_account (us_id existing) (\<lambda>u. u\<lparr>us_role := RUser\<rparr>) s)" if "1 < admin_count s"
    using another_admin [OF d that, of "us_id existing"] has_admin_other by blast
  show ?thesis
  proof (cases "uu_role upd")
    case (Some role)
    then show ?thesis using ad up down
      by (cases "us_role existing"; cases role) (auto simp: update_role_def assertNotLastAdmin_def)
  qed (use ad in \<open>simp add: update_role_def\<close>)
qed

lemma insert_account_admin: "has_admin s \<Longrightarrow> has_admin (snd (insert_account u s))"
  by (auto simp: insert_account_def has_admin_def)

lemma update_policy_admin: "has_admin s \<Longrightarrow> has_admin (snd (update_policy existing upd s))"
  by (auto simp: update_policy_def Let_def intro!: has_admin_update split: option.split)

lemma update_group_admin: "has_admin s \<Longrightarrow> has_admin (snd (update_group i upd s))"
  by (auto simp: update_group_def intro!: has_admin_update split: option.split)

lemma set_password_admin: "has_admin s \<Longrightarrow> has_admin (set_password i h s)"
  using has_admin_update [of s "\<lambda>u. u\<lparr>us_passwordHash := h\<rparr>" i] by (simp add: set_password_def revokeAllUserTokens_def has_admin_def)

lemma open_session_users: "as_users (snd (open_session env u fv s)) = as_users s"
  by (simp add: open_session_def generateRefreshToken_def Let_def case_prod_beta split: prod.split sum.split)

lemma refresh_users: "as_users (snd (auth_refresh env token active f now s)) = as_users s"
  by (simp add: auth_refresh_def validateRefreshToken_def touchRefreshActivity_def Let_def case_prod_beta split: prod.split option.split)

lemma deleteUser_admin:
  assumes inv: "auth_inv s" and ad: "has_admin s" shows "has_admin (snd (deleteUser i s))"
proof (cases "getUser i s")
  case None
  then show ?thesis using ad by (simp add: deleteUser_def)
next
  case (Some u)
  have d: "distinct (map us_id (as_users s))" using inv by (simp add: auth_inv_def users_ok_def)
  have u: "u \<in> set (as_users s)" "us_id u = i" using Some by (auto simp: getUser_def find_account_def dest: find_SomeD)
  have same: "v = u" if "v \<in> set (as_users s)" "us_id v = i" for v using that u d by (auto simp: distinct_map dest: inj_onD)
  have "has_admin (s\<lparr>as_users := filter (\<lambda>u. us_id u \<noteq> i) (as_users s)\<rparr>)"
    if "us_role u = RAdmin \<longrightarrow> 1 < admin_count s"
    using that another_admin [OF d, of i] same ad by (fastforce simp: has_admin_def)
  then show ?thesis using ad Some by (auto simp: deleteUser_def revokeAllUserTokens_def assertNotLastAdmin_def has_admin_def)
qed

lemma deleteGroup_admin:
  assumes "has_admin s" shows "has_admin (snd (deleteGroup i s))"
proof -
  obtain u where u: "u \<in> set (as_users s)" "us_role u = RAdmin" using assms by (auto simp: has_admin_def)
  let ?f = "\<lambda>u. if us_groupId u = Some i then u\<lparr>us_groupId := None\<rparr> else u"
  have "us_role (?f u) = RAdmin" using u(2) by simp
  moreover have "?f u \<in> set (map ?f (as_users s))" unfolding set_map using u(1) by (rule imageI)
  ultimately have "\<exists>v \<in> set (map ?f (as_users s)). us_role v = RAdmin" by (rule bexI)
  then show ?thesis using assms unfolding has_admin_def deleteGroup_def by (simp split: option.split)
qed

lemma getUser_mem: "getUser i s = Some u \<Longrightarrow> u \<in> set (as_users s)"
  by (auto simp: getUser_def find_account_def dest: find_SomeD)

lemma resume_admin:
  assumes "has_admin (ay_db y)" shows "has_admin (ay_db (resume_task env fv t y))"
proof (cases t)
  case (TSetup u p)
  then show ?thesis using assms needsSetup_iff [of "ay_db y"] by (simp add: setupAdmin_insert_def needsSetup_def Let_def)
next
  case (TLogin user p)
  then show ?thesis using assms has_admin_frame [OF open_session_users]
    by (auto simp: login_verified_def split: option.split)
qed (use assms in \<open>auto simp: createUser_insert_def insert_account_admin updateUser_hashed_def update_group_admin set_password_admin split: option.split\<close>)

lemma updateUser_start_admin:
  assumes "system_inv y" "has_admin (ay_db y)" shows "has_admin (ay_db (snd (updateUser_start i upd y)))"
proof (cases "getUser i (ay_db y)")
  case None
  then show ?thesis using assms by (simp add: updateUser_start_def)
next
  case (Some existing)
  obtain e1 s1 where s1: "update_role existing upd (ay_db y) = (e1, s1)" by (cases "update_role existing upd (ay_db y)")
  obtain e2 s2 where s2: "update_policy existing upd s1 = (e2, s2)" by (cases "update_policy existing upd s1")
  have a1: "has_admin s1"
    using update_role_admin [OF _ assms(2) getUser_mem [OF Some], of upd] assms(1) s1 by (simp add: system_inv_def)
  then have a2: "has_admin s2" using update_policy_admin [of s1 existing upd] s2 by simp
  show ?thesis using a1 a2 update_group_admin [OF a2] by (auto simp: updateUser_start_def Some s1 s2 case_prod_beta split: option.split)
qed

lemma step_admin:
  assumes y: "system_inv y" and ad: "has_admin (ay_db y)" shows "has_admin (ay_db (auth_step env a y))"
proof -
  have inv: "auth_inv (ay_db y)" using y by (simp add: system_inv_def)
  have group: "has_admin (snd (createGroup n tabs i now s)) = has_admin s" "has_admin (snd (updateGroup i n tabs s)) = has_admin s"
    "has_admin (snd (createDemoSession env m f now s)) = has_admin s" "has_admin (s\<lparr>as_tokens := ts\<rparr>) = has_admin s" for n tabs i now s m f ts
    by (simp_all add: has_admin_def createGroup_def updateGroup_def createDemoSession_def Let_def case_prod_beta split: option.split)
  show ?thesis
  proof (cases a)
    case (AResume n fv)
    then show ?thesis using ad resume_admin [of "y\<lparr>ay_tasks := AList.delete n (ay_tasks y)\<rparr>"] by (simp split: option.split)
  next
    case (AUpdateUser i upd)
    then show ?thesis using updateUser_start_admin [OF y ad] by simp
  qed (use ad inv group in \<open>auto simp: deleteUser_admin deleteGroup_admin logout_def revokeRefreshToken_def has_admin_frame [OF refresh_users]
        split: option.split\<close>)
qed

text \<open>
  C12. Setup happens once and the last administrator cannot be lost. From any state with an
  administrator, however demotions, deletions, password resets and setup requests already under
  way interleave, every later state has one; no setup request starts there, and one that was
  waiting for its password hash is refused and changes nothing.
\<close>

theorem admin_never_lost:
  assumes "reach (auth_step env) (\<lambda>_ _. True) auth_empty y" and "\<not> needsSetup (ay_db y)"
    and "reach (auth_step env) (\<lambda>_ _. True) y z"
  shows "\<not> needsSetup (ay_db z)
    \<and> setupAdmin_start username password (ay_db z) = Some (ConflictError ''Setup already completed'')
    \<and> setupAdmin_insert env username password fv (ay_db z) = (Inl (ConflictError ''Setup already completed''), ay_db z)"
proof -
  have "reach (auth_step env) (\<lambda>_ _. True) auth_empty z \<and> has_admin (ay_db z)"
    using assms(3)
  proof (induction rule: reach.induct)
    case reach_init
    then show ?case using assms(1,2) by (simp add: needsSetup_iff)
  next
    case (reach_step z a)
    then show ?case using step_admin [OF auth.reach_inv] by (auto intro: reach.reach_step)
  qed
  then have "\<not> needsSetup (ay_db z)" by (simp add: needsSetup_iff)
  then show ?thesis by (simp add: setupAdmin_start_def setupAdmin_insert_def needsSetup_def Let_def)
qed

section \<open>Sessions\<close>

definition last_activity :: "refresh_row \<Rightarrow> ms" where
  "last_activity r = (case rt_lastActivityAt r of Some t \<Rightarrow> t | None \<Rightarrow> rt_createdAt r)"

text \<open>A session is alive: issued, not past its own expiry, nor past what the user's policy allows now.\<close>

definition live_session :: "ms \<Rightarrow> refresh_row \<Rightarrow> account \<Rightarrow> bool" where
  "live_session now r u \<longleftrightarrow> us_id u = rt_userId r \<and> now \<le> rt_expiresAt r \<and> now \<le> rt_createdAt r + us_sessionDays u * DAY_MS
     \<and> (us_inactivityMinutes u = 0 \<or> now \<le> last_activity r + us_inactivityMinutes u * 60000)"

lemma find_token:
  assumes "tokens_ok ts us"
  shows "find (\<lambda>r. rt_tokenHash r = h) ts = Some r \<longleftrightarrow> r \<in> set ts \<and> rt_tokenHash r = h"
proof
  show "find (\<lambda>r. rt_tokenHash r = h) ts = Some r \<Longrightarrow> r \<in> set ts \<and> rt_tokenHash r = h" by (auto dest: find_SomeD)
  assume r: "r \<in> set ts \<and> rt_tokenHash r = h"
  then obtain r' where r': "find (\<lambda>r. rt_tokenHash r = h) ts = Some r'"
    by (cases "find (\<lambda>r. rt_tokenHash r = h) ts") (auto simp: find_None_iff)
  then have "r' \<in> set ts" "rt_tokenHash r' = h" by (auto dest: find_SomeD)
  then have "r' = r" using r assms by (auto simp: tokens_ok_def distinct_map dest: inj_onD)
  then show "find (\<lambda>r. rt_tokenHash r = h) ts = Some r" using r' by simp
qed

lemma same_token:
  assumes "tokens_ok ts us" "r \<in> set ts" "r' \<in> set ts"
  shows "rt_id r' = rt_id r \<longleftrightarrow> rt_tokenHash r' = rt_tokenHash r"
  using assms by (auto simp: tokens_ok_def distinct_map dest: inj_onD)

lemma token_user:
  assumes "auth_inv s" "r \<in> set (as_tokens s)"
  obtains u where "u \<in> set (as_users s)" "us_id u = rt_userId r" "find_account (rt_userId r) s = Some u" "0 \<le> us_inactivityMinutes u"
proof -
  obtain u where u: "u \<in> set (as_users s)" "us_id u = rt_userId r" using assms by (auto simp: auth_inv_def tokens_ok_def)
  moreover have "find_account (rt_userId r) s = Some u"
    using u assms(1) find_account_iff [of s "as_groups s" "rt_userId r" u] by (simp add: auth_inv_def)
  moreover have "0 \<le> us_inactivityMinutes u" using policy_of [OF assms(1) u(1)] by (auto simp: policy_ok_def)
  ultimately show ?thesis using that by blast
qed

lemma validate_row:
  assumes inv: "auth_inv s" and r: "r \<in> set (as_tokens s)" "rt_tokenHash r = ev_sha256 env token"
    and u: "u \<in> set (as_users s)" "us_id u = rt_userId r"
  shows "validateRefreshToken env token now s =
    (if live_session now r u
     then (Some \<lparr>rk_id = rt_id r, rk_userId = rt_userId r, rk_tokenHash = rt_tokenHash r, rk_expiresAt = rt_expiresAt r,
             rk_createdAt = rt_createdAt r, rk_lastActivityAt = last_activity r\<rparr>, s)
     else (None, s\<lparr>as_tokens := filter (\<lambda>r'. rt_tokenHash r' \<noteq> ev_sha256 env token) (as_tokens s)\<rparr>))"
proof -
  have ts: "tokens_ok (as_tokens s) (as_users s)" using inv by (simp add: auth_inv_def)
  have found: "find (\<lambda>r. rt_tokenHash r = ev_sha256 env token) (as_tokens s) = Some r" using find_token [OF ts] r by simp
  have acc: "find_account (rt_userId r) s = Some u"
    using u inv find_account_iff [of s "as_groups s" "rt_userId r" u] by (simp add: auth_inv_def)
  have rest: "filter (\<lambda>r'. rt_id r' \<noteq> rt_id r) (as_tokens s) = filter (\<lambda>r'. rt_tokenHash r' \<noteq> ev_sha256 env token) (as_tokens s)"
    by (rule filter_cong) (use same_token [OF ts r(1)] r(2) in auto)
  have m: "0 \<le> us_inactivityMinutes u" using policy_of [OF inv u(1)] by (auto simp: policy_ok_def)
  have dead: "(rt_expiresAt r < now \<or> rt_createdAt r + us_sessionDays u * DAY_MS < now
      \<or> us_inactivityMinutes u > 0 \<and> now - last_activity r > us_inactivityMinutes u * 60000) \<longleftrightarrow> \<not> live_session now r u"
    using u(2) m by (auto simp: live_session_def)
  show ?thesis using dead
    by (simp add: validateRefreshToken_def found dbSessionPolicy_def acc rest last_activity_def)
qed

lemma validate_missing:
  assumes "\<And>r. r \<in> set (as_tokens s) \<Longrightarrow> rt_tokenHash r \<noteq> ev_sha256 env token"
  shows "validateRefreshToken env token now s = (None, s)"
proof -
  have "find (\<lambda>r. rt_tokenHash r = ev_sha256 env token) (as_tokens s) = None" using assms by (simp add: find_None_iff)
  then show ?thesis by (simp add: validateRefreshToken_def)
qed

lemma reach_auth_inv: "reach (auth_step env) ok auth_empty y \<Longrightarrow> auth_inv (ay_db y)"
proof -
  assume "reach (auth_step env) ok auth_empty y"
  then have "reach (auth_step env) (\<lambda>_ _. True) auth_empty y" by (induction rule: reach.induct) (auto intro: reach.intros)
  then show ?thesis using auth.reach_inv by (simp add: system_inv_def)
qed

lemma getSecret_tokens: "fst (getSecret env f (s\<lparr>as_tokens := ts\<rparr>)) = fst (getSecret env f s)"
  by (simp add: getSecret_def split: option.split)

lemma refresh_live:
  assumes inv: "auth_inv s" and r: "r \<in> set (as_tokens s)" "rt_tokenHash r = ev_sha256 env token"
    and u: "u \<in> set (as_users s)" and live: "live_session now r u"
  shows "fst (auth_refresh env token active f now s) =
      Inr (ev_jwt_sign env (account_payload u) (fst (getSecret env f s)) ACCESS_TOKEN_EXPIRY now)"
    and "rt_tokenHash ` set (as_tokens (snd (auth_refresh env token active f now s))) = rt_tokenHash ` set (as_tokens s)"
proof -
  have id: "us_id u = rt_userId r" using live by (simp add: live_session_def)
  have v: "validateRefreshToken env token now s = (Some \<lparr>rk_id = rt_id r, rk_userId = rt_userId r, rk_tokenHash = rt_tokenHash r,
      rk_expiresAt = rt_expiresAt r, rk_createdAt = rt_createdAt r, rk_lastActivityAt = last_activity r\<rparr>, s)"
    using validate_row [OF inv r u id] live by simp
  have acc: "getUser (rt_userId r) s = Some u"
    using u id inv find_account_iff [of s "as_groups s" "rt_userId r" u] by (simp add: auth_inv_def getUser_def)
  have p: "(account_payload u)\<lparr>ap_sessionType := None\<rparr> = account_payload u" by (simp add: account_payload_def)
  show "fst (auth_refresh env token active f now s) =
      Inr (ev_jwt_sign env (account_payload u) (fst (getSecret env f s)) ACCESS_TOKEN_EXPIRY now)"
    by (simp add: auth_refresh_def v acc Let_def case_prod_beta generateAccessToken_def getSecret_tokens touchRefreshActivity_def)
      (simp add: account_payload_def)
  have "map rt_tokenHash (as_tokens (snd (auth_refresh env token active f now s))) = map rt_tokenHash (as_tokens s)"
    by (simp add: auth_refresh_def v acc Let_def case_prod_beta touchRefreshActivity_def)
  then show "rt_tokenHash ` set (as_tokens (snd (auth_refresh env token active f now s))) = rt_tokenHash ` set (as_tokens s)"
    by (metis set_map)
qed

lemma refresh_dead:
  assumes inv: "auth_inv s"
    and no: "\<And>r u. r \<in> set (as_tokens s) \<Longrightarrow> u \<in> set (as_users s) \<Longrightarrow> rt_tokenHash r = ev_sha256 env token \<Longrightarrow> \<not> live_session now r u"
  shows "fst (auth_refresh env token active f now s) = Inl (UnauthorizedError ''Invalid or expired refresh token'')"
    and "as_tokens (snd (auth_refresh env token active f now s)) = filter (\<lambda>r. rt_tokenHash r \<noteq> ev_sha256 env token) (as_tokens s)"
proof -
  have "fst (validateRefreshToken env token now s) = None
      \<and> as_tokens (snd (validateRefreshToken env token now s)) = filter (\<lambda>r. rt_tokenHash r \<noteq> ev_sha256 env token) (as_tokens s)"
  proof (cases "\<exists>r \<in> set (as_tokens s). rt_tokenHash r = ev_sha256 env token")
    case False
    then have "filter (\<lambda>r. rt_tokenHash r \<noteq> ev_sha256 env token) (as_tokens s) = as_tokens s" by (simp add: filter_id_conv)
    then show ?thesis using validate_missing [of s env token now] False by simp
  next
    case True
    then obtain r where r: "r \<in> set (as_tokens s)" "rt_tokenHash r = ev_sha256 env token" by blast
    obtain u where u: "u \<in> set (as_users s)" "us_id u = rt_userId r" by (rule token_user [OF inv r(1)])
    show ?thesis using validate_row [OF inv r u, of now] no [OF r(1) u(1) r(2)] by simp
  qed
  then show "fst (auth_refresh env token active f now s) = Inl (UnauthorizedError ''Invalid or expired refresh token'')"
    "as_tokens (snd (auth_refresh env token active f now s)) = filter (\<lambda>r. rt_tokenHash r \<noteq> ev_sha256 env token) (as_tokens s)"
    by (auto simp: auth_refresh_def split: prod.split)
qed

text \<open>
  C13. A refresh succeeds exactly for a live session: its row is stored, neither its own expiry nor
  the session length and idle limit its user's policy sets at this moment have passed. The new
  access token carries the user's current name, role and group. A refused token is removed and no
  other one is; a successful refresh removes none.
\<close>

theorem refresh_exactly_live:
  assumes "reach (auth_step env) ok auth_empty y"
  shows "((\<exists>a. fst (auth_refresh env token active f now (ay_db y)) = Inr a) \<longleftrightarrow>
      (\<exists>r \<in> set (as_tokens (ay_db y)). \<exists>u \<in> set (as_users (ay_db y)). rt_tokenHash r = ev_sha256 env token \<and> live_session now r u))
    \<and> (\<forall>r \<in> set (as_tokens (ay_db y)). \<forall>u \<in> set (as_users (ay_db y)). rt_tokenHash r = ev_sha256 env token \<and> live_session now r u \<longrightarrow>
        fst (auth_refresh env token active f now (ay_db y))
          = Inr (ev_jwt_sign env (account_payload u) (fst (getSecret env f (ay_db y))) ACCESS_TOKEN_EXPIRY now))
    \<and> rt_tokenHash ` set (as_tokens (snd (auth_refresh env token active f now (ay_db y)))) =
        {h \<in> rt_tokenHash ` set (as_tokens (ay_db y)). h \<noteq> ev_sha256 env token
           \<or> (\<exists>a. fst (auth_refresh env token active f now (ay_db y)) = Inr a)}"
proof -
  let ?s = "ay_db y" and ?h = "ev_sha256 env token"
  have inv: "auth_inv ?s" by (rule reach_auth_inv [OF assms])
  show ?thesis
  proof (cases "\<exists>r \<in> set (as_tokens ?s). \<exists>u \<in> set (as_users ?s). rt_tokenHash r = ?h \<and> live_session now r u")
    case False
    then have d: "fst (auth_refresh env token active f now ?s) = Inl (UnauthorizedError ''Invalid or expired refresh token'')"
      "as_tokens (snd (auth_refresh env token active f now ?s)) = filter (\<lambda>r. rt_tokenHash r \<noteq> ?h) (as_tokens ?s)"
      using refresh_dead [OF inv, of env token now active f] by blast+
    show ?thesis unfolding d using False by auto
  next
    case True
    then obtain r u where r: "r \<in> set (as_tokens ?s)" "rt_tokenHash r = ?h" "u \<in> set (as_users ?s)" "live_session now r u" by blast
    note l = refresh_live [OF inv r, of active f]
    have "fst (auth_refresh env token active f now ?s) =
        Inr (ev_jwt_sign env (account_payload u') (fst (getSecret env f ?s)) ACCESS_TOKEN_EXPIRY now)"
      if "r' \<in> set (as_tokens ?s)" "u' \<in> set (as_users ?s)" "rt_tokenHash r' = ?h" "live_session now r' u'" for r' u'
      using refresh_live(1) [OF inv that(1,3,2,4)] .
    then show ?thesis using True l by auto
  qed
qed

text \<open>The users that hold a refresh token, and the steps that give user \<open>i\<close> a new one.\<close>

definition holders :: "auth_state \<Rightarrow> string set" where
  "holders s = rt_userId ` set (as_tokens s)"

fun opens_session :: "string \<Rightarrow> auth_op \<Rightarrow> auth_system \<Rightarrow> bool" where
  "opens_session i (AResume n fv) y =
     (case map_of (ay_tasks y) n of
        Some (TLogin (Some u) password) \<Rightarrow> us_id u = i
      | Some (TSetup username password) \<Rightarrow> fv_userId fv = i
      | _ \<Rightarrow> False)"
| "opens_session i _ y = False"

lemma holders_frame: "as_tokens s' = as_tokens s \<Longrightarrow> holders s' = holders s"
  by (simp add: holders_def)

lemma holders_filter: "holders (s\<lparr>as_tokens := filter P (as_tokens s)\<rparr>) \<subseteq> holders s"
  by (auto simp: holders_def)

lemma open_session_holders: "holders (snd (open_session env u fv s)) \<subseteq> insert (us_id u) (holders s)"
  by (auto simp: open_session_def generateRefreshToken_def holders_def Let_def case_prod_beta split: prod.split sum.split)

lemma insert_account_tokens: "as_tokens (snd (insert_account u s)) = as_tokens s"
  by (simp add: insert_account_def)

lemma update_tokens:
  "as_tokens (snd (update_role e upd s)) = as_tokens s" "as_tokens (snd (update_policy e upd s)) = as_tokens s"
  "as_tokens (snd (update_group i upd s)) = as_tokens s"
  by (simp_all add: update_role_def update_policy_def update_group_def update_account_def Let_def split: option.split)

lemma set_password_holders: "holders (set_password i h s) = holders s - {i}"
  by (auto simp: set_password_def revokeAllUserTokens_def update_account_def holders_def)

lemma setup_holders: "holders (snd (setupAdmin_insert env username password fv s)) \<subseteq> insert (fv_userId fv) (holders s)"
proof -
  let ?u = "\<lparr>us_id = fv_userId fv, us_username = js_trim username, us_passwordHash = ev_bcrypt_hash env password (fv_salt fv),
    us_role = RAdmin, us_groupId = None, us_createdAt = fv_now fv, us_sessionDays = 7, us_inactivityMinutes = 0\<rparr>"
  obtain r s1 where i: "insert_account ?u s = (r, s1)" by (cases "insert_account ?u s")
  then have s1: "holders s1 = holders s" using insert_account_tokens [of ?u s] by (simp add: holders_def)
  then have "holders (snd (open_session env ?u fv s1)) \<subseteq> insert (fv_userId fv) (holders s)"
    using open_session_holders [of env ?u fv s1] by simp
  then show ?thesis using s1 by (cases r) (auto simp: setupAdmin_insert_def Let_def i)
qed

lemma refresh_holders: "holders (snd (auth_refresh env token active f now s)) \<subseteq> holders s"
proof -
  obtain v s1 where v: "validateRefreshToken env token now s = (v, s1)" by (cases "validateRefreshToken env token now s")
  have s1: "holders s1 \<subseteq> holders s"
    using v by (auto simp: validateRefreshToken_def holders_def Let_def case_prod_beta split: option.splits if_splits)
  have "map rt_userId (as_tokens (touchRefreshActivity env token now s1)) = map rt_userId (as_tokens s1)"
    by (simp add: touchRefreshActivity_def)
  then have t: "rt_userId ` set (as_tokens (touchRefreshActivity env token now s1)) = holders s1"
    unfolding holders_def by (metis set_map)
  show ?thesis using s1 t by (auto simp: auth_refresh_def v Let_def case_prod_beta holders_def split: option.split)
qed

lemma step_holders:
  assumes "i \<notin> holders (ay_db y)" "\<not> opens_session i a y"
  shows "i \<notin> holders (ay_db (auth_step env a y))"
proof (cases a)
  case (AResume n fv)
  show ?thesis
  proof (cases "map_of (ay_tasks y) n")
    case (Some t)
    let ?y = "y\<lparr>ay_tasks := AList.delete n (ay_tasks y)\<rparr>"
    have "i \<notin> holders (ay_db (resume_task env fv t ?y))"
    proof (cases t)
      case (TSetup u p)
      then show ?thesis using assms AResume Some setup_holders [of env u p fv "ay_db y"] by auto
    next
      case (TLogin user p)
      then show ?thesis using assms AResume Some open_session_holders [of env _ fv "ay_db y"]
        by (cases user) (auto simp: login_verified_def)
    qed (use assms set_password_holders in \<open>auto simp: createUser_insert_def updateUser_hashed_def holders_frame [OF insert_account_tokens]
          holders_frame [OF update_tokens(3)] split: option.split\<close>)
    then show ?thesis using AResume Some by simp
  qed (use AResume assms in simp)
next
  case (AUpdateUser j upd)
  have "as_tokens (ay_db (snd (updateUser_start j upd y))) = as_tokens (ay_db y)"
    using update_tokens by (simp add: updateUser_start_def case_prod_beta split: option.split)
  then show ?thesis using assms AUpdateUser by (simp add: holders_def)
next
  case (ARefresh token active f now)
  then show ?thesis using assms(1) subsetD [OF refresh_holders] by auto
qed (use assms in \<open>auto simp: holders_def logout_def revokeRefreshToken_def deleteUser_def revokeAllUserTokens_def createGroup_def
      updateGroup_def deleteGroup_def createDemoSession_def Let_def case_prod_beta split: option.splits\<close>)

text \<open>
  C14. A new password ends the sessions that exist. When a password change, an administrator's
  reset or the deletion of the account takes effect, none of the user's refresh tokens is left,
  and none is accepted in any later state that is reached without completing a login of that
  user (or a setup that creates the account again).
\<close>

theorem password_change_ends_sessions:
  assumes "reach (auth_step env) ok auth_empty y"
    and "a = ADeleteUser i \<and> getUser i (ay_db (auth_step env a y)) = None
      \<or> (\<exists>n fv new. a = AResume n fv \<and> map_of (ay_tasks y) n = Some (TChangeHash i new))
      \<or> (\<exists>n fv upd password. a = AResume n fv \<and> map_of (ay_tasks y) n = Some (TUpdate i upd password))"
    and "reach (auth_step env) (\<lambda>b z. \<not> opens_session i b z) (auth_step env a y) z"
  shows "\<forall>token now t. fst (validateRefreshToken env token now (ay_db z)) = Some t \<longrightarrow> rk_userId t \<noteq> i"
proof -
  have gone: "i \<notin> holders (ay_db (auth_step env a y))"
    using assms(2)
  proof (elim disjE exE conjE)
    assume d: "a = ADeleteUser i" "getUser i (ay_db (auth_step env a y)) = None"
    have "auth_inv (ay_db (auth_step env a y))" using deleteUser_inv [OF reach_auth_inv [OF assms(1)]] d(1) by simp
    then show ?thesis using d(2) by (auto simp: holders_def auth_inv_def tokens_ok_def getUser_def find_account_None)
  next
    fix n fv new assume "a = AResume n fv" "map_of (ay_tasks y) n = Some (TChangeHash i new)"
    then show ?thesis by (simp add: set_password_holders)
  next
    fix n fv upd password assume "a = AResume n fv" "map_of (ay_tasks y) n = Some (TUpdate i upd password)"
    then show ?thesis by (simp add: updateUser_hashed_def holders_frame [OF update_tokens(3)] set_password_holders)
  qed
  from assms(3) have "i \<notin> holders (ay_db z)"
    by (induction rule: reach.induct) (auto simp: gone step_holders)
  then show ?thesis
    by (auto simp: validateRefreshToken_def holders_def Let_def case_prod_beta split: option.splits if_splits dest: find_SomeD)
qed

text \<open>
  The environment of the examples: bcrypt and SHA-256 are injective stand-ins, and the signature
  function answers for one token.
\<close>

definition sample_claims :: access_token_payload where
  "sample_claims = \<lparr>ap_userId = ''u1'', ap_username = ''root'', ap_role = RAdmin, ap_groupId = None, ap_sessionType = None\<rparr>"

definition sample_env :: auth_env where
  "sample_env = \<lparr>ev_JWT_SECRET = None, ev_bcrypt_hash = (\<lambda>p n. CHR ''h'' # p), ev_bcrypt_compare = (\<lambda>p h. h = CHR ''h'' # p),
     ev_sha256 = rev, ev_jwt_sign = (\<lambda>c s e t. ''jwt''),
     ev_jwt_verify = (\<lambda>k s now. if now div 1000 < 905 then Some (sample_claims, 905) else None)\<rparr>"

definition sample_fresh :: "string \<Rightarrow> ms \<Rightarrow> fresh_values" where
  "sample_fresh i now = \<lparr>fv_userId = i, fv_tokenId = i, fv_rawToken = CHR ''t'' # i, fv_secret = ''s'', fv_salt = 0, fv_now = now\<rparr>"

definition run_auth :: "auth_op list \<Rightarrow> auth_system \<Rightarrow> auth_system" where
  "run_auth ops y = fold (auth_step sample_env) ops y"

lemma run_auth_reach: "(\<And>a z. ok a z) \<Longrightarrow> reach (auth_step sample_env) ok y (run_auth ops y)"
proof -
  assume ok: "\<And>a z. ok a z"
  have "reach (auth_step sample_env) ok y z \<Longrightarrow> reach (auth_step sample_env) ok y (fold (auth_step sample_env) ops z)" for z
    using ok by (induction ops arbitrary: z) (auto intro: reach.reach_step)
  then show ?thesis by (simp add: run_auth_def reach.reach_init)
qed

definition sample_admin :: auth_system where
  "sample_admin = run_auth [ASetup ''root'' ''password'', AResume 0 (sample_fresh ''u1'' 5000)] auth_empty"

text \<open>A login starts, the password is changed and the sessions are revoked, then the login goes on.\<close>

definition sample_overlap :: auth_system where
  "sample_overlap = run_auth [ALogin ''root'' ''password'', AChangePassword ''u1'' ''password'' ''new-password'',
     AResume 2 (sample_fresh ''x'' 6000), AResume 3 (sample_fresh ''x'' 6000)] sample_admin"

text \<open>
  A login that overlaps a password change survives it. In a reachable state in which the
  password has just been changed and no refresh token of the user is left, a login that was
  checked against the old password goes on and leaves a refresh token that is accepted.
\<close>

lemma overlapping_login_survives:
  "\<exists>env y fv token. reach (auth_step env) (\<lambda>_ _. True) auth_empty y \<and> as_tokens (ay_db y) = []
     \<and> (\<exists>u. getUser ''u1'' (ay_db y) = Some u \<and> \<not> ev_bcrypt_compare env ''password'' (us_passwordHash u))
     \<and> (\<exists>t. fst (validateRefreshToken env token (fv_now fv) (ay_db (auth_step env (AResume 1 fv) y))) = Some t \<and> rk_userId t = ''u1'')"
proof (intro exI conjI)
  show "reach (auth_step sample_env) (\<lambda>_ _. True) auth_empty sample_overlap"
    unfolding sample_overlap_def sample_admin_def run_auth_def fold_append [symmetric, unfolded comp_def, THEN fun_cong]
    by (rule run_auth_reach [unfolded run_auth_def]) simp
  show "as_tokens (ay_db sample_overlap) = []" by code_simp
  show "getUser ''u1'' (ay_db sample_overlap) = Some (the (getUser ''u1'' (ay_db sample_overlap)))" by code_simp
  show "\<not> ev_bcrypt_compare sample_env ''password'' (us_passwordHash (the (getUser ''u1'' (ay_db sample_overlap))))" by code_simp
  show "fst (validateRefreshToken sample_env ''tu2'' (fv_now (sample_fresh ''u2'' 7000)) (ay_db (auth_step sample_env (AResume 1 (sample_fresh ''u2'' 7000)) sample_overlap)))
     = Some (the (fst (validateRefreshToken sample_env ''tu2'' (fv_now (sample_fresh ''u2'' 7000)) (ay_db (auth_step sample_env (AResume 1 (sample_fresh ''u2'' 7000)) sample_overlap)))))"
    by code_simp
  show "rk_userId (the (fst (validateRefreshToken sample_env ''tu2'' (fv_now (sample_fresh ''u2'' 7000)) (ay_db (auth_step sample_env (AResume 1 (sample_fresh ''u2'' 7000)) sample_overlap))))) = ''u1''"
    by code_simp
qed

theorem password_change_ends_sessions_witness:
  "as_tokens (ay_db sample_admin) \<noteq> []
   \<and> fst (validateRefreshToken sample_env ''tu1'' 6000 (ay_db sample_overlap)) = None"
proof -
  let ?y = "run_auth [ALogin ''root'' ''password'', AChangePassword ''u1'' ''password'' ''new-password'', AResume 2 (sample_fresh ''x'' 6000)] sample_admin"
  have reach: "reach (auth_step sample_env) (\<lambda>_ _. True) auth_empty ?y"
    unfolding sample_admin_def run_auth_def fold_append [symmetric, unfolded comp_def, THEN fun_cong]
    by (rule run_auth_reach [unfolded run_auth_def]) simp
  have task: "map_of (ay_tasks ?y) 3 = Some (TChangeHash ''u1'' ''new-password'')" by code_simp
  have step: "auth_step sample_env (AResume 3 (sample_fresh ''x'' 6000)) ?y = sample_overlap"
    by (simp add: sample_overlap_def run_auth_def)
  have "\<forall>token now t. fst (validateRefreshToken sample_env token now (ay_db sample_overlap)) = Some t \<longrightarrow> rk_userId t \<noteq> ''u1''"
    using password_change_ends_sessions [OF reach, of "AResume 3 (sample_fresh ''x'' 6000)" "''u1''" sample_overlap] task
    unfolding step by (auto intro: reach.reach_init)
  moreover have "map_option rk_userId (fst (validateRefreshToken sample_env ''tu1'' 6000 (ay_db sample_overlap))) \<in> {None, Some ''u1''}" by code_simp
  ultimately have "fst (validateRefreshToken sample_env ''tu1'' 6000 (ay_db sample_overlap)) = None" by auto
  moreover have "as_tokens (ay_db sample_admin) \<noteq> []" by code_simp
  ultimately show ?thesis by simp
qed

lemma sample_admin_reach: "(\<And>a z. ok a z) \<Longrightarrow> reach (auth_step sample_env) ok auth_empty sample_admin"
  unfolding sample_admin_def by (rule run_auth_reach)

theorem auth_tables_consistent_witness:
  "distinct (map us_username (as_users (ay_db sample_admin))) \<and> map us_username (as_users (ay_db sample_admin)) = [''root'']"
proof -
  have "map us_username (as_users (ay_db sample_admin)) = [''root'']" by code_simp
  then show ?thesis using auth_tables_consistent [OF sample_admin_reach [of "\<lambda>_ _. True"]] by blast
qed

theorem refresh_exactly_live_witness:
  "(\<exists>a. fst (auth_refresh sample_env ''tu1'' True ''s'' 6000 (ay_db sample_admin)) = Inr a)
   \<and> \<not> (\<exists>a. fst (auth_refresh sample_env ''tu1'' True ''s'' (5001 + 7 * DAY_MS) (ay_db sample_admin)) = Inr a)"
proof -
  note exact = refresh_exactly_live [OF sample_admin_reach [of "\<lambda>_ _. True"], THEN conjunct1]
  have "\<exists>r \<in> set (as_tokens (ay_db sample_admin)). \<exists>u \<in> set (as_users (ay_db sample_admin)).
      rt_tokenHash r = ev_sha256 sample_env ''tu1'' \<and> live_session 6000 r u" by code_simp
  moreover have "\<not> (\<exists>r \<in> set (as_tokens (ay_db sample_admin)). \<exists>u \<in> set (as_users (ay_db sample_admin)).
      rt_tokenHash r = ev_sha256 sample_env ''tu1'' \<and> live_session (5001 + 7 * DAY_MS) r u)" by code_simp
  ultimately show ?thesis by (simp only: exact simp_thms)
qed

theorem admin_never_lost_witness:
  "\<not> needsSetup (ay_db (run_auth [ADeleteUser ''u1''] sample_admin))"
proof -
  have "\<not> needsSetup (ay_db sample_admin)" by code_simp
  then show ?thesis
    using admin_never_lost [OF sample_admin_reach _ run_auth_reach] by simp
qed

section \<open>Access tokens\<close>

text \<open>Once the secret has been read, no step changes it.\<close>

definition secret_fields :: "auth_state \<Rightarrow> string option \<times> string option" where
  "secret_fields s = (as_cachedSecret s, as_secretRow s)"

definition secret_known :: "auth_env \<Rightarrow> string \<Rightarrow> auth_state \<Rightarrow> bool" where
  "secret_known env k s \<longleftrightarrow> as_cachedSecret s = Some k
     \<and> (k = [] \<longrightarrow> js_truthy (ev_JWT_SECRET env) = None \<and> as_secretRow s = Some [])"

lemma secret_known_get: "secret_known env k s \<Longrightarrow> getSecret env g s = (k, s)"
  by (auto simp: secret_known_def getSecret_def js_truthy_def)

lemma getSecret_known: "secret_known env (fst (getSecret env f s)) (snd (getSecret env f s))"
  by (auto simp: secret_known_def getSecret_def js_truthy_def split: option.splits if_splits)

lemma secret_known_fields: "secret_known env k s \<Longrightarrow> secret_fields s' = secret_fields s \<Longrightarrow> secret_known env k s'"
  by (simp add: secret_known_def secret_fields_def)

lemma generateAccessToken_known: "secret_known env k s \<Longrightarrow> snd (generateAccessToken env p m f now s) = s"
  by (simp add: secret_known_get generateAccessToken_def Let_def case_prod_beta)

lemma table_steps_secret [simp]:
  "secret_fields (snd (insert_account u s)) = secret_fields s" "secret_fields (set_password i h s) = secret_fields s"
  "secret_fields (snd (update_role e upd s)) = secret_fields s" "secret_fields (snd (update_policy e upd s)) = secret_fields s"
  "secret_fields (snd (update_group i upd s)) = secret_fields s" "secret_fields (snd (deleteUser i s)) = secret_fields s"
  "secret_fields (snd (createGroup n tabs i now s)) = secret_fields s" "secret_fields (snd (updateGroup i n tabs s)) = secret_fields s"
  "secret_fields (snd (deleteGroup i s)) = secret_fields s" "secret_fields (snd (generateRefreshToken env i raw uuid now s)) = secret_fields s"
  "secret_fields (snd (validateRefreshToken env token now s)) = secret_fields s"
  "secret_fields (touchRefreshActivity env token now s) = secret_fields s" "secret_fields (s\<lparr>as_tokens := ts\<rparr>) = secret_fields s"
  by (simp_all add: secret_fields_def insert_account_def set_password_def revokeAllUserTokens_def update_account_def update_role_def
      update_policy_def update_group_def deleteUser_def createGroup_def updateGroup_def deleteGroup_def generateRefreshToken_def
      validateRefreshToken_def touchRefreshActivity_def Let_def case_prod_beta split: option.split)

lemma open_session_secret:
  assumes k: "secret_known env k s" shows "secret_known env k (snd (open_session env u fv s))"
proof -
  have "snd (open_session env u fv s) = snd (generateRefreshToken env (us_id u) (fv_rawToken fv) (fv_tokenId fv) (fv_now fv) s)"
    by (simp add: open_session_def case_prod_beta generateAccessToken_known [OF k] split: prod.split sum.split)
  then show ?thesis using secret_known_fields [OF k] by simp
qed

lemma setup_secret:
  assumes k: "secret_known env k s" shows "secret_known env k (snd (setupAdmin_insert env username password fv s))"
proof -
  let ?u = "\<lparr>us_id = fv_userId fv, us_username = js_trim username, us_passwordHash = ev_bcrypt_hash env password (fv_salt fv),
    us_role = RAdmin, us_groupId = None, us_createdAt = fv_now fv, us_sessionDays = 7, us_inactivityMinutes = 0\<rparr>"
  obtain r s1 where i: "insert_account ?u s = (r, s1)" by (cases "insert_account ?u s")
  then have "secret_fields s1 = secret_fields s" using table_steps_secret(1) [of ?u s] by simp
  then have "secret_known env k s1" by (rule secret_known_fields [OF k])
  then show ?thesis using k open_session_secret [of env k s1 ?u fv] by (cases r) (simp_all add: setupAdmin_insert_def Let_def i)
qed

lemma refresh_secret:
  assumes k: "secret_known env k s" shows "secret_known env k (snd (auth_refresh env token active f now s))"
proof -
  obtain v s1 where v: "validateRefreshToken env token now s = (v, s1)" by (cases "validateRefreshToken env token now s")
  have "secret_fields s1 = secret_fields s" using table_steps_secret(11) [of env token now s] v by simp
  then have s1: "secret_known env k s1" by (rule secret_known_fields [OF k])
  then have s2: "secret_known env k (touchRefreshActivity env token now s1)" by (rule secret_known_fields) simp
  show ?thesis using s1 s2 generateAccessToken_known
    by (auto simp: auth_refresh_def v Let_def case_prod_beta split: option.split)
qed

lemma step_secret:
  assumes k: "secret_known env k (ay_db y)" shows "secret_known env k (ay_db (auth_step env a y))"
proof (cases a)
  case (AResume n fv)
  show ?thesis
  proof (cases "map_of (ay_tasks y) n")
    case (Some t)
    let ?y = "y\<lparr>ay_tasks := AList.delete n (ay_tasks y)\<rparr>"
    have "secret_known env k (ay_db (resume_task env fv t ?y))"
      using k by (cases t) (auto simp: setup_secret login_verified_def open_session_secret createUser_insert_def updateUser_hashed_def
          intro: secret_known_fields [OF k] split: option.split)
    then show ?thesis using AResume Some by simp
  qed (use AResume k in simp)
next
  case (AUpdateUser i upd)
  have "secret_fields (ay_db (snd (updateUser_start i upd y))) = secret_fields (ay_db y)"
    by (simp add: updateUser_start_def case_prod_beta split: option.split)
  then show ?thesis using AUpdateUser secret_known_fields [OF k] by simp
next
  case (ADemoSession m f now)
  then show ?thesis using k generateAccessToken_known [OF k]
    by (auto simp: createDemoSession_def Let_def case_prod_beta split: option.split)
qed (use k in \<open>auto simp: refresh_secret logout_def revokeRefreshToken_def intro: secret_known_fields [OF k] split: option.split\<close>)

definition token_lifetime :: "int option \<Rightarrow> int" where
  "token_lifetime minutes = (case minutes of Some m \<Rightarrow> m * 60 | None \<Rightarrow> ACCESS_TOKEN_EXPIRY)"

definition issued_claims :: "access_token_payload \<Rightarrow> access_token_payload" where
  "issued_claims p = p\<lparr>ap_sessionType := (if ap_sessionType p = Some SPublicDemo then Some SPublicDemo else None)\<rparr>"

lemma generateAccessToken_eq:
  "generateAccessToken env p minutes f t s =
     (ev_jwt_sign env (issued_claims p) (fst (getSecret env f s)) (token_lifetime minutes) t, snd (getSecret env f s))"
proof -
  have "p\<lparr>ap_sessionType := (if ap_sessionType p \<noteq> None \<and> ap_sessionType p \<noteq> Some SNormal then ap_sessionType p else None)\<rparr> = issued_claims p"
    by (cases "ap_sessionType p"; cases "the (ap_sessionType p)") (simp_all add: issued_claims_def)
  then show ?thesis by (simp add: generateAccessToken_def case_prod_beta Let_def token_lifetime_def)
qed

text \<open>
  An access token is read back as it was issued. Given that \<open>jsonwebtoken\<close> verifies what it
  signed with the same secret until its expiry and not later, a token that is issued in some
  state is accepted in every later state until it expires, whatever happens in between, with the
  same user, role and group; it is marked as a public-demo session exactly when it was issued as
  one. Signing secrets never change under a running server.
\<close>

lemma access_token_read_back:
  assumes "\<And>k now'. ev_jwt_verify env (ev_jwt_sign env (issued_claims payload) k (token_lifetime minutes) t) k now'
      = (if now' div 1000 < t div 1000 + token_lifetime minutes
         then Some (issued_claims payload, t div 1000 + token_lifetime minutes) else None)"
    and "generateAccessToken env payload minutes f t (ay_db y) = (token, s)"
    and "reach (auth_step env) ok (y\<lparr>ay_db := s\<rparr>) z"
  shows "verifyAccessToken env token g now (ay_db z) =
    (if now div 1000 < t div 1000 + token_lifetime minutes
     then Some (payload\<lparr>ap_sessionType := Some (if ap_sessionType payload = Some SPublicDemo then SPublicDemo else SNormal)\<rparr>)
     else None, ay_db z)"
proof -
  let ?k = "fst (getSecret env f (ay_db y))"
  have token: "token = ev_jwt_sign env (issued_claims payload) ?k (token_lifetime minutes) t" and s: "s = snd (getSecret env f (ay_db y))"
    using assms(2) by (simp_all add: generateAccessToken_eq)
  have "secret_known env ?k s" unfolding s by (rule getSecret_known)
  with assms(3) have "secret_known env ?k (ay_db z)" by (induction rule: reach.induct) (simp_all add: step_secret)
  then have "getSecret env g (ay_db z) = (?k, ay_db z)" by (rule secret_known_get)
  then show ?thesis unfolding verifyAccessToken_def token by (simp add: assms(1)) (simp add: issued_claims_def)
qed

section \<open>Groups and permissions\<close>

text \<open>The columns the permission service reads.\<close>

definition permission_view :: "auth_state \<Rightarrow> auth_db \<Rightarrow> auth_db" where
  "permission_view s db =
     db\<lparr>ad_users := map (\<lambda>u. \<lparr>ur_id = us_id u, ur_role = us_role u, ur_group_id = us_groupId u\<rparr>) (as_users s),
        ad_group_tabs := as_group_tabs s\<rparr>"

lemma view_user:
  assumes "auth_inv s" "u \<in> set (as_users s)"
  shows "find_user (us_id u) (permission_view s db) = Some \<lparr>ur_id = us_id u, ur_role = us_role u, ur_group_id = us_groupId u\<rparr>"
proof -
  have map: "find (\<lambda>v. ur_id v = i) (map (\<lambda>u. \<lparr>ur_id = us_id u, ur_role = us_role u, ur_group_id = us_groupId u\<rparr>) us)
      = map_option (\<lambda>u. \<lparr>ur_id = us_id u, ur_role = us_role u, ur_group_id = us_groupId u\<rparr>) (find (\<lambda>u. us_id u = i) us)" for i us
    by (induction us) simp_all
  have "find_account (us_id u) s = Some u" using assms find_account_iff [of s "as_groups s" "us_id u" u] by (simp add: auth_inv_def)
  then show ?thesis by (simp add: find_user_def permission_view_def map find_account_def)
qed

lemma view_assignment:
  assumes "distinct (map tab_key (as_group_tabs s))"
  shows "find_assignment g tab (permission_view s db) = Some p \<longleftrightarrow> (g, tab, p) \<in> set (as_group_tabs s)"
proof -
  have "distinct (map tab_key gt) \<Longrightarrow>
    map_option (snd \<circ> snd) (find (\<lambda>(h, t, p). h = g \<and> t = tab) gt) = Some p \<longleftrightarrow> (g, tab, p) \<in> set gt" for gt
    by (induction gt) (auto simp: image_iff)
  from this [OF assms] show ?thesis by (simp add: find_assignment_def permission_view_def)
qed

lemma view_permission:
  assumes inv: "auth_inv s" and u: "u \<in> set (as_users s)" "us_role u = RUser"
  shows "hasPermission (us_id u) tab required (permission_view s db) \<longleftrightarrow>
    (\<exists>g p. us_groupId u = Some g \<and> (g, tab, p) \<in> set (as_group_tabs s) \<and> PERMISSION_RANK required \<le> PERMISSION_RANK p)"
proof -
  have d: "distinct (map tab_key (as_group_tabs s))" using inv by (simp add: auth_inv_def groups_ok_def)
  have "hasPermission (us_id u) tab required (permission_view s db) \<longleftrightarrow>
      (\<exists>g p. us_groupId u = Some g \<and> find_assignment g tab (permission_view s db) = Some p \<and> PERMISSION_RANK required \<le> PERMISSION_RANK p)"
    by (auto simp: hasPermission_def view_user [OF inv u(1)] u(2) split: option.split)
  then show ?thesis by (simp only: view_assignment [OF d])
qed

text \<open>
  C34. Editing a group changes exactly its members' permissions. When \<open>updateGroup\<close> succeeds, a
  member that is not an administrator may use a tab at some level exactly when the given list
  assigns it at that level or a higher one, and every other user keeps what they had; when it
  throws, nothing has changed. After a group is deleted its members have no permission at all.
\<close>

theorem group_edit_exact:
  assumes "reach (auth_step env) ok auth_empty y" and "u \<in> set (as_users (ay_db y))" and "us_role u = RUser"
  shows "(case updateGroup g name tabs (ay_db y) of
       (Inr _, s) \<Rightarrow> hasPermission (us_id u) tab required (permission_view s db) \<longleftrightarrow>
         (if us_groupId u = Some g then \<exists>p. (tab, p) \<in> set tabs \<and> PERMISSION_RANK required \<le> PERMISSION_RANK p
          else hasPermission (us_id u) tab required (permission_view (ay_db y) db))
     | (Inl _, s) \<Rightarrow> s = ay_db y)
    \<and> (getGroup g (ay_db y) \<noteq> None \<longrightarrow> us_groupId u = Some g \<longrightarrow>
        \<not> hasPermission (us_id u) tab required (permission_view (snd (deleteGroup g (ay_db y))) db))"
proof
  have inv: "auth_inv (ay_db y)" by (rule reach_auth_inv [OF assms(1)])
  obtain res s where up: "updateGroup g name tabs (ay_db y) = (res, s)" by (cases "updateGroup g name tabs (ay_db y)")
  have s: "auth_inv s" using updateGroup_inv [OF inv, of g name tabs] up by simp
  have "hasPermission (us_id u) tab required (permission_view s db) \<longleftrightarrow>
         (if us_groupId u = Some g then \<exists>p. (tab, p) \<in> set tabs \<and> PERMISSION_RANK required \<le> PERMISSION_RANK p
          else hasPermission (us_id u) tab required (permission_view (ay_db y) db))" if "res = Inr x" for x
  proof -
    have us: "as_users s = as_users (ay_db y)"
      and gt: "insert_assignments g tabs (filter (\<lambda>(h, a). h \<noteq> g) (as_group_tabs (ay_db y))) = Some (as_group_tabs s)"
      using up that by (auto simp: updateGroup_def split: option.splits if_splits)
    have rows: "(h, t, p) \<in> set (as_group_tabs s) \<longleftrightarrow> (if h = g then (t, p) \<in> set tabs else (h, t, p) \<in> set (as_group_tabs (ay_db y)))" for h t p
      unfolding insert_assignments_eq [OF gt] by auto
    have "u \<in> set (as_users s)" using assms(2) us by simp
    then show ?thesis using view_permission [OF s _ assms(3), of tab required db] view_permission [OF inv assms(2,3), of tab required db]
      by (auto simp: rows)
  qed
  moreover have "s = ay_db y" if "res = Inl e" for e
    using up that by (auto simp: updateGroup_def split: option.splits if_splits)
  ultimately show "case updateGroup g name tabs (ay_db y) of
       (Inr _, s) \<Rightarrow> hasPermission (us_id u) tab required (permission_view s db) \<longleftrightarrow>
         (if us_groupId u = Some g then \<exists>p. (tab, p) \<in> set tabs \<and> PERMISSION_RANK required \<le> PERMISSION_RANK p
          else hasPermission (us_id u) tab required (permission_view (ay_db y) db))
     | (Inl _, s) \<Rightarrow> s = ay_db y"
    unfolding up by (cases res) simp_all
  show "getGroup g (ay_db y) \<noteq> None \<longrightarrow> us_groupId u = Some g \<longrightarrow>
        \<not> hasPermission (us_id u) tab required (permission_view (snd (deleteGroup g (ay_db y))) db)"
  proof (intro impI)
    assume g: "getGroup g (ay_db y) \<noteq> None" "us_groupId u = Some g"
    let ?s = "snd (deleteGroup g (ay_db y))"
    have "u\<lparr>us_groupId := None\<rparr> \<in> set (as_users ?s)"
      using g assms(2) by (auto simp: deleteGroup_def getGroup_def split: option.splits intro!: image_eqI [of _ _ u])
    then show "\<not> hasPermission (us_id u) tab required (permission_view ?s db)"
      using view_permission [OF deleteGroup_inv [OF inv], of "u\<lparr>us_groupId := None\<rparr>" g tab required db] assms(3) by simp
  qed
qed

definition sample_member :: auth_system where
  "sample_member = run_auth [ACreateGroup ''family'' [(''home'', PRead)] ''g'' 5500,
     ACreateUser ''ann'' ''password'' (Some ''g'') RUser 7 30, AResume 1 (sample_fresh ''u2'' 5600)] sample_admin"

lemma sample_member_reach: "reach (auth_step sample_env) (\<lambda>_ _. True) auth_empty sample_member"
  unfolding sample_member_def sample_admin_def run_auth_def fold_append [symmetric, unfolded comp_def, THEN fun_cong]
  by (rule run_auth_reach [unfolded run_auth_def]) simp

theorem group_edit_exact_witness:
  "hasPermission ''u2'' ''lab'' PInteract
     (permission_view (snd (updateGroup ''g'' ''family'' [(''lab'', PWrite)] (ay_db sample_member))) sample_auth)"
proof -
  let ?s = "ay_db sample_member"
  let ?u = "\<lparr>us_id = ''u2'', us_username = ''ann'', us_passwordHash = ''hpassword'', us_role = RUser, us_groupId = Some ''g'',
    us_createdAt = 5600, us_sessionDays = 7, us_inactivityMinutes = 30\<rparr>"
  have u: "?u \<in> set (as_users ?s)" by code_simp
  obtain r s where up: "updateGroup ''g'' ''family'' [(''lab'', PWrite)] ?s = (r, s)" by (cases "updateGroup ''g'' ''family'' [(''lab'', PWrite)] ?s")
  have "isl (fst (updateGroup ''g'' ''family'' [(''lab'', PWrite)] ?s)) = False" by code_simp
  then obtain x where "r = Inr x" using up by (cases r) auto
  then show ?thesis
    using group_edit_exact [OF sample_member_reach u, where g = "''g''" and name = "''family''" and tabs = "[(''lab'', PWrite)]"
        and tab = "''lab''" and required = PInteract and db = sample_auth] up by simp
qed

end
