(* ===== verification/Migration_Runner.thy ===== *)
theory Migration_Runner
  imports Aeolus_Prelude "HOL-Library.Multiset"
begin

text \<open>
  The schema migrations of the database (src/db/migration-runner.ts, migration-errors.ts,
  migrations/index.ts): every start of the server brings the tables to the version it expects or
  throws.

  The tables are the history \<open>schema_migrations\<close> (absent, or its rows in rowid order) and the
  application's tables, of which the runner only sees whether \<open>automation_rules\<close> exists and what
  \<open>foreign_key_check\<close> reports; both are in \<open>mig_env\<close>, with the outcomes of the file operations. A
  migration is an argument, as in the source; its \<open>up\<close> may throw. A transaction that throws leaves
  the tables as they were. The files are those of the database's directory. The calls of \<open>now\<close> are
  numbered. Log lines are not modelled.

  The lemmas show that a run either brings the database to the expected version, or stops with the
  tables exactly as a prefix of the pending migrations left them; that a later run takes up where
  a failed one stopped; and that the checkpoint holds the tables from before the migrations.
\<close>

section \<open>Tables, migrations, errors\<close>

record migration_row =
  mr_id :: int
  mr_name :: string
  mr_applied_at :: ms

record 'c tables =
  tb_history :: "migration_row list option"
  tb_app :: 'c

record 'c migration =
  mg_id :: int
  mg_name :: string
  mg_up :: "'c tables \<Rightarrow> string + 'c tables"

record 'c checkpoint_file =
  cf_name :: string
  cf_mtime :: ms
  cf_tables :: "'c tables"

record 'c mig_db =
  md_tables :: "'c tables"
  md_foreign_keys :: bool
  md_files :: "'c checkpoint_file list"

record 'c mig_env =
  me_has_app :: "'c \<Rightarrow> bool"
  me_violations :: "'c tables \<Rightarrow> nat"
  me_stamp :: string
  me_copy :: "string option"
  me_mtime :: ms
  me_readdir :: bool
  me_unlink :: "string \<Rightarrow> bool"

record mig_options =
  mo_dbPath :: "string option"
  mo_skipCheckpoint :: bool
  mo_now :: "nat \<Rightarrow> ms"

record mig_result =
  rs_fromVersion :: int
  rs_toVersion :: int
  rs_applied :: "int list"
  rs_adoptedLegacy :: bool
  rs_checkpointPath :: "string option"

datatype mig_error =
    DuplicateId int
  | DatabaseNewerThanBinaryError int int
  | NoBaseline
  | CheckpointError string string
  | IntegrityError int nat
  | MigrationError int string
  | VersionMismatch int int
  | SqliteError string

section \<open>The registry and the history\<close>

fun unique_loop :: "int set \<Rightarrow> 'c migration list \<Rightarrow> int option" where
  "unique_loop seen [] = None"
| "unique_loop seen (m # ms) = (if mg_id m \<in> seen then Some (mg_id m) else unique_loop (insert (mg_id m) seen) ms)"

definition assertUniqueIds :: "'c migration list \<Rightarrow> int option" where
  "assertUniqueIds ms = unique_loop {} ms"

definition ensureMigrationHistory :: "'c tables \<Rightarrow> 'c tables" where
  "ensureMigrationHistory t = (case tb_history t of None \<Rightarrow> t\<lparr>tb_history := Some []\<rparr> | Some _ \<Rightarrow> t)"

text \<open>\<open>SELECT MAX(id)\<close>: NULL on no rows.\<close>

definition sql_max :: "int list \<Rightarrow> int option" where
  "sql_max ids = (if ids = [] then None else Some (Max (set ids)))"

definition history_rows :: "'c tables \<Rightarrow> mig_error + migration_row list" where
  "history_rows t = (case tb_history t of None \<Rightarrow> Inl (SqliteError ''no such table: schema_migrations'') | Some rows \<Rightarrow> Inr rows)"

definition getSchemaVersion :: "'c tables \<Rightarrow> mig_error + int" where
  "getSchemaVersion t = (case history_rows t of Inl e \<Rightarrow> Inl e
     | Inr rows \<Rightarrow> Inr (case sql_max (map mr_id rows) of None \<Rightarrow> 0 | Some v \<Rightarrow> v))"

definition getExpectedVersion :: "'c migration list \<Rightarrow> int" where
  "getExpectedVersion ms = (if ms = [] then 0 else Max (set (map mg_id ms)))"

definition getPendingMigrations :: "'c tables \<Rightarrow> 'c migration list \<Rightarrow> mig_error + 'c migration list" where
  "getPendingMigrations t ms = (case history_rows t of Inl e \<Rightarrow> Inl e
     | Inr rows \<Rightarrow> Inr (sort_key mg_id (filter (\<lambda>m. mg_id m \<notin> mr_id ` set rows) ms)))"

definition isLegacyDatabase :: "'c mig_env \<Rightarrow> 'c tables \<Rightarrow> bool" where
  "isLegacyDatabase env t =
     (if \<not> me_has_app env (tb_app t) then False
      else case tb_history t of None \<Rightarrow> True | Some rows \<Rightarrow> rows = [])"

definition isFreshDatabase :: "'c mig_env \<Rightarrow> 'c tables \<Rightarrow> bool" where
  "isFreshDatabase env t = (\<not> me_has_app env (tb_app t))"

text \<open>\<open>INSERT INTO schema_migrations\<close>, with its primary key.\<close>

definition insert_migration_row :: "migration_row \<Rightarrow> 'c tables \<Rightarrow> string + 'c tables" where
  "insert_migration_row r t = (case tb_history t of
       None \<Rightarrow> Inl ''no such table: schema_migrations''
     | Some rows \<Rightarrow> if mr_id r \<in> mr_id ` set rows then Inl ''UNIQUE constraint failed: schema_migrations.id''
                    else Inr (t\<lparr>tb_history := Some (rows @ [r])\<rparr>))"

definition migration_record :: "'c migration \<Rightarrow> ms \<Rightarrow> migration_row" where
  "migration_record m t = \<lparr>mr_id = mg_id m, mr_name = mg_name m, mr_applied_at = t\<rparr>"

definition adoptLegacyDatabase :: "'c tables \<Rightarrow> 'c migration \<Rightarrow> ms \<Rightarrow> string + 'c tables" where
  "adoptLegacyDatabase t baseline now = insert_migration_row (migration_record baseline now) (ensureMigrationHistory t)"

definition findNewerThanBinary :: "'c tables \<Rightarrow> int \<Rightarrow> mig_error + int option" where
  "findNewerThanBinary t expectedVersion = (case history_rows t of Inl e \<Rightarrow> Inl e
     | Inr rows \<Rightarrow> Inr (sql_max (filter (\<lambda>i. i > expectedVersion) (map mr_id rows))))"

section \<open>Checkpoints\<close>

definition stamp_text :: "string \<Rightarrow> string" where
  "stamp_text s = map (\<lambda>c. if c = CHR '':'' \<or> c = CHR ''.'' then CHR ''-'' else c) s"

definition path_basename :: "string \<Rightarrow> string" where
  "path_basename p = (case filter (\<lambda>w. w \<noteq> []) (js_split (CHR ''/'') p) of [] \<Rightarrow> [] | ws \<Rightarrow> last ws)"

definition checkpoint_suffix :: "'c mig_env \<Rightarrow> string" where
  "checkpoint_suffix env = ''.pre-migration.'' @ stamp_text (me_stamp env) @ ''.bak''"

definition createSafetyCheckpoint :: "'c mig_env \<Rightarrow> string \<Rightarrow> 'c mig_db \<Rightarrow> (mig_error + string) \<times> 'c mig_db" where
  "createSafetyCheckpoint env dbPath db =
     (let dest = dbPath @ checkpoint_suffix env;
          name = path_basename dest
      in case me_copy env of
           Some err \<Rightarrow> (Inl (CheckpointError dest err), db)
         | None \<Rightarrow> (Inr dest, db\<lparr>md_files := filter (\<lambda>f. cf_name f \<noteq> name) (md_files db)
                                   @ [\<lparr>cf_name = name, cf_mtime = me_mtime env, cf_tables = md_tables db\<rparr>]\<rparr>))"

fun unlink_loop :: "'c mig_env \<Rightarrow> 'c checkpoint_file list \<Rightarrow> 'c checkpoint_file list \<Rightarrow> 'c checkpoint_file list" where
  "unlink_loop env [] files = files"
| "unlink_loop env (f # fs) files =
     (if me_unlink env (cf_name f) then unlink_loop env fs (filter (\<lambda>g. cf_name g \<noteq> cf_name f) files) else files)"

definition is_checkpoint :: "string \<Rightarrow> string \<Rightarrow> bool" where
  "is_checkpoint base f = (prefix base f \<and> sublist ''.pre-migration.'' f \<and> suffix ''.bak'' f)"

definition cleanupOldCheckpoints :: "'c mig_env \<Rightarrow> string \<Rightarrow> nat \<Rightarrow> 'c mig_db \<Rightarrow> 'c mig_db" where
  "cleanupOldCheckpoints env dbPath keep db =
     (if \<not> me_readdir env then db
      else let files = sort_key (\<lambda>f. - cf_mtime f) (filter (\<lambda>f. is_checkpoint (path_basename dbPath) (cf_name f)) (md_files db))
           in db\<lparr>md_files := unlink_loop env (drop keep files) (md_files db)\<rparr>)"

section \<open>Running\<close>

text \<open>The body of \<open>tx\<close>: rolled back when it throws.\<close>

definition migration_tx :: "'c mig_env \<Rightarrow> 'c migration \<Rightarrow> ms \<Rightarrow> 'c tables \<Rightarrow> mig_error + 'c tables" where
  "migration_tx env m now t = (case mg_up m t of
       Inl e \<Rightarrow> Inl (MigrationError (mg_id m) e)
     | Inr t1 \<Rightarrow>
         if me_violations env t1 > 0 then Inl (IntegrityError (mg_id m) (me_violations env t1))
         else case insert_migration_row (migration_record m now) t1 of
                Inl e \<Rightarrow> Inl (MigrationError (mg_id m) e)
              | Inr t2 \<Rightarrow> Inr t2)"

fun apply_loop :: "'c mig_env \<Rightarrow> (nat \<Rightarrow> ms) \<Rightarrow> nat \<Rightarrow> 'c migration list \<Rightarrow> int list \<Rightarrow> 'c mig_db \<Rightarrow> (mig_error + int list) \<times> 'c mig_db" where
  "apply_loop env now k [] applied db = (Inr applied, db)"
| "apply_loop env now k (m # pending) applied db =
     (let db1 = db\<lparr>md_foreign_keys := False\<rparr>
      in case migration_tx env m (now k) (md_tables db1) of
           Inl e \<Rightarrow> (Inl e, db1\<lparr>md_foreign_keys := True\<rparr>)
         | Inr t \<Rightarrow> apply_loop env now (Suc k) pending (applied @ [mg_id m]) (db1\<lparr>md_tables := t, md_foreign_keys := True\<rparr>))"

text \<open>The checkpoint of \<open>runMigrations\<close>, and what follows it.\<close>

definition take_checkpoint :: "'c mig_env \<Rightarrow> mig_options \<Rightarrow> 'c mig_db \<Rightarrow> (mig_error + string option) \<times> 'c mig_db" where
  "take_checkpoint env opts db = (case mo_dbPath opts of
       Some p \<Rightarrow> if \<not> mo_skipCheckpoint opts \<and> \<not> isFreshDatabase env (md_tables db) \<and> p \<noteq> []
                  then (case createSafetyCheckpoint env p db of (Inl e, d) \<Rightarrow> (Inl e, d) | (Inr dest, d) \<Rightarrow> (Inr (Some dest), d))
                  else (Inr None, db)
     | None \<Rightarrow> (Inr None, db))"

definition finish_run :: "'c mig_env \<Rightarrow> mig_options \<Rightarrow> int \<Rightarrow> int \<Rightarrow> bool \<Rightarrow> string option \<Rightarrow> 'c migration list \<Rightarrow> 'c mig_db
    \<Rightarrow> (mig_error + mig_result) \<times> 'c mig_db" where
  "finish_run env opts expectedVersion fromVersion adopted checkpointPath pending db =
     (case apply_loop env (mo_now opts) (if adopted then 1 else 0) pending [] db of
        (Inl e, db2) \<Rightarrow> (Inl e, db2)
      | (Inr applied, db2) \<Rightarrow>
          (case getSchemaVersion (md_tables db2) of
             Inl e \<Rightarrow> (Inl e, db2)
           | Inr toVersion \<Rightarrow>
               if toVersion \<noteq> expectedVersion then (Inl (VersionMismatch toVersion expectedVersion), db2)
               else (Inr \<lparr>rs_fromVersion = fromVersion, rs_toVersion = toVersion, rs_applied = applied,
                         rs_adoptedLegacy = adopted, rs_checkpointPath = checkpointPath\<rparr>,
                     case (checkpointPath, mo_dbPath opts) of
                       (Some _, Some p) \<Rightarrow> cleanupOldCheckpoints env p 5 db2
                     | _ \<Rightarrow> db2)))"

definition apply_pending :: "'c mig_env \<Rightarrow> mig_options \<Rightarrow> int \<Rightarrow> int \<Rightarrow> bool \<Rightarrow> 'c migration list \<Rightarrow> 'c mig_db
    \<Rightarrow> (mig_error + mig_result) \<times> 'c mig_db" where
  "apply_pending env opts expectedVersion fromVersion adopted pending db =
     (case take_checkpoint env opts db of
        (Inl e, db1) \<Rightarrow> (Inl e, db1)
      | (Inr checkpointPath, db1) \<Rightarrow> finish_run env opts expectedVersion fromVersion adopted checkpointPath pending db1)"

text \<open>The legacy branch: the tables it leaves, and whether it adopted them.\<close>

definition adopt_step :: "'c mig_env \<Rightarrow> mig_options \<Rightarrow> 'c migration list \<Rightarrow> 'c tables \<Rightarrow> mig_error + ('c tables \<times> bool)" where
  "adopt_step env opts ms t =
     (if isLegacyDatabase env t then
        (case find (\<lambda>m. mg_id m = 1) ms of
           None \<Rightarrow> Inl NoBaseline
         | Some baseline \<Rightarrow>
             (case adoptLegacyDatabase t baseline (mo_now opts 0) of
                Inl e \<Rightarrow> Inl (SqliteError e)
              | Inr t1 \<Rightarrow> Inr (t1, True)))
      else Inr (t, False))"

definition runMigrations :: "'c mig_env \<Rightarrow> mig_options \<Rightarrow> 'c migration list \<Rightarrow> 'c mig_db \<Rightarrow> (mig_error + mig_result) \<times> 'c mig_db" where
  "runMigrations env opts ms db =
     (case assertUniqueIds ms of
        Some i \<Rightarrow> (Inl (DuplicateId i), db)
      | None \<Rightarrow>
        let db1 = db\<lparr>md_tables := ensureMigrationHistory (md_tables db)\<rparr>;
            expectedVersion = getExpectedVersion ms
        in case findNewerThanBinary (md_tables db1) expectedVersion of
             Inl e \<Rightarrow> (Inl e, db1)
           | Inr (Some newer) \<Rightarrow>
               (case getSchemaVersion (md_tables db1) of
                  Inl e \<Rightarrow> (Inl e, db1)
                | Inr dbVersion \<Rightarrow> (Inl (DatabaseNewerThanBinaryError dbVersion expectedVersion), db1))
           | Inr None \<Rightarrow>
               (case adopt_step env opts ms (md_tables db1) of
                  Inl e \<Rightarrow> (Inl e, db1)
                | Inr (t2, adopted) \<Rightarrow>
                    let db2 = db1\<lparr>md_tables := t2\<rparr>
                    in case getSchemaVersion t2 of
                         Inl e \<Rightarrow> (Inl e, db2)
                       | Inr fromVersion \<Rightarrow>
                           (case getPendingMigrations t2 ms of
                              Inl e \<Rightarrow> (Inl e, db2)
                            | Inr pending \<Rightarrow>
                                if List.null pending then
                                  (Inr \<lparr>rs_fromVersion = fromVersion, rs_toVersion = fromVersion, rs_applied = [],
                                        rs_adoptedLegacy = adopted, rs_checkpointPath = None\<rparr>, db2)
                                else apply_pending env opts expectedVersion fromVersion adopted pending db2)))"

section \<open>What the migrations do\<close>

definition history_ids :: "'c tables \<Rightarrow> int list" where
  "history_ids t = (case tb_history t of None \<Rightarrow> [] | Some rows \<Rightarrow> map mr_id rows)"

text \<open>The migrations a registry still has to apply, in the order they are due.\<close>

definition due :: "'c migration list \<Rightarrow> 'c tables \<Rightarrow> 'c migration list" where
  "due ms t = sort_key mg_id (filter (\<lambda>m. mg_id m \<notin> set (history_ids t)) ms)"

text \<open>No migration of the repository touches \<open>schema_migrations\<close>.\<close>

definition keeps_history :: "'c migration \<Rightarrow> bool" where
  "keeps_history m = (\<forall>t t1. mg_up m t = Inr t1 \<longrightarrow> tb_history t1 = tb_history t)"

text \<open>The tables after a list of migrations that all succeed, each with its row in the history.\<close>

fun migrated :: "'c mig_env \<Rightarrow> (nat \<Rightarrow> ms) \<Rightarrow> nat \<Rightarrow> 'c migration list \<Rightarrow> 'c tables \<Rightarrow> 'c tables option" where
  "migrated env now k [] t = Some t"
| "migrated env now k (m # ms) t = (case mg_up m t of
       Inl _ \<Rightarrow> None
     | Inr t1 \<Rightarrow> if me_violations env t1 > 0 then None
                 else migrated env now (Suc k) ms
                        (t1\<lparr>tb_history := map_option (\<lambda>rows. rows @ [migration_record m (now k)]) (tb_history t1)\<rparr>))"

text \<open>The error a migration is stopped with, if it is.\<close>

definition blame :: "'c mig_env \<Rightarrow> 'c migration \<Rightarrow> 'c tables \<Rightarrow> mig_error option" where
  "blame env m t = (case mg_up m t of
       Inl e \<Rightarrow> Some (MigrationError (mg_id m) e)
     | Inr t1 \<Rightarrow> if me_violations env t1 > 0 then Some (IntegrityError (mg_id m) (me_violations env t1)) else None)"

lemma unique_loop_None: "unique_loop seen ms = None \<longleftrightarrow> distinct (map mg_id ms) \<and> set (map mg_id ms) \<inter> seen = {}"
  by (induction seen ms rule: unique_loop.induct) auto

lemma assertUniqueIds_None: "assertUniqueIds ms = None \<longleftrightarrow> distinct (map mg_id ms)"
  by (simp add: assertUniqueIds_def unique_loop_None)

lemma migrated_history:
  assumes "migrated env now k ms t = Some t'" "\<forall>m\<in>set ms. keeps_history m" "tb_history t = Some rows"
  shows "\<exists>rows'. tb_history t' = Some (rows @ rows') \<and> map mr_id rows' = map mg_id ms"
  using assms
proof (induction env now k ms t arbitrary: rows rule: migrated.induct)
  case (1 env now k t)
  then show ?case by auto
next
  case (2 env now k m ms t)
  from 2(2) obtain t1 where up: "mg_up m t = Inr t1" and ok: "\<not> me_violations env t1 > 0"
    by (auto split: sum.splits if_splits)
  have h1: "tb_history t1 = Some rows" using 2(3,4) up by (auto simp: keeps_history_def)
  obtain rows' where "tb_history t' = Some ((rows @ [migration_record m (now k)]) @ rows')" "map mr_id rows' = map mg_id ms"
    using 2(1)[OF up ok, of "rows @ [migration_record m (now k)]"] 2(2,3) up ok h1 by auto
  then show ?case by (auto simp: migration_record_def)
qed

lemma migration_tx_eq:
  assumes "keeps_history m" "tb_history t = Some rows" "mg_id m \<notin> mr_id ` set rows"
  shows "migration_tx env m now t = (case blame env m t of Some e \<Rightarrow> Inl e
     | None \<Rightarrow> (case mg_up m t of Inr t1 \<Rightarrow> Inr (t1\<lparr>tb_history := Some (rows @ [migration_record m now])\<rparr>) | Inl e \<Rightarrow> Inl (MigrationError (mg_id m) e)))"
  using assms by (auto simp: migration_tx_def blame_def insert_migration_row_def migration_record_def keeps_history_def split: sum.splits)

lemma apply_loop_prefix:
  assumes "apply_loop env now k pending acc db = (r, db')" "\<forall>m\<in>set pending. keeps_history m"
    "tb_history (md_tables db) = Some rows" "distinct (map mg_id pending)" "set (map mg_id pending) \<inter> mr_id ` set rows = {}"
  shows "\<exists>dn rest t'. pending = dn @ rest \<and> migrated env now k dn (md_tables db) = Some t'
    \<and> md_tables db' = t' \<and> md_files db' = md_files db \<and> (md_foreign_keys db \<longrightarrow> md_foreign_keys db')
    \<and> (case r of Inr ap \<Rightarrow> rest = [] \<and> ap = acc @ map mg_id dn
               | Inl e \<Rightarrow> \<exists>m rest'. rest = m # rest' \<and> blame env m t' = Some e)"
  using assms
proof (induction pending arbitrary: k acc db rows)
  case Nil
  then show ?case by auto
next
  case (Cons m pending)
  note tx = migration_tx_eq[of m "md_tables db" rows env "now k"]
  show ?case
  proof (cases "blame env m (md_tables db)")
    case (Some e)
    have "r = Inl e \<and> db' = db\<lparr>md_foreign_keys := True\<rparr>" using Cons.prems tx Some by (simp add: Let_def)
    then show ?thesis using Some by (intro exI[of _ "[]"] exI[of _ "m # pending"] exI[of _ "md_tables db"]) simp
  next
    case None
    then obtain t1 where up: "mg_up m (md_tables db) = Inr t1" and ok: "\<not> me_violations env t1 > 0"
      by (auto simp: blame_def split: sum.splits if_splits)
    let ?t = "t1\<lparr>tb_history := Some (rows @ [migration_record m (now k)])\<rparr>"
    have h1: "tb_history t1 = Some rows" using Cons.prems up by (auto simp: keeps_history_def)
    have "apply_loop env now (Suc k) pending (acc @ [mg_id m]) (db\<lparr>md_tables := ?t, md_foreign_keys := True\<rparr>) = (r, db')"
      using Cons.prems tx None up by (simp add: Let_def)
    from Cons.IH[OF this, of "rows @ [migration_record m (now k)]"] Cons.prems
    obtain dn rest t' where *: "pending = dn @ rest" "migrated env now (Suc k) dn ?t = Some t'"
      "md_tables db' = t' \<and> md_files db' = md_files db" "md_foreign_keys db'"
      "case r of Inr ap \<Rightarrow> rest = [] \<and> ap = (acc @ [mg_id m]) @ map mg_id dn
               | Inl e \<Rightarrow> \<exists>m rest'. rest = m # rest' \<and> blame env m t' = Some e"
      by (auto simp: migration_record_def)
    then show ?thesis using up ok h1
      by (intro exI[of _ "m # dn"] exI[of _ rest] exI[of _ t']) (auto split: sum.splits)
  qed
qed

section \<open>One run\<close>

lemma ensure_history: "tb_history (ensureMigrationHistory t) = Some (case tb_history t of None \<Rightarrow> [] | Some rows \<Rightarrow> rows)"
  "tb_app (ensureMigrationHistory t) = tb_app t" "history_ids (ensureMigrationHistory t) = history_ids t"
  "isLegacyDatabase env (ensureMigrationHistory t) = isLegacyDatabase env t"
  by (auto simp: ensureMigrationHistory_def history_ids_def isLegacyDatabase_def split: option.splits)

lemma sql_max_None: "sql_max ids = None \<longleftrightarrow> ids = []"
  by (simp add: sql_max_def)

lemma getSchemaVersion_rows: "tb_history t = Some rows \<Longrightarrow>
  getSchemaVersion t = Inr (if rows = [] then 0 else Max (set (history_ids t)))"
  by (auto simp: getSchemaVersion_def history_rows_def sql_max_def history_ids_def)

lemma getPending_rows: "tb_history t = Some rows \<Longrightarrow> getPendingMigrations t ms = Inr (due ms t)"
  by (simp add: getPendingMigrations_def history_rows_def due_def history_ids_def)

lemma findNewer_rows: "tb_history t = Some rows \<Longrightarrow>
  findNewerThanBinary t x = Inr (sql_max (filter (\<lambda>i. i > x) (history_ids t)))"
  by (simp add: findNewerThanBinary_def history_rows_def history_ids_def)

lemma set_due: "set (due ms t) = {m \<in> set ms. mg_id m \<notin> set (history_ids t)}"
  by (simp add: due_def)

lemma distinct_due: "distinct (map mg_id ms) \<Longrightarrow> distinct (map mg_id (due ms t))"
proof -
  assume "distinct (map mg_id ms)"
  then have "distinct (map mg_id (filter (\<lambda>m. mg_id m \<notin> set (history_ids t)) ms))" by (rule distinct_map_filter)
  then show ?thesis unfolding due_def distinct_map by (simp add: distinct_sort)
qed

lemma sorted_due: "sorted (map mg_id (due ms t))"
  by (simp add: due_def)

text \<open>The history covers the registry and nothing newer: that is the expected version.\<close>

lemma version_reached:
  assumes "tb_history t = Some rows" "ms \<noteq> []" "mg_id ` set ms \<subseteq> set (history_ids t)"
    "\<forall>i\<in>set (history_ids t). i \<le> getExpectedVersion ms"
  shows "getSchemaVersion t = Inr (getExpectedVersion ms)"
proof -
  have mem: "getExpectedVersion ms \<in> set (history_ids t)"
    using assms(2,3) Max_in[of "mg_id ` set ms"] by (auto simp: getExpectedVersion_def)
  then have "rows \<noteq> []" using assms(1) by (auto simp: history_ids_def)
  moreover have "Max (set (history_ids t)) = getExpectedVersion ms" using mem assms(4) by (intro Max_eqI) auto
  ultimately show ?thesis using getSchemaVersion_rows[OF assms(1)] by simp
qed

lemma due_expected: "m \<in> set (due ms t) \<Longrightarrow> mg_id m \<le> getExpectedVersion ms"
  by (auto simp: set_due getExpectedVersion_def)

text \<open>The checkpoint leaves the tables and the pragma alone.\<close>

lemma take_checkpoint_cases:
  assumes "take_checkpoint env opts db = (r, db1)"
  shows "md_tables db1 = md_tables db \<and> md_foreign_keys db1 = md_foreign_keys db
    \<and> (\<forall>e. r = Inl e \<longrightarrow> (\<exists>d c. e = CheckpointError d c \<and> me_copy env = Some c))"
  using assms by (auto simp: take_checkpoint_def createSafetyCheckpoint_def Let_def split: option.splits if_splits)

lemma cleanup_keeps: "md_tables (cleanupOldCheckpoints env p n db) = md_tables db
  \<and> md_foreign_keys (cleanupOldCheckpoints env p n db) = md_foreign_keys db"
  by (simp add: cleanupOldCheckpoints_def Let_def)


text \<open>The end of a run that has migrations to apply.\<close>

lemma finish_run_prefix:
  assumes run: "finish_run env opts (getExpectedVersion ms) v ad cp (due ms t) db = (r, db')"
    and t: "md_tables db = t" "tb_history t = Some rows" and ms: "distinct (map mg_id ms)" "\<forall>m\<in>set ms. keeps_history m" "ms \<noteq> []"
    and old: "\<forall>i\<in>set (history_ids t). i \<le> getExpectedVersion ms"
  shows "\<exists>dn rest. due ms t = dn @ rest \<and> migrated env (mo_now opts) (if ad then 1 else 0) dn t = Some (md_tables db')
    \<and> history_ids (md_tables db') = history_ids t @ map mg_id dn \<and> (md_foreign_keys db \<longrightarrow> md_foreign_keys db')
    \<and> (case r of Inr res \<Rightarrow> rest = [] \<and> rs_applied res = map mg_id dn \<and> rs_adoptedLegacy res = ad
            \<and> rs_toVersion res = getExpectedVersion ms \<and> getSchemaVersion (md_tables db') = Inr (getExpectedVersion ms)
       | Inl e \<Rightarrow> \<exists>m rest'. rest = m # rest' \<and> blame env m (md_tables db') = Some e)
    \<and> tb_history (md_tables db') \<noteq> None \<and> (\<forall>i\<in>set (history_ids (md_tables db')). i \<le> getExpectedVersion ms)"
proof -
  obtain r1 db2 where loop: "apply_loop env (mo_now opts) (if ad then 1 else 0) (due ms t) [] db = (r1, db2)"
    by (cases "apply_loop env (mo_now opts) (if ad then 1 else 0) (due ms t) [] db")
  have dis: "set (map mg_id (due ms t)) \<inter> mr_id ` set rows = {}" using t(2) by (auto simp: set_due history_ids_def)
  have keep: "\<forall>m\<in>set (due ms t). keeps_history m" using ms(2) by (simp add: set_due)
  from apply_loop_prefix[OF loop keep _ distinct_due[OF ms(1)] dis] t
  obtain dn rest where d: "due ms t = dn @ rest" "migrated env (mo_now opts) (if ad then 1 else 0) dn t = Some (md_tables db2)"
    "md_foreign_keys db \<longrightarrow> md_foreign_keys db2"
    "case r1 of Inr ap \<Rightarrow> rest = [] \<and> ap = [] @ map mg_id dn | Inl e \<Rightarrow> \<exists>m rest'. rest = m # rest' \<and> blame env m (md_tables db2) = Some e"
    by blast
  have "\<forall>m\<in>set dn. keeps_history m" using keep d(1) by simp
  from migrated_history[OF d(2) this t(2)] obtain rows' where h: "tb_history (md_tables db2) = Some (rows @ rows')"
    "map mr_id rows' = map mg_id dn" by blast
  have ids: "history_ids (md_tables db2) = history_ids t @ map mg_id dn" using h t(2) by (simp add: history_ids_def)
  have upto: "\<forall>i\<in>set (history_ids (md_tables db2)). i \<le> getExpectedVersion ms"
    using ids old due_expected[of _ ms t] d(1) by auto
  show ?thesis
  proof (cases r1)
    case (Inl e)
    then show ?thesis using run loop d ids h(1) upto by - (rule exI[of _ dn], rule exI[of _ rest], auto simp: finish_run_def)
  next
    case (Inr ap)
    then have all: "rest = []" "ap = map mg_id dn" using d(4) by auto
    have "mg_id ` set ms \<subseteq> set (history_ids (md_tables db2))"
      using ids d(1) all set_due[of ms t] by auto
    then have "getSchemaVersion (md_tables db2) = Inr (getExpectedVersion ms)" using version_reached h(1) ms(3) upto by blast
    then show ?thesis using run loop Inr all d ids cleanup_keeps h(1) upto
      by - (rule exI[of _ dn], rule exI[of _ rest], auto simp: finish_run_def split: option.splits)
  qed
qed

text \<open>What a run refuses before it has applied anything, and when.\<close>

definition refused :: "'c mig_env \<Rightarrow> 'c migration list \<Rightarrow> 'c tables \<Rightarrow> mig_error \<Rightarrow> bool" where
  "refused env ms t e = (case e of
       DuplicateId i \<Rightarrow> \<not> distinct (map mg_id ms)
     | DatabaseNewerThanBinaryError v x \<Rightarrow> x = getExpectedVersion ms \<and> v > x \<and> v \<in> set (history_ids t) \<and> (\<forall>i\<in>set (history_ids t). i \<le> v)
     | NoBaseline \<Rightarrow> isLegacyDatabase env t \<and> 1 \<notin> mg_id ` set ms
     | CheckpointError _ c \<Rightarrow> me_copy env = Some c
     | _ \<Rightarrow> False)"

text \<open>The tables a run starts from: a legacy database has its baseline row.\<close>

definition run_base :: "'c mig_env \<Rightarrow> 'c tables \<Rightarrow> bool \<Rightarrow> 'c tables \<Rightarrow> bool" where
  "run_base env t adopted t0 = (tb_app t0 = tb_app t \<and> (adopted \<longrightarrow> isLegacyDatabase env t)
     \<and> history_ids t0 = history_ids t @ (if adopted then [1] else [])
     \<and> (\<not> adopted \<longrightarrow> t0 = t \<or> t0 = ensureMigrationHistory t))"

lemma adopt_step_cases:
  assumes "adopt_step env opts ms t = r" "tb_history t = Some rows"
  shows "case r of Inl e \<Rightarrow> e = NoBaseline \<and> isLegacyDatabase env t \<and> 1 \<notin> mg_id ` set ms
     | Inr (t0, ad) \<Rightarrow> run_base env t ad t0 \<and> ad = isLegacyDatabase env t \<and> (\<exists>rows'. tb_history t0 = Some rows')
         \<and> (ad \<longrightarrow> 1 \<in> mg_id ` set ms) \<and> (\<not> ad \<longrightarrow> t0 = t)"
proof (cases "isLegacyDatabase env t")
  case True
  then have rows: "rows = []" using assms(2) by (auto simp: isLegacyDatabase_def split: if_splits)
  show ?thesis
  proof (cases "find (\<lambda>m. mg_id m = 1) ms")
    case None
    then have "1 \<notin> mg_id ` set ms" by (auto simp: find_None_iff)
    then show ?thesis using assms True None by (auto simp: adopt_step_def)
  next
    case (Some b)
    have b: "b \<in> set ms" "mg_id b = 1" using find_SomeD[OF Some] by simp_all
    then have mem: "1 \<in> mg_id ` set ms" by (intro image_eqI[of _ _ b]) simp_all
    have "adoptLegacyDatabase t b (mo_now opts 0) = Inr (t\<lparr>tb_history := Some [migration_record b (mo_now opts 0)]\<rparr>)"
      using assms(2) rows by (simp add: adoptLegacyDatabase_def ensureMigrationHistory_def insert_migration_row_def)
    then have r: "r = Inr (t\<lparr>tb_history := Some [migration_record b (mo_now opts 0)]\<rparr>, True)"
      using assms(1) True Some by (simp add: adopt_step_def)
    have "history_ids t = []" using assms(2) rows by (simp add: history_ids_def)
    then show ?thesis using mem True b by (simp add: r run_base_def history_ids_def migration_record_def)
  qed
next
  case False
  then show ?thesis using assms by (auto simp: adopt_step_def run_base_def)
qed

lemma sql_max_newer:
  assumes "sql_max (filter (\<lambda>i. i > x) ids) = Some v"
  shows "ids \<noteq> [] \<and> Max (set ids) > x"
proof -
  from assms obtain i where "i \<in> set ids" "i > x" by (auto simp: sql_max_def filter_empty_conv split: if_splits)
  then show ?thesis using Max_ge[of "set ids" i] by (auto simp del: Max_ge)
qed

lemma newest_refused:
  assumes "tb_history t = Some rows" "sql_max (filter (\<lambda>i. i > getExpectedVersion ms) (history_ids t)) = Some v"
  shows "\<exists>w. getSchemaVersion t = Inr w \<and> refused env ms t (DatabaseNewerThanBinaryError w (getExpectedVersion ms))"
proof -
  note n = sql_max_newer[OF assms(2)]
  have "rows \<noteq> []" using n assms(1) by (auto simp: history_ids_def)
  then have "getSchemaVersion t = Inr (Max (set (history_ids t)))" using getSchemaVersion_rows[OF assms(1)] by simp
  moreover have "Max (set (history_ids t)) \<in> set (history_ids t)" using n by (intro Max_in) auto
  ultimately show ?thesis using n by (auto simp: refused_def)
qed

text \<open>A run that was not refused leaves a database on which the next run is not refused either.\<close>

definition accepted :: "'c mig_env \<Rightarrow> 'c migration list \<Rightarrow> 'c tables \<Rightarrow> bool \<Rightarrow> 'c tables \<Rightarrow> bool" where
  "accepted env ms t adopted t' = (distinct (map mg_id ms) \<and> adopted = isLegacyDatabase env t \<and> tb_history t' \<noteq> None
     \<and> (\<forall>i\<in>set (history_ids t'). i \<le> getExpectedVersion ms))"

text \<open>A run, as a refusal or as the loop over what is due.\<close>

definition run_outcome :: "'c mig_env \<Rightarrow> mig_options \<Rightarrow> 'c migration list \<Rightarrow> 'c mig_db \<Rightarrow> mig_error + mig_result \<Rightarrow> 'c mig_db
    \<Rightarrow> bool \<Rightarrow> 'c tables \<Rightarrow> 'c migration list \<Rightarrow> 'c migration list \<Rightarrow> bool" where
  "run_outcome env opts ms db r db' ad t0 dn rest \<longleftrightarrow>
     run_base env (md_tables db) ad t0 \<and> due ms t0 = dn @ rest
     \<and> migrated env (mo_now opts) (if ad then 1 else 0) dn t0 = Some (md_tables db')
     \<and> history_ids (md_tables db') = history_ids t0 @ map mg_id dn
     \<and> (md_foreign_keys db \<longrightarrow> md_foreign_keys db')
     \<and> (case r of
          Inr res \<Rightarrow> accepted env ms (md_tables db) ad (md_tables db') \<and> rest = [] \<and> rs_applied res = map mg_id dn \<and> rs_adoptedLegacy res = ad
            \<and> rs_toVersion res = getExpectedVersion ms \<and> getSchemaVersion (md_tables db') = Inr (getExpectedVersion ms)
        | Inl e \<Rightarrow> (dn = [] \<and> refused env ms (md_tables db) e)
            \<or> (accepted env ms (md_tables db) ad (md_tables db') \<and> (\<exists>m rest'. rest = m # rest' \<and> blame env m (md_tables db') = Some e)))"

lemma run_outcome_refused:
  assumes "refused env ms (md_tables db) e" "run_base env (md_tables db) ad (md_tables db')" "md_foreign_keys db' = md_foreign_keys db"
  shows "run_outcome env opts ms db (Inl e) db' ad (md_tables db') [] (due ms (md_tables db'))"
  using assms by (simp add: run_outcome_def)

lemma ensure_idem: "ensureMigrationHistory (ensureMigrationHistory t) = ensureMigrationHistory t"
  by (simp add: ensureMigrationHistory_def split: option.splits)

lemma refused_ensure: "refused env ms (ensureMigrationHistory t) e = refused env ms t e"
  by (simp add: refused_def ensure_history split: mig_error.splits)

lemma run_base_ensure: "run_base env (ensureMigrationHistory t) ad t0 \<Longrightarrow> run_base env t ad t0"
  using ensure_idem[of t] by (auto simp: run_base_def ensure_history)

lemma apply_pending_outcome:
  assumes run: "apply_pending env opts (getExpectedVersion ms) v ad (due ms t0) (db\<lparr>md_tables := t0\<rparr>) = (r, db')"
    and base: "run_base env (md_tables db) ad t0" "tb_history t0 = Some rows" "\<forall>i\<in>set (history_ids t0). i \<le> getExpectedVersion ms"
      "ad = isLegacyDatabase env (md_tables db)"
    and ms: "distinct (map mg_id ms)" "\<forall>m\<in>set ms. keeps_history m" "ms \<noteq> []"
  shows "\<exists>dn rest. run_outcome env opts ms db r db' ad t0 dn rest"
proof -
  obtain c db1 where cp: "take_checkpoint env opts (db\<lparr>md_tables := t0\<rparr>) = (c, db1)"
    by (cases "take_checkpoint env opts (db\<lparr>md_tables := t0\<rparr>)")
  note keep = take_checkpoint_cases[OF cp]
  show ?thesis
  proof (cases c)
    case (Inl e)
    then have "r = Inl e" "db' = db1" using run cp by (auto simp: apply_pending_def)
    moreover have "refused env ms (md_tables db) e" using keep Inl by (auto simp: refused_def)
    moreover have "md_tables db' = t0" "md_foreign_keys db' = md_foreign_keys db" using keep calculation by simp_all
    ultimately have "run_outcome env opts ms db r db' ad t0 [] (due ms t0)"
      using run_outcome_refused[of env ms db e ad db' opts] base by simp
    then show ?thesis by blast
  next
    case (Inr p)
    then have "finish_run env opts (getExpectedVersion ms) v ad p (due ms t0) db1 = (r, db')" using run cp by (auto simp: apply_pending_def)
    from finish_run_prefix[OF this _ base(2) ms base(3)] keep
    obtain dn rest where "due ms t0 = dn @ rest" "migrated env (mo_now opts) (if ad then 1 else 0) dn t0 = Some (md_tables db')"
      "history_ids (md_tables db') = history_ids t0 @ map mg_id dn" "md_foreign_keys db1 \<longrightarrow> md_foreign_keys db'"
      "case r of Inr res \<Rightarrow> rest = [] \<and> rs_applied res = map mg_id dn \<and> rs_adoptedLegacy res = ad
            \<and> rs_toVersion res = getExpectedVersion ms \<and> getSchemaVersion (md_tables db') = Inr (getExpectedVersion ms)
       | Inl e \<Rightarrow> \<exists>m rest'. rest = m # rest' \<and> blame env m (md_tables db') = Some e"
      "tb_history (md_tables db') \<noteq> None" "\<forall>i\<in>set (history_ids (md_tables db')). i \<le> getExpectedVersion ms"
      by auto
    then have "run_outcome env opts ms db r db' ad t0 dn rest" using base(1,4) keep ms(1)
      by (auto simp: run_outcome_def accepted_def split: sum.splits)
    then show ?thesis by blast
  qed
qed

lemma run_outcome_exists:
  assumes run: "runMigrations env opts ms db = (r, db')" and keep: "\<forall>m\<in>set ms. keeps_history m" and ne: "ms \<noteq> []"
  shows "\<exists>ad t0 dn rest. run_outcome env opts ms db r db' ad t0 dn rest"
proof (cases "distinct (map mg_id ms)")
  case False
  then obtain i where "assertUniqueIds ms = Some i" using assertUniqueIds_None[of ms] by auto
  then have "r = Inl (DuplicateId i)" "db' = db" using run by (auto simp: runMigrations_def)
  then show ?thesis using run_outcome_refused[of env ms db "DuplicateId i" False db' opts] False
    by (fastforce simp: refused_def run_base_def)
next
  case True
  let ?t = "ensureMigrationHistory (md_tables db)" and ?x = "getExpectedVersion ms"
  obtain rows where rows: "tb_history ?t = Some rows" using ensure_history(1) by blast
  have u: "assertUniqueIds ms = None" using True assertUniqueIds_None by blast
  show ?thesis
  proof (cases "sql_max (filter (\<lambda>i. i > ?x) (history_ids ?t))")
    case (Some v)
    from newest_refused[OF rows this, of env] obtain w where w: "getSchemaVersion ?t = Inr w"
      "refused env ms (md_tables db) (DatabaseNewerThanBinaryError w ?x)" using refused_ensure by blast
    then have "r = Inl (DatabaseNewerThanBinaryError w ?x)" "db' = db\<lparr>md_tables := ?t\<rparr>"
      using run u findNewer_rows[OF rows] Some by (auto simp: runMigrations_def Let_def)
    then show ?thesis using run_outcome_refused[OF w(2), of False db' opts]
      by (fastforce simp: run_base_def ensure_history)
  next
    case None
    then have old: "\<forall>i\<in>set (history_ids ?t). i \<le> ?x" by (auto simp: sql_max_None filter_empty_conv)
    note ad = adopt_step_cases[OF _ rows, of env opts ms, OF refl]
    show ?thesis
    proof (cases "adopt_step env opts ms ?t")
      case (Inl e)
      then have "r = Inl e" "db' = db\<lparr>md_tables := ?t\<rparr>" using run u findNewer_rows[OF rows] None by (auto simp: runMigrations_def Let_def)
      then show ?thesis using run_outcome_refused[of env ms db e False db' opts] Inl ad
        by (fastforce simp: refused_def run_base_def ensure_history)
    next
      case (Inr p)
      then obtain t0 a where p: "adopt_step env opts ms ?t = Inr (t0, a)" by (cases p) auto
      from p ad obtain rows' where t0: "run_base env ?t a t0" "tb_history t0 = Some rows'" "a \<longrightarrow> 1 \<in> mg_id ` set ms"
        "a = isLegacyDatabase env ?t" by auto
      have "1 \<in> mg_id ` set ms \<Longrightarrow> 1 \<le> ?x" by (auto simp: getExpectedVersion_def)
      then have old0: "\<forall>i\<in>set (history_ids t0). i \<le> ?x" using t0 old by (auto simp: run_base_def)
      obtain v where v: "getSchemaVersion t0 = Inr v" using getSchemaVersion_rows[OF t0(2)] by blast
      have base: "run_base env (md_tables db) a t0" using t0(1) run_base_ensure by blast
      have leg: "a = isLegacyDatabase env (md_tables db)" using t0(4) ensure_history(4) by blast
      show ?thesis
      proof (cases "due ms t0")
        case Nil
        then have "mg_id ` set ms \<subseteq> set (history_ids t0)" using set_due[of ms t0] by auto
        from version_reached[OF t0(2) ne this old0] have "v = ?x" using v by simp
        moreover have "r = Inr \<lparr>rs_fromVersion = v, rs_toVersion = v, rs_applied = [], rs_adoptedLegacy = a, rs_checkpointPath = None\<rparr>"
          "db' = db\<lparr>md_tables := t0\<rparr>"
          using run u findNewer_rows[OF rows] None p v getPending_rows[OF t0(2), of ms] Nil by (auto simp: runMigrations_def Let_def)
        ultimately have "run_outcome env opts ms db r db' a t0 [] []"
          using base v Nil leg True t0(2) old0 by (simp add: run_outcome_def accepted_def)
        then show ?thesis by blast
      next
        case (Cons m rest)
        then have "apply_pending env opts ?x v a (due ms t0) (db\<lparr>md_tables := t0\<rparr>) = (r, db')"
          using run u findNewer_rows[OF rows] None p v getPending_rows[OF t0(2), of ms] by (simp add: runMigrations_def Let_def)
        from apply_pending_outcome[OF this base t0(2) old0 leg True keep ne] show ?thesis by blast
      qed
    qed
  qed
qed

section \<open>Runs and reruns\<close>

lemma migrated_append: "migrated env now k (a @ b) t = (case migrated env now k a t of None \<Rightarrow> None | Some t' \<Rightarrow> migrated env now (k + length a) b t')"
  by (induction env now k a t rule: migrated.induct) (auto split: sum.splits option.splits)

lemma blame_stops: "blame env m t = Some e \<Longrightarrow> migrated env now k (m # ms) t = None"
  by (auto simp: blame_def split: sum.splits if_splits)

lemma legacy_ids: "isLegacyDatabase env t \<longleftrightarrow> me_has_app env (tb_app t) \<and> history_ids t = []"
  by (auto simp: isLegacyDatabase_def history_ids_def split: option.splits)

text \<open>After a run that was not refused the database is not a legacy one.\<close>

lemma accepted_not_legacy:
  assumes "run_outcome env opts ms db r db' ad t0 dn rest" "accepted env ms (md_tables db) ad (md_tables db')"
  shows "\<not> isLegacyDatabase env (md_tables db')"
proof
  assume l: "isLegacyDatabase env (md_tables db')"
  then have "history_ids t0 @ map mg_id dn = []" using assms(1) by (simp add: legacy_ids run_outcome_def)
  then have z: "history_ids t0 = []" "dn = []" by simp_all
  then have na: "\<not> ad" "history_ids (md_tables db) = []" using assms(1) by (auto simp: run_outcome_def run_base_def split: if_splits)
  have "t0 = md_tables db'" using assms(1) z by (simp add: run_outcome_def)
  then have "tb_app (md_tables db') = tb_app (md_tables db)" using assms(1) by (simp add: run_outcome_def run_base_def)
  then have "isLegacyDatabase env (md_tables db)" using l na by (simp add: legacy_ids)
  then show False using assms(2) na by (simp add: accepted_def)
qed

lemma next_run:
  assumes t: "tb_history (md_tables db) \<noteq> None" "\<not> isLegacyDatabase env (md_tables db)"
      "\<forall>i\<in>set (history_ids (md_tables db)). i \<le> getExpectedVersion ms"
    and ms: "distinct (map mg_id ms)" "\<forall>m\<in>set ms. keeps_history m" "ms \<noteq> []" and copy: "me_copy env = None"
    and all: "migrated env (mo_now opts) 0 (due ms (md_tables db)) (md_tables db) = Some t'"
  shows "\<exists>res db'. runMigrations env opts ms db = (Inr res, db') \<and> md_tables db' = t'
    \<and> rs_applied res = map mg_id (due ms (md_tables db)) \<and> \<not> rs_adoptedLegacy res
    \<and> rs_toVersion res = getExpectedVersion ms"
proof -
  obtain r db' where run: "runMigrations env opts ms db = (r, db')" by (cases "runMigrations env opts ms db")
  from run_outcome_exists[OF run ms(2,3)] obtain ad t0 dn rest where o: "run_outcome env opts ms db r db' ad t0 dn rest" by blast
  have ad: "\<not> ad" using o t(2) by (auto simp: run_outcome_def run_base_def)
  have t0: "t0 = md_tables db" using o ad t(1)
    by (auto simp: run_outcome_def run_base_def ensureMigrationHistory_def split: option.splits)
  have nr: "\<not> refused env ms (md_tables db) e" for e
    using t ms(1) copy by (fastforce simp: refused_def split: mig_error.splits)
  show ?thesis
  proof (cases r)
    case (Inl e)
    then obtain m rest' where "rest = m # rest'" "blame env m (md_tables db') = Some e"
      using o nr by (auto simp: run_outcome_def)
    then have "migrated env (mo_now opts) 0 (dn @ rest) (md_tables db) = None"
      using o t0 ad blame_stops[of env m "md_tables db'" e] by (simp add: run_outcome_def migrated_append)
    then show ?thesis using all o t0 by (simp add: run_outcome_def)
  next
    case (Inr res)
    then show ?thesis using o run t0 ad all by (auto simp: run_outcome_def)
  qed
qed

lemma due_ids: "map mg_id (due ms t) = filter (\<lambda>i. i \<notin> set (history_ids t)) (sort (map mg_id ms))"
proof -
  have "mset (map mg_id (due ms t)) = filter_mset (\<lambda>i. i \<notin> set (history_ids t)) (mset (map mg_id ms))"
    by (simp add: due_def filter_mset_image_mset)
  then have "mset (map mg_id (due ms t)) = mset (filter (\<lambda>i. i \<notin> set (history_ids t)) (sort (map mg_id ms)))" by simp
  moreover have "sorted (filter (\<lambda>i. i \<notin> set (history_ids t)) (sort (map mg_id ms)))"
    using sorted_filter[of "\<lambda>i. i" "sort (map mg_id ms)" "\<lambda>i. i \<notin> set (history_ids t)"] by simp
  ultimately show ?thesis using sorted_due[of ms t] by (metis properties_for_sort sorted_sort_id)
qed

text \<open>C35. Every start of the server ends in one of two ways. Either the database is at the version
  the registry expects, and the migrations applied are exactly those that were missing, each once
  and in ascending order; or an error is thrown and the tables are exactly what a prefix of them
  made of it: the migration that failed has left no trace, the history lists just those that
  succeeded, and the error names the migration and its reason. Refusals (duplicate identifiers, a
  newer database, a legacy database without a baseline, no checkpoint) come before any migration
  and happen only for their reason; a legacy database only gets its baseline row. No other error is
  possible. Foreign keys are enforced again afterwards.\<close>

theorem migrations_prefix_exact:
  assumes "runMigrations env opts ms db = (r, db')" and "\<forall>m\<in>set ms. keeps_history m" and "ms \<noteq> []"
  shows "\<exists>adopted t0 dn rest. run_base env (md_tables db) adopted t0
    \<and> due ms t0 = dn @ rest \<and> sorted (map mg_id (dn @ rest))
    \<and> migrated env (mo_now opts) (if adopted then 1 else 0) dn t0 = Some (md_tables db')
    \<and> history_ids (md_tables db') = history_ids t0 @ map mg_id dn
    \<and> (md_foreign_keys db \<longrightarrow> md_foreign_keys db')
    \<and> (case r of
         Inr res \<Rightarrow> rest = [] \<and> rs_applied res = map mg_id dn \<and> rs_adoptedLegacy res = adopted
           \<and> rs_toVersion res = getExpectedVersion ms \<and> getSchemaVersion (md_tables db') = Inr (getExpectedVersion ms)
       | Inl e \<Rightarrow> (dn = [] \<and> refused env ms (md_tables db) e)
           \<or> (\<exists>m rest'. rest = m # rest' \<and> blame env m (md_tables db') = Some e))"
proof -
  from run_outcome_exists[OF assms] obtain ad t0 dn rest where "run_outcome env opts ms db r db' ad t0 dn rest" by blast
  then show ?thesis using sorted_due[of ms t0]
    by (intro exI[of _ ad] exI[of _ t0] exI[of _ dn] exI[of _ rest]) (auto simp: run_outcome_def split: sum.splits)
qed

definition sample_up :: "nat \<Rightarrow> nat tables \<Rightarrow> string + nat tables" where
  "sample_up n t = (if n = 9 then Inl ''boom'' else Inr (t\<lparr>tb_app := tb_app t + n\<rparr>))"

definition sample_env :: "nat mig_env" where
  "sample_env = \<lparr>me_has_app = (\<lambda>n. n > 0), me_violations = (\<lambda>t. if tb_app t > 50 then 1 else 0), me_stamp = ''2026:01.5'',
     me_copy = None, me_mtime = 700, me_readdir = True, me_unlink = (\<lambda>_. True)\<rparr>"

definition sample_opts :: "mig_options" where
  "sample_opts = \<lparr>mo_dbPath = Some ''data/a.db'', mo_skipCheckpoint = False, mo_now = (\<lambda>k. 1000 + int k)\<rparr>"

definition sample_migration :: "int \<Rightarrow> nat \<Rightarrow> nat migration" where
  "sample_migration i n = \<lparr>mg_id = i, mg_name = ''m'', mg_up = sample_up n\<rparr>"

definition sample_db :: "nat mig_db" where
  "sample_db = \<lparr>md_tables = \<lparr>tb_history = None, tb_app = 4\<rparr>, md_foreign_keys = True, md_files = []\<rparr>"

lemma sample_keeps: "keeps_history (sample_migration i n)"
  by (auto simp: keeps_history_def sample_migration_def sample_up_def)

text \<open>Migration 3 fails on an adopted database: the tables are those after migration 2.\<close>

definition sample_registry :: "nat migration list" where
  "sample_registry = [sample_migration 1 1, sample_migration 3 9, sample_migration 2 7]"

definition sample_run :: "(mig_error + mig_result) \<times> nat mig_db" where
  "sample_run = runMigrations sample_env sample_opts sample_registry sample_db"

lemma sample_registry_keeps: "\<forall>m\<in>set sample_registry. keeps_history m" "sample_registry \<noteq> []"
  by (simp_all add: sample_registry_def sample_keeps)

theorem migrations_prefix_exact_witness:
  "fst sample_run = Inl (MigrationError 3 ''boom'') \<and> tb_app (md_tables (snd sample_run)) = 11
   \<and> history_ids (md_tables (snd sample_run)) = [1, 2]
   \<and> (\<exists>adopted t0 dn rest. run_base sample_env (md_tables sample_db) adopted t0 \<and> due sample_registry t0 = dn @ rest
          \<and> migrated sample_env (mo_now sample_opts) (if adopted then 1 else 0) dn t0 = Some (md_tables (snd sample_run)))"
proof -
  have r: "fst sample_run = Inl (MigrationError 3 ''boom'')" "tb_app (md_tables (snd sample_run)) = 11"
    "history_ids (md_tables (snd sample_run)) = [1, 2]"
    by code_simp+
  have eq: "runMigrations sample_env sample_opts sample_registry sample_db = (fst sample_run, snd sample_run)"
    by (simp add: sample_run_def)
  from migrations_prefix_exact[OF eq sample_registry_keeps]
  have "\<exists>adopted t0 dn rest. run_base sample_env (md_tables sample_db) adopted t0 \<and> due sample_registry t0 = dn @ rest
          \<and> migrated sample_env (mo_now sample_opts) (if adopted then 1 else 0) dn t0 = Some (md_tables (snd sample_run))"
    by blast
  with r show ?thesis by blast
qed

text \<open>C36. A failed start is taken up again where it stopped. After a run that failed in a migration,
  or succeeded, a later run with the same identifiers, under which what is still due can be
  applied, succeeds: it applies exactly what the first run did not, adopts nothing again, and
  reaches the expected version. After a success nothing is due, and the later run leaves the
  database as it is.\<close>

theorem migrations_resume:
  assumes "runMigrations env opts ms db = (r, db1)" and "\<forall>m\<in>set ms. keeps_history m" and "ms \<noteq> []"
    and "\<forall>e. r = Inl e \<longrightarrow> (\<exists>i c n. e = MigrationError i c \<or> e = IntegrityError i n)"
    and "map mg_id ms2 = map mg_id ms" and "\<forall>m\<in>set ms2. keeps_history m"
    and "me_has_app env2 = me_has_app env" and "me_copy env2 = None"
    and "migrated env2 (mo_now opts2) 0 (due ms2 (md_tables db1)) (md_tables db1) = Some t2"
  shows "\<exists>res db2. runMigrations env2 opts2 ms2 db1 = (Inr res, db2) \<and> md_tables db2 = t2
    \<and> rs_applied res = filter (\<lambda>i. i \<notin> set (history_ids (md_tables db1))) (sort (map mg_id ms))
    \<and> \<not> rs_adoptedLegacy res \<and> rs_toVersion res = getExpectedVersion ms
    \<and> (isl r \<or> (rs_applied res = [] \<and> t2 = md_tables db1))"
proof -
  from run_outcome_exists[OF assms(1-3)] obtain ad t0 dn rest where o: "run_outcome env opts ms db r db1 ad t0 dn rest" by blast
  have acc: "accepted env ms (md_tables db) ad (md_tables db1)"
    using o assms(4) by (cases r) (fastforce simp: run_outcome_def refused_def)+
  have leg: "\<not> isLegacyDatabase env2 (md_tables db1)"
    using accepted_not_legacy[OF o acc] assms(7) by (simp add: isLegacyDatabase_def)
  have x: "getExpectedVersion ms2 = getExpectedVersion ms" and ne: "ms2 \<noteq> []"
    using assms(3,5) by (auto simp: getExpectedVersion_def)
  have "distinct (map mg_id ms2)" "tb_history (md_tables db1) \<noteq> None"
    "\<forall>i\<in>set (history_ids (md_tables db1)). i \<le> getExpectedVersion ms2"
    using acc assms(5) x by (simp_all add: accepted_def)
  from next_run[OF this(2) leg this(3,1) assms(6) ne assms(8,9)] x
  obtain res db2 where n: "runMigrations env2 opts2 ms2 db1 = (Inr res, db2)" "md_tables db2 = t2"
    "rs_applied res = map mg_id (due ms2 (md_tables db1))" "\<not> rs_adoptedLegacy res" "rs_toVersion res = getExpectedVersion ms" by auto
  have ids: "map mg_id (due ms2 (md_tables db1)) = filter (\<lambda>i. i \<notin> set (history_ids (md_tables db1))) (sort (map mg_id ms))"
    using due_ids[of ms2 "md_tables db1"] assms(5) by simp
  have "due ms2 (md_tables db1) = []" if "\<not> isl r"
  proof -
    have "getSchemaVersion (md_tables db1) = Inr (getExpectedVersion ms)" "due ms t0 = dn"
      "history_ids (md_tables db1) = history_ids t0 @ map mg_id dn" using o that by (auto simp: run_outcome_def split: sum.splits)
    then have "mg_id ` set ms \<subseteq> set (history_ids (md_tables db1))" using set_due[of ms t0] by auto
    then have "mg_id ` set ms2 \<subseteq> set (history_ids (md_tables db1))" using assms(5) by (metis list.set_map)
    then have "set (due ms2 (md_tables db1)) = {}" using set_due[of ms2 "md_tables db1"] by auto
    then show ?thesis by simp
  qed
  then show ?thesis using n ids assms(9) by auto
qed

definition sample_fixed :: "nat migration list" where
  "sample_fixed = [sample_migration 1 1, sample_migration 3 2, sample_migration 2 7]"

theorem migrations_resume_witness:
  "\<exists>res db2. runMigrations sample_env sample_opts sample_fixed (snd sample_run) = (Inr res, db2)
     \<and> rs_applied res = [3] \<and> rs_toVersion res = 3"
proof -
  have r: "fst sample_run = Inl (MigrationError 3 ''boom'')" by code_simp
  then have eq: "runMigrations sample_env sample_opts sample_registry sample_db = (Inl (MigrationError 3 ''boom''), snd sample_run)"
    by (metis sample_run_def prod.collapse)
  have "migrated sample_env (mo_now sample_opts) 0 (due sample_fixed (md_tables (snd sample_run))) (md_tables (snd sample_run)) \<noteq> None"
    by code_simp
  then obtain t2 where t2: "migrated sample_env (mo_now sample_opts) 0 (due sample_fixed (md_tables (snd sample_run))) (md_tables (snd sample_run)) = Some t2"
    by auto
  have x: "getExpectedVersion sample_registry = 3"
    "filter (\<lambda>i. i \<notin> set (history_ids (md_tables (snd sample_run)))) (sort (map mg_id sample_registry)) = [3]" by code_simp+
  have e: "\<forall>e. (Inl (MigrationError 3 ''boom'') :: mig_error + mig_result) = Inl e \<longrightarrow> (\<exists>i c n. e = MigrationError i c \<or> e = IntegrityError i n)"
    by auto
  have f: "map mg_id sample_fixed = map mg_id sample_registry" "\<forall>m\<in>set sample_fixed. keeps_history m"
    by (simp_all add: sample_fixed_def sample_registry_def sample_migration_def sample_keeps[unfolded sample_migration_def])
  have c: "me_copy sample_env = None" by (simp add: sample_env_def)
  from migrations_resume[OF eq sample_registry_keeps e f refl c t2] show ?thesis using x by auto
qed

section \<open>The checkpoint\<close>

lemma unlink_loop_keeps:
  "f \<in> set files \<Longrightarrow> \<forall>g\<in>set del. cf_name g \<noteq> cf_name f \<Longrightarrow> f \<in> set (unlink_loop env del files)"
proof (induction env del files rule: unlink_loop.induct)
  case (1 env files)
  then show ?case by simp
next
  case (2 env g del files)
  then have ne: "cf_name f \<noteq> cf_name g" by auto
  show ?case using 2 ne by auto
qed

lemma sort_key_least_last: "\<forall>x\<in>set xs. k n < k x \<Longrightarrow> sort_key k (xs @ [n]) = n # sort_key k xs"
  for k :: "'a \<Rightarrow> int"
proof -
  assume a: "\<forall>x\<in>set xs. k n < k x"
  have "foldr (insort_key k) xs [n] = n # foldr (insort_key k) xs []" using a by (induction xs) auto
  then show ?thesis by (simp add: sort_key_def)
qed

lemma apply_loop_files: "md_files (snd (apply_loop env now k pending acc db)) = md_files db"
  by (induction env now k pending acc db rule: apply_loop.induct) (auto simp: Let_def split: sum.splits)

text \<open>What the run applied can be undone from the checkpoint: whatever the outcome, the file it
  returns is there and holds the tables from before the first migration. The clean-up that keeps
  the five most recent checkpoints never removes it, as long as it is the most recent one.\<close>

lemma checkpoint_kept:
  assumes cp: "take_checkpoint env opts db = (Inr (Some dest), db1)"
    and newest: "\<forall>f\<in>set (md_files db). cf_mtime f < me_mtime env"
    and run: "finish_run env opts x v ad (Some dest) pending db1 = (r, db')"
  shows "\<exists>f\<in>set (md_files db'). cf_name f = path_basename dest \<and> cf_tables f = md_tables db"
proof -
  let ?f = "\<lparr>cf_name = path_basename dest, cf_mtime = me_mtime env, cf_tables = md_tables db\<rparr>"
  let ?old = "filter (\<lambda>f. cf_name f \<noteq> path_basename dest) (md_files db)"
  from cp have files: "md_files db1 = ?old @ [?f]"
    by (auto simp: take_checkpoint_def createSafetyCheckpoint_def Let_def split: option.splits if_splits)
  obtain r1 db2 where loop: "apply_loop env (mo_now opts) (if ad then 1 else 0) pending [] db1 = (r1, db2)"
    by (cases "apply_loop env (mo_now opts) (if ad then 1 else 0) pending [] db1")
  then have f2: "md_files db2 = ?old @ [?f]" using apply_loop_files files by (metis snd_conv)
  have mem: "?f \<in> set (md_files db2)" by (simp add: f2)
  have clean: "?f \<in> set (md_files (cleanupOldCheckpoints env p 5 db2))" for p
  proof -
    let ?P = "\<lambda>f. is_checkpoint (path_basename p) (cf_name f)"
    have "\<forall>g\<in>set (drop 5 (sort_key (\<lambda>f. - cf_mtime f) (filter ?P (md_files db2)))). cf_name g \<noteq> cf_name ?f"
    proof (cases "?P ?f")
      case True
      then have "sort_key (\<lambda>f. - cf_mtime f) (filter ?P (md_files db2)) = ?f # sort_key (\<lambda>f. - cf_mtime f) (filter ?P ?old)"
        using sort_key_least_last[of "filter ?P ?old" "\<lambda>f. - cf_mtime f" ?f] newest f2 by simp
      then show ?thesis using set_drop_subset[of 4 "sort_key (\<lambda>f. - cf_mtime f) (filter ?P ?old)"] by auto
    next
      case False
      then show ?thesis using f2 set_drop_subset[of 5 "sort_key (\<lambda>f. - cf_mtime f) (filter ?P (md_files db2))"] by auto
    qed
    from unlink_loop_keeps[OF mem this, of env] show ?thesis using mem by (simp add: cleanupOldCheckpoints_def Let_def)
  qed
  have "md_files db' = md_files db2 \<or> (\<exists>p. db' = cleanupOldCheckpoints env p 5 db2)" using run loop
    by (auto simp: finish_run_def split: sum.splits if_splits option.splits)
  then have "?f \<in> set (md_files db')" using clean mem by metis
  then show ?thesis by (intro bexI[of _ ?f]) simp_all
qed

end
