(* ===== verification/Data_Store.thy ===== *)
theory Data_Store
  imports Shared_State Command_History Outbound_Http
begin

text \<open>
  Historical time series (src/data-store/data-store.ts, duration.ts): collections of timestamped
  records, bounded by a storage budget, a size per collection and a retention time, and read by
  range, by page or as a sample of a range.

  The tables are lists: \<open>ds_records\<close> in rowid order (ids only grow), \<open>ds_collections\<close>, and
  \<open>ds_config\<close> as a map from key to text. Rows with equal timestamps are taken in rowid order where
  SQLite leaves the choice open; the properties only speak of timestamps there. SQLite's
  \<open>json_extract\<close> and its aggregate functions are parameters (\<open>ds_env\<close>). Numbers are integers, so
  a configuration text that is no integer numeral is outside the model (\<open>None\<close>). Events on the bus
  are a list. \<open>Date.now()\<close> is an argument. Log lines are not modelled.

  The lemmas show what a write adds, evicts, announces and refuses; that the tables stay consistent
  and the configuration survives a restart; what a query returns, in particular that a sampled
  range is covered by at most the points asked for; what retention removes; and that durations are
  read back as they are printed.
\<close>

section \<open>Durations\<close>

definition UNITS :: "(string \<times> int) list" where
  "UNITS = [(''m'', 60000), (''h'', 3600000), (''d'', 86400000), (''w'', 604800000), (''y'', 31536000000)]"

definition is_lower :: "char \<Rightarrow> bool" where
  "is_lower c = (97 \<le> (of_char c :: nat) \<and> (of_char c :: nat) \<le> 122)"

text \<open>\<open>/^(\d+)([a-z]+)$/\<close>\<close>

definition DURATION_REGEX :: "string \<Rightarrow> (string \<times> string) option" where
  "DURATION_REGEX s =
     (let ds = takeWhile is_digit s; u = dropWhile is_digit s
      in if ds \<noteq> [] \<and> u \<noteq> [] \<and> list_all is_lower u then Some (ds, u) else None)"

text \<open>\<open>UNITS[unit]\<close>: the object also has what it inherits, of which only \<open>constructor\<close> is all
  lower case. It is a function, and a number times a function is \<open>NaN\<close> (\<open>Some None\<close>).\<close>

definition unit_multiplier :: "string \<Rightarrow> int option option" where
  "unit_multiplier unit = (if unit = ''constructor'' then Some None else map_option Some (map_of UNITS unit))"

definition parseDuration :: "string \<Rightarrow> string + int option" where
  "parseDuration input =
     (let trimmed = js_trim input
      in if trimmed = [] then Inl ''Invalid duration: input must not be empty''
         else if hd trimmed = CHR ''-'' then Inl ''negative durations are not supported''
         else if CHR ''.'' \<in> set trimmed then Inl ''decimal values are not supported, use integers only''
         else case DURATION_REGEX trimmed of
                None \<Rightarrow> Inl ''expected format is a positive integer followed by a unit suffix''
              | Some (numStr, unit) \<Rightarrow>
                  (case unit_multiplier unit of
                     None \<Rightarrow> Inl ''unknown unit''
                   | Some multiplier \<Rightarrow>
                       let v = nat_of_digits numStr
                       in if v = 0 then Inl ''value must be a positive integer''
                          else Inr (map_option (\<lambda>x. int v * x) multiplier)))"

fun format_loop :: "int \<Rightarrow> (string \<times> int) list \<Rightarrow> string option" where
  "format_loop ms [] = None"
| "format_loop ms ((sfx, multiplier) # units) =
     (if ms mod multiplier = 0 then Some (show_int (ms div multiplier) @ sfx) else format_loop ms units)"

definition formatDuration :: "int \<Rightarrow> string + string" where
  "formatDuration ms =
     (if ms \<le> 0 then Inl ''value must be positive''
      else case format_loop ms (rev UNITS) of
             Some s \<Rightarrow> Inr s
           | None \<Rightarrow> Inl ''not evenly divisible by any supported unit'')"

section \<open>Records, options, the store\<close>

record ds_config =
  dc_enabled :: bool
  dc_maxStorageMb :: int
  dc_maxRecordsPerCollection :: int
  dc_maxCollections :: int

record ds_partial =
  dp_enabled :: "bool option"
  dp_maxStorageMb :: "int option"
  dp_maxRecordsPerCollection :: "int option"
  dp_maxCollections :: "int option"

record write_options =
  wo_tags :: "(string, string) jsmap option"
  wo_timestamp :: "ms option"

datatype ds_aggregate = AggSum | AggAvg | AggMin | AggMax | AggCount

datatype from_spec = FromText string | FromNumber ms

record query_options =
  qo_from :: "from_spec option"
  qo_to :: "ms option"
  qo_limit :: "int option"
  qo_offset :: "int option"
  qo_tags :: "(string, string) jsmap option"
  qo_aggregate :: "ds_aggregate option"
  qo_field :: "string option"
  qo_maxPoints :: "nat option"

record range_sampling =
  rg_bucketMs :: int
  rg_from :: ms
  rg_to :: ms

record data_record =
  rc_id :: int
  rc_collection :: string
  rc_payload :: jsval
  rc_tags :: jsval
  rc_timestamp :: ms

datatype query_result =
    QRecords "data_record list" nat "range_sampling option"
  | QValue rat

record record_row =
  rr_id :: int
  rr_collection :: string
  rr_payload :: string
  rr_tags :: string
  rr_timestamp :: ms

record collection_row =
  co_name :: string
  co_description :: "string option"
  co_retention_days :: "int option"
  co_created_at :: ms
  co_updated_at :: ms

record collection_metadata =
  cm_name :: string
  cm_description :: "string option"
  cm_retentionDays :: "int option"
  cm_recordCount :: nat
  cm_oldestRecord :: "ms option"
  cm_newestRecord :: "ms option"
  cm_createdAt :: ms
  cm_updatedAt :: ms

record data_stats =
  dt_totalRecords :: nat
  dt_totalBucketEntries :: nat
  dt_totalCollections :: nat
  dt_estimatedStorageMb :: rat
  dt_maxStorageMb :: int
  dt_storagePercent :: rat

datatype data_event =
    WriteEvent string data_record
  | QueryEvent string int
  | CollectionDeletedEvent string

datatype ds_error =
    NotEnabled
  | InvalidPayload string
  | StorageLimit int
  | MaxCollections nat int
  | CollectionNotFound string
  | InvalidQuery string
  | DsSqliteError string

record ds_env =
  de_extract :: "string \<Rightarrow> string \<Rightarrow> jsval"
  de_aggregate :: "ds_aggregate \<Rightarrow> jsval list \<Rightarrow> rat option"

record data_store =
  st_config :: ds_config
  st_config_rows :: "(string, string) jsmap"
  st_collections :: "collection_row list"
  st_records :: "record_row list"
  st_next_id :: int
  st_events :: "data_event list"
  st_shared :: shared_store
  st_retentionTimer :: "nat option"
  st_timers :: "nat list"
  st_handles :: nat

section \<open>Configuration\<close>

definition DEFAULT_CONFIG :: ds_config where
  "DEFAULT_CONFIG = \<lparr>dc_enabled = False, dc_maxStorageMb = 500, dc_maxRecordsPerCollection = 100000, dc_maxCollections = 50\<rparr>"

definition config_spread :: "ds_config \<Rightarrow> ds_partial \<Rightarrow> ds_config" where
  "config_spread c p =
     \<lparr>dc_enabled = (case dp_enabled p of Some b \<Rightarrow> b | None \<Rightarrow> dc_enabled c),
      dc_maxStorageMb = (case dp_maxStorageMb p of Some n \<Rightarrow> n | None \<Rightarrow> dc_maxStorageMb c),
      dc_maxRecordsPerCollection = (case dp_maxRecordsPerCollection p of Some n \<Rightarrow> n | None \<Rightarrow> dc_maxRecordsPerCollection c),
      dc_maxCollections = (case dp_maxCollections p of Some n \<Rightarrow> n | None \<Rightarrow> dc_maxCollections c)\<rparr>"

definition load_config_row :: "string \<times> string \<Rightarrow> ds_config \<Rightarrow> ds_config option" where
  "load_config_row row c = (case row of (key, raw) \<Rightarrow>
     if key = ''enabled'' then Some (c\<lparr>dc_enabled := (raw = ''true'')\<rparr>)
     else if key = ''maxStorageMb'' then map_option (\<lambda>n. c\<lparr>dc_maxStorageMb := n\<rparr>) (js_Number raw)
     else if key = ''maxRecordsPerCollection'' then map_option (\<lambda>n. c\<lparr>dc_maxRecordsPerCollection := n\<rparr>) (js_Number raw)
     else if key = ''maxCollections'' then map_option (\<lambda>n. c\<lparr>dc_maxCollections := n\<rparr>) (js_Number raw)
     else Some c)"

fun loadConfig :: "(string \<times> string) list \<Rightarrow> ds_config \<Rightarrow> ds_config option" where
  "loadConfig [] c = Some c"
| "loadConfig (row # rows) c = (case load_config_row row c of None \<Rightarrow> None | Some c' \<Rightarrow> loadConfig rows c')"

definition ds_init :: "ds_partial \<Rightarrow> shared_store \<Rightarrow> data_store \<Rightarrow> data_store option" where
  "ds_init config shared db =
     map_option (\<lambda>c. db\<lparr>st_config := c, st_events := [], st_shared := shared, st_retentionTimer := None, st_timers := []\<rparr>)
       (loadConfig (st_config_rows db) (config_spread DEFAULT_CONFIG config))"

definition saveConfigKey :: "string \<Rightarrow> string \<Rightarrow> data_store \<Rightarrow> data_store" where
  "saveConfigKey key v s = s\<lparr>st_config_rows := replace_row key v (st_config_rows s)\<rparr>"

definition show_bool :: "bool \<Rightarrow> string" where
  "show_bool b = (if b then ''true'' else ''false'')"

definition persistConfig :: "data_store \<Rightarrow> data_store" where
  "persistConfig s =
     (let c = st_config s
      in saveConfigKey ''maxCollections'' (show_int (dc_maxCollections c))
        (saveConfigKey ''maxRecordsPerCollection'' (show_int (dc_maxRecordsPerCollection c))
        (saveConfigKey ''maxStorageMb'' (show_int (dc_maxStorageMb c))
        (saveConfigKey ''enabled'' (show_bool (dc_enabled c)) s))))"

definition ds_isEnabled :: "data_store \<Rightarrow> bool" where
  "ds_isEnabled s = dc_enabled (st_config s)"

definition ds_enable :: "ds_config \<Rightarrow> data_store \<Rightarrow> data_store" where
  "ds_enable config s = persistConfig (s\<lparr>st_config := config\<lparr>dc_enabled := True\<rparr>\<rparr>)"

definition ds_disable :: "data_store \<Rightarrow> data_store" where
  "ds_disable s = saveConfigKey ''enabled'' ''false'' (s\<lparr>st_config := (st_config s)\<lparr>dc_enabled := False\<rparr>\<rparr>)"

definition ds_getConfig :: "data_store \<Rightarrow> ds_config" where
  "ds_getConfig s = st_config s"

definition ds_updateConfig :: "ds_partial \<Rightarrow> data_store \<Rightarrow> data_store" where
  "ds_updateConfig p s = persistConfig (s\<lparr>st_config := config_spread (st_config s) p\<rparr>)"

section \<open>Writing\<close>

definition maxRecordsByStorage :: "ds_config \<Rightarrow> int" where
  "maxRecordsByStorage c = (dc_maxStorageMb c * 1024 * 1024) div 200"

text \<open>\<open>DELETE ... WHERE id IN (SELECT id ... ORDER BY timestamp ASC LIMIT n)\<close>\<close>

definition oldest :: "nat \<Rightarrow> record_row list \<Rightarrow> record_row list" where
  "oldest n rows = take n (sort_key rr_timestamp rows)"

definition delete_ids :: "record_row list \<Rightarrow> record_row list \<Rightarrow> record_row list" where
  "delete_ids victims rows = filter (\<lambda>r. rr_id r \<notin> rr_id ` set victims) rows"

definition in_collection :: "string \<Rightarrow> record_row list \<Rightarrow> record_row list" where
  "in_collection c rows = filter (\<lambda>r. rr_collection r = c) rows"

definition has_collection :: "string \<Rightarrow> data_store \<Rightarrow> bool" where
  "has_collection c s = (c \<in> co_name ` set (st_collections s))"

text \<open>The global budget.\<close>

definition evict_global :: "data_store \<Rightarrow> data_store" where
  "evict_global s =
     (let totalRecords = int (length (st_records s)); m = maxRecordsByStorage (st_config s)
      in if totalRecords \<ge> m
         then s\<lparr>st_records := delete_ids (oldest (nat (totalRecords - m + 1)) (st_records s)) (st_records s)\<rparr>
         else s)"

text \<open>The collection a write goes to, created when there is room for it.\<close>

definition auto_create :: "string \<Rightarrow> ms \<Rightarrow> data_store \<Rightarrow> ds_error + data_store" where
  "auto_create c now s =
     (if has_collection c s then Inr s
      else let cnt = length (st_collections s)
           in if int cnt \<ge> dc_maxCollections (st_config s) then Inl (MaxCollections cnt (dc_maxCollections (st_config s)))
              else Inr (s\<lparr>st_collections := st_collections s
                     @ [\<lparr>co_name = c, co_description = None, co_retention_days = None, co_created_at = now, co_updated_at = now\<rparr>]\<rparr>))"

definition evict_collection :: "string \<Rightarrow> data_store \<Rightarrow> data_store" where
  "evict_collection c s =
     (let currentCount = int (length (in_collection c (st_records s))); m = dc_maxRecordsPerCollection (st_config s)
      in if currentCount \<ge> m
         then s\<lparr>st_records := delete_ids (oldest (nat (currentCount - m + 1)) (in_collection c (st_records s))) (st_records s)\<rparr>
         else s)"

definition tags_json :: "(string, string) jsmap \<Rightarrow> jsval" where
  "tags_json tags = JObj (map (\<lambda>(k, v). (k, JStr v)) tags)"

definition insert_record :: "string \<Rightarrow> jsobj \<Rightarrow> string \<Rightarrow> write_options \<Rightarrow> ms \<Rightarrow> data_store \<Rightarrow> data_store" where
  "insert_record c payload payloadJson opts now s =
     (let tags = (case wo_tags opts of Some t \<Rightarrow> t | None \<Rightarrow> []);
          timestamp = (case wo_timestamp opts of Some t \<Rightarrow> t | None \<Rightarrow> now);
          id = st_next_id s
      in s\<lparr>st_records := st_records s @ [\<lparr>rr_id = id, rr_collection = c, rr_payload = payloadJson,
              rr_tags = json_text (tags_json tags), rr_timestamp = timestamp\<rparr>],
           st_next_id := id + 1,
           st_events := st_events s @ [WriteEvent c \<lparr>rc_id = id, rc_collection = c, rc_payload = JObj payload,
              rc_tags = tags_json tags, rc_timestamp = timestamp\<rparr>]\<rparr>)"

definition ds_write :: "string \<Rightarrow> jsobj \<Rightarrow> write_options \<Rightarrow> ms \<Rightarrow> data_store \<Rightarrow> (ds_error + unit) \<times> data_store" where
  "ds_write c payload opts now s =
     (if \<not> dc_enabled (st_config s) then (Inl NotEnabled, s)
      else case json_stringify (JObj payload) of
             JsonThrow msg \<Rightarrow> (Inl (InvalidPayload msg), s)
           | JsonNone \<Rightarrow> (Inl (InvalidPayload []), s)
           | JsonText payloadJson \<Rightarrow>
               if maxRecordsByStorage (st_config s) < 1 then (Inl (StorageLimit (dc_maxStorageMb (st_config s))), s)
               else let s1 = evict_global s
                    in case auto_create c now s1 of
                         Inl e \<Rightarrow> (Inl e, s1)
                       | Inr s2 \<Rightarrow> (Inr (), insert_record c payload payloadJson opts now (evict_collection c s2)))"

section \<open>Reading\<close>

text \<open>\<open>from\<close> as a timestamp: \<open>Some None\<close> is \<open>NaN\<close>, which no timestamp is at or after.\<close>

definition resolve_from :: "from_spec option \<Rightarrow> ms \<Rightarrow> string + int option option" where
  "resolve_from f now = (case f of
       None \<Rightarrow> Inr None
     | Some (FromNumber t) \<Rightarrow> Inr (Some (Some t))
     | Some (FromText txt) \<Rightarrow>
         (case parseDuration txt of Inl e \<Rightarrow> Inl e | Inr d \<Rightarrow> Inr (Some (map_option (\<lambda>ms. now - ms) d))))"

definition tags_match :: "ds_env \<Rightarrow> (string, string) jsmap option \<Rightarrow> record_row \<Rightarrow> bool" where
  "tags_match env tags r = (case tags of None \<Rightarrow> True
     | Some ts \<Rightarrow> list_all (\<lambda>(k, v). de_extract env (rr_tags r) (''$.'' @ k) = JStr v) ts)"

definition where_clause :: "ds_env \<Rightarrow> string \<Rightarrow> int option option \<Rightarrow> ms \<Rightarrow> (string, string) jsmap option \<Rightarrow> record_row \<Rightarrow> bool" where
  "where_clause env c fromTs toTs tags r =
     (rr_collection r = c \<and> (case fromTs of None \<Rightarrow> True | Some None \<Rightarrow> False | Some (Some f) \<Rightarrow> rr_timestamp r \<ge> f)
      \<and> rr_timestamp r \<le> toTs \<and> tags_match env tags r)"

definition row_record :: "record_row \<Rightarrow> data_record option" where
  "row_record r = (case (json_parse (rr_payload r), json_parse (rr_tags r)) of
       (Some p, Some t) \<Rightarrow> Some \<lparr>rc_id = rr_id r, rc_collection = rr_collection r, rc_payload = p, rc_tags = t, rc_timestamp = rr_timestamp r\<rparr>
     | _ \<Rightarrow> None)"

definition rows_records :: "record_row list \<Rightarrow> data_record list option" where
  "rows_records rows = those (map row_record rows)"

definition bucketWidthMs :: "ms \<Rightarrow> ms \<Rightarrow> nat \<Rightarrow> int" where
  "bucketWidthMs rangeFrom rangeTo maxPoints =
     (let span = max 1 (rangeTo - rangeFrom + 1); n = max 1 (int maxPoints) in max 1 ((span + n - 1) div n))"

fun newest_of :: "record_row \<Rightarrow> record_row list \<Rightarrow> record_row" where
  "newest_of a [] = a"
| "newest_of a (r # rows) = newest_of (if rr_timestamp r > rr_timestamp a then r else a) rows"

definition bucket_of :: "ms \<Rightarrow> int \<Rightarrow> record_row \<Rightarrow> int" where
  "bucket_of rangeFrom w r = (rr_timestamp r - rangeFrom) div w"

definition newest_first_rows :: "record_row list \<Rightarrow> record_row list" where
  "newest_first_rows rows = sort_key (\<lambda>r. - rr_timestamp r) rows"

definition sample_rows :: "ms \<Rightarrow> int \<Rightarrow> record_row list \<Rightarrow> record_row list" where
  "sample_rows rangeFrom w rows =
     newest_first_rows (map (\<lambda>b. let g = filter (\<lambda>r. bucket_of rangeFrom w r = b) rows in newest_of (hd g) (tl g))
       (remdups (map (bucket_of rangeFrom w) rows)))"

definition sampleRange :: "record_row list \<Rightarrow> ms \<Rightarrow> ms \<Rightarrow> nat \<Rightarrow> data_record list option" where
  "sampleRange rows rangeFrom rangeTo maxPoints =
     rows_records (sample_rows rangeFrom (bucketWidthMs rangeFrom rangeTo maxPoints) rows)"

text \<open>SQLite: a negative limit is none, a negative offset is zero.\<close>

definition sql_page :: "int option \<Rightarrow> int option \<Rightarrow> 'a list \<Rightarrow> 'a list" where
  "sql_page limit offset xs =
     (let ys = (case offset of None \<Rightarrow> xs | Some k \<Rightarrow> drop (nat k) xs)
      in case limit of None \<Rightarrow> ys | Some n \<Rightarrow> if n < 0 then ys else take (nat n) ys)"

definition emit_query :: "string \<Rightarrow> int \<Rightarrow> data_store \<Rightarrow> data_store" where
  "emit_query c durationMs s = s\<lparr>st_events := st_events s @ [QueryEvent c durationMs]\<rparr>"

definition answer :: "string \<Rightarrow> int \<Rightarrow> data_store \<Rightarrow> query_result option \<Rightarrow> (ds_error + query_result) \<times> data_store" where
  "answer c durationMs s r = (case r of
       None \<Rightarrow> (Inl (InvalidQuery ''Unexpected token in JSON''), s)
     | Some q \<Rightarrow> (Inr q, emit_query c durationMs s))"

definition query_aggregate :: "ds_env \<Rightarrow> ds_aggregate \<Rightarrow> string \<Rightarrow> record_row list \<Rightarrow> rat" where
  "query_aggregate env agg field rows =
     (case (if agg = AggCount then Some (of_nat (length rows))
            else de_aggregate env agg (map (\<lambda>r. de_extract env (rr_payload r) (''$.'' @ field)) rows)) of
        Some v \<Rightarrow> v | None \<Rightarrow> 0)"

definition min_ts :: "record_row list \<Rightarrow> ms" where
  "min_ts rows = (if rows = [] then 0 else Min (set (map rr_timestamp rows)))"

definition query_records :: "query_options \<Rightarrow> int option option \<Rightarrow> ms \<Rightarrow> record_row list \<Rightarrow> query_result option" where
  "query_records opts fromTs toTs rows =
     (let total = length rows
      in case qo_maxPoints opts of
           Some n \<Rightarrow>
             if total > n then
               (let rangeFrom = (case fromTs of Some (Some f) \<Rightarrow> f | _ \<Rightarrow> min_ts rows); rangeTo = max rangeFrom toTs
                in map_option (\<lambda>rs. QRecords rs total
                       (Some \<lparr>rg_bucketMs = bucketWidthMs rangeFrom rangeTo n, rg_from = rangeFrom, rg_to = rangeTo\<rparr>))
                     (sampleRange rows rangeFrom rangeTo n))
             else map_option (\<lambda>rs. QRecords rs total None) (rows_records (sql_page (Some (int n)) None (newest_first_rows rows)))
         | None \<Rightarrow>
             map_option (\<lambda>rs. QRecords rs total None)
               (rows_records (sql_page (qo_limit opts) (qo_offset opts) (newest_first_rows rows))))"

definition ds_query :: "ds_env \<Rightarrow> string \<Rightarrow> query_options \<Rightarrow> ms \<Rightarrow> int \<Rightarrow> data_store \<Rightarrow> (ds_error + query_result) \<times> data_store" where
  "ds_query env c opts now durationMs s =
     (if \<not> has_collection c s then
        answer c durationMs s (Some (if qo_aggregate opts \<noteq> None then QValue 0 else QRecords [] 0 None))
      else case resolve_from (qo_from opts) now of
             Inl e \<Rightarrow> (Inl (InvalidQuery e), s)
           | Inr fromTs \<Rightarrow>
               let toTs = (case qo_to opts of Some t \<Rightarrow> t | None \<Rightarrow> now);
                   rows = filter (where_clause env c fromTs toTs (qo_tags opts)) (st_records s)
               in case qo_aggregate opts of
                    Some agg \<Rightarrow>
                      (case qo_field opts of
                         Some (ch # field) \<Rightarrow> answer c durationMs s (Some (QValue (query_aggregate env agg (ch # field) rows)))
                       | _ \<Rightarrow> (Inl (InvalidQuery ''Aggregation requires a 'field' parameter''), s))
                  | None \<Rightarrow> answer c durationMs s (query_records opts fromTs toTs rows))"

section \<open>Shared state aliases\<close>

definition ds_get :: "string \<Rightarrow> string \<Rightarrow> data_store \<Rightarrow> jsval option" where
  "ds_get bucket key s = shared_get bucket key (st_shared s)"

definition ds_set :: "string \<Rightarrow> string \<Rightarrow> jsval \<Rightarrow> ms \<Rightarrow> data_store \<Rightarrow> string + bool \<times> data_store" where
  "ds_set bucket key v now s = (case shared_set bucket key v None now (st_shared s) of
       Inl e \<Rightarrow> Inl e | Inr (b, sh) \<Rightarrow> Inr (b, s\<lparr>st_shared := sh\<rparr>))"

definition ds_delete :: "string \<Rightarrow> string \<Rightarrow> ms \<Rightarrow> data_store \<Rightarrow> bool \<times> data_store" where
  "ds_delete bucket key now s = (case shared_delete bucket key None now (st_shared s) of (b, sh) \<Rightarrow> (b, s\<lparr>st_shared := sh\<rparr>))"

definition ds_listBucket :: "string \<Rightarrow> data_store \<Rightarrow> shared_entry list" where
  "ds_listBucket bucket s = listBucket bucket (st_shared s)"

definition ds_listBuckets :: "data_store \<Rightarrow> (string \<times> nat) list" where
  "ds_listBuckets s = listBuckets (st_shared s)"

section \<open>Collections and retention\<close>

definition createCollection :: "string \<Rightarrow> string option \<Rightarrow> int option \<Rightarrow> ms \<Rightarrow> data_store \<Rightarrow> ds_error + data_store" where
  "createCollection name description retentionDays now s =
     (let cnt = length (st_collections s)
      in if int cnt \<ge> dc_maxCollections (st_config s) then Inl (MaxCollections cnt (dc_maxCollections (st_config s)))
         else if has_collection name s then Inl (DsSqliteError ''UNIQUE constraint failed: ds_collections.name'')
         else Inr (s\<lparr>st_collections := st_collections s
                @ [\<lparr>co_name = name, co_description = description, co_retention_days = retentionDays,
                    co_created_at = now, co_updated_at = now\<rparr>]\<rparr>))"

text \<open>\<open>updates\<close>: a missing description, a missing key \<open>retentionDays\<close>, or a value for it (null too).\<close>

definition updateCollection :: "string \<Rightarrow> string option \<Rightarrow> int option option \<Rightarrow> ms \<Rightarrow> data_store \<Rightarrow> ds_error + data_store" where
  "updateCollection name description retentionDays now s =
     (if \<not> has_collection name s then Inl (CollectionNotFound name)
      else Inr (s\<lparr>st_collections := map (\<lambda>c. if co_name c = name
             then c\<lparr>co_description := (case description of None \<Rightarrow> co_description c | Some d \<Rightarrow> Some d),
                    co_retention_days := (case retentionDays of None \<Rightarrow> co_retention_days c | Some r \<Rightarrow> r),
                    co_updated_at := now\<rparr>
             else c) (st_collections s)\<rparr>))"

definition deleteCollection :: "string \<Rightarrow> data_store \<Rightarrow> ds_error + data_store" where
  "deleteCollection name s =
     (if \<not> has_collection name s then Inl (CollectionNotFound name)
      else Inr (s\<lparr>st_records := filter (\<lambda>r. rr_collection r \<noteq> name) (st_records s),
                 st_collections := filter (\<lambda>c. co_name c \<noteq> name) (st_collections s),
                 st_events := st_events s @ [CollectionDeletedEvent name]\<rparr>))"

definition sql_min :: "int list \<Rightarrow> int option" where
  "sql_min xs = (if xs = [] then None else Some (Min (set xs)))"

definition sql_maximum :: "int list \<Rightarrow> int option" where
  "sql_maximum xs = (if xs = [] then None else Some (Max (set xs)))"

definition listCollections :: "data_store \<Rightarrow> collection_metadata list" where
  "listCollections s = map (\<lambda>c. let ts = map rr_timestamp (in_collection (co_name c) (st_records s)) in
     \<lparr>cm_name = co_name c, cm_description = co_description c, cm_retentionDays = co_retention_days c,
      cm_recordCount = length ts, cm_oldestRecord = sql_min ts, cm_newestRecord = sql_maximum ts,
      cm_createdAt = co_created_at c, cm_updatedAt = co_updated_at c\<rparr>) (st_collections s)"

definition getStats :: "data_store \<Rightarrow> data_stats" where
  "getStats s =
     (let totalRecords = length (st_records s); mb = dc_maxStorageMb (st_config s);
          estimatedStorageMb = of_nat (totalRecords * 200) / (1024 * 1024)
      in \<lparr>dt_totalRecords = totalRecords, dt_totalBucketEntries = countEntries (st_shared s),
          dt_totalCollections = length (st_collections s), dt_estimatedStorageMb = estimatedStorageMb,
          dt_maxStorageMb = mb,
          dt_storagePercent = (if mb > 0 then estimatedStorageMb / of_int mb * 100 else 0)\<rparr>)"

definition prune :: "ms \<Rightarrow> collection_row \<Rightarrow> record_row list \<Rightarrow> record_row list" where
  "prune now c rows = (case co_retention_days c of
       None \<Rightarrow> rows
     | Some days \<Rightarrow> filter (\<lambda>r. \<not> (rr_collection r = co_name c \<and> rr_timestamp r < now - days * 86400000)) rows)"

definition ds_enforceRetention :: "ms \<Rightarrow> data_store \<Rightarrow> data_store" where
  "ds_enforceRetention now s = s\<lparr>st_records := fold (prune now) (st_collections s) (st_records s)\<rparr>"

definition startRetentionTimer :: "data_store \<Rightarrow> data_store" where
  "startRetentionTimer s = s\<lparr>st_retentionTimer := Some (st_handles s), st_timers := st_timers s @ [st_handles s], st_handles := Suc (st_handles s)\<rparr>"

definition stopRetentionTimer :: "data_store \<Rightarrow> data_store" where
  "stopRetentionTimer s = (case st_retentionTimer s of
       None \<Rightarrow> s
     | Some h \<Rightarrow> s\<lparr>st_retentionTimer := None, st_timers := filter (\<lambda>x. x \<noteq> h) (st_timers s)\<rparr>)"

definition retention_tick :: "nat \<Rightarrow> ms \<Rightarrow> data_store \<Rightarrow> data_store" where
  "retention_tick h now s = (if h \<in> set (st_timers s) then ds_enforceRetention now s else s)"

definition ds_dispose :: "data_store \<Rightarrow> data_store" where
  "ds_dispose s = stopRetentionTimer s"

section \<open>Eviction\<close>

lemma sorted_take_drop:
  assumes "sorted (map f xs)" "x \<in> set (take n xs)" "y \<in> set (drop n xs)"
  shows "f x \<le> (f y :: 'a :: linorder)"
proof -
  have "sorted (map f (take n xs) @ map f (drop n xs))" using assms(1) by (simp flip: map_append)
  then show ?thesis using assms(2,3) by (simp only: sorted_append) simp
qed

lemma distinct_ids_rows: "distinct (map rr_id rows) \<Longrightarrow> distinct rows"
  by (simp add: distinct_map)

lemma set_oldest: "set (oldest n rows) \<subseteq> set rows"
  using set_take_subset[of n "sort_key rr_timestamp rows"] by (auto simp: oldest_def)

lemma id_in_victims:
  assumes "distinct (map rr_id rows)" "x \<in> set rows" "set victims \<subseteq> set rows"
  shows "rr_id x \<in> rr_id ` set victims \<longleftrightarrow> x \<in> set victims"
  using assms inj_onD[of rr_id "set rows" x] by (auto simp: distinct_map)

lemma set_delete_ids:
  assumes "distinct (map rr_id rows)" "set victims \<subseteq> set rows"
  shows "set (delete_ids victims rows) = set rows - set victims"
  using id_in_victims[OF assms(1) _ assms(2)] by (auto simp: delete_ids_def)

text \<open>Deleting the oldest rows of a selection: nothing kept of the selection is older than what
  went, the rest stays, and exactly so many are gone.\<close>

lemma evict_oldest:
  assumes d: "distinct (map rr_id rows)" and sel: "sel = filter P rows" and K: "K = delete_ids (oldest n sel) rows"
  shows "x \<in> set rows \<Longrightarrow> x \<notin> set K \<Longrightarrow> y \<in> set K \<Longrightarrow> P y \<Longrightarrow> P x \<and> rr_timestamp x \<le> rr_timestamp y"
    and "x \<in> set rows \<Longrightarrow> x \<notin> set K \<Longrightarrow> P x"
    and "length (filter P K) = length sel - n"
    and "filter (\<lambda>r. \<not> P r) K = filter (\<lambda>r. \<not> P r) rows"
    and "set K \<subseteq> set rows" and "distinct (map rr_id K)"
proof -
  have sub: "set (oldest n sel) \<subseteq> set rows" using set_oldest[of n sel] sel by auto
  have setK: "set K = set rows - set (oldest n sel)" using set_delete_ids[OF d sub] K by simp
  let ?L = "sort_key rr_timestamp sel"
  have L: "set ?L = set sel" "distinct ?L" "sorted (map rr_timestamp ?L)"
    using distinct_ids_rows[OF d] sel by simp_all
  show P: "P x" if "x \<in> set rows" "x \<notin> set K" for x
    using that setK set_oldest[of n sel] sel by auto
  show "P x \<and> rr_timestamp x \<le> rr_timestamp y" if "x \<in> set rows" "x \<notin> set K" "y \<in> set K" "P y" for x y
  proof -
    have "x \<in> set (take n ?L)" using that setK by (auto simp: oldest_def)
    moreover have "y \<in> set ?L" "y \<notin> set (take n ?L)" using that setK L(1) sel by (auto simp: oldest_def)
    then have "y \<in> set (drop n ?L)" by (metis Un_iff append_take_drop_id set_append)
    ultimately show ?thesis using sorted_take_drop[OF L(3)] P that by blast
  qed
  have "set (filter P K) = set (drop n ?L)"
  proof -
    have "set (filter P K) = set ?L - set (take n ?L)" using setK L(1) sel by (auto simp: oldest_def)
    also have "\<dots> = set (drop n ?L)"
      using L(2) set_take_disj_set_drop_if_distinct[of ?L n n] by (metis Diff_disjoint Int_commute Un_Diff_Int append_take_drop_id set_append Diff_triv Un_Diff Un_empty_left Diff_cancel order_refl)
    finally show ?thesis .
  qed
  moreover have "distinct (filter P K)" using distinct_ids_rows[OF d] K by (simp add: delete_ids_def)
  moreover have "distinct (drop n ?L)" using L(2) by simp
  ultimately have "length (filter P K) = length (drop n ?L)" by (metis distinct_card)
  then show "length (filter P K) = length sel - n" by simp
  have "\<not> P r \<Longrightarrow> r \<in> set rows \<Longrightarrow> rr_id r \<notin> rr_id ` set (oldest n sel)" for r
    using id_in_victims[OF d _ sub] set_oldest[of n sel] sel by fastforce
  then show "filter (\<lambda>r. \<not> P r) K = filter (\<lambda>r. \<not> P r) rows"
    unfolding K delete_ids_def filter_filter by (intro filter_cong) auto
  show "set K \<subseteq> set rows" using setK by blast
  show "distinct (map rr_id K)" using d K by (simp add: delete_ids_def distinct_map_filter)
qed

section \<open>Consistency\<close>

definition ds_inv :: "ds_partial \<Rightarrow> data_store \<Rightarrow> bool" where
  "ds_inv ctor s \<longleftrightarrow>
     distinct (map rr_id (st_records s)) \<and> (\<forall>r\<in>set (st_records s). rr_id r < st_next_id s)
     \<and> distinct (map co_name (st_collections s))
     \<and> (\<forall>r\<in>set (st_records s). rr_collection r \<in> co_name ` set (st_collections s))
     \<and> (\<forall>r\<in>set (st_records s). row_record r \<noteq> None)
     \<and> jm_wf (st_config_rows s)
     \<and> loadConfig (st_config_rows s) (config_spread DEFAULT_CONFIG ctor) = Some (st_config s)"

text \<open>Nothing is left to delete when the store is below the limit, so the test may be dropped.\<close>

lemma oldest_0: "oldest 0 rows = []"
  by (simp add: oldest_def)

lemma delete_none: "delete_ids [] rows = rows"
  by (simp add: delete_ids_def)

lemma evict_global_eq:
  "evict_global s = s\<lparr>st_records := delete_ids (oldest (nat (int (length (st_records s)) - maxRecordsByStorage (st_config s) + 1)) (st_records s)) (st_records s)\<rparr>"
  by (simp add: evict_global_def Let_def oldest_0 delete_none)

lemma evict_collection_eq:
  "evict_collection c s = s\<lparr>st_records := delete_ids (oldest (nat (int (length (in_collection c (st_records s))) - dc_maxRecordsPerCollection (st_config s) + 1))
      (in_collection c (st_records s))) (st_records s)\<rparr>"
  by (simp add: evict_collection_def Let_def oldest_0 delete_none)

lemma ds_inv_sub:
  assumes "ds_inv ctor s" "set rows \<subseteq> set (st_records s)" "distinct (map rr_id rows)"
  shows "ds_inv ctor (s\<lparr>st_records := rows\<rparr>)"
  using assms by (auto simp: ds_inv_def)

lemma delete_ids_inv: "ds_inv ctor s \<Longrightarrow> ds_inv ctor (s\<lparr>st_records := delete_ids v (st_records s)\<rparr>)"
  by (rule ds_inv_sub) (auto simp: delete_ids_def ds_inv_def distinct_map_filter)

lemma evict_global_inv [inv_intros]: "ds_inv ctor s \<Longrightarrow> ds_inv ctor (evict_global s)"
  unfolding evict_global_eq by (rule delete_ids_inv)

lemma evict_collection_inv [inv_intros]: "ds_inv ctor s \<Longrightarrow> ds_inv ctor (evict_collection c s)"
  unfolding evict_collection_eq by (rule delete_ids_inv)

lemma auto_create_inv [inv_intros]: "ds_inv ctor s \<Longrightarrow> auto_create c now s = Inr s' \<Longrightarrow> ds_inv ctor s' \<and> has_collection c s'"
  by (auto simp: auto_create_def ds_inv_def has_collection_def Let_def split: if_splits)

text \<open>What the rows say of the configuration.\<close>

definition num_or :: "(string \<times> string) list \<Rightarrow> string \<Rightarrow> int \<Rightarrow> int" where
  "num_or rows k d = (case map_of rows k of None \<Rightarrow> d | Some t \<Rightarrow> the (js_Number t))"

definition NUM_KEYS :: "string list" where
  "NUM_KEYS = [''maxStorageMb'', ''maxRecordsPerCollection'', ''maxCollections'']"

definition rows_numeric :: "(string \<times> string) list \<Rightarrow> bool" where
  "rows_numeric rows = (\<forall>(k, t)\<in>set rows. k \<in> set NUM_KEYS \<longrightarrow> js_Number t \<noteq> None)"

lemma loadConfig_rows:
  assumes "jm_wf rows" "rows_numeric rows"
  shows "loadConfig rows c = Some \<lparr>dc_enabled = (case map_of rows ''enabled'' of None \<Rightarrow> dc_enabled c | Some t \<Rightarrow> t = ''true''),
     dc_maxStorageMb = num_or rows ''maxStorageMb'' (dc_maxStorageMb c),
     dc_maxRecordsPerCollection = num_or rows ''maxRecordsPerCollection'' (dc_maxRecordsPerCollection c),
     dc_maxCollections = num_or rows ''maxCollections'' (dc_maxCollections c)\<rparr>"
  using assms
proof (induction rows arbitrary: c)
  case Nil
  show ?case by (simp add: num_or_def)
next
  case (Cons row rows)
  obtain k t where row: "row = (k, t)" by (cases row)
  have rest: "jm_wf rows" "rows_numeric rows" "map_of rows k = None"
    using Cons.prems row by (auto simp: rows_numeric_def map_of_eq_None_iff)
  have num: "k \<in> set NUM_KEYS \<Longrightarrow> \<exists>n. js_Number t = Some n" using Cons.prems row by (auto simp: rows_numeric_def)
  note step = Cons.IH[OF rest(1,2)] row rest(3)
  consider "k = ''enabled''" | "k = ''maxStorageMb''" | "k = ''maxRecordsPerCollection''" | "k = ''maxCollections''"
    | "k \<noteq> ''enabled''" "k \<notin> set NUM_KEYS" by (auto simp: NUM_KEYS_def)
  then show ?case
  proof cases
    case 1
    then show ?thesis using step by (simp add: load_config_row_def num_or_def cong: option.case_cong)
  next
    case 2
    then obtain n where "js_Number t = Some n" using num by (auto simp: NUM_KEYS_def)
    with 2 step show ?thesis by (simp add: load_config_row_def num_or_def cong: option.case_cong)
  next
    case 3
    then obtain n where "js_Number t = Some n" using num by (auto simp: NUM_KEYS_def)
    with 3 step show ?thesis by (simp add: load_config_row_def num_or_def cong: option.case_cong)
  next
    case 4
    then obtain n where "js_Number t = Some n" using num by (auto simp: NUM_KEYS_def)
    with 4 step show ?thesis by (simp add: load_config_row_def num_or_def cong: option.case_cong)
  next
    case 5
    then have "k \<noteq> ''maxStorageMb''" "k \<noteq> ''maxRecordsPerCollection''" "k \<noteq> ''maxCollections''" by (simp_all add: NUM_KEYS_def)
    with 5 step show ?thesis by (simp add: load_config_row_def num_or_def)
  qed
qed

lemma loadConfig_numeric: "loadConfig rows c = Some c' \<Longrightarrow> rows_numeric rows"
proof (induction rows arbitrary: c)
  case (Cons row rows)
  obtain k t where row: "row = (k, t)" by (cases row)
  from Cons.prems obtain c1 where "load_config_row row c = Some c1" "loadConfig rows c1 = Some c'" by (auto split: option.splits)
  then show ?case using Cons.IH row by (auto simp: rows_numeric_def load_config_row_def NUM_KEYS_def split: if_splits)
qed (simp add: rows_numeric_def)

lemma rows_numeric_replace: "rows_numeric rows \<Longrightarrow> k \<in> set NUM_KEYS \<longrightarrow> js_Number t \<noteq> None \<Longrightarrow> rows_numeric (replace_row k t rows)"
  by (auto simp: rows_numeric_def replace_row_def set_delete_jm)

lemma persistConfig_rows: "st_config_rows (persistConfig s) =
    replace_row ''maxCollections'' (show_int (dc_maxCollections (st_config s)))
     (replace_row ''maxRecordsPerCollection'' (show_int (dc_maxRecordsPerCollection (st_config s)))
     (replace_row ''maxStorageMb'' (show_int (dc_maxStorageMb (st_config s)))
     (replace_row ''enabled'' (show_bool (dc_enabled (st_config s))) (st_config_rows s))))"
  by (simp add: persistConfig_def saveConfigKey_def Let_def)

lemma persistConfig_load:
  assumes "jm_wf (st_config_rows s)" "rows_numeric (st_config_rows s)"
  shows "loadConfig (st_config_rows (persistConfig s)) c = Some (st_config s)"
proof -
  have wf: "jm_wf (st_config_rows (persistConfig s))" using assms(1) by (simp add: persistConfig_rows)
  have num: "rows_numeric (st_config_rows (persistConfig s))"
    unfolding persistConfig_rows
    by (intro rows_numeric_replace) (simp_all add: assms(2) js_Number_show_int NUM_KEYS_def)
  show ?thesis unfolding loadConfig_rows[OF wf num]
    by (simp add: persistConfig_rows num_or_def js_Number_show_int show_bool_def)
qed

lemma persistConfig_inv [inv_intros]:
  assumes "ds_inv ctor s" shows "ds_inv ctor (persistConfig (s\<lparr>st_config := c\<rparr>))"
proof -
  have "loadConfig (st_config_rows (persistConfig (s\<lparr>st_config := c\<rparr>))) (config_spread DEFAULT_CONFIG ctor) = Some c"
    using persistConfig_load[of "s\<lparr>st_config := c\<rparr>"] assms loadConfig_numeric by (auto simp: ds_inv_def)
  then show ?thesis using assms by (auto simp: ds_inv_def persistConfig_def saveConfigKey_def Let_def)
qed

lemma ds_disable_inv [inv_intros]:
  assumes "ds_inv ctor s" shows "ds_inv ctor (ds_disable s)"
proof -
  let ?c = "config_spread DEFAULT_CONFIG ctor" and ?rows = "st_config_rows s"
  have wf: "jm_wf ?rows" and num: "rows_numeric ?rows" and ld: "loadConfig ?rows ?c = Some (st_config s)"
    using assms loadConfig_numeric by (auto simp: ds_inv_def)
  have wf': "jm_wf (replace_row ''enabled'' ''false'' ?rows)" using wf by simp
  have num': "rows_numeric (replace_row ''enabled'' ''false'' ?rows)"
    using rows_numeric_replace[OF num] by (simp add: NUM_KEYS_def)
  have "loadConfig (replace_row ''enabled'' ''false'' ?rows) ?c = Some ((st_config s)\<lparr>dc_enabled := False\<rparr>)"
    using arg_cong[OF ld[unfolded loadConfig_rows[OF wf num] option.inject], of "\<lambda>x. x\<lparr>dc_enabled := False\<rparr>"]
    unfolding loadConfig_rows[OF wf' num'] by (simp add: num_or_def)
  then show ?thesis using assms by (simp add: ds_disable_def saveConfigKey_def ds_inv_def)
qed

definition tags_of :: "write_options \<Rightarrow> (string, string) jsmap" where
  "tags_of opts = (case wo_tags opts of Some t \<Rightarrow> t | None \<Rightarrow> [])"

definition stamp_of :: "write_options \<Rightarrow> ms \<Rightarrow> ms" where
  "stamp_of opts now = (case wo_timestamp opts of Some t \<Rightarrow> t | None \<Rightarrow> now)"

text \<open>A payload that JSON keeps as it is, and tags with different keys, as every object has.\<close>

definition write_ok :: "jsobj \<Rightarrow> write_options \<Rightarrow> bool" where
  "write_ok payload opts = (plain_json (JObj payload) \<and> jm_wf (tags_of opts))"

definition new_row :: "string \<Rightarrow> jsobj \<Rightarrow> write_options \<Rightarrow> ms \<Rightarrow> int \<Rightarrow> record_row" where
  "new_row c payload opts now i = \<lparr>rr_id = i, rr_collection = c, rr_payload = json_text (JObj payload),
     rr_tags = json_text (tags_json (tags_of opts)), rr_timestamp = stamp_of opts now\<rparr>"

definition new_record :: "string \<Rightarrow> jsobj \<Rightarrow> write_options \<Rightarrow> ms \<Rightarrow> int \<Rightarrow> data_record" where
  "new_record c payload opts now i = \<lparr>rc_id = i, rc_collection = c, rc_payload = JObj payload,
     rc_tags = tags_json (tags_of opts), rc_timestamp = stamp_of opts now\<rparr>"

lemma tags_plain: "jm_wf tags \<Longrightarrow> plain_json (tags_json tags)"
  by (auto simp: tags_json_def list_all_iff comp_def case_prod_beta')

lemma row_record_new: "write_ok payload opts \<Longrightarrow> row_record (new_row c payload opts now i) = Some (new_record c payload opts now i)"
  unfolding write_ok_def row_record_def new_row_def new_record_def
  using json_roundtrip[of "JObj payload"] json_roundtrip[OF tags_plain, of "tags_of opts"] by simp

lemma insert_record_eq:
  "insert_record c payload (json_text (JObj payload)) opts now s =
     s\<lparr>st_records := st_records s @ [new_row c payload opts now (st_next_id s)], st_next_id := st_next_id s + 1,
       st_events := st_events s @ [WriteEvent c (new_record c payload opts now (st_next_id s))]\<rparr>"
  by (simp add: insert_record_def new_row_def new_record_def tags_of_def stamp_of_def Let_def)

lemma insert_record_inv [inv_intros]:
  assumes "ds_inv ctor s" "has_collection c s" "write_ok payload opts"
  shows "ds_inv ctor (insert_record c payload (json_text (JObj payload)) opts now s)"
proof -
  have "rr_id (new_row c payload opts now i) = i" "rr_collection (new_row c payload opts now i) = c" for i
    by (simp_all add: new_row_def)
  then show ?thesis using assms row_record_new[OF assms(3)] unfolding insert_record_eq
    by (auto simp: ds_inv_def has_collection_def intro: less_trans)
qed

lemma evict_global_fields [simp]:
  "st_config (evict_global s) = st_config s" "st_collections (evict_global s) = st_collections s"
  "st_next_id (evict_global s) = st_next_id s" "st_events (evict_global s) = st_events s"
  by (simp_all add: evict_global_eq)

lemma evict_collection_fields [simp]:
  "st_config (evict_collection c s) = st_config s" "st_collections (evict_collection c s) = st_collections s"
  "st_next_id (evict_collection c s) = st_next_id s" "st_events (evict_collection c s) = st_events s"
  "has_collection d (evict_collection c s) = has_collection d s"
  by (simp_all add: evict_collection_eq has_collection_def)

lemma auto_create_fields: "auto_create c now s = Inr s' \<Longrightarrow> st_config s' = st_config s \<and> st_records s' = st_records s
    \<and> st_next_id s' = st_next_id s \<and> st_events s' = st_events s"
  by (auto simp: auto_create_def Let_def split: if_splits)

text \<open>A write, in the cases it has for a payload that can be stored.\<close>

lemma ds_write_cases:
  assumes "ds_write c payload opts now s = (r, s')" "plain_json (JObj payload)"
  obtains (refused) e where "r = Inl e" "s' = s" "e = NotEnabled \<or> (\<exists>mb. e = StorageLimit mb)"
    | (full) n m where "r = Inl (MaxCollections n m)" "s' = evict_global s" "\<not> has_collection c s"
        "n = length (st_collections s)" "m = dc_maxCollections (st_config s)" "int n \<ge> m"
    | (written) s2 where "r = Inr ()" "auto_create c now (evict_global s) = Inr s2"
        "s' = insert_record c payload (json_text (JObj payload)) opts now (evict_collection c s2)"
        "dc_enabled (st_config s)" "maxRecordsByStorage (st_config s) \<ge> 1"
proof (cases "\<not> dc_enabled (st_config s) \<or> maxRecordsByStorage (st_config s) < 1")
  case True
  then show ?thesis using assms refused by (auto simp: ds_write_def plain_stringify[OF assms(2)] split: if_splits)
next
  case False
  then have eq: "ds_write c payload opts now s = (case auto_create c now (evict_global s) of Inl e \<Rightarrow> (Inl e, evict_global s)
      | Inr s2 \<Rightarrow> (Inr (), insert_record c payload (json_text (JObj payload)) opts now (evict_collection c s2)))"
    by (simp add: ds_write_def plain_stringify[OF assms(2)] Let_def del: json_text.simps)
  show ?thesis
  proof (cases "auto_create c now (evict_global s)")
    case (Inl e)
    then have "\<not> has_collection c s" "e = MaxCollections (length (st_collections s)) (dc_maxCollections (st_config s))"
      "int (length (st_collections s)) \<ge> dc_maxCollections (st_config s)"
      by (auto simp: auto_create_def has_collection_def Let_def split: if_splits)
    then show ?thesis using full assms(1) eq Inl by auto
  next
    case (Inr s2)
    then show ?thesis using written assms(1) eq False by auto
  qed
qed

lemma ds_write_inv [inv_intros]:
  assumes "ds_inv ctor s" "write_ok payload opts"
  shows "ds_inv ctor (snd (ds_write c payload opts now s))"
proof -
  obtain r s' where w: "ds_write c payload opts now s = (r, s')" by (cases "ds_write c payload opts now s")
  have "plain_json (JObj payload)" using assms(2) by (simp add: write_ok_def)
  from w this show ?thesis
  proof (cases rule: ds_write_cases)
    case refused
    then show ?thesis using w assms by simp
  next
    case full
    then show ?thesis using w assms evict_global_inv by simp
  next
    case (written s2)
    then have "ds_inv ctor s2" "has_collection c s2" using auto_create_inv evict_global_inv assms(1) by blast+
    then show ?thesis using w written insert_record_inv evict_collection_inv assms(2) by simp
  qed
qed

section \<open>Every run\<close>

datatype ds_op =
    DsWrite string jsobj write_options ms
  | DsQuery ds_env string query_options ms int
  | DsCreate string "string option" "int option" ms
  | DsUpdate string "string option" "int option option" ms
  | DsDelete string
  | DsEnable ds_config
  | DsDisable
  | DsUpdateConfig ds_partial
  | DsSet string string jsval ms
  | DsRemove string string ms
  | DsRetention ms
  | DsStart
  | DsTick nat ms
  | DsDispose

fun ds_step :: "ds_op \<Rightarrow> data_store \<Rightarrow> data_store" where
  "ds_step (DsWrite c p opts now) s = snd (ds_write c p opts now s)"
| "ds_step (DsQuery env c opts now d) s = snd (ds_query env c opts now d s)"
| "ds_step (DsCreate n d r now) s = (case createCollection n d r now s of Inr s' \<Rightarrow> s' | Inl _ \<Rightarrow> s)"
| "ds_step (DsUpdate n d r now) s = (case updateCollection n d r now s of Inr s' \<Rightarrow> s' | Inl _ \<Rightarrow> s)"
| "ds_step (DsDelete n) s = (case deleteCollection n s of Inr s' \<Rightarrow> s' | Inl _ \<Rightarrow> s)"
| "ds_step (DsEnable c) s = ds_enable c s"
| "ds_step DsDisable s = ds_disable s"
| "ds_step (DsUpdateConfig p) s = ds_updateConfig p s"
| "ds_step (DsSet b k v now) s = (case ds_set b k v now s of Inr (_, s') \<Rightarrow> s' | Inl _ \<Rightarrow> s)"
| "ds_step (DsRemove b k now) s = snd (ds_delete b k now s)"
| "ds_step (DsRetention now) s = ds_enforceRetention now s"
| "ds_step DsStart s = startRetentionTimer s"
| "ds_step (DsTick h now) s = retention_tick h now s"
| "ds_step DsDispose s = ds_dispose s"

fun ds_ok :: "ds_op \<Rightarrow> data_store \<Rightarrow> bool" where
  "ds_ok (DsWrite c p opts now) s = write_ok p opts"
| "ds_ok _ s = True"

definition ds_empty :: "ds_partial \<Rightarrow> data_store" where
  "ds_empty ctor = \<lparr>st_config = config_spread DEFAULT_CONFIG ctor, st_config_rows = [], st_collections = [], st_records = [],
     st_next_id = 1, st_events = [], st_shared = shared_init True, st_retentionTimer = None, st_timers = [], st_handles = 0\<rparr>"

lemma answer_keeps: "snd (answer c d s r) = s \<or> snd (answer c d s r) = emit_query c d s"
  by (simp add: answer_def split: option.split)

lemma ds_query_keeps: "snd (ds_query env c opts now d s) = s \<or> snd (ds_query env c opts now d s) = emit_query c d s"
  unfolding ds_query_def Let_def by (simp add: answer_keeps split: sum.split option.split list.split)

lemma ds_inv_events [simp]: "ds_inv ctor (s\<lparr>st_events := ev\<rparr>) = ds_inv ctor s"
  by (simp add: ds_inv_def)

lemma ds_query_inv [inv_intros]: "ds_inv ctor s \<Longrightarrow> ds_inv ctor (snd (ds_query env c opts now d s))"
  using ds_query_keeps[of env c opts now d s] by (auto simp: emit_query_def)

lemma fold_prune: "fold (prune now) cs rows = filter (\<lambda>r. \<forall>c\<in>set cs. \<forall>days. co_retention_days c = Some days
     \<longrightarrow> rr_collection r = co_name c \<longrightarrow> rr_timestamp r \<ge> now - days * 86400000) rows"
  by (induction cs arbitrary: rows) (auto simp: prune_def filter_filter intro!: filter_cong split: option.splits)

lemma ds_enforceRetention_inv [inv_intros]: "ds_inv ctor s \<Longrightarrow> ds_inv ctor (ds_enforceRetention now s)"
  unfolding ds_enforceRetention_def fold_prune by (rule ds_inv_sub) (auto simp: ds_inv_def distinct_map_filter)

lemma createCollection_inv [inv_intros]: "ds_inv ctor s \<Longrightarrow> createCollection n d r now s = Inr s' \<Longrightarrow> ds_inv ctor s'"
  by (auto simp: createCollection_def ds_inv_def has_collection_def Let_def split: if_splits)

lemma ds_inv_names:
  assumes "map co_name cs = map co_name (st_collections s)" "ds_inv ctor s" shows "ds_inv ctor (s\<lparr>st_collections := cs\<rparr>)"
proof -
  have "co_name ` set cs = co_name ` set (st_collections s)" using assms(1) by (metis list.set_map)
  then show ?thesis using assms by (simp add: ds_inv_def)
qed

lemma updateCollection_inv [inv_intros]:
  assumes "ds_inv ctor s" "updateCollection n d r now s = Inr s'" shows "ds_inv ctor s'"
proof -
  obtain f where s': "s' = s\<lparr>st_collections := map f (st_collections s)\<rparr>" and f: "\<And>c. co_name (f c) = co_name c"
    using assms(2) by (auto simp: updateCollection_def split: if_splits intro: that)
  show ?thesis unfolding s' by (rule ds_inv_names[OF _ assms(1)]) (simp add: f)
qed

lemma deleteCollection_inv [inv_intros]: "ds_inv ctor s \<Longrightarrow> deleteCollection n s = Inr s' \<Longrightarrow> ds_inv ctor s'"
  by (fastforce simp: deleteCollection_def ds_inv_def distinct_map_filter split: if_splits)

lemma ds_inv_timers [simp]: "ds_inv ctor (s\<lparr>st_retentionTimer := t, st_timers := ts, st_handles := n\<rparr>) = ds_inv ctor s"
  "ds_inv ctor (s\<lparr>st_retentionTimer := t, st_timers := ts\<rparr>) = ds_inv ctor s"
  by (simp_all add: ds_inv_def)

lemma ds_step_inv: "ds_inv ctor s \<Longrightarrow> ds_ok a s \<Longrightarrow> ds_inv ctor (ds_step a s)"
proof (induction a s rule: ds_step.induct)
  case (9 b k v now s)
  then show ?case by (auto simp: ds_set_def ds_inv_def split: sum.splits prod.splits)
next
  case (10 b k now s)
  then show ?case by (auto simp: ds_delete_def ds_inv_def split: prod.splits)
next
  case (13 h now s)
  then show ?case using ds_enforceRetention_inv by (simp add: retention_tick_def)
qed (auto simp: ds_enable_def ds_updateConfig_def startRetentionTimer_def ds_dispose_def stopRetentionTimer_def
    intro: inv_intros split: sum.splits option.splits)

lemma ds_empty_inv: "ds_inv ctor (ds_empty ctor)"
  by (simp add: ds_inv_def ds_empty_def)

interpretation data_machine: invariant_machine ds_step ds_ok "ds_empty ctor" "ds_inv ctor" for ctor
  by unfold_locales (auto intro: ds_empty_inv ds_step_inv)

text \<open>C39. However the store is used: record ids are unique and below the next one, collection names
  are unique, every record belongs to an existing collection and can be read, and a restart with
  the same constructor argument comes up with exactly the configuration, collections and records
  the running store has.\<close>

theorem data_store_consistent:
  assumes "reach ds_step ds_ok (ds_empty ctor) s"
  shows "distinct (map rr_id (st_records s)) \<and> (\<forall>r\<in>set (st_records s). rr_id r < st_next_id s)
    \<and> distinct (map co_name (st_collections s))
    \<and> (\<forall>r\<in>set (st_records s). has_collection (rr_collection r) s \<and> row_record r \<noteq> None)
    \<and> (\<exists>s'. ds_init ctor shared s = Some s' \<and> st_config s' = st_config s \<and> st_collections s' = st_collections s
         \<and> st_records s' = st_records s \<and> st_next_id s' = st_next_id s)"
  using data_machine.reach_inv[OF assms] by (auto simp: ds_inv_def has_collection_def ds_init_def)

definition sample_partial :: ds_partial where
  "sample_partial = \<lparr>dp_enabled = Some True, dp_maxStorageMb = None, dp_maxRecordsPerCollection = Some 2, dp_maxCollections = Some 1\<rparr>"

definition sample_wopts :: "ms \<Rightarrow> write_options" where
  "sample_wopts t = \<lparr>wo_tags = Some [(''site'', ''a'')], wo_timestamp = Some t\<rparr>"

definition sample_write :: "ms \<Rightarrow> data_store \<Rightarrow> data_store" where
  "sample_write t = ds_step (DsWrite ''temp'' [(''v'', JNum 5)] (sample_wopts t) 0)"

definition sample_store :: data_store where
  "sample_store = sample_write 20 (sample_write 10 (sample_write 30 (ds_empty sample_partial)))"

lemma sample_store_reach: "reach ds_step ds_ok (ds_empty sample_partial) sample_store"
  unfolding sample_store_def sample_write_def
  by (intro reach_step reach_init) (simp_all add: write_ok_def tags_of_def sample_wopts_def)

theorem data_store_consistent_witness:
  "map rr_timestamp (st_records sample_store) = [30, 20] \<and> distinct (map rr_id (st_records sample_store))
   \<and> (\<exists>s'. ds_init sample_partial (shared_init True) sample_store = Some s' \<and> st_config s' = st_config sample_store)"
proof -
  have "map rr_timestamp (st_records sample_store) = [30, 20]" by code_simp
  then show ?thesis using data_store_consistent[OF sample_store_reach, of "shared_init True"] by blast
qed

section \<open>What a write does\<close>

lemma in_collection_split: "length rows = length (in_collection c rows) + length (filter (\<lambda>r. rr_collection r \<noteq> c) rows)"
  unfolding in_collection_def by (rule sum_length_filter_compl[symmetric])

text \<open>The two evictions of a write, one after the other.\<close>

lemma two_evictions:
  assumes d: "distinct (map rr_id R)" and m: "m \<ge> 1"
    and K1: "K1 = delete_ids (oldest (nat (int (length R) - m + 1)) R) R"
    and K2: "K2 = delete_ids (oldest (nat (int (length (in_collection c K1)) - l + 1)) (in_collection c K1)) K1"
  shows "subseq K2 R" and "int (length K2) \<le> m - 1" and "int (length (in_collection c K2)) \<le> max 0 (l - 1)"
    and "int (length (in_collection c K2)) + 1 < l \<Longrightarrow> int (length K2) = min (int (length R)) (m - 1)"
    and "x \<in> set R \<Longrightarrow> x \<notin> set K2 \<Longrightarrow> y \<in> set K2 \<Longrightarrow> rr_collection x \<noteq> c \<or> rr_collection y = c
      \<Longrightarrow> rr_timestamp x \<le> rr_timestamp y"
proof -
  let ?n1 = "nat (int (length R) - m + 1)" and ?n2 = "nat (int (length (in_collection c K1)) - l + 1)"
  have R: "R = filter (\<lambda>_. True) R" by simp
  note e1 = evict_oldest[OF d R K1]
  note e2 = evict_oldest[OF e1(6) in_collection_def K2]
  have l1: "length K1 = length R - ?n1" using e1(3) by simp
  have l2: "length (in_collection c K2) = length (in_collection c K1) - ?n2" using e2(3) by (simp add: in_collection_def)
  have le: "length (in_collection c K1) \<le> length K1" by (simp add: in_collection_def)
  have l3: "length K2 = length (in_collection c K2) + (length K1 - length (in_collection c K1))"
    using in_collection_split[of K2 c] in_collection_split[of K1 c] e2(4) by simp
  have k1: "int (length K1) = min (int (length R)) (m - 1)" using l1 m by linarith
  show "subseq K2 R" unfolding K2 K1 delete_ids_def by (rule subseq_order.trans[OF subseq_filter_left subseq_filter_left])
  have "length K2 \<le> length K1" using l2 l3 le by linarith
  then show "int (length K2) \<le> m - 1" using k1 by linarith
  show "int (length (in_collection c K2)) \<le> max 0 (l - 1)" using l2 by linarith
  show "int (length K2) = min (int (length R)) (m - 1)" if "int (length (in_collection c K2)) + 1 < l"
  proof -
    have "?n2 = 0" using that l2 by linarith
    then have "length K2 = length K1" using l2 l3 le by linarith
    then show ?thesis using k1 by simp
  qed
  show "rr_timestamp x \<le> rr_timestamp y" if "x \<in> set R" "x \<notin> set K2" "y \<in> set K2" "rr_collection x \<noteq> c \<or> rr_collection y = c"
  proof (cases "x \<in> set K1")
    case True
    then have "rr_collection x = c" using e2(2) that by blast
    then show ?thesis using e2(1)[OF True _ that(3)] that by blast
  next
    case False
    then show ?thesis using e1(1)[OF that(1)] e2(5) that(3) by blast
  qed
qed



text \<open>A refused write can cost a record: with the budget used up, a write to a collection there is no
  room for has already evicted the oldest record.\<close>

lemma refused_write_evicts:
  assumes "dc_enabled (st_config s)" "maxRecordsByStorage (st_config s) \<ge> 1" "int (length (st_records s)) \<ge> maxRecordsByStorage (st_config s)"
    "distinct (map rr_id (st_records s))" "\<not> has_collection c s" "int (length (st_collections s)) \<ge> dc_maxCollections (st_config s)"
    "plain_json (JObj payload)"
  shows "isl (fst (ds_write c payload opts now s))
    \<and> length (st_records (snd (ds_write c payload opts now s))) < length (st_records s)"
proof -
  have a: "auto_create c now (evict_global s) = Inl (MaxCollections (length (st_collections s)) (dc_maxCollections (st_config s)))"
    using assms(5,6) by (simp add: auto_create_def has_collection_def Let_def)
  then have w: "ds_write c payload opts now s = (Inl (MaxCollections (length (st_collections s)) (dc_maxCollections (st_config s))), evict_global s)"
    using assms(1,2) by (simp add: ds_write_def plain_stringify[OF assms(7)] Let_def del: json_text.simps)
  have R: "st_records s = filter (\<lambda>_. True) (st_records s)" by simp
  from evict_oldest(3)[OF assms(4) R refl, of "nat (int (length (st_records s)) - maxRecordsByStorage (st_config s) + 1)"]
  have "length (st_records (evict_global s)) = length (st_records s) - nat (int (length (st_records s)) - maxRecordsByStorage (st_config s) + 1)"
    by (simp add: evict_global_eq)
  then show ?thesis using w assms(2,3) by simp
qed

section \<open>Sampling a range\<close>

lemma newest_of_max: "newest_of a rows \<in> set (a # rows) \<and> (\<forall>x\<in>set (a # rows). rr_timestamp x \<le> rr_timestamp (newest_of a rows))"
proof (induction a rows rule: newest_of.induct)
  case (1 a)
  show ?case by simp
next
  case (2 a r rows)
  then show ?case by (cases "rr_timestamp r > rr_timestamp a") force+
qed

definition bucket_rep :: "ms \<Rightarrow> int \<Rightarrow> record_row list \<Rightarrow> int \<Rightarrow> record_row" where
  "bucket_rep f w rows b = (let g = filter (\<lambda>r. bucket_of f w r = b) rows in newest_of (hd g) (tl g))"

lemma sample_rows_eq: "sample_rows f w rows = newest_first_rows (map (bucket_rep f w rows) (remdups (map (bucket_of f w) rows)))"
proof -
  have "bucket_rep f w rows = (\<lambda>b. let g = filter (\<lambda>r. bucket_of f w r = b) rows in newest_of (hd g) (tl g))"
    by (rule ext) (simp only: bucket_rep_def)
  then show ?thesis by (simp only: sample_rows_def)
qed

lemma bucket_rep:
  assumes "x \<in> set rows"
  shows "bucket_rep f w rows (bucket_of f w x) \<in> set rows"
    and "bucket_of f w (bucket_rep f w rows (bucket_of f w x)) = bucket_of f w x"
    and "rr_timestamp x \<le> rr_timestamp (bucket_rep f w rows (bucket_of f w x))"
proof -
  let ?g = "filter (\<lambda>r. bucket_of f w r = bucket_of f w x) rows"
  have g: "?g \<noteq> []" "x \<in> set ?g" using assms by (auto simp: filter_empty_conv)
  then have "set (hd ?g # tl ?g) = set ?g" by simp
  with newest_of_max[of "hd ?g" "tl ?g"] have m: "newest_of (hd ?g) (tl ?g) \<in> set ?g"
    "\<forall>y\<in>set ?g. rr_timestamp y \<le> rr_timestamp (newest_of (hd ?g) (tl ?g))" by metis+
  then show "bucket_rep f w rows (bucket_of f w x) \<in> set rows"
    "bucket_of f w (bucket_rep f w rows (bucket_of f w x)) = bucket_of f w x"
    "rr_timestamp x \<le> rr_timestamp (bucket_rep f w rows (bucket_of f w x))"
    using g by (simp_all add: bucket_rep_def Let_def)
qed

lemma same_bucket_close:
  assumes "bucket_of f w x = bucket_of f w y" "w > 0" shows "rr_timestamp y - rr_timestamp x < w"
proof -
  let ?a = "rr_timestamp x - f" and ?b = "rr_timestamp y - f"
  obtain q where q: "?a div w = q" "?b div w = q" using assms(1) by (simp add: bucket_of_def)
  have "?a = q * w + ?a mod w" "?b = q * w + ?b mod w" unfolding q[symmetric] by (metis div_mult_mod_eq, metis q div_mult_mod_eq)
  moreover have "0 \<le> ?a mod w" "?b mod w < w" using assms(2) by simp_all
  ultimately show ?thesis by linarith
qed

lemma bucketWidthMs_bounds:
  assumes "n \<ge> 1" "f \<le> t"
  shows "bucketWidthMs f t n \<ge> 1" and "t - f < bucketWidthMs f t n * int n" and "(bucketWidthMs f t n - 1) * int n < t - f + 1"
proof -
  let ?s = "t - f + 1" and ?n = "int n"
  let ?w = "(?s + ?n - 1) div ?n"
  have e: "?s + ?n - 1 = ?w * ?n + (?s + ?n - 1) mod ?n" by simp
  have r: "0 \<le> (?s + ?n - 1) mod ?n" "(?s + ?n - 1) mod ?n < ?n" using assms(1) by simp_all
  have w: "?w \<ge> 1" using assms by (simp add: pos_imp_zdiv_pos_iff int_one_le_iff_zero_less)
  have b: "bucketWidthMs f t n = ?w" using assms w by (simp add: bucketWidthMs_def Let_def max_def)
  show "bucketWidthMs f t n \<ge> 1" using b w by simp
  show "t - f < bucketWidthMs f t n * int n" unfolding b using e r by linarith
  show "(bucketWidthMs f t n - 1) * int n < t - f + 1" 
  proof -
    have "(?w - 1) * ?n = ?w * ?n - ?n" by (simp add: left_diff_distrib)
    then show ?thesis unfolding b using e r by linarith
  qed
qed

lemma bucket_range:
  assumes "n \<ge> 1" "f \<le> rr_timestamp x" "rr_timestamp x \<le> t"
  shows "bucket_of f (bucketWidthMs f t n) x \<in> {0..<int n}"
proof -
  let ?w = "bucketWidthMs f t n"
  have w: "?w > 0" "rr_timestamp x - f < int n * ?w"
    using bucketWidthMs_bounds(1,2)[of n f t] assms by (simp_all add: mult.commute)
  have "(rr_timestamp x - f) div ?w < int n" 
  proof (rule ccontr)
    assume "\<not> (rr_timestamp x - f) div ?w < int n"
    then have "int n * ?w \<le> (rr_timestamp x - f) div ?w * ?w" using w(1) by (intro mult_right_mono) simp_all
    also have "\<dots> \<le> rr_timestamp x - f" using w(1) by (metis div_mult_mod_eq le_add_same_cancel1 pos_mod_sign)
    finally show False using w(2) by simp
  qed
  moreover have "0 \<le> (rr_timestamp x - f) div ?w" using w assms(2) by (simp add: pos_imp_zdiv_nonneg_iff)
  ultimately show ?thesis by (simp add: bucket_of_def)
qed

lemma sample_rows_props:
  assumes n: "n \<ge> 1" and rng: "\<forall>x\<in>set rows. f \<le> rr_timestamp x \<and> rr_timestamp x \<le> t" and d: "distinct (map rr_id rows)" and ft: "f \<le> t"
  defines "w \<equiv> bucketWidthMs f t n"
  shows "length (sample_rows f w rows) \<le> n" and "set (sample_rows f w rows) \<subseteq> set rows" and "distinct (map rr_id (sample_rows f w rows))"
    and "x \<in> set rows \<Longrightarrow> \<exists>r\<in>set (sample_rows f w rows). rr_timestamp x \<le> rr_timestamp r \<and> rr_timestamp r - rr_timestamp x < w"
proof -
  let ?B = "remdups (map (bucket_of f w) rows)"
  have B: "set ?B = bucket_of f w ` set rows" by simp
  then have "set ?B \<subseteq> {0..<int n}" using bucket_range[OF n] rng unfolding w_def by auto
  then have "card (set ?B) \<le> card {0..<int n}" by (rule card_mono[OF finite_atLeastLessThan_int])
  then have len: "length ?B \<le> n" by (metis card_atLeastLessThan_int distinct_card distinct_remdups diff_zero nat_int)
  then show "length (sample_rows f w rows) \<le> n" unfolding sample_rows_eq newest_first_rows_def length_sort length_map .
  have S: "set (sample_rows f w rows) = bucket_rep f w rows ` bucket_of f w ` set rows"
    unfolding sample_rows_eq newest_first_rows_def set_sort set_map B ..
  show sub: "set (sample_rows f w rows) \<subseteq> set rows" unfolding S using bucket_rep(1) by blast
  have inj: "inj_on (bucket_rep f w rows) (set ?B)" unfolding B
  proof (rule inj_onI)
    fix a b assume "a \<in> bucket_of f w ` set rows" "b \<in> bucket_of f w ` set rows" "bucket_rep f w rows a = bucket_rep f w rows b"
    then show "a = b" using bucket_rep(2)[of _ rows f w] by (metis imageE)
  qed
  have ds: "distinct (sample_rows f w rows)"
    unfolding sample_rows_eq newest_first_rows_def distinct_sort distinct_map using inj distinct_remdups by blast
  have "inj_on rr_id (set (sample_rows f w rows))" using d sub by (auto simp: distinct_map intro: inj_on_subset)
  with ds show "distinct (map rr_id (sample_rows f w rows))" by (simp add: distinct_map)
  show "\<exists>r\<in>set (sample_rows f w rows). rr_timestamp x \<le> rr_timestamp r \<and> rr_timestamp r - rr_timestamp x < w" if "x \<in> set rows"
  proof (rule bexI)
    have "w > 0" using bucketWidthMs_bounds(1)[OF n ft] by (simp add: w_def)
    from same_bucket_close[OF _ this, of f x "bucket_rep f w rows (bucket_of f w x)"] bucket_rep(2,3)[OF that, of f w]
    show "rr_timestamp x \<le> rr_timestamp (bucket_rep f w rows (bucket_of f w x))
      \<and> rr_timestamp (bucket_rep f w rows (bucket_of f w x)) - rr_timestamp x < w" by simp
    show "bucket_rep f w rows (bucket_of f w x) \<in> set (sample_rows f w rows)" unfolding S using that by blast
  qed
qed

lemma rows_records_all: "\<forall>x\<in>set rows. row_record x \<noteq> None \<Longrightarrow> rows_records rows = Some (map (\<lambda>x. the (row_record x)) rows)"
  unfolding rows_records_def by (induction rows) auto

lemma row_record_fields: "row_record x = Some r \<Longrightarrow> rc_timestamp r = rr_timestamp x \<and> rc_id r = rr_id x"
  by (auto simp: row_record_def split: option.splits)

text \<open>What a list of rows read newest first says about the rows.\<close>

lemma sorted_records:
  assumes "\<forall>x\<in>set rows. row_record x \<noteq> None"
  shows "map rc_timestamp (map (\<lambda>x. the (row_record x)) rows) = map rr_timestamp rows"
    and "map rc_id (map (\<lambda>x. the (row_record x)) rows) = map rr_id rows"
  using assms row_record_fields by (induction rows) auto

lemma newest_first_sorted: "sorted (map (\<lambda>r. - rr_timestamp r) (newest_first_rows rows))"
  by (simp add: newest_first_rows_def)

lemma sample_rows_sorted: "sorted (map (\<lambda>r. - rr_timestamp r) (sample_rows f w rows))"
  unfolding sample_rows_eq by (rule newest_first_sorted)

definition range_start :: "int option option \<Rightarrow> record_row list \<Rightarrow> ms" where
  "range_start fromTs rows = (case fromTs of Some (Some f) \<Rightarrow> f | _ \<Rightarrow> min_ts rows)"

lemma range_start_le:
  assumes "x \<in> set rows" "\<forall>r\<in>set rows. where_clause env c fromTs toTs tags r"
  shows "range_start fromTs rows \<le> rr_timestamp x"
proof -
  have "Min (set (map rr_timestamp rows)) \<le> rr_timestamp x" using assms(1) by (intro Min_le) simp_all
  moreover have "rows \<noteq> []" using assms(1) by auto
  ultimately show ?thesis using assms by (fastforce simp: range_start_def min_ts_def where_clause_def split: option.splits)
qed

text \<open>The rows a range query answers with, sampled or not.\<close>

lemma query_records_rows:
  assumes n: "qo_maxPoints opts = Some n" "n \<ge> 1" and rec: "\<forall>x\<in>set rows. row_record x \<noteq> None" and d: "distinct (map rr_id rows)"
    and wh: "\<forall>r\<in>set rows. where_clause env c fromTs toTs tags r"
  shows "\<exists>out smp. query_records opts fromTs toTs rows = Some (QRecords (map (\<lambda>x. the (row_record x)) out) (length rows) smp)
    \<and> length out \<le> n \<and> sorted (map (\<lambda>r. - rr_timestamp r) out) \<and> distinct (map rr_id out) \<and> set out \<subseteq> set rows
    \<and> (\<forall>x\<in>set rows. \<exists>y\<in>set out. rr_timestamp x \<le> rr_timestamp y \<and> (case smp of None \<Rightarrow> x = y | Some g \<Rightarrow> rr_timestamp y - rr_timestamp x < rg_bucketMs g))
    \<and> (case smp of None \<Rightarrow> length rows \<le> n
        | Some g \<Rightarrow> length rows > n \<and> (rg_bucketMs g - 1) * int n < rg_to g - rg_from g + 1)"
proof (cases "length rows > n")
  case False
  let ?out = "newest_first_rows rows"
  have set: "set ?out = set rows" and len: "length ?out = length rows" by (simp_all add: newest_first_rows_def)
  have "distinct ?out" using distinct_ids_rows[OF d] by (simp add: newest_first_rows_def)
  then have di: "distinct (map rr_id ?out)" using d set by (simp add: distinct_map)
  have "sql_page (Some (int n)) None ?out = ?out" using False len by (simp add: sql_page_def)
  then have q: "query_records opts fromTs toTs rows = Some (QRecords (map (\<lambda>x. the (row_record x)) ?out) (length rows) None)"
    using n False rows_records_all[of ?out] rec set by (simp add: query_records_def Let_def)
  show ?thesis
    by (rule exI[of _ ?out], rule exI[of _ None]) (use q len False newest_first_sorted di set in \<open>simp\<close>)
next
  case True
  let ?f = "range_start fromTs rows"
  let ?t = "max ?f toTs"
  let ?w = "bucketWidthMs ?f ?t n"
  let ?out = "sample_rows ?f ?w rows" and ?g = "\<lparr>rg_bucketMs = ?w, rg_from = ?f, rg_to = ?t\<rparr>"
  have rng: "\<forall>x\<in>set rows. ?f \<le> rr_timestamp x \<and> rr_timestamp x \<le> ?t"
    using range_start_le[OF _ wh] wh by (auto simp: where_clause_def le_max_iff_disj)
  have ft: "?f \<le> ?t" by simp
  note sp = sample_rows_props[OF n(2) rng d ft]
  have q: "query_records opts fromTs toTs rows = Some (QRecords (map (\<lambda>x. the (row_record x)) ?out) (length rows) (Some ?g))"
    using n True rows_records_all[of ?out] rec sp(2) by (auto simp: query_records_def sampleRange_def Let_def range_start_def)
  show ?thesis
    by (rule exI[of _ ?out], rule exI[of _ "Some ?g"]) (use q True sp sample_rows_sorted bucketWidthMs_bounds(3)[OF n(2) ft] in \<open>simp\<close>)
qed

text \<open>C38. A query for at most \<open>n\<close> points answers with at most \<open>n\<close> records, all of them stored records
  that match, newest first and none twice, together with the number of records that match. If those
  are at most \<open>n\<close>, all of them are returned. Otherwise the answer is a sample that covers the whole
  range: every matching record has a returned one at its time or later by less than the reported
  bucket width, and the bucket width is the smallest that fits.\<close>

theorem data_sample_covers:
  assumes "reach ds_step ds_ok (ds_empty ctor) s" and "has_collection c s" and "qo_maxPoints opts = Some n" and "n \<ge> 1"
    and "qo_aggregate opts = None" and "resolve_from (qo_from opts) now = Inr fromTs"
    and "rows = filter (where_clause env c fromTs (case qo_to opts of Some t \<Rightarrow> t | None \<Rightarrow> now) (qo_tags opts)) (st_records s)"
  shows "\<exists>rs smp. ds_query env c opts now d s = (Inr (QRecords rs (length rows) smp), emit_query c d s)
    \<and> length rs \<le> n \<and> sorted (map (\<lambda>r. - rc_timestamp r) rs) \<and> distinct (map rc_id rs)
    \<and> (\<forall>r\<in>set rs. \<exists>x\<in>set rows. row_record x = Some r)
    \<and> (\<forall>x\<in>set rows. \<exists>r\<in>set rs. rr_timestamp x \<le> rc_timestamp r
         \<and> (case smp of None \<Rightarrow> row_record x = Some r | Some g \<Rightarrow> rc_timestamp r - rr_timestamp x < rg_bucketMs g))
    \<and> (case smp of None \<Rightarrow> length rows \<le> n
        | Some g \<Rightarrow> length rows > n \<and> (rg_bucketMs g - 1) * int n < rg_to g - rg_from g + 1)"
proof -
  let ?t = "case qo_to opts of Some t \<Rightarrow> t | None \<Rightarrow> now"
  have inv: "ds_inv ctor s" using data_machine.reach_inv[OF assms(1)] .
  have rec: "\<forall>x\<in>set rows. row_record x \<noteq> None" and d: "distinct (map rr_id rows)"
    and wh: "\<forall>r\<in>set rows. where_clause env c fromTs ?t (qo_tags opts) r"
    using inv assms(7) by (auto simp: ds_inv_def distinct_map_filter)
  from query_records_rows[OF assms(3,4) rec d wh] obtain out smp where
    q: "query_records opts fromTs ?t rows = Some (QRecords (map (\<lambda>x. the (row_record x)) out) (length rows) smp)"
    and out: "length out \<le> n" "sorted (map (\<lambda>r. - rr_timestamp r) out)" "distinct (map rr_id out)" "set out \<subseteq> set rows"
    and cov: "\<forall>x\<in>set rows. \<exists>y\<in>set out. rr_timestamp x \<le> rr_timestamp y \<and> (case smp of None \<Rightarrow> x = y | Some g \<Rightarrow> rr_timestamp y - rr_timestamp x < rg_bucketMs g)"
    and smp: "case smp of None \<Rightarrow> length rows \<le> n | Some g \<Rightarrow> length rows > n \<and> (rg_bucketMs g - 1) * int n < rg_to g - rg_from g + 1"
    by blast
  let ?rs = "map (\<lambda>x. the (row_record x)) out"
  have orec: "\<forall>x\<in>set out. row_record x \<noteq> None" using rec out(4) by blast
  have e: "map (\<lambda>r. - rc_timestamp r) ?rs = map (\<lambda>r. - rr_timestamp r) out"
    using arg_cong[OF sorted_records(1)[OF orec], of "map uminus"] by (simp add: comp_def)
  have some: "row_record y = Some (the (row_record y))" "rc_timestamp (the (row_record y)) = rr_timestamp y" if "y \<in> set out" for y
    using orec that row_record_fields by auto
  have c2: "\<exists>r\<in>set ?rs. rr_timestamp x \<le> rc_timestamp r
         \<and> (case smp of None \<Rightarrow> row_record x = Some r | Some g \<Rightarrow> rc_timestamp r - rr_timestamp x < rg_bucketMs g)" if x: "x \<in> set rows" for x
  proof -
    from cov x obtain y where y: "y \<in> set out" "rr_timestamp x \<le> rr_timestamp y"
      "case smp of None \<Rightarrow> x = y | Some g \<Rightarrow> rr_timestamp y - rr_timestamp x < rg_bucketMs g" by blast
    then show ?thesis using some[OF y(1)] by (intro bexI[of _ "the (row_record y)"]) (auto split: option.splits)
  qed
  have "ds_query env c opts now d s = (Inr (QRecords ?rs (length rows) smp), emit_query c d s)"
    using assms(2,5,6) q by (simp add: ds_query_def answer_def Let_def flip: assms(7))
  moreover have "\<forall>r\<in>set ?rs. \<exists>x\<in>set rows. row_record x = Some r" using some out(4) by auto
  moreover have "length ?rs \<le> n" using out(1) by simp
  moreover have "sorted (map (\<lambda>r. - rc_timestamp r) ?rs)" unfolding e by (rule out(2))
  moreover have "distinct (map rc_id ?rs)" unfolding sorted_records(2)[OF orec] by (rule out(3))
  ultimately show ?thesis using c2 smp by blast
qed

section \<open>Retention\<close>

text \<open>Retention removes exactly the records that are past the time of their collection and keeps the
  order of the rest; a collection without a policy keeps everything.\<close>

lemma retention_exact:
  assumes "ds_inv ctor s" "r \<in> set (st_records s)" "col \<in> set (st_collections s)" "co_name col = rr_collection r"
  shows "r \<in> set (st_records (ds_enforceRetention now s)) \<longleftrightarrow>
    (case co_retention_days col of None \<Rightarrow> True | Some days \<Rightarrow> rr_timestamp r \<ge> now - days * 86400000)"
    and "subseq (st_records (ds_enforceRetention now s)) (st_records s)"
proof -
  have uniq: "c = col" if "c \<in> set (st_collections s)" "co_name c = rr_collection r" for c
  proof -
    have "inj_on co_name (set (st_collections s))" using assms(1) by (simp add: ds_inv_def distinct_map)
    from inj_onD[OF this, of c col] show ?thesis using that assms(3,4) by simp
  qed
  show "r \<in> set (st_records (ds_enforceRetention now s)) \<longleftrightarrow>
    (case co_retention_days col of None \<Rightarrow> True | Some days \<Rightarrow> rr_timestamp r \<ge> now - days * 86400000)"
  proof -
    have "r \<in> set (st_records (ds_enforceRetention now s)) \<longleftrightarrow> (\<forall>c\<in>set (st_collections s). \<forall>days. co_retention_days c = Some days
        \<longrightarrow> rr_collection r = co_name c \<longrightarrow> rr_timestamp r \<ge> now - days * 86400000)"
      unfolding ds_enforceRetention_def fold_prune using assms(2) by simp
    also have "\<dots> \<longleftrightarrow> (\<forall>days. co_retention_days col = Some days \<longrightarrow> rr_timestamp r \<ge> now - days * 86400000)"
      using uniq assms(3,4) by metis
    finally show ?thesis by (simp split: option.split)
  qed
  show "subseq (st_records (ds_enforceRetention now s)) (st_records s)"
    unfolding ds_enforceRetention_def fold_prune by simp
qed

definition sample_query :: query_options where
  "sample_query = \<lparr>qo_from = Some (FromNumber 0), qo_to = Some 59, qo_limit = None, qo_offset = None, qo_tags = None,
     qo_aggregate = None, qo_field = None, qo_maxPoints = Some 1\<rparr>"

definition sample_ds_env :: ds_env where
  "sample_ds_env = \<lparr>de_extract = (\<lambda>_ _. JNull), de_aggregate = (\<lambda>_ _. None)\<rparr>"

theorem data_sample_covers_witness:
  "map rr_timestamp (filter (where_clause sample_ds_env ''temp'' (Some (Some 0)) 59 None) (st_records sample_store)) = [30, 20]
   \<and> (\<exists>rs smp. ds_query sample_ds_env ''temp'' sample_query 100 0 sample_store = (Inr (QRecords rs 2 smp), emit_query ''temp'' 0 sample_store)
        \<and> length rs \<le> 1)"
proof -
  let ?rows = "filter (where_clause sample_ds_env ''temp'' (Some (Some 0)) 59 None) (st_records sample_store)"
  have h: "has_collection ''temp'' sample_store" by code_simp
  have rows: "map rr_timestamp ?rows = [30, 20]" by code_simp
  then have "length (map rr_timestamp ?rows) = 2" by simp
  then have len: "length ?rows = 2" by (simp only: length_map)
  have q: "qo_maxPoints sample_query = Some 1" "qo_aggregate sample_query = None" "qo_tags sample_query = None"
    "resolve_from (qo_from sample_query) 100 = Inr (Some (Some 0))" "(case qo_to sample_query of Some t \<Rightarrow> t | None \<Rightarrow> 100) = 59"
    by (simp_all add: sample_query_def resolve_from_def)
  have "?rows = filter (where_clause sample_ds_env ''temp'' (Some (Some 0)) (case qo_to sample_query of Some t \<Rightarrow> t | None \<Rightarrow> 100) (qo_tags sample_query)) (st_records sample_store)"
    by (simp only: q)
  from data_sample_covers[OF sample_store_reach h q(1) order_refl q(2) q(4) this, of 0] obtain rs smp where
    "ds_query sample_ds_env ''temp'' sample_query 100 0 sample_store = (Inr (QRecords rs (length ?rows) smp), emit_query ''temp'' 0 sample_store)"
    "length rs \<le> 1" by blast
  then show ?thesis using rows unfolding len by blast
qed

section \<open>Durations are read back\<close>

lemma digits_of_show: "takeWhile is_digit (show_nat n @ u) = show_nat n" "dropWhile is_digit (show_nat n @ u) = u"
  if "u \<noteq> []" "\<not> is_digit (hd u)"
proof -
  have "\<forall>x\<in>set (show_nat n). is_digit x" using show_nat_digits by blast
  moreover have "takeWhile is_digit u = []" "dropWhile is_digit u = u" using that by (cases u; simp)+
  ultimately show "takeWhile is_digit (show_nat n @ u) = show_nat n" "dropWhile is_digit (show_nat n @ u) = u"
    by (simp_all add: takeWhile_append2 dropWhile_append2)
qed

lemma units_cases: "(u, m) \<in> set UNITS \<Longrightarrow> \<exists>ch. u = [ch] \<and> ch \<in> set ''mhdwy'' \<and> map_of UNITS u = Some m \<and> m > 0"
  by (auto simp: UNITS_def)

lemma parse_printed:
  assumes u: "(u, m) \<in> set UNITS" and n: "n > 0"
  shows "parseDuration (show_nat n @ u) = Inr (Some (int n * m))"
proof -
  from units_cases[OF u] obtain ch where ch: "u = [ch]" "ch \<in> set ''mhdwy''" "map_of UNITS u = Some m" by blast
  then have c: "\<not> is_digit ch" "is_lower ch" "\<not> isWhitespace ch" "ch \<noteq> CHR ''.''"
    by (auto simp: is_digit_def is_lower_def isWhitespace_def)
  have hd: "is_digit (hd (show_nat n @ u))" by (rule hd_show_nat)
  have t: "js_trim (show_nat n @ u) = show_nat n @ u" using digit_plain[OF hd] c ch(1) by (intro js_trim_id) simp_all
  have dot: "CHR ''.'' \<notin> set (show_nat n @ u)" using show_nat_digits digit_plain c ch(1) by fastforce
  have r: "DURATION_REGEX (show_nat n @ u) = Some (show_nat n, u)"
    using digits_of_show[of u n] ch(1) c by (simp add: DURATION_REGEX_def Let_def)
  have un: "unit_multiplier u = Some (Some m)" using ch by (simp add: unit_multiplier_def)
  show ?thesis using digit_plain[OF hd] dot n
    unfolding parseDuration_def Let_def t r un option.case prod.case by (simp add: nat_of_show_nat)
qed

lemma format_loop_some: "format_loop ms us = Some t \<Longrightarrow> \<exists>u m. (u, m) \<in> set us \<and> m dvd ms \<and> t = show_int (ms div m) @ u"
  by (induction ms us rule: format_loop.induct) (auto split: if_splits)

lemma format_loop_divides: "(u, m) \<in> set us \<Longrightarrow> ms mod m = 0 \<Longrightarrow> format_loop ms us \<noteq> None"
  by (induction ms us rule: format_loop.induct) auto

lemma format_parse: "formatDuration ms = Inr t \<Longrightarrow> parseDuration t = Inr (Some ms)"
proof -
  assume f: "formatDuration ms = Inr t"
  then have pos: "ms > 0" and "format_loop ms (rev UNITS) = Some t" by (auto simp: formatDuration_def split: if_splits option.splits)
  from format_loop_some[OF this(2)] obtain u m where u: "(u, m) \<in> set UNITS" "m dvd ms" "t = show_int (ms div m) @ u" by auto
  have m: "m > 0" using units_cases[OF u(1)] by blast
  have eq: "ms = ms div m * m" using u(2) by simp
  then have q: "ms div m > 0" using pos m by (metis mult_le_0_iff not_less order.strict_implies_order)
  then have "t = show_nat (nat (ms div m)) @ u" using u(3) by (simp add: show_int_def)
  then show ?thesis using parse_printed[OF u(1), of "nat (ms div m)"] q eq by simp
qed

text \<open>Durations survive printing. What \<open>formatDuration\<close> prints is read back as the same number of
  milliseconds; and every duration \<open>parseDuration\<close> reads, unless it is not a number, is a positive
  multiple of a unit, so it can be printed, and the printed text means the same.\<close>

lemma duration_roundtrip:
  "(formatDuration ms = Inr t \<longrightarrow> parseDuration t = Inr (Some ms))
   \<and> (parseDuration input = Inr (Some ms) \<longrightarrow> ms > 0 \<and> (\<exists>t. formatDuration ms = Inr t \<and> parseDuration t = Inr (Some ms)))"
proof -
  have "ms > 0 \<and> (\<exists>t. formatDuration ms = Inr t)" if p: "parseDuration input = Inr (Some ms)"
  proof -
    from p obtain ds u v where "unit_multiplier u = Some (Some v)" "ms = int (nat_of_digits ds) * v" "nat_of_digits ds \<noteq> 0"
      by (auto simp: parseDuration_def Let_def split: if_splits option.splits prod.splits)
    then have v: "(u, v) \<in> set (rev UNITS)" "ms mod v = 0" "v > 0"
      using units_cases map_of_SomeD[of UNITS u v] by (auto simp: unit_multiplier_def split: if_splits)
    have pos: "ms > 0" using \<open>ms = _\<close> \<open>nat_of_digits ds \<noteq> 0\<close> v(3) by simp
    from format_loop_divides[OF v(1,2)] pos show ?thesis by (auto simp: formatDuration_def)
  qed
  then show ?thesis using format_parse by blast
qed

end
