(* ===== verification/Automation_State.thy ===== *)
theory Automation_State
  imports Js_Json Command_Lifecycle
begin

text \<open>
  The state an automation shares with its user interface (src/automations/automation-state-store.ts):
  the table \<open>automation_state\<close>, a cache of the values and a cache of the texts that were written,
  both of them maps of maps. A write whose text is the one already stored does nothing.

  Nested maps implement the interface \<open>keyed_store\<close> of the prelude. The lemmas show that both caches
  always answer for the table, what a write does and when it reports a change, and that a restart
  reads back the same values. Log lines are not modelled.
\<close>

section \<open>Maps of maps\<close>

type_synonym 'v nested = "(string, (string, 'v) jsmap) jsmap"

definition nest_get :: "'v nested \<Rightarrow> string \<times> string \<Rightarrow> 'v option" where
  "nest_get m p = (case map_of m (fst p) of None \<Rightarrow> None | Some inner \<Rightarrow> map_of inner (snd p))"

definition nest_set :: "string \<times> string \<Rightarrow> 'v \<Rightarrow> 'v nested \<Rightarrow> 'v nested" where
  "nest_set p v m =
     (let m1 = (if jm_has m (fst p) then m else AList.update (fst p) [] m)
      in AList.update (fst p) (AList.update (snd p) v (case map_of m1 (fst p) of Some inner \<Rightarrow> inner | None \<Rightarrow> [])) m1)"

definition nest_delete :: "string \<times> string \<Rightarrow> 'v nested \<Rightarrow> 'v nested" where
  "nest_delete p m = (case map_of m (fst p) of
       None \<Rightarrow> m
     | Some inner \<Rightarrow>
         let inner1 = AList.delete (snd p) inner
         in if inner1 = [] then AList.delete (fst p) m else AList.update (fst p) inner1 m)"

section \<open>The store\<close>

record state_store =
  sa_table :: "(string \<times> string, string) jsmap"
  sa_cache :: "jsval nested"
  sa_serialized :: "string nested"

definition load_state_row :: "(string \<times> string) \<times> string \<Rightarrow> state_store \<Rightarrow> state_store" where
  "load_state_row row s = (case json_parse (snd row) of
       None \<Rightarrow> s
     | Some parsed \<Rightarrow> s\<lparr>sa_cache := nest_set (fst row) parsed (sa_cache s),
                        sa_serialized := nest_set (fst row) (snd row) (sa_serialized s)\<rparr>)"

definition state_loadFromDb :: "state_store \<Rightarrow> state_store" where
  "state_loadFromDb s = fold load_state_row (sa_table s) (s\<lparr>sa_cache := [], sa_serialized := []\<rparr>)"

definition state_get :: "string \<Rightarrow> string \<Rightarrow> state_store \<Rightarrow> jsval option" where
  "state_get ruleId key s = nest_get (sa_cache s) (ruleId, key)"

definition state_getAll :: "string \<Rightarrow> state_store \<Rightarrow> jsobj" where
  "state_getAll ruleId s = (case map_of (sa_cache s) ruleId of None \<Rightarrow> [] | Some ruleMap \<Rightarrow> ruleMap)"

definition state_set :: "string \<Rightarrow> string \<Rightarrow> jsval \<Rightarrow> state_store \<Rightarrow> bool \<times> state_store" where
  "state_set ruleId key v s = (case json_stringify v of
       JsonThrow _ \<Rightarrow> (False, s)
     | JsonNone \<Rightarrow> (False, s)
     | JsonText serialized \<Rightarrow>
         if nest_get (sa_serialized s) (ruleId, key) = Some serialized then (False, s)
         else (True, s\<lparr>sa_table := AList.update (ruleId, key) serialized (sa_table s),
                       sa_cache := nest_set (ruleId, key) v (sa_cache s),
                       sa_serialized := nest_set (ruleId, key) serialized (sa_serialized s)\<rparr>))"

definition state_delete :: "string \<Rightarrow> string \<Rightarrow> state_store \<Rightarrow> bool \<times> state_store" where
  "state_delete ruleId key s =
     (jm_has (sa_table s) (ruleId, key),
      s\<lparr>sa_table := AList.delete (ruleId, key) (sa_table s),
        sa_cache := nest_delete (ruleId, key) (sa_cache s),
        sa_serialized := nest_delete (ruleId, key) (sa_serialized s)\<rparr>)"

definition state_deleteAll :: "string \<Rightarrow> state_store \<Rightarrow> state_store" where
  "state_deleteAll ruleId s =
     s\<lparr>sa_table := filter (\<lambda>row. fst (fst row) \<noteq> ruleId) (sa_table s),
       sa_cache := AList.delete ruleId (sa_cache s),
       sa_serialized := AList.delete ruleId (sa_serialized s)\<rparr>"

section \<open>Nested maps are keyed stores\<close>

definition nest_wf :: "'v nested \<Rightarrow> bool" where
  "nest_wf m = (jm_wf m \<and> (\<forall>(r, inner)\<in>set m. jm_wf inner))"

lemma nest_set_eq: "nest_set p v m = AList.update (fst p) (AList.update (snd p) v (case map_of m (fst p) of Some inner \<Rightarrow> inner | None \<Rightarrow> []))
    (if jm_has m (fst p) then m else AList.update (fst p) [] m)"
  by (auto simp: nest_set_def jm_has_def Let_def split: option.splits)

lemma nest_get_set: "nest_get (nest_set p v m) q = (if q = p then Some v else nest_get m q)"
  by (cases p, cases q) (auto simp: nest_get_def nest_set_eq jm_has_def split: option.splits)

lemma nest_inner_wf: "nest_wf m \<Longrightarrow> map_of m r = Some inner \<Longrightarrow> jm_wf inner"
  by (auto simp: nest_wf_def dest: map_of_SomeD)

lemma nest_wf_set: "nest_wf m \<Longrightarrow> nest_wf (nest_set p v m)"
proof -
  assume wf: "nest_wf m"
  let ?inner = "case map_of m (fst p) of Some inner \<Rightarrow> inner | None \<Rightarrow> []" and ?m = "if jm_has m (fst p) then m else AList.update (fst p) [] m"
  have i: "jm_wf ?inner" using nest_inner_wf[OF wf] by (simp split: option.split)
  have m: "jm_wf ?m" using wf by (simp add: nest_wf_def)
  have "\<forall>(r, inner)\<in>set ?m. jm_wf inner" using wf set_update_wf[of m "fst p" "[]"] by (auto simp: nest_wf_def)
  then show ?thesis unfolding nest_set_eq nest_wf_def using m i by (auto simp: set_update_wf[OF m])
qed

lemma nest_get_delete: "nest_get (nest_delete p m) q = (if q = p then None else nest_get m q)"
proof (cases "map_of m (fst p)")
  case None
  then show ?thesis by (cases p, cases q) (auto simp: nest_get_def nest_delete_def)
next
  case (Some inner)
  show ?thesis
  proof (cases "AList.delete (snd p) inner = []")
    case True
    then have "map_of inner k = None" if "k \<noteq> snd p" for k using that map_of_delete[of "snd p" inner] by (metis fun_upd_other map_of.simps(1))
    then show ?thesis using Some True by (cases p, cases q) (auto simp: nest_get_def nest_delete_def Let_def)
  next
    case False
    then show ?thesis using Some by (cases p, cases q) (auto simp: nest_get_def nest_delete_def Let_def)
  qed
qed

lemma nest_wf_delete: "nest_wf m \<Longrightarrow> nest_wf (nest_delete p m)"
proof -
  assume wf: "nest_wf m"
  show ?thesis
  proof (cases "map_of m (fst p)")
    case None
    then show ?thesis using wf by (simp add: nest_delete_def)
  next
    case (Some inner)
    have "jm_wf (AList.delete (snd p) inner)" using nest_inner_wf[OF wf Some] by simp
    moreover have m: "jm_wf m" using wf by (simp add: nest_wf_def)
    ultimately show ?thesis using wf Some
      by (auto simp: nest_delete_def nest_wf_def Let_def set_update_wf[OF m] set_delete_jm)
  qed
qed

interpretation nested: keyed_store nest_get nest_set nest_delete nest_wf
proof
  show "nest_get (nest_set k v s) = (nest_get s)(k \<mapsto> v)" for k v and s :: "'a nested"
    by (rule ext) (simp add: nest_get_set)
  show "nest_get (nest_delete k s) = (nest_get s)(k := None)" for k and s :: "'a nested"
    by (rule ext) (simp add: nest_get_delete)
qed (auto intro: nest_wf_set nest_wf_delete)

lemma nest_get_drop_rule: "nest_get (AList.delete r m) q = (if fst q = r then None else nest_get m q)"
  by (simp add: nest_get_def)

section \<open>Coherence\<close>

definition state_inv :: "state_store \<Rightarrow> bool" where
  "state_inv s \<longleftrightarrow> jm_wf (sa_table s) \<and> nest_wf (sa_cache s) \<and> nest_wf (sa_serialized s)
     \<and> (\<forall>p. nest_get (sa_serialized s) p = map_of (sa_table s) p)
     \<and> (\<forall>p. nest_get (sa_cache s) p = Option.bind (map_of (sa_table s) p) json_parse)
     \<and> (\<forall>p t. map_of (sa_table s) p = Some t \<longrightarrow> json_parse t \<noteq> None)"

datatype state_op =
    StSet string string jsval
  | StDelete string string
  | StDeleteAll string
  | StReload

fun state_step :: "state_op \<Rightarrow> state_store \<Rightarrow> state_store" where
  "state_step (StSet r k v) s = snd (state_set r k v s)"
| "state_step (StDelete r k) s = snd (state_delete r k s)"
| "state_step (StDeleteAll r) s = state_deleteAll r s"
| "state_step StReload s = state_loadFromDb s"

text \<open>A value that JSON keeps as it is, or one that cannot be written at all.\<close>

fun state_ok :: "state_op \<Rightarrow> state_store \<Rightarrow> bool" where
  "state_ok (StSet r k v) s = (plain_json v \<or> (\<forall>t. json_stringify v \<noteq> JsonText t))"
| "state_ok _ s = True"

definition state_empty :: state_store where
  "state_empty = \<lparr>sa_table = [], sa_cache = [], sa_serialized = []\<rparr>"

lemma state_set_plain: "plain_json v \<Longrightarrow> state_set r k v s =
    (if nest_get (sa_serialized s) (r, k) = Some (json_text v) then (False, s)
     else (True, s\<lparr>sa_table := AList.update (r, k) (json_text v) (sa_table s), sa_cache := nest_set (r, k) v (sa_cache s),
                   sa_serialized := nest_set (r, k) (json_text v) (sa_serialized s)\<rparr>))"
  by (simp add: state_set_def plain_stringify)

lemma state_invI:
  assumes "jm_wf (sa_table s)" "nest_wf (sa_cache s)" "nest_wf (sa_serialized s)"
    "\<And>p. nest_get (sa_serialized s) p = map_of (sa_table s) p"
    "\<And>p. nest_get (sa_cache s) p = Option.bind (map_of (sa_table s) p) json_parse"
    "\<And>p t. map_of (sa_table s) p = Some t \<Longrightarrow> json_parse t \<noteq> None"
  shows "state_inv s"
  unfolding state_inv_def using assms by blast

lemma state_invD:
  assumes "state_inv s"
  shows "jm_wf (sa_table s)" "nest_wf (sa_cache s)" "nest_wf (sa_serialized s)"
    and "nest_get (sa_serialized s) p = map_of (sa_table s) p"
    and "nest_get (sa_cache s) p = Option.bind (map_of (sa_table s) p) json_parse"
    and "map_of (sa_table s) p = Some t \<Longrightarrow> json_parse t \<noteq> None"
  using assms unfolding state_inv_def by blast+

lemma state_write_inv:
  assumes inv: "state_inv s" and v: "plain_json v"
  shows "state_inv (s\<lparr>sa_table := AList.update p (json_text v) (sa_table s), sa_cache := nest_set p v (sa_cache s),
                      sa_serialized := nest_set p (json_text v) (sa_serialized s)\<rparr>)"
proof (rule state_invI)
  note j = json_roundtrip[OF v] and d = state_invD[OF inv]
  let ?s = "s\<lparr>sa_table := AList.update p (json_text v) (sa_table s), sa_cache := nest_set p v (sa_cache s),
              sa_serialized := nest_set p (json_text v) (sa_serialized s)\<rparr>"
  show "jm_wf (sa_table ?s)" "nest_wf (sa_cache ?s)" "nest_wf (sa_serialized ?s)" using d(1-3) by (simp_all add: nest_wf_set)
  show "nest_get (sa_serialized ?s) q = map_of (sa_table ?s) q" for q by (simp add: nest_get_set update_conv' d(4))
  show "nest_get (sa_cache ?s) q = Option.bind (map_of (sa_table ?s) q) json_parse" for q
    by (simp add: nest_get_set update_conv' d(5) j)
  show "json_parse t \<noteq> None" if "map_of (sa_table ?s) q = Some t" for q t
  proof (cases "q = p")
    case True
    with that have "t = json_text v" by (simp add: update_conv')
    then show ?thesis using j by simp
  next
    case False
    with that have "map_of (sa_table s) q = Some t" by (simp del: map_of_eq_Some_iff add: update_conv')
    then show ?thesis by (rule d(6))
  qed
qed

lemma state_set_inv: "state_inv s \<Longrightarrow> state_ok (StSet r k v) s \<Longrightarrow> state_inv (snd (state_set r k v s))"
proof (cases "plain_json v")
  case True
  assume "state_inv s"
  then show ?thesis using state_write_inv[OF _ True] by (simp add: state_set_plain[OF True])
next
  case False
  assume "state_inv s" "state_ok (StSet r k v) s"
  with False show ?thesis by (auto simp: state_set_def split: json_out.splits)
qed

lemma state_delete_inv: "state_inv s \<Longrightarrow> state_inv (snd (state_delete r k s))"
  by (auto simp: state_delete_def state_inv_def nest_get_delete nest_wf_delete split: if_splits)

lemma map_of_filter_rule: "map_of (filter (\<lambda>row. fst (fst row) \<noteq> r) m) p = (if fst p = r then None else map_of m p)"
  by (induction m) auto

lemma state_deleteAll_inv: "state_inv s \<Longrightarrow> state_inv (state_deleteAll r s)"
  unfolding state_inv_def state_deleteAll_def
  by (auto simp: nest_get_drop_rule map_of_filter_rule nest_wf_def set_delete_jm distinct_map_filter split: if_splits)

lemma load_rows:
  assumes "jm_wf rows" "\<forall>(p, t)\<in>set rows. json_parse t \<noteq> None"
  shows "nest_get (sa_cache (fold load_state_row rows s)) p = (case map_of rows p of Some t \<Rightarrow> json_parse t | None \<Rightarrow> nest_get (sa_cache s) p)
    \<and> nest_get (sa_serialized (fold load_state_row rows s)) p = (case map_of rows p of Some t \<Rightarrow> Some t | None \<Rightarrow> nest_get (sa_serialized s) p)
    \<and> sa_table (fold load_state_row rows s) = sa_table s
    \<and> (nest_wf (sa_cache s) \<longrightarrow> nest_wf (sa_cache (fold load_state_row rows s)))
    \<and> (nest_wf (sa_serialized s) \<longrightarrow> nest_wf (sa_serialized (fold load_state_row rows s)))"
  using assms
proof (induction rows arbitrary: s)
  case (Cons row rows)
  obtain q t where row: "row = (q, t)" by (cases row)
  from Cons.prems row obtain v where v: "json_parse t = Some v" by auto
  have q: "map_of rows q = None" using Cons.prems row by (simp add: map_of_eq_None_iff)
  have "jm_wf rows" "\<forall>(p, t)\<in>set rows. json_parse t \<noteq> None" using Cons.prems by simp_all
  from Cons.IH[OF this, of "load_state_row row s"] show ?case
    using row v q by (auto simp: load_state_row_def nest_get_set nest_wf_set split: option.splits)
qed simp

lemma state_load:
  assumes "state_inv s"
  shows "state_inv (state_loadFromDb s)" and "nest_get (sa_cache (state_loadFromDb s)) = nest_get (sa_cache s)"
    and "sa_table (state_loadFromDb s) = sa_table s"
proof -
  have rows: "jm_wf (sa_table s)" "\<forall>(p, t)\<in>set (sa_table s). json_parse t \<noteq> None"
    using state_invD(1)[OF assms] state_invD(6)[OF assms, OF map_of_is_SomeI[OF state_invD(1)[OF assms]]] by blast+
  note l = load_rows[OF rows, of "s\<lparr>sa_cache := [], sa_serialized := []\<rparr>"]
  show t: "sa_table (state_loadFromDb s) = sa_table s" using l by (simp add: state_loadFromDb_def)
  have c: "nest_get (sa_cache (state_loadFromDb s)) p = Option.bind (map_of (sa_table s) p) json_parse"
    and z: "nest_get (sa_serialized (state_loadFromDb s)) p = map_of (sa_table s) p" for p
    using l[of p] by (cases "map_of (sa_table s) p", simp_all del: map_of_eq_Some_iff add: state_loadFromDb_def nest_get_def[of "[]"])+
  show "nest_get (sa_cache (state_loadFromDb s)) = nest_get (sa_cache s)"
    by (rule ext) (simp add: c state_invD(5)[OF assms])
  have w: "nest_wf (sa_cache (state_loadFromDb s))" "nest_wf (sa_serialized (state_loadFromDb s))"
    using l by (simp_all add: state_loadFromDb_def nest_wf_def)
  show "state_inv (state_loadFromDb s)"
    by (rule state_invI) (use w c z t rows(1) state_invD(6)[OF assms] in \<open>simp_all del: map_of_eq_Some_iff\<close>)
qed

interpretation automation_state: invariant_machine state_step state_ok state_empty state_inv
proof
  show "state_inv state_empty" by (simp add: state_inv_def state_empty_def nest_get_def nest_wf_def)
  show "state_inv s \<Longrightarrow> state_ok a s \<Longrightarrow> state_inv (state_step a s)" for a s
    using state_set_inv state_delete_inv state_deleteAll_inv state_load(1) by (cases a) simp_all
qed

text \<open>The store always answers for the table: reading a key gives the value of its row, also
  after a restart. Writing a value makes exactly that key read as the value; it reports a change
  exactly when the stored text differs, and otherwise leaves everything as it is. A value with no
  JSON text changes nothing.\<close>

lemma automation_state_coherent:
  assumes "reach state_step state_ok state_empty s"
  shows "state_get r k s = Option.bind (map_of (sa_table s) (r, k)) json_parse
    \<and> state_get r k (state_loadFromDb s) = state_get r k s
    \<and> (plain_json v \<longrightarrow> state_get r2 k2 (snd (state_set r k v s)) = (if (r2, k2) = (r, k) then Some v else state_get r2 k2 s)
        \<and> (fst (state_set r k v s) \<longleftrightarrow> map_of (sa_table s) (r, k) \<noteq> Some (json_text v))
        \<and> (\<not> fst (state_set r k v s) \<longrightarrow> snd (state_set r k v s) = s))
    \<and> (has_bigint v \<or> v = JUndefined \<longrightarrow> state_set r k v s = (False, s))
    \<and> (fst (state_delete r k s) \<longleftrightarrow> state_get r k s \<noteq> None)
    \<and> state_get r2 k2 (snd (state_delete r k s)) = (if (r2, k2) = (r, k) then None else state_get r2 k2 s)"
proof -
  have inv: "state_inv s" using automation_state.reach_inv[OF assms] .
  have ser: "nest_get (sa_serialized s) p = map_of (sa_table s) p"
    and cache: "nest_get (sa_cache s) p = Option.bind (map_of (sa_table s) p) json_parse"
    and parse: "map_of (sa_table s) p = Some t \<Longrightarrow> json_parse t \<noteq> None" for p t
    using state_invD(4-6)[OF inv] by blast+
  have a: "state_get r k (state_loadFromDb s) = state_get r k s" using state_load(2)[OF inv] by (simp add: state_get_def)
  have b: "state_get r2 k2 (snd (state_set r k v s)) = (if (r2, k2) = (r, k) then Some v else state_get r2 k2 s)" if "plain_json v"
    using cache[of "(r, k)"] ser[of "(r, k)"] json_roundtrip[OF that] by (auto simp: state_set_plain[OF that] state_get_def nest_get_set)
  have c: "(fst (state_set r k v s) \<longleftrightarrow> map_of (sa_table s) (r, k) \<noteq> Some (json_text v))
      \<and> (\<not> fst (state_set r k v s) \<longrightarrow> snd (state_set r k v s) = s)" if "plain_json v"
    using ser by (simp add: state_set_plain[OF that])
  have d: "state_set r k v s = (False, s)" if "has_bigint v \<or> v = JUndefined"
    using that by (auto simp: state_set_def json_stringify_def)
  have e: "fst (state_delete r k s) \<longleftrightarrow> state_get r k s \<noteq> None"
    using cache[of "(r, k)"] parse[of "(r, k)"] by (cases "map_of (sa_table s) (r, k)") (auto simp: state_delete_def state_get_def jm_has_def)
  have f: "state_get r2 k2 (snd (state_delete r k s)) = (if (r2, k2) = (r, k) then None else state_get r2 k2 s)"
    by (simp add: state_delete_def state_get_def nest_get_delete)
  show ?thesis using cache a b c d e f by (simp add: state_get_def)
qed

end
