(* ===== verification/Access_Guards.thy ===== *)
theory Access_Guards
  imports Auth_Service Automation_State Outbound_Http
begin

text \<open>
  What stands between a request and its handler: the authentication and authorization middleware
  (src/auth/auth-middleware.ts) and the envelope of the public demo: its allowlist
  (src/demo/demo-policy.ts), the per-rule metadata (demo-rule-access.ts), the validators of the two
  routes a visitor may write to (demo-validators.ts), the guard (public-demo-guard.ts) and the
  masking of responses (demo-scrub.ts).

  A guard answers \<open>None\<close> where the middleware calls \<open>next()\<close> and \<open>Some\<close> error where it throws. The
  function fields of a policy entry are the datatype \<open>demo_validator\<close>. The bullet of the mask,
  U+2022, is not below 256; the code unit 0x95 stands for it.

  The lemmas show which requests of a demo session pass, that what passes keeps the bounds of the
  store, that a masked response holds no IPv4 address and no value under a sensitive key, and
  which requests reach the handler of a device or an automation.
\<close>

section \<open>Requests\<close>

datatype guard_error =
    GUnauthorized string | GForbidden string | GNotFound string | GBadRequest string | GTypeError string

record req_user =
  qu_userId :: string
  qu_username :: string
  qu_role :: principal_role
  qu_groupId :: "string option"
  qu_sessionType :: "session_type option"

record http_request =
  rq_method :: string
  rq_path :: string
  rq_authorization :: "string option"
  rq_contentLength :: "string option"
  rq_params :: "(string, string) jsmap"
  rq_query :: jsobj
  rq_body :: jsval
  rq_user :: "req_user option"

definition js_toUpperCase :: "string \<Rightarrow> string" where
  "js_toUpperCase s = concat (map upper_char s)"

section \<open>Authentication\<close>

definition PUBLIC_ROUTES :: "(string \<times> string) list" where
  "PUBLIC_ROUTES =
     [(''GET'', ''/api/health''), (''HEAD'', ''/api/health''), (''GET'', ''/api/auth/status''),
      (''POST'', ''/api/auth/login''), (''POST'', ''/api/auth/refresh''), (''POST'', ''/api/auth/setup''),
      (''POST'', ''/api/auth/demo-session''), (''GET'', ''/metrics'')]"

definition isPublicRoute :: "http_request \<Rightarrow> bool" where
  "isPublicRoute req = list_ex (\<lambda>(method, path). js_toUpperCase (rq_method req) = method \<and> rq_path req = path) PUBLIC_ROUTES"

definition user_of_payload :: "access_token_payload \<Rightarrow> req_user" where
  "user_of_payload p =
     \<lparr>qu_userId = ap_userId p, qu_username = ap_username p, qu_role = ap_role p, qu_groupId = ap_groupId p,
      qu_sessionType = Some (case ap_sessionType p of Some t \<Rightarrow> t | None \<Rightarrow> SNormal)\<rparr>"

definition authenticate ::
  "auth_env \<Rightarrow> string \<Rightarrow> ms \<Rightarrow> http_request \<Rightarrow> auth_state \<Rightarrow> (guard_error + http_request) \<times> auth_state" where
  "authenticate env fresh now req s =
     (if isPublicRoute req then (Inr req, s)
      else case js_truthy (rq_authorization req) of
        None \<Rightarrow> (Inl (GUnauthorized ''Unauthorized''), s)
      | Some authHeader \<Rightarrow>
          if \<not> js_startsWith authHeader ''Bearer '' then (Inl (GUnauthorized ''Unauthorized''), s)
          else let token = drop 7 authHeader
               in if token = [] then (Inl (GUnauthorized ''Unauthorized''), s)
                  else case verifyAccessToken env token fresh now s of
                    (None, s1) \<Rightarrow> (Inl (GUnauthorized ''Unauthorized''), s1)
                  | (Some payload, s1) \<Rightarrow> (Inr (req\<lparr>rq_user := Some (user_of_payload payload)\<rparr>), s1))"

section \<open>Authorization\<close>

definition isReadOnlyMethod :: "string \<Rightarrow> bool" where
  "isReadOnlyMethod method = (let m = js_toUpperCase method in m = ''GET'' \<or> m = ''HEAD'')"

definition requireAdmin :: "http_request \<Rightarrow> guard_error option" where
  "requireAdmin req = (case rq_user req of
       None \<Rightarrow> Some (GUnauthorized ''Unauthorized'')
     | Some user \<Rightarrow>
         if qu_role user = RAdmin then None
         else if qu_sessionType user = Some SPublicDemo \<and> isReadOnlyMethod (rq_method req) then None
         else Some (GForbidden ''Forbidden''))"

definition requested_tab :: "http_request \<Rightarrow> jsval" where
  "requested_tab req =
     (let p = (case map_of (rq_params req) ''tabId'' of Some t \<Rightarrow> JStr t | None \<Rightarrow> JUndefined);
          b = js_member (rq_body req) ''tabId''
      in if jsval_true p then p else if jsval_true b then b else js_prop (rq_query req) ''tabId'')"

definition requireTabPermission :: "permission_level \<Rightarrow> auth_db \<Rightarrow> http_request \<Rightarrow> guard_error option" where
  "requireTabPermission level db req = (case rq_user req of
       None \<Rightarrow> Some (GUnauthorized ''Unauthorized'')
     | Some user \<Rightarrow>
         if qu_role user = RAdmin then None
         else case requested_tab req of
           JStr tabId \<Rightarrow> if tabId = [] then Some (GForbidden ''Forbidden'')
                        else if hasPermission (qu_userId user) tabId level db then None
                        else Some (GForbidden ''Forbidden'')
         | _ \<Rightarrow> Some (GForbidden ''Forbidden''))"

definition createSetupGuard ::
  "auth_env \<Rightarrow> string \<Rightarrow> ms \<Rightarrow> http_request \<Rightarrow> auth_state \<Rightarrow> (guard_error + http_request) \<times> auth_state" where
  "createSetupGuard env fresh now req s =
     (if needsSetup s then (Inr req, s) else authenticate env fresh now req s)"

fun kind_text :: "resource_kind \<Rightarrow> string" where
  "kind_text KDevice = ''device''"
| "kind_text KAutomation = ''automation''"

definition createResourceGuard ::
  "registry \<Rightarrow> resource_kind \<Rightarrow> permission_level \<Rightarrow> (string \<Rightarrow> bool) \<Rightarrow> auth_db \<Rightarrow> http_request \<Rightarrow> guard_error option" where
  "createResourceGuard reg kind level exists_fn db req = (case rq_user req of
       None \<Rightarrow> Some (GUnauthorized ''Unauthorized'')
     | Some user \<Rightarrow>
         if qu_role user = RAdmin then None
         else case js_truthy (map_of (rq_params req) ''id'') of
           None \<Rightarrow> Some (GNotFound (kind_text kind @ '' not found''))
         | Some resourceId \<Rightarrow>
             if \<not> exists_fn resourceId then Some (GNotFound (kind_text kind @ '' not found: '' @ resourceId))
             else if \<not> hasResourcePermission reg (qu_userId user) kind resourceId level db then Some (GForbidden ''Forbidden'')
             else None)"

definition automationExists :: "auth_db \<Rightarrow> string \<Rightarrow> bool" where
  "automationExists db rid = (find (\<lambda>r. ru_id r = rid) (ad_rules db) \<noteq> None)"

definition requireDevicePermission :: "permission_level \<Rightarrow> registry \<Rightarrow> auth_db \<Rightarrow> http_request \<Rightarrow> guard_error option" where
  "requireDevicePermission level reg db req =
     createResourceGuard reg KDevice level (\<lambda>rid. registry_getById rid reg \<noteq> None) db req"

definition requireAutomationPermission :: "permission_level \<Rightarrow> registry \<Rightarrow> auth_db \<Rightarrow> http_request \<Rightarrow> guard_error option" where
  "requireAutomationPermission level reg db req = createResourceGuard reg KAutomation level (automationExists db) db req"

section \<open>The allowlist of the public demo\<close>

datatype demo_validator = ValidateDemoStateWrite | ValidateDemoFire

record demo_policy_entry =
  pe_method :: string
  pe_pattern :: string
  pe_validate :: "demo_validator option"

definition splitPath :: "string \<Rightarrow> string list" where
  "splitPath path = filter (\<lambda>s. length s > 0) (js_split (CHR ''/'') (hd (js_split (CHR ''?'') path)))"

fun match_segments :: "string list \<Rightarrow> string list \<Rightarrow> (string, string) jsmap \<Rightarrow> (string, string) jsmap option" where
  "match_segments [] [] params = Some params"
| "match_segments (seg # segs) (r # rs) params =
     (if js_startsWith seg '':'' then
        if length r = 0 then None else match_segments segs rs (AList.update (drop 1 seg) r params)
      else if seg \<noteq> r then None
      else match_segments segs rs params)"
| "match_segments _ _ params = None"

fun policy_match :: "demo_policy_entry list \<Rightarrow> string \<Rightarrow> string \<Rightarrow> (demo_policy_entry \<times> (string, string) jsmap) option" where
  "policy_match [] method path = None"
| "policy_match (e # es) method path =
     (if js_toUpperCase (pe_method e) \<noteq> js_toUpperCase method then policy_match es method path
      else case match_segments (splitPath (pe_pattern e)) (splitPath path) [] of
             None \<Rightarrow> policy_match es method path
           | Some params \<Rightarrow> Some (e, params))"

definition demo_read :: "string \<Rightarrow> demo_policy_entry" where
  "demo_read pattern = \<lparr>pe_method = ''GET'', pe_pattern = pattern, pe_validate = None\<rparr>"

definition demo_read_patterns :: "string list" where
  "demo_read_patterns =
       [''/api/auth/me'', ''/api/layout'', ''/api/devices'', ''/api/devices/:id'', ''/api/devices/:id/history'',
        ''/api/devices/:id/actions'', ''/api/devices/:id/completion-tiers'', ''/api/state'', ''/api/automations'',
        ''/api/automations/:id'', ''/api/automations/:id/ui-module'', ''/api/automations/:id/state'',
        ''/api/automations/:id/project'', ''/api/automations/:id/command-evidence'', ''/api/automations/history'',
        ''/api/data-store/collections'', ''/api/data-store/collections/:name/records'', ''/api/health'',
        ''/api/system/version'',
        ''/api/system'', ''/api/system/logs'', ''/api/connectors'', ''/api/connectors/available'',
        ''/api/connectors/:id/status'', ''/api/data-store/config'', ''/api/data-store/stats'',
        ''/api/data-store/buckets'', ''/api/data-store/buckets/:bucket'', ''/api/auth/users'', ''/api/auth/groups'',
        ''/api/auth/mqtt-credentials'', ''/api/mqtt/provisioning/status'', ''/api/mqtt/private-topics'']"

definition buildDemoPolicy :: "demo_policy_entry list" where
  "buildDemoPolicy = map demo_read demo_read_patterns
     @ [\<lparr>pe_method = ''PUT'', pe_pattern = ''/api/automations/:id/state'', pe_validate = Some ValidateDemoStateWrite\<rparr>,
        \<lparr>pe_method = ''POST'', pe_pattern = ''/api/automations/:id/fire'', pe_validate = Some ValidateDemoFire\<rparr>]"

section \<open>What a rule allows demo visitors\<close>

record demo_rule_access =
  da_writableStateKeys :: "string list option"
  da_fireEvents :: "string list option"

record demo_guard_state =
  dg_rules :: "(string, string option) jsmap"
  dg_cache :: "(string, demo_rule_access option) jsmap"
  dg_store :: state_store

definition string_array :: "jsval \<Rightarrow> string list option" where
  "string_array v = (case v of
       JArr vs \<Rightarrow> Some (List.map_filter (\<lambda>x. case x of JStr s \<Rightarrow> Some s | _ \<Rightarrow> None) vs)
     | _ \<Rightarrow> None)"

definition parse_access :: "string option \<Rightarrow> demo_rule_access option" where
  "parse_access column = (case js_truthy column of
       None \<Rightarrow> None
     | Some text \<Rightarrow>
         (case json_parse text of
            None \<Rightarrow> None
          | Some JNull \<Rightarrow> None
          | Some parsed \<Rightarrow> Some \<lparr>da_writableStateKeys = string_array (js_member parsed ''writableStateKeys''),
                               da_fireEvents = string_array (js_member parsed ''fireEvents'')\<rparr>))"

definition getDemoRuleAccess :: "string \<Rightarrow> demo_guard_state \<Rightarrow> demo_rule_access option \<times> demo_guard_state" where
  "getDemoRuleAccess ruleId g = (case map_of (dg_cache g) ruleId of
       Some cached \<Rightarrow> (cached, g)
     | None \<Rightarrow>
         let v = parse_access (case map_of (dg_rules g) ruleId of Some column \<Rightarrow> column | None \<Rightarrow> None)
         in (v, g\<lparr>dg_cache := AList.update ruleId v (dg_cache g)\<rparr>))"

section \<open>The validators\<close>

definition DEMO_MAX_KEY_LENGTH :: nat where "DEMO_MAX_KEY_LENGTH = 64"
definition DEMO_MAX_VALUE_BYTES :: nat where "DEMO_MAX_VALUE_BYTES = 8 * 1024"
definition DEMO_MAX_KEYS_PER_RULE :: nat where "DEMO_MAX_KEYS_PER_RULE = 100"
definition DEMO_MAX_BODY_BYTES :: int where "DEMO_MAX_BODY_BYTES = 16 * 1024"

definition assertBodyWithinDemoLimit :: "http_request \<Rightarrow> guard_error option" where
  "assertBodyWithinDemoLimit req =
     (case js_Number (case rq_contentLength req of Some t \<Rightarrow> t | None \<Rightarrow> ''0'') of
        Some declared \<Rightarrow>
          if declared > DEMO_MAX_BODY_BYTES
          then Some (GBadRequest (''Request body exceeds the '' @ show_int DEMO_MAX_BODY_BYTES @ ''-byte demo limit''))
          else None
      | None \<Rightarrow> None)"

definition access_for :: "string option \<Rightarrow> demo_guard_state \<Rightarrow> demo_rule_access option \<times> demo_guard_state" where
  "access_for ruleId g = (case js_truthy ruleId of Some r \<Rightarrow> getDemoRuleAccess r g | None \<Rightarrow> (None, g))"

definition allowlisted :: "string list option \<Rightarrow> string \<Rightarrow> bool" where
  "allowlisted allowed x = (case allowed of None \<Rightarrow> True | Some xs \<Rightarrow> x \<in> set xs)"

definition key_room :: "string option \<Rightarrow> string \<Rightarrow> demo_guard_state \<Rightarrow> guard_error option" where
  "key_room ruleId key g = (case js_truthy ruleId of
       None \<Rightarrow> None
     | Some r \<Rightarrow>
         let existing = state_getAll r (dg_store g); isNewKey = \<not> jm_has existing key
         in if isNewKey \<and> length (jm_keys existing) \<ge> DEMO_MAX_KEYS_PER_RULE
            then Some (GBadRequest (''This automation has reached the '' @ show_nat DEMO_MAX_KEYS_PER_RULE @ ''-key demo limit''))
            else None)"

definition assertDemoStateWriteWithinBounds ::
  "string option \<Rightarrow> jsval \<Rightarrow> jsval \<Rightarrow> demo_guard_state \<Rightarrow> guard_error option \<times> demo_guard_state" where
  "assertDemoStateWriteWithinBounds ruleId keyv v g = (case keyv of
       JStr key \<Rightarrow>
         if length key = 0 then (Some (GBadRequest ''A non-empty string 'key' is required''), g)
         else if length key > DEMO_MAX_KEY_LENGTH
         then (Some (GBadRequest (''State key exceeds the '' @ show_nat DEMO_MAX_KEY_LENGTH @ ''-character demo limit'')), g)
         else (case json_stringify (if v = JUndefined then JNull else v) of
             JsonText text \<Rightarrow>
               if utf8_bytes text > DEMO_MAX_VALUE_BYTES
               then (Some (GBadRequest (''State value exceeds the '' @ show_nat DEMO_MAX_VALUE_BYTES @ ''-byte demo limit'')), g)
               else (case access_for ruleId g of (access, g1) \<Rightarrow>
                 if \<not> allowlisted (Option.bind access da_writableStateKeys) key
                 then (Some (GForbidden ''This state key is not writable in the public demo''), g1)
                 else (key_room ruleId key g1, g1))
           | _ \<Rightarrow> (Some (GBadRequest ''State value is not serializable''), g))
     | _ \<Rightarrow> (Some (GBadRequest ''A non-empty string 'key' is required''), g))"

definition demo_rule_id :: "http_request \<Rightarrow> (string, string) jsmap \<Rightarrow> string option" where
  "demo_rule_id req params = (case map_of params ''id'' of Some r \<Rightarrow> Some r | None \<Rightarrow> map_of (rq_params req) ''id'')"

definition request_body :: "http_request \<Rightarrow> jsval" where
  "request_body req = (if rq_body req = JUndefined \<or> rq_body req = JNull then JObj [] else rq_body req)"

definition validateDemoStateWrite ::
  "http_request \<Rightarrow> (string, string) jsmap \<Rightarrow> demo_guard_state \<Rightarrow> guard_error option \<times> demo_guard_state" where
  "validateDemoStateWrite req params g = (case assertBodyWithinDemoLimit req of
       Some e \<Rightarrow> (Some e, g)
     | None \<Rightarrow> assertDemoStateWriteWithinBounds (demo_rule_id req params)
                 (js_member (request_body req) ''key'') (js_member (request_body req) ''value'') g)"

text \<open>\<open>"k" in body\<close> throws where the body is no object or array.\<close>

definition is_object :: "jsval \<Rightarrow> bool" where
  "is_object v = (case v of JObj _ \<Rightarrow> True | JArr _ \<Rightarrow> True | _ \<Rightarrow> False)"

definition validateDemoFire ::
  "http_request \<Rightarrow> (string, string) jsmap \<Rightarrow> demo_guard_state \<Rightarrow> guard_error option \<times> demo_guard_state" where
  "validateDemoFire req params g = (case assertBodyWithinDemoLimit req of
       Some e \<Rightarrow> (Some e, g)
     | None \<Rightarrow>
         let ruleId = demo_rule_id req params; body = request_body req
         in if \<not> is_object body then (Some (GTypeError ''body is not an object''), g)
            else if js_member body ''context'' \<noteq> JUndefined
            then (Some (GForbidden ''Custom automation context is not allowed in the public demo''), g)
            else if js_member body ''stateSet'' \<noteq> JUndefined
            then (case js_member body ''stateSet'' of
                    JObj candidate \<Rightarrow>
                      if \<not> jm_has candidate ''value'' then (Some (GBadRequest (CHR 0x27 # ''stateSet.value' is required'')), g)
                      else assertDemoStateWriteWithinBounds ruleId (js_prop candidate ''key'') (js_prop candidate ''value'') g
                  | _ \<Rightarrow> (Some (GBadRequest (CHR 0x27 # ''stateSet' must be an object with 'key' and 'value'' @ [CHR 0x27])), g))
            else (case js_member body ''eventName'' of
                    JStr eventName \<Rightarrow>
                      if length eventName = 0
                      then (Some (GBadRequest ''A non-empty 'eventName' or a 'stateSet' object is required in the public demo''), g)
                      else (case access_for ruleId g of (access, g1) \<Rightarrow>
                        if \<not> allowlisted (Option.bind access da_fireEvents) eventName
                        then (Some (GForbidden ''This event is not allowed in the public demo''), g1) else (None, g1))
                  | _ \<Rightarrow> (Some (GBadRequest ''A non-empty 'eventName' or a 'stateSet' object is required in the public demo''), g)))"

fun run_validator ::
  "demo_validator \<Rightarrow> http_request \<Rightarrow> (string, string) jsmap \<Rightarrow> demo_guard_state \<Rightarrow> guard_error option \<times> demo_guard_state" where
  "run_validator ValidateDemoStateWrite = validateDemoStateWrite"
| "run_validator ValidateDemoFire = validateDemoFire"

section \<open>The guard\<close>

definition is_demo_session :: "http_request \<Rightarrow> bool" where
  "is_demo_session req \<longleftrightarrow> Option.bind (rq_user req) qu_sessionType = Some SPublicDemo"

definition publicDemoGuard :: "bool \<Rightarrow> http_request \<Rightarrow> demo_guard_state \<Rightarrow> guard_error option \<times> demo_guard_state" where
  "publicDemoGuard enabled req g =
     (if \<not> enabled \<or> \<not> is_demo_session req then (None, g)
      else case policy_match buildDemoPolicy (rq_method req) (rq_path req) of
        None \<Rightarrow> (Some (GForbidden ''Unavailable in the public demo''), g)
      | Some (entry, params) \<Rightarrow>
          (case pe_validate entry of None \<Rightarrow> (None, g) | Some v \<Rightarrow> run_validator v req params g))"

section \<open>Masking responses\<close>

definition MASK :: string where "MASK = [CHR 0x95, CHR 0x95, CHR 0x95]"

definition is_lower :: "char \<Rightarrow> bool" where "is_lower c \<longleftrightarrow> 97 \<le> (of_char c :: nat) \<and> (of_char c :: nat) \<le> 122"
definition is_upper :: "char \<Rightarrow> bool" where "is_upper c \<longleftrightarrow> 65 \<le> (of_char c :: nat) \<and> (of_char c :: nat) \<le> 90"
definition is_alnum :: "char \<Rightarrow> bool" where "is_alnum c \<longleftrightarrow> is_lower c \<or> is_upper c \<or> is_digit c"
definition is_word :: "char \<Rightarrow> bool" where "is_word c \<longleftrightarrow> is_alnum c \<or> c = CHR ''_''"

text \<open>\<open>replace(/([a-z0-9])([A-Z])/g, "$1 $2")\<close>\<close>

fun split_camel :: "string \<Rightarrow> string" where
  "split_camel (a # b # r) = (if (is_lower a \<or> is_digit a) \<and> is_upper b then a # CHR '' '' # b # split_camel r
                              else a # split_camel (b # r))"
| "split_camel s = s"

text \<open>\<open>split(/[^A-Za-z0-9]+/)\<close>\<close>

function split_nonalnum :: "string \<Rightarrow> string list" where
  "split_nonalnum s =
     (let rest = dropWhile is_alnum s
      in if rest = [] then [s] else takeWhile is_alnum s # split_nonalnum (dropWhile (\<lambda>c. \<not> is_alnum c) rest))"
  by pat_completeness auto
termination
proof (relation "measure length")
  fix s rest :: string assume rest: "rest = dropWhile is_alnum s" "rest \<noteq> []"
  then have "\<not> is_alnum (hd rest)" using hd_dropWhile by blast
  then have "length (dropWhile (\<lambda>c. \<not> is_alnum c) rest) < length rest"
    using rest(2) by (cases rest) (auto simp: le_imp_less_Suc length_dropWhile_le)
  also have "length rest \<le> length s" by (simp add: rest(1) length_dropWhile_le)
  finally show "(dropWhile (\<lambda>c. \<not> is_alnum c) rest, s) \<in> measure length" by simp
qed simp

definition keyTokens :: "string \<Rightarrow> string list" where
  "keyTokens key = filter (\<lambda>t. t \<noteq> []) (map js_toLowerCase (split_nonalnum (split_camel key)))"

definition SENSITIVE_TOKENS :: "string list" where
  "SENSITIVE_TOKENS =
     [''password'', ''pass'', ''passwd'', ''secret'', ''token'', ''apikey'', ''authorization'',
      ''auth'', ''credential'', ''credentials'', ''privatekey'', ''salt'', ''hash'',
      ''username'', ''user'', ''ip'', ''ipaddress'', ''host'', ''hostname'', ''address'',
      ''url'', ''endpoint'', ''broker'', ''mac'']"

definition looksSensitiveKey :: "string \<Rightarrow> bool" where
  "looksSensitiveKey key =
     (let tokens = keyTokens key
      in if ''api'' \<in> set tokens \<and> ''key'' \<in> set tokens then True
         else list_ex (\<lambda>t. t \<in> set SENSITIVE_TOKENS) tokens)"

text \<open>
  Regular expressions: a matcher is given the character before the position and the text from
  there, and answers the length of the match. A quantifier followed by \<open>\b\<close> is greedy and
  backtracks: \<open>longest\<close> takes the largest count that ends at a word boundary.
\<close>

definition word_before :: "char option \<Rightarrow> string \<Rightarrow> nat \<Rightarrow> bool" where
  "word_before prev s k = (if k = 0 then (case prev of Some c \<Rightarrow> is_word c | None \<Rightarrow> False) else is_word (s ! (k - 1)))"

definition word_after :: "string \<Rightarrow> nat \<Rightarrow> bool" where
  "word_after s k \<longleftrightarrow> k < length s \<and> is_word (s ! k)"

definition boundary :: "char option \<Rightarrow> string \<Rightarrow> nat \<Rightarrow> bool" where
  "boundary prev s k \<longleftrightarrow> word_before prev s k \<noteq> word_after s k"

definition longest :: "(char \<Rightarrow> bool) \<Rightarrow> nat \<Rightarrow> nat option \<Rightarrow> char option \<Rightarrow> string \<Rightarrow> nat option" where
  "longest cls lo hi prev s =
     (let run = length (takeWhile cls s); top = (case hi of Some h \<Rightarrow> min h run | None \<Rightarrow> run)
      in find (boundary prev s) (rev [lo..<Suc top]))"

text \<open>One \<open>[cls]{1,m}sep\<close>: the separator is not in the class, so the run is the only candidate.\<close>

definition unit_len :: "(char \<Rightarrow> bool) \<Rightarrow> nat \<Rightarrow> char \<Rightarrow> string \<Rightarrow> nat option" where
  "unit_len cls m sep s =
     (let run = length (takeWhile cls s)
      in if 1 \<le> run \<and> run \<le> m \<and> run < length s \<and> s ! run = sep then Some (Suc run) else None)"

fun octets :: "nat \<Rightarrow> char option \<Rightarrow> string \<Rightarrow> nat option" where
  "octets 0 prev s = longest is_digit 1 (Some 3) prev s"
| "octets (Suc n) prev s = (case unit_len is_digit 3 (CHR ''.'') s of
       None \<Rightarrow> None
     | Some k \<Rightarrow> map_option (\<lambda>m. k + m) (octets n (Some (CHR ''.'')) (drop k s)))"

definition IPV4_RE :: "char option \<Rightarrow> string \<Rightarrow> nat option" where
  "IPV4_RE prev s = (if boundary prev s 0 then octets 3 prev s else None)"

definition is_hex :: "char \<Rightarrow> bool" where
  "is_hex c \<longleftrightarrow> is_digit c \<or> 65 \<le> (of_char c :: nat) \<and> (of_char c :: nat) \<le> 70 \<or> 97 \<le> (of_char c :: nat) \<and> (of_char c :: nat) \<le> 102"

text \<open>The group is greedy as well: the other groups are tried first, then none of them.\<close>

fun hextets :: "nat \<Rightarrow> nat \<Rightarrow> char option \<Rightarrow> string \<Rightarrow> nat option" where
  "hextets lo 0 prev s = (if lo = 0 then longest is_hex 0 (Some 4) prev s else None)"
| "hextets lo (Suc hi) prev s =
     (let more = (case unit_len is_hex 4 (CHR '':'') s of
                    None \<Rightarrow> None
                  | Some k \<Rightarrow> map_option (\<lambda>m. k + m) (hextets (lo - 1) hi (Some (CHR '':'')) (drop k s)))
      in if more \<noteq> None then more else if lo = 0 then longest is_hex 0 (Some 4) prev s else None)"

definition IPV6_RE :: "char option \<Rightarrow> string \<Rightarrow> nat option" where
  "IPV6_RE prev s = (if boundary prev s 0 then hextets 2 7 prev s else None)"

definition LONG_TOKEN_RE :: "char option \<Rightarrow> string \<Rightarrow> nat option" where
  "LONG_TOKEN_RE prev s =
     (if boundary prev s 0 then longest (\<lambda>c. is_word c \<or> c = CHR ''-'') 32 None prev s else None)"

text \<open>\<open>replace(re, MASK)\<close> with the flag \<open>g\<close>.\<close>

function replace_mask :: "(char option \<Rightarrow> string \<Rightarrow> nat option) \<Rightarrow> char option \<Rightarrow> string \<Rightarrow> string" where
  "replace_mask re prev [] = []"
| "replace_mask re prev (c # r) =
     (case re prev (c # r) of
        Some (Suc n) \<Rightarrow> MASK @ replace_mask re (Some (last (c # take n r))) (drop n r)
      | _ \<Rightarrow> c # replace_mask re (Some c) r)"
  by pat_completeness auto
termination by (relation "measure (length \<circ> snd \<circ> snd)") auto

definition scrubText :: "string \<Rightarrow> string" where
  "scrubText v = replace_mask LONG_TOKEN_RE None (replace_mask IPV6_RE None (replace_mask IPV4_RE None v))"

fun masked :: "jsval \<Rightarrow> jsval" where
  "masked JUndefined = JUndefined"
| "masked JNull = JNull"
| "masked (JBool b) = JBool b"
| "masked v = JStr MASK"

fun deepScrub :: "jsval \<Rightarrow> jsval" where
  "deepScrub (JStr s) = JStr (scrubText s)"
| "deepScrub (JArr vs) = JArr (map deepScrub vs)"
| "deepScrub (JObj kvs) = JObj (map (\<lambda>(key, val). (key, if looksSensitiveKey key then masked val else deepScrub val)) kvs)"
| "deepScrub v = v"

fun scrub_user :: "nat \<Rightarrow> jsval \<Rightarrow> jsval" where
  "scrub_user i (JObj user) =
     JObj (AList.update ''username''
       (JStr (if js_prop user ''role'' = JStr ''admin'' then ''administrator'' else ''member-'' @ show_nat (i + 1))) user)"
| "scrub_user i v = v"

definition scrubUsers :: "jsval \<Rightarrow> jsval" where
  "scrubUsers body = (case body of JArr us \<Rightarrow> JArr (map (\<lambda>(i, u). scrub_user i u) (enumerate 0 us)) | v \<Rightarrow> v)"

definition CONNECTOR_STATUS_RE :: "string \<Rightarrow> bool" where
  "CONNECTOR_STATUS_RE path = (case js_split (CHR ''/'') path of
       [a, b, c, d, e] \<Rightarrow> a = [] \<and> b = ''api'' \<and> c = ''connectors'' \<and> d \<noteq> [] \<and> e = ''status''
     | _ \<Rightarrow> False)"

definition DEEP_SCRUB_PATHS :: "string list" where
  "DEEP_SCRUB_PATHS = [''/api/system'', ''/api/system/logs'', ''/api/connectors'', ''/api/auth/mqtt-credentials'',
                       ''/api/mqtt/provisioning/status'']"

definition scrubForDemo :: "string \<Rightarrow> jsval \<Rightarrow> jsval" where
  "scrubForDemo path body =
     (if path = ''/api/auth/users'' then scrubUsers body
      else if path = ''/api/connectors/available'' then body
      else if path \<in> set DEEP_SCRUB_PATHS \<or> CONNECTOR_STATUS_RE path then deepScrub body
      else body)"

text \<open>What \<open>res.json(body)\<close> sends once the middleware has run.\<close>

definition demo_json :: "bool \<Rightarrow> http_request \<Rightarrow> jsval \<Rightarrow> jsval" where
  "demo_json enabled req body =
     (if \<not> enabled \<or> \<not> is_demo_session req then body else scrubForDemo (rq_path req) body)"


section \<open>Masked texts hold no address\<close>

text \<open>Four groups of one to three digits between dots, and a text that holds one on its own.\<close>

definition octet :: "string \<Rightarrow> bool" where
  "octet d \<longleftrightarrow> 1 \<le> length d \<and> length d \<le> 3 \<and> (\<forall>c\<in>set d. is_digit c)"

definition dotted_quad :: "string \<Rightarrow> bool" where
  "dotted_quad u \<longleftrightarrow> (\<exists>a b c d. octet a \<and> octet b \<and> octet c \<and> octet d \<and> u = a @ ''.'' @ b @ ''.'' @ c @ ''.'' @ d)"

definition ends_word :: "char option \<Rightarrow> string \<Rightarrow> bool" where
  "ends_word prev p \<longleftrightarrow> (if p = [] then (case prev of Some c \<Rightarrow> is_word c | None \<Rightarrow> False) else is_word (last p))"

definition starts_word :: "string \<Rightarrow> bool" where
  "starts_word r \<longleftrightarrow> r \<noteq> [] \<and> is_word (hd r)"

definition quad_at :: "char option \<Rightarrow> string \<Rightarrow> string \<Rightarrow> string \<Rightarrow> bool" where
  "quad_at prev p u r \<longleftrightarrow> dotted_quad u \<and> \<not> ends_word prev p \<and> \<not> starts_word r"

definition contains_ipv4 :: "string \<Rightarrow> bool" where
  "contains_ipv4 s \<longleftrightarrow> (\<exists>p u r. s = p @ u @ r \<and> quad_at None p u r)"

lemma digit_facts: "is_digit c \<Longrightarrow> is_word c \<and> c \<noteq> CHR 0x95 \<and> c \<noteq> CHR ''.''"
  by (auto simp: is_digit_def is_word_def is_alnum_def)

lemma octetD: "octet d \<Longrightarrow> d \<noteq> [] \<and> is_digit (hd d) \<and> is_digit (last d)"
  by (cases d) (auto simp: octet_def)

lemma quad_facts:
  assumes "dotted_quad u"
  shows "u \<noteq> []" "CHR 0x95 \<notin> set u" "is_word (hd u)" "is_word (last u)"
proof -
  obtain a b c d where u: "octet a" "octet b" "octet c" "octet d" "u = a @ ''.'' @ b @ ''.'' @ c @ ''.'' @ d"
    using assms by (auto simp: dotted_quad_def)
  show "u \<noteq> []" by (simp add: u(5))
  show "CHR 0x95 \<notin> set u" using u(1-4) digit_facts[of "CHR 0x95"] by (auto simp: u(5) octet_def)
  show "is_word (hd u)" "is_word (last u)" using octetD[OF u(1)] octetD[OF u(4)] digit_facts by (auto simp: u(5))
qed

lemma word_before_append: "word_before prev (p @ r) (length p) = ends_word prev p"
  by (cases p rule: rev_cases) (auto simp: word_before_def ends_word_def nth_append)

lemma word_after_append: "word_after (p @ r) (length p) = starts_word r"
  by (cases r) (auto simp: word_after_def starts_word_def nth_append)

lemma boundary_append: "boundary prev (p @ r) (length p) \<longleftrightarrow> ends_word prev p \<noteq> starts_word r"
  by (simp add: boundary_def word_before_append word_after_append)

lemma boundary_start: "boundary prev s 0 \<longleftrightarrow> ends_word prev [] \<noteq> starts_word s"
  using boundary_append[of prev "[]" s] by simp

subsection \<open>Matches lie between word boundaries\<close>

definition clean :: "(char option \<Rightarrow> string \<Rightarrow> nat option) \<Rightarrow> bool" where
  "clean re \<longleftrightarrow> (\<forall>prev s n. re prev s = Some n \<longrightarrow> n \<le> length s \<and> boundary prev s 0 \<and> boundary prev s n)"

lemma longest_boundary:
  assumes "longest cls lo hi prev s = Some n"
  shows "n \<le> length s \<and> boundary prev s n"
proof -
  let ?top = "case hi of Some h \<Rightarrow> min h (length (takeWhile cls s)) | None \<Rightarrow> length (takeWhile cls s)"
  have "n \<in> set (rev [lo..<Suc ?top]) \<and> boundary prev s n"
    using assms unfolding longest_def Let_def by (rule find_SomeD)
  moreover have "?top \<le> length (takeWhile cls s)" by (simp split: option.split)
  ultimately have "n \<le> length (takeWhile cls s)" "boundary prev s n" by auto
  then show ?thesis using length_takeWhile_le[of cls s] by simp
qed

lemma boundary_drop: "0 < k \<Longrightarrow> k \<le> length s \<Longrightarrow> boundary (Some (s ! (k - 1))) (drop k s) m = boundary prev s (k + m)"
  by (cases m) (auto simp: boundary_def word_before_def word_after_def)

lemma unit_lenD: "unit_len cls m sep s = Some k \<Longrightarrow> 0 < k \<and> k \<le> length s \<and> s ! (k - 1) = sep"
  by (auto simp: unit_len_def Let_def split: if_splits)

lemma unit_boundary:
  assumes "unit_len cls m sep s = Some k" and "n \<le> length (drop k s) \<and> boundary (Some sep) (drop k s) n"
  shows "k + n \<le> length s \<and> boundary prev s (k + n)"
  using unit_lenD[OF assms(1)] assms(2) boundary_drop[of k s n prev] by auto

lemma octets_boundary: "octets i prev s = Some n \<Longrightarrow> n \<le> length s \<and> boundary prev s n"
proof (induction i arbitrary: prev s n)
  case 0
  then show ?case using longest_boundary by simp
next
  case (Suc i)
  then obtain k m where k: "unit_len is_digit 3 (CHR ''.'') s = Some k" "octets i (Some (CHR ''.'')) (drop k s) = Some m" "n = k + m"
    by (auto split: option.splits)
  then show ?case using unit_boundary[OF k(1) Suc.IH[OF k(2)]] by simp
qed

lemma hextets_boundary: "hextets lo hi prev s = Some n \<Longrightarrow> n \<le> length s \<and> boundary prev s n"
proof (induction hi arbitrary: lo prev s n)
  case 0
  then show ?case using longest_boundary by (auto split: if_splits)
next
  case (Suc hi)
  show ?case
  proof (cases "unit_len is_hex 4 (CHR '':'') s")
    case None
    then show ?thesis using Suc.prems longest_boundary by (auto split: if_splits)
  next
    case (Some k)
    show ?thesis
    proof (cases "hextets (lo - 1) hi (Some (CHR '':'')) (drop k s)")
      case None
      then show ?thesis using Suc.prems Some longest_boundary by (auto split: if_splits)
    next
      case (Some m)
      then show ?thesis using Suc.prems unit_boundary[OF \<open>unit_len _ _ _ s = Some k\<close> Suc.IH[OF Some]] \<open>unit_len _ _ _ s = Some k\<close> by simp
    qed
  qed
qed

lemma clean_regexes: "clean IPV4_RE" "clean IPV6_RE" "clean LONG_TOKEN_RE"
  using octets_boundary hextets_boundary longest_boundary
  by (auto simp: clean_def IPV4_RE_def IPV6_RE_def LONG_TOKEN_RE_def split: if_splits simp del: octets.simps hextets.simps)

subsection \<open>What survives a replacement\<close>

lemma replace_mask_copied:
  assumes "replace_mask re prev s = u @ t" "CHR 0x95 \<notin> set u"
  shows "\<exists>s'. s = u @ s' \<and> t = replace_mask re (if u = [] then prev else Some (last u)) s'"
  using assms
proof (induction u arbitrary: prev s)
  case (Cons c u)
  then obtain r where s: "s = c # r" "replace_mask re (Some c) r = u @ t"
    by (cases s) (auto simp: MASK_def split: option.splits nat.splits)
  from Cons.IH[OF s(2)] Cons.prems(2) obtain s' where "r = u @ s'" "t = replace_mask re (if u = [] then Some c else Some (last u)) s'" by auto
  then show ?case using s(1) by (auto split: if_splits)
qed simp

lemma replace_mask_starts:
  assumes "clean re" "starts_word s" "ends_word prev []"
  shows "starts_word (replace_mask re prev s)"
proof -
  have "\<not> boundary prev s 0" using assms(2,3) by (simp add: boundary_start)
  then have "re prev s = None" using assms(1) by (cases "re prev s") (auto simp: clean_def)
  then show ?thesis using assms(2) by (cases s) (auto simp: starts_word_def)
qed

definition seen_as :: "char option \<Rightarrow> char option \<Rightarrow> string \<Rightarrow> bool" where
  "seen_as prev' prev s \<longleftrightarrow> prev' = prev \<or> prev' = Some (CHR 0x95) \<and> boundary prev s 0"

lemma quad_at_start:
  assumes re: "clean re" and eq: "replace_mask re prev s = u @ q" and quad: "quad_at prev' [] u q" and seen: "seen_as prev' prev s"
  shows "\<exists>r. s = u @ r \<and> quad_at prev [] u r"
proof -
  have u: "dotted_quad u" using quad by (simp add: quad_at_def)
  note f = quad_facts[OF u]
  obtain r where r: "s = u @ r" "q = replace_mask re (Some (last u)) r"
    using replace_mask_copied[OF eq f(2)] f(1) by auto
  have "\<not> starts_word r"
    using replace_mask_starts[OF re, of r "Some (last u)"] quad f(4) by (auto simp: r(2) quad_at_def ends_word_def)
  moreover have "starts_word s" using f(1,3) by (simp add: r(1) starts_word_def)
  then have "\<not> ends_word prev []" using quad seen by (auto simp: seen_as_def boundary_start quad_at_def)
  ultimately show ?thesis using u r(1) by (auto simp: quad_at_def)
qed

lemma mask_prefix: "MASK @ x = p @ u @ q \<Longrightarrow> u \<noteq> [] \<Longrightarrow> hd u \<noteq> CHR 0x95 \<Longrightarrow> \<exists>p2. p = MASK @ p2 \<and> x = p2 @ u @ q"
  by (auto simp: MASK_def Cons_eq_append_conv)

text \<open>An address in the result stands in the text as well, at a position where nothing was replaced.\<close>

lemma replace_mask_quad:
  assumes re: "clean re" and "replace_mask re prev s = p @ u @ q" "quad_at prev' p u q" "seen_as prev' prev s"
  shows "\<exists>p' r. s = p' @ u @ r \<and> quad_at prev p' u r
           \<and> (\<forall>n. re (if p' = [] then prev else Some (last p')) (u @ r) \<noteq> Some (Suc n))"
  using assms(2-)
proof (induction s arbitrary: prev p prev' rule: length_induct)
  case (1 s)
  have u: "dotted_quad u" using "1.prems"(2) by (simp add: quad_at_def)
  note f = quad_facts[OF u]
  obtain c t where s: "s = c # t" using "1.prems"(1) f(1) by (cases s) auto
  show ?case
  proof (cases "\<exists>n. re prev s = Some (Suc n)")
    case True
    then obtain n where n: "re prev s = Some (Suc n)" by blast
    let ?l = "last (c # take n t)"
    have "CHR 0x95 \<noteq> hd u" using f(1,2) by (cases u) auto
    then obtain p2 where p2: "p = MASK @ p2" "replace_mask re (Some ?l) (drop n t) = p2 @ u @ q"
      using mask_prefix[of _ p u q] "1.prems"(1) n f(1) by (auto simp: s)
    have k: "Suc n \<le> length s" "boundary prev s (Suc n)" using re n by (auto simp: clean_def)
    have "boundary (Some (s ! n)) (drop (Suc n) s) 0" using boundary_drop[of "Suc n" s 0 prev] k by simp
    moreover have l: "?l = s ! n" using k(1) by (cases n) (auto simp: s last_conv_nth nth_Cons' split: if_splits)
    ultimately have seen: "seen_as (Some (CHR 0x95)) (Some ?l) (drop n t)" by (simp add: seen_as_def s)
    have "quad_at (Some (CHR 0x95)) p2 u q" using "1.prems"(2) p2(1)
      by (auto simp: quad_at_def ends_word_def is_word_def is_alnum_def is_lower_def is_upper_def is_digit_def)
    moreover have "length (drop n t) < length s" by (simp add: s)
    ultimately obtain p' r where r: "drop n t = p' @ u @ r" "quad_at (Some ?l) p' u r"
      "\<forall>m. re (if p' = [] then Some ?l else Some (last p')) (u @ r) \<noteq> Some (Suc m)"
      using "1.IH" p2(2) seen by blast
    have "s = (c # take n t) @ p' @ u @ r" using r(1) by (simp add: s flip: r(1))
    then show ?thesis using r(2,3) 
      by - (rule exI[of _ "(c # take n t) @ p'"], rule exI[of _ r], cases "p' = []", auto simp: quad_at_def ends_word_def)
  next
    case False
    then have rep: "replace_mask re prev s = c # replace_mask re (Some c) t" by (auto simp: s split: option.splits nat.splits)
    show ?thesis
    proof (cases p)
      case Nil
      then obtain r where "s = u @ r" "quad_at prev [] u r" using quad_at_start[OF re, of prev s u q prev'] "1.prems" by auto
      then show ?thesis using False by (intro exI[of _ "[]"] exI[of _ r]) auto
    next
      case (Cons d p2)
      then have "d = c" "replace_mask re (Some c) t = p2 @ u @ q" using "1.prems"(1) rep by auto
      moreover have "quad_at (Some c) p2 u q" using "1.prems"(2) Cons \<open>d = c\<close> by (auto simp: quad_at_def ends_word_def)
      moreover have "length t < length s" "seen_as (Some c) (Some c) t" by (simp_all add: s seen_as_def)
      ultimately obtain p' r where r: "t = p' @ u @ r" "quad_at (Some c) p' u r"
        "\<forall>m. re (if p' = [] then Some c else Some (last p')) (u @ r) \<noteq> Some (Suc m)"
        using "1.IH" by blast
      then show ?thesis by (intro exI[of _ "c # p'"] exI[of _ r]) (auto simp: s quad_at_def ends_word_def)
    qed
  qed
qed

subsection \<open>The address expression finds every address\<close>

lemma takeWhile_octet: "octet d \<Longrightarrow> \<not> (r \<noteq> [] \<and> is_digit (hd r)) \<Longrightarrow> takeWhile is_digit (d @ r) = d"
  by (cases r) (auto simp: octet_def takeWhile_append)

lemma unit_octet: "octet d \<Longrightarrow> unit_len is_digit 3 (CHR ''.'') (d @ CHR ''.'' # r) = Some (Suc (length d))"
  using takeWhile_octet[of d "CHR ''.'' # r"] digit_facts[of "CHR ''.''"] by (auto simp: unit_len_def octet_def)

lemma last_octet: "octet d \<Longrightarrow> \<not> starts_word r \<Longrightarrow> longest is_digit 1 (Some 3) prev (d @ r) = Some (length d)"
proof -
  assume d: "octet d" and r: "\<not> starts_word r"
  have run: "takeWhile is_digit (d @ r) = d" using takeWhile_octet[OF d] r digit_facts by (auto simp: starts_word_def)
  have len: "1 \<le> length d" "length d \<le> 3" using d by (auto simp: octet_def)
  have "boundary prev (d @ r) (length d)" using octetD[OF d] r digit_facts by (auto simp: boundary_append ends_word_def)
  then show ?thesis using len by (simp add: longest_def run Let_def min_absorb2)
qed

lemma IPV4_RE_complete:
  assumes "quad_at prev [] u r"
  shows "IPV4_RE prev (u @ r) = Some (length u)"
proof -
  obtain a b c d where u: "octet a" "octet b" "octet c" "octet d" "u = a @ ''.'' @ b @ ''.'' @ c @ ''.'' @ d"
    using assms by (auto simp: quad_at_def dotted_quad_def)
  have "boundary prev (u @ r) 0" using assms quad_facts[of u] by (auto simp: boundary_start quad_at_def starts_word_def)
  moreover have "octets (Suc (Suc (Suc 0))) prev (u @ r) = Some (length u)"
    using u(1-3) last_octet[OF u(4), of r "Some (CHR ''.'')"] assms by (simp add: u(5) unit_octet quad_at_def)
  ultimately show ?thesis by (simp add: IPV4_RE_def numeral_3_eq_3)
qed

lemma scrubText_no_ipv4: "\<not> contains_ipv4 (scrubText v)"
proof
  have seen: "seen_as None None s" for s by (simp add: seen_as_def)
  assume "contains_ipv4 (scrubText v)"
  then obtain p u q where "scrubText v = p @ u @ q" "quad_at None p u q" by (auto simp: contains_ipv4_def)
  then obtain p1 q1 where "replace_mask IPV6_RE None (replace_mask IPV4_RE None v) = p1 @ u @ q1" "quad_at None p1 u q1"
    using replace_mask_quad[OF clean_regexes(3), of None _ p u q None, OF _ _ seen] unfolding scrubText_def by metis
  then obtain p2 q2 where "replace_mask IPV4_RE None v = p2 @ u @ q2" "quad_at None p2 u q2"
    using replace_mask_quad[OF clean_regexes(2), of None _ p1 u q1 None, OF _ _ seen] by metis
  then obtain p3 r where "quad_at None p3 u r"
    and none: "\<forall>n. IPV4_RE (if p3 = [] then None else Some (last p3)) (u @ r) \<noteq> Some (Suc n)"
    using replace_mask_quad[OF clean_regexes(1), of None v p2 u q2 None, OF _ _ seen] by metis
  then have quad: "quad_at (if p3 = [] then None else Some (last p3)) [] u r" by (auto simp: quad_at_def ends_word_def)
  then have "u \<noteq> []" using quad_facts(1) by (auto simp: quad_at_def)
  then show False using IPV4_RE_complete[OF quad] none by (cases "length u") auto
qed


text \<open>
  A value with nothing to hide: under a sensitive key only nothing, a truth value or the mask, and
  no text with an address in it.
\<close>

fun hidden_value :: "jsval \<Rightarrow> bool" where
  "hidden_value JUndefined \<longleftrightarrow> True"
| "hidden_value JNull \<longleftrightarrow> True"
| "hidden_value (JBool b) \<longleftrightarrow> True"
| "hidden_value v \<longleftrightarrow> v = JStr MASK"

fun discloses_nothing :: "jsval \<Rightarrow> bool" where
  "discloses_nothing (JStr s) \<longleftrightarrow> \<not> contains_ipv4 s"
| "discloses_nothing (JArr vs) \<longleftrightarrow> list_all discloses_nothing vs"
| "discloses_nothing (JObj kvs) \<longleftrightarrow>
     list_all (\<lambda>(k, v). if looksSensitiveKey k then hidden_value v else discloses_nothing v) kvs"
| "discloses_nothing _ \<longleftrightarrow> True"

lemma masked_hidden [simp]: "hidden_value (masked v)"
  by (cases v) auto

lemma deepScrub_discloses_nothing: "discloses_nothing (deepScrub v)"
proof (induction v rule: deepScrub.induct)
  case (3 kvs)
  then show ?case by (auto simp: list_all_iff)
qed (auto simp: scrubText_no_ipv4 list_all_iff)

fun name_hidden :: "nat \<Rightarrow> jsval \<Rightarrow> bool" where
  "name_hidden i (JObj user) \<longleftrightarrow> js_prop user ''username'' \<in> {JStr ''administrator'', JStr (''member-'' @ show_nat (i + 1))}"
| "name_hidden i _ \<longleftrightarrow> True"

definition usernames_hidden :: "jsval \<Rightarrow> bool" where
  "usernames_hidden body = (case body of JArr us \<Rightarrow> \<forall>i < length us. name_hidden i (us ! i) | _ \<Rightarrow> True)"

lemma scrub_user_hides: "name_hidden i (scrub_user i u)"
  by (cases u) (auto simp: js_prop_def)

lemma scrubUsers_hides: "usernames_hidden (scrubUsers body)"
  by (cases body) (simp_all add: usernames_hidden_def scrubUsers_def nth_enumerate_eq scrub_user_hides)


definition sample_visitor :: req_user where
  "sample_visitor = \<lparr>qu_userId = ''d'', qu_username = ''demo'', qu_role = RUser, qu_groupId = Some ''g'', qu_sessionType = Some SPublicDemo\<rparr>"

definition sample_demo_request :: "string \<Rightarrow> string \<Rightarrow> jsval \<Rightarrow> http_request" where
  "sample_demo_request method path body = \<lparr>rq_method = method, rq_path = path, rq_authorization = None, rq_contentLength = None,
     rq_params = [], rq_query = [], rq_body = body, rq_user = Some sample_visitor\<rparr>"

definition sample_system :: jsval where
  "sample_system = JObj [(''hostName'', JStr ''hub''), (''note'', JStr ''up on 10.0.0.7''), (''uptime'', JNum 5)]"


text \<open>
  What the masking does not cover: the allowlist ignores a trailing slash and masking does not, so
  the same page is answered unmasked; and an IPv6 address in its compressed form is no match.
\<close>

lemma trailing_slash_unmasked:
  "fst (publicDemoGuard True (sample_demo_request ''GET'' ''/api/system/'' JUndefined) g) = None
   \<and> demo_json True (sample_demo_request ''GET'' ''/api/system/'' JUndefined) body = body"
proof -
  have "is_demo_session (sample_demo_request ''GET'' ''/api/system/'' JUndefined)"
    "map_option (pe_validate \<circ> fst) (policy_match buildDemoPolicy ''GET'' ''/api/system/'') = Some None"
    "scrubForDemo ''/api/system/'' body = body" for body by code_simp+
  then show ?thesis by (auto simp: publicDemoGuard_def demo_json_def sample_demo_request_def)
qed

lemma compressed_ipv6_unmasked: "scrubText ''from 2001:db8::1 and fe80::1'' = ''from 2001:db8::1 and fe80::1''"
  by code_simp

section \<open>The guard of the public demo\<close>

subsection \<open>The cache of the rules' metadata\<close>

definition rule_access :: "demo_guard_state \<Rightarrow> string \<Rightarrow> demo_rule_access option" where
  "rule_access g r = parse_access (case map_of (dg_rules g) r of Some column \<Rightarrow> column | None \<Rightarrow> None)"

datatype demo_op = DemoRequest bool http_request | DemoStore state_op

fun demo_step :: "demo_op \<Rightarrow> demo_guard_state \<Rightarrow> demo_guard_state" where
  "demo_step (DemoRequest enabled req) g = snd (publicDemoGuard enabled req g)"
| "demo_step (DemoStore a) g = g\<lparr>dg_store := state_step a (dg_store g)\<rparr>"

fun demo_ok :: "demo_op \<Rightarrow> demo_guard_state \<Rightarrow> bool" where
  "demo_ok (DemoRequest enabled req) g = True"
| "demo_ok (DemoStore a) g = state_ok a (dg_store g)"

definition demo_init :: "(string, string option) jsmap \<Rightarrow> demo_guard_state" where
  "demo_init rules = \<lparr>dg_rules = rules, dg_cache = [], dg_store = state_empty\<rparr>"

definition demo_inv :: "demo_guard_state \<Rightarrow> bool" where
  "demo_inv g \<longleftrightarrow> (\<forall>r. map_of (dg_cache g) r \<in> {None, Some (rule_access g r)}) \<and> state_inv (dg_store g)"

text \<open>What a request leaves as it was: everything but the cache.\<close>

definition cached_only :: "demo_guard_state \<Rightarrow> demo_guard_state \<Rightarrow> bool" where
  "cached_only g g' \<longleftrightarrow> dg_rules g' = dg_rules g \<and> dg_store g' = dg_store g \<and> (demo_inv g \<longrightarrow> demo_inv g')"

lemma access_for_exact:
  assumes "demo_inv g"
  shows "fst (access_for (Some r) g) = (if r = [] then None else rule_access g r)"
proof -
  have "map_of (dg_cache g) r \<in> {None, Some (rule_access g r)}" using assms by (simp add: demo_inv_def)
  then show ?thesis by (auto simp: access_for_def js_truthy_def getDemoRuleAccess_def rule_access_def Let_def split: option.splits)
qed

lemma access_for_cached: "cached_only g (snd (access_for r g))"
  by (auto simp: access_for_def getDemoRuleAccess_def cached_only_def demo_inv_def rule_access_def Let_def split: option.splits)

lemma cached_refl [simp]: "cached_only g g"
  by (simp add: cached_only_def)

lemma bounds_cached: "cached_only g (snd (assertDemoStateWriteWithinBounds r k v g))"
  using access_for_cached[of g r]
  by (auto simp: assertDemoStateWriteWithinBounds_def split: jsval.split json_out.split prod.split)

lemma validator_cached: "cached_only g (snd (run_validator v req params g))"
  using bounds_cached[of g] access_for_cached[of g]
  by (cases v) (auto simp: validateDemoStateWrite_def validateDemoFire_def Let_def case_prod_beta split: option.split jsval.split)

lemma guard_cached: "cached_only g (snd (publicDemoGuard enabled req g))"
  using validator_cached by (auto simp: publicDemoGuard_def split: option.split prod.split)

interpretation demo: invariant_machine demo_step demo_ok "demo_init rules" demo_inv for rules
proof
  show "demo_inv (demo_init rules)"
    using automation_state.inv_init by (simp add: demo_inv_def demo_init_def)
  show "demo_inv g \<Longrightarrow> demo_ok a g \<Longrightarrow> demo_inv (demo_step a g)" for a g
  proof (cases a)
    case (DemoRequest e req)
    assume "demo_inv g"
    then show ?thesis using guard_cached[of g e req] DemoRequest by (simp add: cached_only_def)
  next
    case (DemoStore b)
    assume "demo_inv g" "demo_ok a g"
    then show ?thesis using automation_state.inv_step[of "dg_store g" b] DemoStore by (simp add: demo_inv_def rule_access_def)
  qed
qed

subsection \<open>What passes\<close>

definition seg_fits :: "string \<Rightarrow> string \<Rightarrow> bool" where
  "seg_fits p s \<longleftrightarrow> s \<noteq> [] \<and> (js_startsWith p '':'' \<or> p = s)"

definition demo_write_ok :: "demo_guard_state \<Rightarrow> string \<Rightarrow> jsval \<Rightarrow> jsval \<Rightarrow> bool" where
  "demo_write_ok g rule keyv v \<longleftrightarrow>
     (\<exists>key. keyv = JStr key \<and> key \<noteq> [] \<and> length key \<le> 64
        \<and> \<not> has_bigint v \<and> utf8_bytes (json_text v) \<le> 8192
        \<and> allowlisted (Option.bind (rule_access g rule) da_writableStateKeys) key
        \<and> (state_get rule key (dg_store g) \<noteq> None \<or> length (state_getAll rule (dg_store g)) < 100))"

definition demo_fire_ok :: "demo_guard_state \<Rightarrow> string \<Rightarrow> jsval \<Rightarrow> bool" where
  "demo_fire_ok g rule body \<longleftrightarrow> is_object body \<and> js_member body ''context'' = JUndefined
     \<and> ((\<exists>ob. js_member body ''stateSet'' = JObj ob \<and> jm_has ob ''value'' \<and> demo_write_ok g rule (js_prop ob ''key'') (js_prop ob ''value''))
        \<or> js_member body ''stateSet'' = JUndefined
          \<and> (\<exists>ev. js_member body ''eventName'' = JStr ev \<and> ev \<noteq> []
                \<and> allowlisted (Option.bind (rule_access g rule) da_fireEvents) ev))"

lemma match_segments_iff:
  "list_all (\<lambda>s. s \<noteq> []) rs \<Longrightarrow> match_segments ps rs params \<noteq> None \<longleftrightarrow> list_all2 seg_fits ps rs"
  by (induction ps rs params rule: match_segments.induct) (auto simp: seg_fits_def)

lemma splitPath_nonempty: "list_all (\<lambda>s. s \<noteq> []) (splitPath path)"
  by (simp add: splitPath_def list_all_iff)

lemma json_text_null: "json_text (if v = JUndefined then JNull else v) = json_text v" "has_bigint (if v = JUndefined then JNull else v) = has_bigint v"
  by auto

lemma state_getAll_has: "jm_has (state_getAll r s) k \<longleftrightarrow> state_get r k s \<noteq> None"
  by (simp add: state_getAll_def state_get_def nest_get_def jm_has_def split: option.split)

lemma bounds_exact:
  assumes "demo_inv g" "rule \<noteq> []"
  shows "fst (assertDemoStateWriteWithinBounds (Some rule) k v g) = None \<longleftrightarrow> demo_write_ok g rule k v"
proof (cases k)
  case (JStr key)
  have store: "dg_store (snd (access_for (Some rule) g)) = dg_store g" using access_for_cached[of g "Some rule"] by (simp add: cached_only_def)
  have acc: "fst (access_for (Some rule) g) = rule_access g rule" using access_for_exact[OF assms(1), of rule] assms(2) by simp
  have room: "key_room (Some rule) key (snd (access_for (Some rule) g)) = None \<longleftrightarrow>
      state_get rule key (dg_store g) \<noteq> None \<or> length (state_getAll rule (dg_store g)) < 100"
    using assms(2) by (auto simp: key_room_def js_truthy_def store state_getAll_has DEMO_MAX_KEYS_PER_RULE_def Let_def)
  show ?thesis unfolding assertDemoStateWriteWithinBounds_def demo_write_ok_def JStr
    by (auto simp: json_stringify_def json_text_null case_prod_beta acc room DEMO_MAX_KEY_LENGTH_def DEMO_MAX_VALUE_BYTES_def)
qed (simp_all add: assertDemoStateWriteWithinBounds_def demo_write_ok_def)

lemma read_skip: "js_toUpperCase m \<noteq> ''GET'' \<Longrightarrow> policy_match (map demo_read ps @ es) m path = policy_match es m path"
proof -
  have "js_toUpperCase ''GET'' = ''GET''" by code_simp
  then show "js_toUpperCase m \<noteq> ''GET'' \<Longrightarrow> ?thesis" by (induction ps) (auto simp: demo_read_def)
qed

lemma read_match:
  assumes m: "js_toUpperCase m = ''GET''" and es: "policy_match es m path = None"
  shows "(case policy_match (map demo_read ps @ es) m path of
            None \<Rightarrow> \<not> (\<exists>p\<in>set ps. list_all2 seg_fits (splitPath p) (splitPath path))
          | Some (e, params) \<Rightarrow> pe_validate e = None \<and> (\<exists>p\<in>set ps. list_all2 seg_fits (splitPath p) (splitPath path)))"
proof -
  have "js_toUpperCase ''GET'' = ''GET''" by code_simp
  note get = this
  show ?thesis
  proof (induction ps)
    case Nil
    then show ?case by (simp add: es)
  next
    case (Cons p ps)
    show ?case
    proof (cases "match_segments (splitPath p) (splitPath path) []")
      case None
      then have "\<not> list_all2 seg_fits (splitPath p) (splitPath path)" using match_segments_iff[OF splitPath_nonempty] by blast
      then have ex: "(\<exists>q\<in>set (p # ps). list_all2 seg_fits (splitPath q) (splitPath path)) \<longleftrightarrow>
          (\<exists>q\<in>set ps. list_all2 seg_fits (splitPath q) (splitPath path))" by simp
      have eq: "policy_match (map demo_read (p # ps) @ es) m path = policy_match (map demo_read ps @ es) m path"
        using None by (simp add: demo_read_def get m)
      show ?thesis unfolding ex eq by (rule Cons.IH)
    next
      case (Some params)
      then have "list_all2 seg_fits (splitPath p) (splitPath path)" using match_segments_iff[OF splitPath_nonempty] by blast
      moreover have eq: "policy_match (map demo_read (p # ps) @ es) m path = Some (demo_read p, params)"
        using Some by (simp add: demo_read_def get m)
      ultimately show ?thesis unfolding eq by (simp add: demo_read_def)
    qed
  qed
qed

lemma match_Cons: "match_segments (p # ps) segs params = Some res \<longleftrightarrow>
    (\<exists>r rs. segs = r # rs \<and> (if js_startsWith p '':'' then r \<noteq> [] \<and> match_segments ps rs (AList.update (drop 1 p) r params) = Some res
                            else p = r \<and> match_segments ps rs params = Some res))"
  by (cases segs) auto

lemma match_Nil: "match_segments [] segs params = Some res \<longleftrightarrow> segs = [] \<and> res = params"
  by (cases segs) auto

lemma mutation_match:
  assumes "\<not> js_startsWith x '':''" "list_all (\<lambda>s. s \<noteq> []) segs"
  shows "match_segments [''api'', ''automations'', '':id'', x] segs [] = Some params \<longleftrightarrow>
     (\<exists>rule. segs = [''api'', ''automations'', rule, x] \<and> params = [(''id'', rule)])"
  using assms by (auto simp: match_Cons match_Nil)

text \<open>The two entries that carry a validator.\<close>

definition mutation_entry :: "string \<Rightarrow> string \<Rightarrow> demo_validator \<Rightarrow> demo_policy_entry" where
  "mutation_entry m act v = \<lparr>pe_method = m, pe_pattern = ''/api/automations/:id/'' @ act, pe_validate = Some v\<rparr>"

lemma policy_split: "buildDemoPolicy = map demo_read demo_read_patterns @
    [mutation_entry ''PUT'' ''state'' ValidateDemoStateWrite, mutation_entry ''POST'' ''fire'' ValidateDemoFire]"
  by (simp add: buildDemoPolicy_def mutation_entry_def)

lemma method_upper: "js_toUpperCase ''GET'' = ''GET''" "js_toUpperCase ''PUT'' = ''PUT''" "js_toUpperCase ''POST'' = ''POST''"
  by code_simp+

lemma mutation_paths: "splitPath (''/api/automations/:id/'' @ ''state'') = [''api'', ''automations'', '':id'', ''state'']"
  "splitPath (''/api/automations/:id/'' @ ''fire'') = [''api'', ''automations'', '':id'', ''fire'']"
  by code_simp+

lemma no_policy_for_get: "js_toUpperCase m = ''GET'' \<Longrightarrow> policy_match
    [mutation_entry ''PUT'' ''state'' ValidateDemoStateWrite, mutation_entry ''POST'' ''fire'' ValidateDemoFire] m path = None"
  by (simp add: mutation_entry_def method_upper)

lemma policy_mutation:
  assumes "js_toUpperCase m \<noteq> ''GET''"
  shows "policy_match buildDemoPolicy m path = Some (e, params) \<longleftrightarrow>
    (\<exists>rule. params = [(''id'', rule)] \<and>
       (js_toUpperCase m = ''PUT'' \<and> splitPath path = [''api'', ''automations'', rule, ''state''] \<and> e = mutation_entry ''PUT'' ''state'' ValidateDemoStateWrite
      \<or> js_toUpperCase m = ''POST'' \<and> splitPath path = [''api'', ''automations'', rule, ''fire''] \<and> e = mutation_entry ''POST'' ''fire'' ValidateDemoFire))"
proof -
  have st: "\<not> js_startsWith ''state'' '':''" and fi: "\<not> js_startsWith ''fire'' '':''" by simp_all
  note put = mutation_match[OF st splitPath_nonempty[of path]] and post = mutation_match[OF fi splitPath_nonempty[of path]]
  note simps = mutation_entry_def method_upper mutation_paths
  show ?thesis
  proof (cases "js_toUpperCase m = ''PUT''")
    case True
    then show ?thesis unfolding policy_split read_skip[OF assms] using put
      by (auto simp del: match_segments.simps append_Cons simp: simps split: option.splits)
  next
    case False
    then show ?thesis unfolding policy_split read_skip[OF assms] using post
      by (auto simp del: match_segments.simps append_Cons simp: simps split: option.splits)
  qed
qed

lemma body_limit: "assertBodyWithinDemoLimit req = None \<longleftrightarrow>
    (\<forall>n. js_Number (case rq_contentLength req of Some t \<Rightarrow> t | None \<Rightarrow> ''0'') = Some n \<longrightarrow> n \<le> 16384)"
  by (auto simp: assertBodyWithinDemoLimit_def DEMO_MAX_BODY_BYTES_def split: option.split)

lemma fire_exact:
  assumes "demo_inv g" "rule \<noteq> []"
  shows "fst (validateDemoFire req [(''id'', rule)] g) = None \<longleftrightarrow>
    assertBodyWithinDemoLimit req = None \<and> demo_fire_ok g rule (request_body req)"
proof -
  have acc: "fst (access_for (Some rule) g) = rule_access g rule" using access_for_exact[OF assms(1), of rule] assms(2) by simp
  show ?thesis using bounds_exact[OF assms]
    by (auto simp: validateDemoFire_def demo_fire_ok_def demo_rule_id_def Let_def case_prod_beta acc split: option.split jsval.splits)
qed

lemma write_exact:
  assumes "demo_inv g" "rule \<noteq> []"
  shows "fst (validateDemoStateWrite req [(''id'', rule)] g) = None \<longleftrightarrow>
    assertBodyWithinDemoLimit req = None \<and> demo_write_ok g rule (js_member (request_body req) ''key'') (js_member (request_body req) ''value'')"
  using bounds_exact[OF assms] by (auto simp: validateDemoStateWrite_def demo_rule_id_def split: option.split)

lemma guard_get:
  assumes "is_demo_session req" "js_toUpperCase (rq_method req) = ''GET''"
  shows "fst (publicDemoGuard True req g) = None \<longleftrightarrow>
    (\<exists>p\<in>set demo_read_patterns. list_all2 seg_fits (splitPath p) (splitPath (rq_path req)))"
proof -
  note m = read_match[OF assms(2) no_policy_for_get[OF assms(2)], of demo_read_patterns "rq_path req"]
  show ?thesis
  proof (cases "policy_match buildDemoPolicy (rq_method req) (rq_path req)")
    case None
    then show ?thesis using m assms(1) by (simp add: publicDemoGuard_def policy_split)
  next
    case (Some a)
    then show ?thesis using m assms(1) by (cases a) (simp add: publicDemoGuard_def policy_split)
  qed
qed

lemma guard_mutation:
  assumes "demo_inv g" "is_demo_session req" "js_toUpperCase (rq_method req) \<noteq> ''GET''"
  shows "fst (publicDemoGuard True req g) = None \<longleftrightarrow>
    (\<exists>rule. assertBodyWithinDemoLimit req = None \<and>
       (js_toUpperCase (rq_method req) = ''PUT'' \<and> splitPath (rq_path req) = [''api'', ''automations'', rule, ''state'']
          \<and> demo_write_ok g rule (js_member (request_body req) ''key'') (js_member (request_body req) ''value'')
      \<or> js_toUpperCase (rq_method req) = ''POST'' \<and> splitPath (rq_path req) = [''api'', ''automations'', rule, ''fire'']
          \<and> demo_fire_ok g rule (request_body req)))"
proof -
  note pol = policy_mutation[OF assms(3), of "rq_path req"]
  have seg: "rule \<noteq> []" if "splitPath (rq_path req) = [a, b, rule, c]" for a b c rule
    using that splitPath_nonempty[of "rq_path req"] by simp
  show ?thesis
  proof (cases "policy_match buildDemoPolicy (rq_method req) (rq_path req)")
    case None
    then have "\<not> (js_toUpperCase (rq_method req) = ''PUT'' \<and> splitPath (rq_path req) = [''api'', ''automations'', rule, ''state''])"
      "\<not> (js_toUpperCase (rq_method req) = ''POST'' \<and> splitPath (rq_path req) = [''api'', ''automations'', rule, ''fire''])" for rule
      using pol by auto
    then show ?thesis using None assms(2) by (auto simp: publicDemoGuard_def)
  next
    case (Some a)
    then show ?thesis using pol[of "fst a" "snd a"] assms(2) seg write_exact[OF assms(1)] fire_exact[OF assms(1)]
      by (cases a) (auto simp: publicDemoGuard_def mutation_entry_def)
  qed
qed

text \<open>A write that clears the bounds takes no rule past the cap.\<close>

lemma update_length: "length (AList.update k v m) = (if jm_has m k then length m else Suc (length m))"
  by (induction m) (auto simp: jm_has_def)

lemma write_keeps_cap:
  assumes "demo_write_ok g rule (JStr key) v"
  shows "length (state_getAll rule (snd (state_set rule key v (dg_store g)))) \<le> max 100 (length (state_getAll rule (dg_store g)))"
proof -
  have room: "jm_has (state_getAll rule (dg_store g)) key \<or> length (state_getAll rule (dg_store g)) < 100"
    using assms by (auto simp: demo_write_ok_def state_getAll_has)
  have "state_getAll rule (s\<lparr>sa_table := a, sa_cache := nest_set (rule, key) v (sa_cache s), sa_serialized := b\<rparr>)
     = AList.update key v (state_getAll rule s)" for s a b
    by (auto simp: state_getAll_def nest_set_eq jm_has_def split: option.splits)
  then show ?thesis using room by (auto simp: state_set_def update_length split: json_out.split)
qed


definition sample_rules :: "(string, string option) jsmap" where
  "sample_rules = [(''r1'', Some (json_text (JObj [(''writableStateKeys'', JArr [JStr ''level''])])))]"

definition sample_write :: "string \<Rightarrow> string \<Rightarrow> http_request" where
  "sample_write path key = sample_demo_request ''PUT'' path (JObj [(''key'', JStr key), (''value'', JNum 3)])"


text \<open>
  The guard reads the rule's id from the raw path; the router of the application hands the handler
  the decoded one. An id written with an escape is therefore unknown to the validators, and the
  rule's list of writable keys is not applied.
\<close>

text \<open>\<open>decodeURIComponent\<close> for escapes below 128.\<close>

fun percent_decode :: "string \<Rightarrow> string option" where
  "percent_decode [] = Some []"
| "percent_decode (c # r) =
     (if c \<noteq> CHR ''%'' then map_option (Cons c) (percent_decode r)
      else case r of
        a # b # q \<Rightarrow> (case (hex_value a, hex_value b) of
            (Some x, Some y) \<Rightarrow> if 16 * x + y < 128 then map_option (Cons (char_of (16 * x + y))) (percent_decode q) else None
          | _ \<Rightarrow> None)
      | _ \<Rightarrow> None)"

lemma escaped_id_bypasses_allowlist:
  "fst (publicDemoGuard True (sample_write ''/api/automations/r1/state'' ''mode'') (demo_init sample_rules))
     = Some (GForbidden ''This state key is not writable in the public demo'')
   \<and> fst (publicDemoGuard True (sample_write ''/api/automations/r%31/state'' ''mode'') (demo_init sample_rules)) = None
   \<and> percent_decode ''r%31'' = Some ''r1''"
  by code_simp

text \<open>
  The relaxation of \<open>requireAdmin\<close> for demo sessions does not ask whether demo mode is on, while the guard
  and the masking do: a demo token that is still valid once the mode is off reads administrator pages as
  they are.
\<close>

lemma demo_token_without_demo_mode:
  assumes "is_demo_session req" "isReadOnlyMethod (rq_method req)"
  shows "requireAdmin req = None \<and> publicDemoGuard False req g = (None, g) \<and> demo_json False req body = body"
  using assms by (auto simp: is_demo_session_def requireAdmin_def publicDemoGuard_def demo_json_def bind_eq_Some_conv)

section \<open>Who reaches a device or an automation\<close>

lemma resource_permission_rows:
  assumes "auth_keys db"
  shows "hasResourcePermission reg uid kind rid level db \<longleftrightarrow>
    (\<exists>g t p. getUserGroupId uid db = Some g \<and> t \<in> set (exposingTabs reg kind rid db)
       \<and> (g, t, p) \<in> set (ad_group_tabs db) \<and> PERMISSION_RANK level \<le> PERMISSION_RANK p)"
  using rank_reaches[OF assms, of "PERMISSION_RANK level" "exposingTabs reg kind rid db"]
  by (auto simp: hasResourcePermission_def split: option.split)

lemma verified_claims:
  "fst (verifyAccessToken env token fresh now s) = Some payload \<longleftrightarrow>
    (\<exists>claims expiry. ev_jwt_verify env token (fst (getSecret env fresh s)) now = Some (claims, expiry)
       \<and> payload = claims\<lparr>ap_sessionType := Some (if ap_sessionType claims = Some SPublicDemo then SPublicDemo else SNormal)\<rparr>)"
  by (auto simp: verifyAccessToken_def Let_def case_prod_beta split: option.split)

lemma authenticate_passes:
  assumes "\<not> isPublicRoute req"
  shows "fst (authenticate env fresh now req s) = Inr r \<longleftrightarrow>
    (\<exists>token payload. rq_authorization req = Some (''Bearer '' @ token) \<and> token \<noteq> []
       \<and> fst (verifyAccessToken env token fresh now s) = Some payload \<and> r = req\<lparr>rq_user := Some (user_of_payload payload)\<rparr>)"
proof (cases "rq_authorization req")
  case None
  then show ?thesis using assms by (simp add: authenticate_def js_truthy_def)
next
  case (Some h)
  show ?thesis
  proof (cases "js_startsWith h ''Bearer ''")
    case True
    then obtain token where h: "h = ''Bearer '' @ token" by (auto simp: prefix_def)
    then have "fst (authenticate env fresh now req s) =
       (if token = [] then Inl (GUnauthorized ''Unauthorized'')
        else case fst (verifyAccessToken env token fresh now s) of None \<Rightarrow> Inl (GUnauthorized ''Unauthorized'')
           | Some payload \<Rightarrow> Inr (req\<lparr>rq_user := Some (user_of_payload payload)\<rparr>))"
      using assms Some by (simp add: authenticate_def js_truthy_def Let_def case_prod_beta split: option.split prod.split)
    then show ?thesis using Some h by (auto split: option.splits)
  next
    case False
    then have "\<nexists>token. h = ''Bearer '' @ token" by (auto simp: prefix_def)
    then show ?thesis using assms Some False by (auto simp: authenticate_def js_truthy_def)
  qed
qed

lemma authenticate_refuses: "fst (authenticate env fresh now req s) = Inl e \<Longrightarrow> e = GUnauthorized ''Unauthorized''"
  by (auto simp: authenticate_def Let_def split: if_splits option.splits prod.splits)

lemma resource_guard_exact:
  assumes "auth_keys db" "rq_user r = Some u"
  shows "createResourceGuard reg kind level there db r = None \<longleftrightarrow> qu_role u = RAdmin \<or>
     (\<exists>rid g t p. map_of (rq_params r) ''id'' = Some rid \<and> rid \<noteq> [] \<and> there rid
        \<and> getUserGroupId (qu_userId u) db = Some g \<and> t \<in> set (exposingTabs reg kind rid db)
        \<and> (g, t, p) \<in> set (ad_group_tabs db) \<and> PERMISSION_RANK level \<le> PERMISSION_RANK p)"
  unfolding createResourceGuard_def assms(2) js_truthy_def
  by (cases "map_of (rq_params r) ''id''") (simp_all add: resource_permission_rows[OF assms(1)])

text \<open>C15. Who reaches the handler of a device or an automation. A request to a route that is not public
  gets past authentication exactly with a bearer token that verifies under the server's secret, and then
  acts as the user the token names; otherwise the answer is 401. Past the guard of the resource get
  exactly administrators and users whose group has a row, on a tab exposing the resource, that grants at
  least the required level; the resource is the one the path names, and it must exist. Anybody else gets
  404 when there is no such resource, and 403 only for a resource that exists.\<close>

theorem resource_request_authorized:
  assumes "\<not> isPublicRoute req" "auth_keys db"
  shows "(fst (authenticate env fresh now req s) = Inr r \<longleftrightarrow>
      (\<exists>token claims expiry. rq_authorization req = Some (''Bearer '' @ token) \<and> token \<noteq> []
        \<and> ev_jwt_verify env token (fst (getSecret env fresh s)) now = Some (claims, expiry)
        \<and> r = req\<lparr>rq_user := Some \<lparr>qu_userId = ap_userId claims, qu_username = ap_username claims, qu_role = ap_role claims,
                qu_groupId = ap_groupId claims,
                qu_sessionType = Some (if ap_sessionType claims = Some SPublicDemo then SPublicDemo else SNormal)\<rparr>\<rparr>))
    \<and> (fst (authenticate env fresh now req s) = Inl e \<longrightarrow> e = GUnauthorized ''Unauthorized'')
    \<and> (rq_user r = Some u \<longrightarrow>
        (createResourceGuard reg kind level there db r = None \<longleftrightarrow> qu_role u = RAdmin \<or>
           (\<exists>rid g t p. map_of (rq_params r) ''id'' = Some rid \<and> rid \<noteq> [] \<and> there rid
              \<and> getUserGroupId (qu_userId u) db = Some g \<and> t \<in> set (exposingTabs reg kind rid db)
              \<and> (g, t, p) \<in> set (ad_group_tabs db) \<and> PERMISSION_RANK level \<le> PERMISSION_RANK p))
        \<and> (createResourceGuard reg kind level there db r = Some (GForbidden text) \<longrightarrow>
             (\<exists>rid. map_of (rq_params r) ''id'' = Some rid \<and> there rid)))"
    (is "?auth \<and> ?err \<and> (_ \<longrightarrow> ?guard \<and> _)")
proof (intro conjI impI)
  have payload: "user_of_payload (claims\<lparr>ap_sessionType := Some x\<rparr>) = \<lparr>qu_userId = ap_userId claims, qu_username = ap_username claims,
      qu_role = ap_role claims, qu_groupId = ap_groupId claims, qu_sessionType = Some x\<rparr>" for claims x
    by (simp add: user_of_payload_def)
  show ?auth unfolding authenticate_passes[OF assms(1)] verified_claims payload[symmetric] by blast
  show "fst (authenticate env fresh now req s) = Inl e \<Longrightarrow> e = GUnauthorized ''Unauthorized''" by (rule authenticate_refuses)
  assume u: "rq_user r = Some u"
  show ?guard by (rule resource_guard_exact[OF assms(2) u])
  show "\<exists>rid. map_of (rq_params r) ''id'' = Some rid \<and> there rid" if "createResourceGuard reg kind level there db r = Some (GForbidden text)"
    using that u by (auto simp: createResourceGuard_def js_truthy_def split: option.splits if_splits)
qed

definition sample_jwt :: auth_env where
  "sample_jwt = \<lparr>ev_JWT_SECRET = Some ''k'', ev_bcrypt_hash = (\<lambda>p n. p), ev_bcrypt_compare = (=), ev_sha256 = id,
     ev_jwt_sign = (\<lambda>c k e n. ap_userId c @ k), ev_jwt_verify = (\<lambda>t k n. if t = ''ann'' @ k
       then Some (\<lparr>ap_userId = ''ann'', ap_username = ''Ann'', ap_role = RUser, ap_groupId = None, ap_sessionType = None\<rparr>, 9) else None)\<rparr>"

definition sample_state_request :: http_request where
  "sample_state_request = \<lparr>rq_method = ''PUT'', rq_path = ''/api/automations/r1/state'', rq_authorization = Some ''Bearer annk'',
     rq_contentLength = None, rq_params = [(''id'', ''r1'')], rq_query = [], rq_body = JUndefined, rq_user = None\<rparr>"

theorem resource_request_authorized_witness:
  "createResourceGuard sample_registry KAutomation PInteract (automationExists sample_auth) sample_auth
     (sample_state_request\<lparr>rq_user := Some \<lparr>qu_userId = ''ann'', qu_username = ''Ann'', qu_role = RUser, qu_groupId = None,
        qu_sessionType = Some SNormal\<rparr>\<rparr>) = None
   \<and> (\<exists>r. fst (authenticate sample_jwt ''f'' 0 sample_state_request (ay_db auth_empty)) = Inr r)"
proof -
  have p: "\<not> isPublicRoute sample_state_request" by code_simp
  have k: "auth_keys sample_auth" by (simp add: auth_keys_def sample_auth_def)
  let ?u = "\<lparr>qu_userId = ''ann'', qu_username = ''Ann'', qu_role = RUser, qu_groupId = None, qu_sessionType = Some SNormal\<rparr>"
  have row: "getUserGroupId ''ann'' sample_auth = Some ''g''" "''t1'' \<in> set (exposingTabs sample_registry KAutomation ''r1'' sample_auth)"
    "automationExists sample_auth ''r1''" "(''g'', ''t1'', PInteract) \<in> set (ad_group_tabs sample_auth)" by code_simp+
  have par: "map_of (rq_params (sample_state_request\<lparr>rq_user := Some ?u\<rparr>)) ''id'' = Some ''r1''" by code_simp
  have u: "rq_user (sample_state_request\<lparr>rq_user := Some ?u\<rparr>) = Some ?u" by simp
  note exact = resource_request_authorized[OF p k, THEN conjunct2, THEN conjunct2, THEN mp, OF u, THEN conjunct1]
  have 1: "createResourceGuard sample_registry KAutomation PInteract (automationExists sample_auth) sample_auth
      (sample_state_request\<lparr>rq_user := Some ?u\<rparr>) = None"
    by (rule iffD2[OF exact], rule disjI2, intro exI conjI, rule par, simp, rule row(3), simp add: row(1), rule row(2), rule row(4), simp)
  have ver: "ev_jwt_verify sample_jwt ''annk'' (fst (getSecret sample_jwt ''f'' (ay_db auth_empty))) 0 = Some
      (\<lparr>ap_userId = ''ann'', ap_username = ''Ann'', ap_role = RUser, ap_groupId = None, ap_sessionType = None\<rparr>, 9)"
    and auth: "rq_authorization sample_state_request = Some (''Bearer '' @ ''annk'')" by code_simp+
  have 2: "\<exists>r. fst (authenticate sample_jwt ''f'' 0 sample_state_request (ay_db auth_empty)) = Inr r"
    by (intro exI, rule iffD2[OF conjunct1[OF resource_request_authorized[OF p k]]], intro exI conjI, rule auth, simp, rule ver, rule refl)
  show ?thesis by (rule conjI[OF 1 2])
qed

end
