(* ===== verification/Live_Updates.thy ===== *)
theory Live_Updates
  imports Auth_Service Mqtt_Topics
begin

text \<open>
  Live updates over WebSocket (src/websocket/ws-server.ts), the visibility of data-store events
  (src/websocket/data-store-visibility.ts) and the mappings of src/index.ts from events of the bus to
  messages and their audience.

  A connection is a record with its timers and listeners; the \<open>ws\<close> library, the clock and the
  scheduler are the operations of \<open>ws_step\<close>. What a connection is sent is its log \<open>sk_sent\<close>. The
  tables, the registry and the private topics that an event is judged by are arguments of the step
  that delivers it. An exception no handler catches ends the process. Log lines are not modelled.

  The lemmas show who is sent what, that the first snapshot and the later updates follow one rule, and
  that a connection is sent nothing before it is authenticated nor after it is closed.
\<close>

section \<open>Audiences\<close>

datatype envelope = VPublic | VAdmin | VTabs "string list"

record ws_client =
  wc_userId :: string
  wc_role :: principal_role
  wc_groupId :: "string option"
  wc_accessibleTabIds :: "string list"

definition ADMIN_ONLY :: envelope where "ADMIN_ONLY = VAdmin"

definition canObserve :: "ws_client \<Rightarrow> envelope \<Rightarrow> bool" where
  "canObserve client e =
     (if wc_role client = RAdmin then True
      else case e of VPublic \<Rightarrow> True | VAdmin \<Rightarrow> False
           | VTabs tabIds \<Rightarrow> list_ex (\<lambda>t. t \<in> set (wc_accessibleTabIds client)) tabIds)"

text \<open>What an event is judged by.\<close>

record live_view =
  lv_registry :: registry
  lv_db :: auth_db
  lv_private :: private_topic_store

definition stringField :: "jsval \<Rightarrow> string \<Rightarrow> string option" where
  "stringField data field = (case data of
       JObj kvs \<Rightarrow> (case js_prop kvs field of JStr s \<Rightarrow> Some s | _ \<Rightarrow> None)
     | _ \<Rightarrow> None)"

definition deviceVisibility :: "live_view \<Rightarrow> jsval \<Rightarrow> envelope" where
  "deviceVisibility w data = (case js_truthy (stringField data ''deviceId'') of
       None \<Rightarrow> VAdmin | Some did \<Rightarrow> VTabs (device_getExposingTabs (lv_registry w) did (lv_db w)))"

definition automationVisibility :: "live_view \<Rightarrow> jsval \<Rightarrow> envelope" where
  "automationVisibility w data = (case js_truthy (stringField data ''ruleId'') of
       None \<Rightarrow> VAdmin | Some rid \<Rightarrow> VTabs (ownership_getExposingTabs rid (lv_db w)))"

fun string_values :: "jsval list \<Rightarrow> string list option" where
  "string_values [] = Some []"
| "string_values (JStr s # vs) = map_option (Cons s) (string_values vs)"
| "string_values (_ # vs) = None"

definition tombstone_tabs :: "jsval \<Rightarrow> string list option" where
  "tombstone_tabs data = (case data of
       JObj kvs \<Rightarrow> if js_prop kvs ''deleted'' = JBool True
                   then (case js_prop kvs ''tabIds'' of JArr vs \<Rightarrow> string_values vs | _ \<Rightarrow> None) else None
     | _ \<Rightarrow> None)"

definition configurationVisibility :: "live_view \<Rightarrow> jsval \<Rightarrow> envelope" where
  "configurationVisibility w data =
     (let resource = stringField data ''resource''
      in if resource = Some ''layout'' then VPublic
         else if resource = Some ''automation''
         then (case js_truthy (stringField data ''id'') of
                 None \<Rightarrow> VAdmin
               | Some rid \<Rightarrow> (case tombstone_tabs data of
                    Some tabs \<Rightarrow> VTabs tabs
                  | None \<Rightarrow> VTabs (ownership_getExposingTabs rid (lv_db w))))
         else VAdmin)"

definition configurationPayload :: "jsval \<Rightarrow> jsval" where
  "configurationPayload data = (case data of JObj kvs \<Rightarrow> JObj (AList.delete ''tabIds'' kvs) | v \<Rightarrow> v)"

definition mqttVisibility :: "live_view \<Rightarrow> jsval \<Rightarrow> envelope" where
  "mqttVisibility w data = (case js_truthy (stringField data ''topic'') of
       Some topic \<Rightarrow> if isPrivate topic (lv_private w) then VAdmin else VPublic
     | None \<Rightarrow> VPublic)"

definition dataStoreVisibility :: "live_view \<Rightarrow> jsval \<Rightarrow> envelope" where
  "dataStoreVisibility w data = (case js_truthy (stringField data ''collection'') of
       None \<Rightarrow> VAdmin | Some c \<Rightarrow> VTabs (collection_getExposingTabs c (lv_db w)))"

record ws_mapping =
  wm_eventName :: string
  wm_messageType :: string
  wm_visibility :: "(live_view \<Rightarrow> jsval \<Rightarrow> envelope) option"
  wm_payload :: "(jsval \<Rightarrow> jsval) option"

definition scoped_mapping :: "string \<Rightarrow> string \<Rightarrow> (live_view \<Rightarrow> jsval \<Rightarrow> envelope) \<Rightarrow> ws_mapping" where
  "scoped_mapping ev ty vis = \<lparr>wm_eventName = ev, wm_messageType = ty, wm_visibility = Some vis, wm_payload = None\<rparr>"

definition WS_MAPPINGS :: "ws_mapping list" where
  "WS_MAPPINGS =
     [\<lparr>wm_eventName = ''configuration:invalidated'', wm_messageType = ''configuration-invalidated'',
       wm_visibility = Some configurationVisibility, wm_payload = Some configurationPayload\<rparr>,
      scoped_mapping ''ws:state-change'' ''state-change'' deviceVisibility,
      scoped_mapping ''mqtt:raw-message'' ''mqtt-message'' mqttVisibility,
      scoped_mapping ''automation:fired'' ''automation-fired'' automationVisibility,
      scoped_mapping ''automation:completed'' ''automation-completed'' automationVisibility,
      scoped_mapping ''automation:state-change'' ''automation-state'' automationVisibility,
      scoped_mapping ''data-store:write'' ''data-store-write'' dataStoreVisibility,
      scoped_mapping ''data-store:collection-deleted'' ''data-store-collection-deleted'' dataStoreVisibility,
      scoped_mapping ''command:lifecycle-transition'' ''command-lifecycle'' automationVisibility,
      \<lparr>wm_eventName = ''automation:event'', wm_messageType = ''automation-event'', wm_visibility = None, wm_payload = None\<rparr>,
      \<lparr>wm_eventName = ''shared-state:change'', wm_messageType = ''shared-state-change'', wm_visibility = None, wm_payload = None\<rparr>]"

definition mapping_envelope :: "ws_mapping \<Rightarrow> live_view \<Rightarrow> jsval \<Rightarrow> envelope" where
  "mapping_envelope m w data = (case wm_visibility m of Some vis \<Rightarrow> vis w data | None \<Rightarrow> ADMIN_ONLY)"

definition mapping_payload :: "ws_mapping \<Rightarrow> jsval \<Rightarrow> jsval" where
  "mapping_payload m data = (case wm_payload m of Some f \<Rightarrow> f data | None \<Rightarrow> data)"

section \<open>Connections\<close>

datatype ws_message = Snapshot "(string, device) jsmap" | Update string jsval

datatype ws_event = ClientConnect string nat | ClientDisconnect nat | BroadcastDone string nat

record ws_socket =
  sk_open :: bool
  sk_listening :: bool
  sk_authTimer :: bool
  sk_expiryTimer :: "ms option"
  sk_attached :: bool
  sk_sent :: "ws_message list"
  sk_close :: "(nat \<times> string) option"

record ws_server =
  ws_sockets :: "(nat, ws_socket) jsmap"
  ws_clients :: "(nat, ws_client) jsmap"
  ws_auth :: auth_state
  ws_emitted :: "ws_event list"
  ws_crashed :: bool

definition set_socket :: "nat \<Rightarrow> (ws_socket \<Rightarrow> ws_socket) \<Rightarrow> ws_server \<Rightarrow> ws_server" where
  "set_socket i f s = (case map_of (ws_sockets s) i of
       None \<Rightarrow> s | Some k \<Rightarrow> s\<lparr>ws_sockets := AList.update i (f k) (ws_sockets s)\<rparr>)"

definition ws_emit :: "ws_event \<Rightarrow> ws_server \<Rightarrow> ws_server" where
  "ws_emit e s = s\<lparr>ws_emitted := ws_emitted s @ [e]\<rparr>"

text \<open>\<open>ws.close\<close>: the connection is no longer open, and the first reason counts.\<close>

definition close_socket :: "nat \<Rightarrow> string \<Rightarrow> ws_socket \<Rightarrow> ws_socket" where
  "close_socket code reason k = (if sk_open k then k\<lparr>sk_open := False, sk_close := Some (code, reason)\<rparr> else k)"

definition ws_send :: "ws_message \<Rightarrow> ws_socket \<Rightarrow> ws_socket" where
  "ws_send msg k = (if sk_open k then k\<lparr>sk_sent := sk_sent k @ [msg]\<rparr> else k)"

definition on_connection :: "nat \<Rightarrow> ws_server \<Rightarrow> ws_server" where
  "on_connection i s =
     s\<lparr>ws_sockets := AList.update i \<lparr>sk_open = True, sk_listening = True, sk_authTimer = True, sk_expiryTimer = None,
         sk_attached = False, sk_sent = [], sk_close = None\<rparr> (ws_sockets s)\<rparr>"

definition auth_timeout :: "ws_socket \<Rightarrow> ws_socket" where
  "auth_timeout k =
     (if sk_authTimer k then close_socket 4001 ''Authentication timeout'' (k\<lparr>sk_authTimer := False\<rparr>) else k)"

definition snapshot_for :: "ws_client \<Rightarrow> registry \<Rightarrow> auth_db \<Rightarrow> (string, device) jsmap" where
  "snapshot_for client reg db =
     (let devices = registry_getAll reg
      in if wc_role client = RAdmin then fold (\<lambda>d m. AList.update (dv_id d) d m) devices []
         else let exposing = device_getExposingTabsBatch reg (map dv_id devices) db
              in fold (\<lambda>d m. let tabIds = (case map_of exposing (dv_id d) of Some ts \<Rightarrow> ts | None \<Rightarrow> [])
                             in if canObserve client (VTabs tabIds) then AList.update (dv_id d) d m else m) devices [])"

definition authenticateAndSetup ::
  "auth_env \<Rightarrow> nat \<Rightarrow> string \<Rightarrow> string \<Rightarrow> ms \<Rightarrow> ms \<Rightarrow> registry \<Rightarrow> auth_db option \<Rightarrow> ws_server \<Rightarrow> ws_server" where
  "authenticateAndSetup env i token fresh now now2 reg dbq s =
     (case verifyAccessTokenWithExpiry env token fresh now (ws_auth s) of
        (None, a1) \<Rightarrow> set_socket i (close_socket 4001 ''Invalid token'') (s\<lparr>ws_auth := a1\<rparr>)
      | (Some (payload, expiresAt), a1) \<Rightarrow>
          (case dbq of
             None \<Rightarrow> set_socket i (close_socket 4002 ''Authentication error'') (s\<lparr>ws_auth := a1\<rparr>)
           | Some db \<Rightarrow>
               let client = \<lparr>wc_userId = ap_userId payload, wc_role = ap_role payload, wc_groupId = ap_groupId payload,
                     wc_accessibleTabIds = js_set (map fst (getUserAccessibleTabs (ap_userId payload) db))\<rparr>;
                   s1 = s\<lparr>ws_auth := a1, ws_clients := AList.update i client (ws_clients s)\<rparr>;
                   s2 = ws_emit (ClientConnect (ap_userId payload) (length (ws_clients s1))) s1;
                   s3 = set_socket i (ws_send (Snapshot (snapshot_for client reg db))) s2;
                   ttl = expiresAt - now2
               in set_socket i (\<lambda>k. k\<lparr>sk_expiryTimer := (if ttl > 0 then Some expiresAt else None), sk_attached := True\<rparr>) s3))"

definition onAuthMessage ::
  "auth_env \<Rightarrow> nat \<Rightarrow> string \<Rightarrow> string \<Rightarrow> ms \<Rightarrow> ms \<Rightarrow> registry \<Rightarrow> auth_db option \<Rightarrow> ws_server \<Rightarrow> ws_server" where
  "onAuthMessage env i text fresh now now2 reg dbq s = (case json_parse text of
       None \<Rightarrow> set_socket i (\<lambda>k. close_socket 4001 ''Invalid auth message'' (k\<lparr>sk_authTimer := False\<rparr>)) s
     | Some JNull \<Rightarrow> s\<lparr>ws_crashed := True\<rparr>
     | Some (JObj msg) \<Rightarrow>
         (case (js_prop msg ''type'' = JStr ''auth'', js_prop msg ''token'') of
            (True, JStr token) \<Rightarrow>
              authenticateAndSetup env i token fresh now now2 reg dbq
                (set_socket i (\<lambda>k. k\<lparr>sk_authTimer := False, sk_listening := False\<rparr>) s)
          | _ \<Rightarrow> set_socket i (\<lambda>k. close_socket 4001 ''Authentication required'' (k\<lparr>sk_authTimer := False\<rparr>)) s)
     | Some _ \<Rightarrow> set_socket i (\<lambda>k. close_socket 4001 ''Authentication required'' (k\<lparr>sk_authTimer := False\<rparr>)) s)"

definition expiry_fires :: "ws_socket \<Rightarrow> ws_socket" where
  "expiry_fires k = (case sk_expiryTimer k of
       None \<Rightarrow> k | Some _ \<Rightarrow> close_socket 4003 ''Token expired'' (k\<lparr>sk_expiryTimer := None\<rparr>))"

definition on_close :: "nat \<Rightarrow> ws_server \<Rightarrow> ws_server" where
  "on_close i s = (case map_of (ws_sockets s) i of
       None \<Rightarrow> s
     | Some k \<Rightarrow>
         let s1 = set_socket i (\<lambda>k. k\<lparr>sk_open := False, sk_authTimer := False, sk_listening := False, sk_expiryTimer := None\<rparr>) s
         in if sk_attached k
            then let s2 = s1\<lparr>ws_clients := AList.delete i (ws_clients s1)\<rparr> in ws_emit (ClientDisconnect (length (ws_clients s2))) s2
            else s1)"

definition on_error :: "nat \<Rightarrow> ws_server \<Rightarrow> ws_server" where
  "on_error i s = (case map_of (ws_sockets s) i of
       None \<Rightarrow> s
     | Some k \<Rightarrow>
         if sk_attached k
         then set_socket i (\<lambda>k. k\<lparr>sk_expiryTimer := None\<rparr>) (s\<lparr>ws_clients := AList.delete i (ws_clients s)\<rparr>)
         else s\<lparr>ws_crashed := True\<rparr>)"

section \<open>Broadcasts\<close>

definition ws_broadcast :: "string \<Rightarrow> jsval \<Rightarrow> envelope \<Rightarrow> ws_server \<Rightarrow> ws_server" where
  "ws_broadcast ty data e s =
     (let s1 = fold (\<lambda>(i, client) t. if canObserve client e then set_socket i (ws_send (Update ty data)) t else t) (ws_clients s) s
      in ws_emit (BroadcastDone (if ty = [] then ''unknown'' else ty) (length (ws_clients s1))) s1)"

definition deliver :: "live_view \<Rightarrow> jsval \<Rightarrow> ws_mapping \<Rightarrow> ws_server \<Rightarrow> ws_server" where
  "deliver w data m s = ws_broadcast (wm_messageType m) (mapping_payload m data) (mapping_envelope m w data) s"

definition on_bus_event :: "string \<Rightarrow> jsval \<Rightarrow> live_view \<Rightarrow> ws_server \<Rightarrow> ws_server" where
  "on_bus_event ev data w s = fold (deliver w data) (filter (\<lambda>m. wm_eventName m = ev) WS_MAPPINGS) s"

definition closeAll :: "ws_server \<Rightarrow> ws_server" where
  "closeAll s =
     (fold (\<lambda>(i, client). set_socket i (close_socket 1001 ''Server shutting down'')) (ws_clients s) s)\<lparr>ws_clients := []\<rparr>"

definition clientCount :: "ws_server \<Rightarrow> nat" where
  "clientCount s = length (ws_clients s)"

section \<open>The server as a machine\<close>

datatype ws_op =
    WsConnection nat
  | WsMessage nat string string ms ms registry "auth_db option"
  | WsAuthTimeout nat
  | WsExpiry nat
  | WsClosed nat
  | WsError nat
  | WsBus string jsval live_view
  | WsCloseAll

fun ws_handle :: "auth_env \<Rightarrow> ws_op \<Rightarrow> ws_server \<Rightarrow> ws_server" where
  "ws_handle env (WsConnection i) s = on_connection i s"
| "ws_handle env (WsMessage i text fresh now now2 reg dbq) s =
     (if (case map_of (ws_sockets s) i of Some k \<Rightarrow> sk_listening k | None \<Rightarrow> False)
      then onAuthMessage env i text fresh now now2 reg dbq s else s)"
| "ws_handle env (WsAuthTimeout i) s = set_socket i auth_timeout s"
| "ws_handle env (WsExpiry i) s = set_socket i expiry_fires s"
| "ws_handle env (WsClosed i) s = on_close i s"
| "ws_handle env (WsError i) s = on_error i s"
| "ws_handle env (WsBus ev data w) s = on_bus_event ev data w s"
| "ws_handle env WsCloseAll s = closeAll s"

definition ws_step :: "auth_env \<Rightarrow> ws_op \<Rightarrow> ws_server \<Rightarrow> ws_server" where
  "ws_step env a s = (if ws_crashed s then s else ws_handle env a s)"

text \<open>Every connection is a new object.\<close>

fun ws_ok :: "ws_op \<Rightarrow> ws_server \<Rightarrow> bool" where
  "ws_ok (WsConnection i) s \<longleftrightarrow> \<not> jm_has (ws_sockets s) i"
| "ws_ok _ s \<longleftrightarrow> True"

definition ws_init :: "auth_state \<Rightarrow> ws_server" where
  "ws_init a = \<lparr>ws_sockets = [], ws_clients = [], ws_auth = a, ws_emitted = [], ws_crashed = False\<rparr>"

section \<open>Sockets\<close>

lemma set_socket_at: "map_of (ws_sockets (set_socket i f s)) j =
    (if j = i then map_option f (map_of (ws_sockets s) j) else map_of (ws_sockets s) j)"
  by (simp add: set_socket_def split: option.split)

lemma set_socket_frame [simp]:
  "ws_clients (set_socket i f s) = ws_clients s" "ws_auth (set_socket i f s) = ws_auth s"
  "ws_emitted (set_socket i f s) = ws_emitted s" "ws_crashed (set_socket i f s) = ws_crashed s"
  by (simp_all add: set_socket_def split: option.split)

lemma ws_emit_frame [simp]:
  "ws_clients (ws_emit e s) = ws_clients s" "ws_sockets (ws_emit e s) = ws_sockets s" "ws_crashed (ws_emit e s) = ws_crashed s"
  "ws_auth (ws_emit e s) = ws_auth s"
  by (simp_all add: ws_emit_def)

lemma fold_sockets_frame [simp]:
  "ws_clients (fold (\<lambda>(i, c) t. if P i c then set_socket i (f i c) t else t) cs s) = ws_clients s"
  "ws_crashed (fold (\<lambda>(i, c) t. if P i c then set_socket i (f i c) t else t) cs s) = ws_crashed s"
  by (induction cs arbitrary: s) (auto split: prod.split)

text \<open>A pass over the clients updates the socket of each one once.\<close>

lemma fold_sockets:
  assumes "jm_wf cs"
  shows "map_of (ws_sockets (fold (\<lambda>(i, c) t. if P i c then set_socket i (f i c) t else t) cs s)) j =
    (case map_of cs j of
       Some c \<Rightarrow> if P j c then map_option (f j c) (map_of (ws_sockets s) j) else map_of (ws_sockets s) j
     | None \<Rightarrow> map_of (ws_sockets s) j)"
  using assms
proof (induction cs arbitrary: s)
  case (Cons x cs)
  obtain i c where x: "x = (i, c)" by (cases x)
  then have "map_of cs i = None" using Cons.prems by (simp add: map_of_eq_None_iff)
  moreover have "jm_wf cs" using Cons.prems by simp
  ultimately show ?case using Cons.IH[of "if P i c then set_socket i (f i c) s else s"]
    by (auto simp: x set_socket_at split: option.splits)
qed simp

definition updates_for :: "live_view \<Rightarrow> jsval \<Rightarrow> ws_mapping list \<Rightarrow> ws_client \<Rightarrow> ws_message list" where
  "updates_for w data ms c = map (\<lambda>m. Update (wm_messageType m) (mapping_payload m data)) (filter (\<lambda>m. canObserve c (mapping_envelope m w data)) ms)"

lemma ws_broadcast_frame [simp]: "ws_clients (ws_broadcast ty data e s) = ws_clients s" "ws_crashed (ws_broadcast ty data e s) = ws_crashed s"
  by (simp_all add: ws_broadcast_def Let_def)

lemma ws_broadcast_at:
  assumes "jm_wf (ws_clients s)"
  shows "map_of (ws_sockets (ws_broadcast ty data e s)) j =
    (case map_of (ws_clients s) j of
       Some c \<Rightarrow> if canObserve c e then map_option (ws_send (Update ty data)) (map_of (ws_sockets s) j) else map_of (ws_sockets s) j
     | None \<Rightarrow> map_of (ws_sockets s) j)"
  using fold_sockets[OF assms, of "\<lambda>i c. canObserve c e" "\<lambda>i c. ws_send (Update ty data)" s] by (simp add: ws_broadcast_def Let_def)

definition received :: "ws_message list \<Rightarrow> ws_socket \<Rightarrow> ws_socket" where
  "received ms k = (if sk_open k then k\<lparr>sk_sent := sk_sent k @ ms\<rparr> else k)"

lemma received_Nil [simp]: "received [] k = k"
  by (simp add: received_def)

lemma received_send: "received ms (ws_send m k) = received (m # ms) k"
  by (simp add: received_def ws_send_def)

lemma deliver_all_frame [simp]: "ws_clients (fold (deliver w data) ms s) = ws_clients s" "ws_crashed (fold (deliver w data) ms s) = ws_crashed s"
  by (induction ms arbitrary: s) (simp_all add: deliver_def)

lemma deliver_all:
  assumes "jm_wf (ws_clients s)"
  shows "map_of (ws_sockets (fold (deliver w data) ms s)) j =
    map_option (received (case map_of (ws_clients s) j of Some c \<Rightarrow> updates_for w data ms c | None \<Rightarrow> [])) (map_of (ws_sockets s) j)"
  using assms
proof (induction ms arbitrary: s)
  case Nil
  then show ?case by (simp add: updates_for_def option.map_ident split: option.split)
next
  case (Cons m ms)
  have "jm_wf (ws_clients (deliver w data m s))" using Cons.prems by (simp add: deliver_def)
  from Cons.IH[OF this] show ?case
    using ws_broadcast_at[OF Cons.prems, of "wm_messageType m" "mapping_payload m data" "mapping_envelope m w data" j]
    by (auto simp: deliver_def updates_for_def option.map_comp comp_def received_send option.map_ident split: option.splits)
qed

section \<open>Clients are authenticated\<close>

definition token_client :: "auth_env \<Rightarrow> ws_client \<Rightarrow> bool" where
  "token_client env c \<longleftrightarrow> (\<exists>token secret now claims expiry db.
     ev_jwt_verify env token secret now = Some (claims, expiry)
     \<and> wc_userId c = ap_userId claims \<and> wc_role c = ap_role claims \<and> wc_groupId c = ap_groupId claims
     \<and> set (wc_accessibleTabIds c) = fst ` set (getUserAccessibleTabs (ap_userId claims) db))"

definition ws_inv :: "auth_env \<Rightarrow> ws_server \<Rightarrow> bool" where
  "ws_inv env s \<longleftrightarrow> jm_wf (ws_clients s)
     \<and> (\<forall>i c. map_of (ws_clients s) i = Some c \<longrightarrow> token_client env c \<and> (\<exists>k. map_of (ws_sockets s) i = Some k \<and> sk_attached k))
     \<and> (\<forall>i k. map_of (ws_sockets s) i = Some k \<longrightarrow> sk_sent k \<noteq> [] \<longrightarrow> sk_attached k)"

text \<open>A step that only touches sockets.\<close>

lemma ws_inv_sockets:
  assumes "ws_inv env s" "ws_clients t = ws_clients s"
    and "\<And>i. \<exists>f. map_of (ws_sockets t) i = map_option f (map_of (ws_sockets s) i)
           \<and> (\<forall>k. (sk_attached k \<longrightarrow> sk_attached (f k)) \<and> (sk_sent (f k) = sk_sent k \<or> sk_attached (f k) \<or> jm_has (ws_clients s) i))"
  shows "ws_inv env t"
  unfolding ws_inv_def assms(2)
proof (intro conjI allI impI)
  have inv: "jm_wf (ws_clients s)" "\<And>i c. map_of (ws_clients s) i = Some c \<Longrightarrow> token_client env c \<and> (\<exists>k. map_of (ws_sockets s) i = Some k \<and> sk_attached k)"
    "\<And>i k. map_of (ws_sockets s) i = Some k \<Longrightarrow> sk_sent k \<noteq> [] \<Longrightarrow> sk_attached k"
    using assms(1) unfolding ws_inv_def by blast+
  show "jm_wf (ws_clients s)" by (rule inv(1))
  fix i
  obtain f where f: "map_of (ws_sockets t) i = map_option f (map_of (ws_sockets s) i)"
    "\<And>k. sk_attached k \<Longrightarrow> sk_attached (f k)" "\<And>k. sk_sent (f k) = sk_sent k \<or> sk_attached (f k) \<or> jm_has (ws_clients s) i"
    using assms(3)[of i] by blast
  { fix c assume c: "map_of (ws_clients s) i = Some c"
    show "token_client env c" using inv(2)[OF c] by blast
    show "\<exists>k. map_of (ws_sockets t) i = Some k \<and> sk_attached k" using inv(2)[OF c] f by auto }
  fix k assume k: "map_of (ws_sockets t) i = Some k" "sk_sent k \<noteq> []"
  then obtain k0 where k0: "map_of (ws_sockets s) i = Some k0" "k = f k0" using f(1) by auto
  then show "sk_attached k" using f(2)[of k0] f(3)[of k0] inv(2)[of i] inv(3)[OF k0(1)] k(2) by (auto simp: jm_has_def)
qed

lemma set_socket_inv:
  assumes "ws_inv env s" and "\<And>k. (sk_attached k \<longrightarrow> sk_attached (f k)) \<and> (sk_sent (f k) = sk_sent k \<or> sk_attached (f k))"
  shows "ws_inv env (set_socket i f s)"
proof (rule ws_inv_sockets[OF assms(1)])
  fix j show "\<exists>g. map_of (ws_sockets (set_socket i f s)) j = map_option g (map_of (ws_sockets s) j)
           \<and> (\<forall>k. (sk_attached k \<longrightarrow> sk_attached (g k)) \<and> (sk_sent (g k) = sk_sent k \<or> sk_attached (g k) \<or> jm_has (ws_clients s) j))"
  proof (cases "j = i")
    case True
    then show ?thesis using assms(2) by (intro exI[of _ f]) (auto simp: set_socket_at)
  next
    case False
    then show ?thesis by (intro exI[of _ "\<lambda>k. k"]) (auto simp: set_socket_at option.map_ident)
  qed
qed simp

lemma ws_inv_frame: "ws_inv env s \<Longrightarrow> ws_inv env (s\<lparr>ws_auth := a\<rparr>)" "ws_inv env s \<Longrightarrow> ws_inv env (ws_emit e s)"
  "ws_inv env s \<Longrightarrow> ws_inv env (s\<lparr>ws_crashed := b\<rparr>)"
  by (simp_all add: ws_inv_def ws_emit_def)

lemma ws_inv_fewer: "ws_inv env s \<Longrightarrow> ws_inv env (s\<lparr>ws_clients := AList.delete i (ws_clients s)\<rparr>)" "ws_inv env s \<Longrightarrow> ws_inv env (s\<lparr>ws_clients := []\<rparr>)"
  unfolding ws_inv_def by (simp_all split: if_splits)

lemma close_facts [simp]: "sk_attached (close_socket c r k) = sk_attached k" "sk_sent (close_socket c r k) = sk_sent k" "\<not> sk_open (close_socket c r k)"
  by (simp_all add: close_socket_def)

lemma js_set_set: "set (js_set xs) = set xs"
proof -
  have "set (fold (\<lambda>x s. if x \<in> set s then s else s @ [x]) xs acc) = set acc \<union> set xs" for acc
    by (induction xs arbitrary: acc) auto
  then show ?thesis by (simp add: js_set_def)
qed

lemma verified_expiry:
  assumes "verifyAccessTokenWithExpiry env token fresh now a = (Some (payload, expiresAt), a1)"
  shows "\<exists>claims expiry. ev_jwt_verify env token (fst (getSecret env fresh a)) now = Some (claims, expiry)
    \<and> ap_userId payload = ap_userId claims \<and> ap_role payload = ap_role claims \<and> ap_groupId payload = ap_groupId claims"
  using assms by (auto simp: verifyAccessTokenWithExpiry_def Let_def case_prod_beta split: option.splits)

lemma setup_client_inv:
  assumes inv: "ws_inv env s" and k: "map_of (ws_sockets s) i = Some k" and c: "token_client env c"
  shows "ws_inv env (set_socket i (\<lambda>k. (f k)\<lparr>sk_expiryTimer := t, sk_attached := True\<rparr>) (s\<lparr>ws_auth := a, ws_clients := AList.update i c (ws_clients s)\<rparr>))"
  using assms unfolding ws_inv_def by (auto simp: set_socket_at)

lemma authenticateAndSetup_inv:
  assumes inv: "ws_inv env s" and k: "map_of (ws_sockets s) i = Some k"
  shows "ws_inv env (authenticateAndSetup env i token fresh now now2 reg dbq s)"
proof -
  have "ws_inv env (set_socket i (close_socket c r) (s\<lparr>ws_auth := a\<rparr>))" for c r a
    by (intro set_socket_inv ws_inv_frame inv) simp
  moreover have "ws_inv env (authenticateAndSetup env i token fresh now now2 reg (Some db) s)"
    if v: "verifyAccessTokenWithExpiry env token fresh now (ws_auth s) = (Some (payload, e), a1)" for db payload e a1
  proof -
    let ?c = "\<lparr>wc_userId = ap_userId payload, wc_role = ap_role payload, wc_groupId = ap_groupId payload,
                     wc_accessibleTabIds = js_set (map fst (getUserAccessibleTabs (ap_userId payload) db))\<rparr>"
    have c: "token_client env ?c" using verified_expiry[OF v] unfolding token_client_def by (fastforce simp: js_set_set)
    have emit: "set_socket i f (ws_emit ev t) = ws_emit ev (set_socket i f t)" for f ev t by (simp add: set_socket_def ws_emit_def split: option.split)
    have comp: "set_socket i g (set_socket i f t) = set_socket i (\<lambda>k. g (f k)) t" if "map_of (ws_sockets t) i \<noteq> None" for f g t
      using that by (auto simp: set_socket_def)
    show ?thesis using v setup_client_inv[OF inv k c] k
      by (simp add: authenticateAndSetup_def Let_def emit comp ws_inv_frame)
  qed
  ultimately show ?thesis
    by (auto simp: authenticateAndSetup_def split: prod.split option.split)
qed

lemma onAuthMessage_inv:
  assumes inv: "ws_inv env s" and k: "map_of (ws_sockets s) i = Some k"
  shows "ws_inv env (onAuthMessage env i text fresh now now2 reg dbq s)"
proof -
  have close: "ws_inv env (set_socket i (\<lambda>k. close_socket c r (k\<lparr>sk_authTimer := False\<rparr>)) s)" for c r
    by (intro set_socket_inv inv) simp
  have auth: "ws_inv env (authenticateAndSetup env i token fresh now now2 reg dbq (set_socket i (\<lambda>k. k\<lparr>sk_authTimer := False, sk_listening := False\<rparr>) s))" for token
    by (rule authenticateAndSetup_inv[OF set_socket_inv[OF inv]]) (auto simp: set_socket_at k)
  show ?thesis using close auth ws_inv_frame(3)[OF inv]
    by (auto simp: onAuthMessage_def split: option.split jsval.split bool.split)
qed

lemma on_bus_event_inv:
  assumes "ws_inv env s"
  shows "ws_inv env (on_bus_event ev data w s)"
proof (rule ws_inv_sockets[OF assms])
  have wf: "jm_wf (ws_clients s)" using assms by (simp add: ws_inv_def)
  fix i
  let ?ms = "case map_of (ws_clients s) i of Some c \<Rightarrow> updates_for w data (filter (\<lambda>m. wm_eventName m = ev) WS_MAPPINGS) c | None \<Rightarrow> []"
  have "(sk_attached k \<longrightarrow> sk_attached (received ?ms k)) \<and> (sk_sent (received ?ms k) = sk_sent k \<or> sk_attached (received ?ms k) \<or> jm_has (ws_clients s) i)" for k
    by (cases "map_of (ws_clients s) i") (auto simp: received_def jm_has_def)
  then show "\<exists>f. map_of (ws_sockets (on_bus_event ev data w s)) i = map_option f (map_of (ws_sockets s) i)
      \<and> (\<forall>k. (sk_attached k \<longrightarrow> sk_attached (f k)) \<and> (sk_sent (f k) = sk_sent k \<or> sk_attached (f k) \<or> jm_has (ws_clients s) i))"
    unfolding on_bus_event_def deliver_all[OF wf] by blast
qed (simp add: on_bus_event_def)

lemma closeAll_alt: "closeAll s = (fold (\<lambda>(i, client) t. if True then set_socket i (close_socket 1001 ''Server shutting down'') t else t) (ws_clients s) s)\<lparr>ws_clients := []\<rparr>"
  by (simp add: closeAll_def)

lemma closeAll_at:
  assumes "jm_wf (ws_clients s)"
  shows "map_of (ws_sockets (closeAll s)) j = (case map_of (ws_clients s) j of
      Some c \<Rightarrow> map_option (close_socket 1001 ''Server shutting down'') (map_of (ws_sockets s) j) | None \<Rightarrow> map_of (ws_sockets s) j)"
  unfolding closeAll_alt using fold_sockets[OF assms, of "\<lambda>i c. True" "\<lambda>i c. close_socket 1001 ''Server shutting down''" s j] by simp

lemma closeAll_inv: "ws_inv env s \<Longrightarrow> ws_inv env (closeAll s)"
proof -
  assume inv: "ws_inv env s"
  then have wf: "jm_wf (ws_clients s)" by (simp add: ws_inv_def)
  let ?t = "(closeAll s)\<lparr>ws_clients := ws_clients s\<rparr>"
  have "ws_inv env ?t"
  proof (rule ws_inv_sockets[OF inv])
    fix i
    show "\<exists>f. map_of (ws_sockets ?t) i = map_option f (map_of (ws_sockets s) i)
      \<and> (\<forall>k. (sk_attached k \<longrightarrow> sk_attached (f k)) \<and> (sk_sent (f k) = sk_sent k \<or> sk_attached (f k) \<or> jm_has (ws_clients s) i))"
      using closeAll_at[OF wf, of i]
      by (cases "map_of (ws_clients s) i") (auto intro: exI[of _ "\<lambda>k. k"] exI[of _ "close_socket 1001 ''Server shutting down''"] simp: option.map_ident)
  qed simp
  from ws_inv_fewer(2)[OF this] show ?thesis by (simp add: closeAll_def)
qed

lemma on_close_inv: "ws_inv env s \<Longrightarrow> ws_inv env (on_close i s)"
proof -
  assume inv: "ws_inv env s"
  let ?t = "set_socket i (\<lambda>k. k\<lparr>sk_open := False, sk_authTimer := False, sk_listening := False, sk_expiryTimer := None\<rparr>) s"
  have "ws_inv env ?t" by (rule set_socket_inv[OF inv]) simp
  then show ?thesis using inv ws_inv_fewer(1)[of env ?t i] by (auto simp: on_close_def Let_def intro: ws_inv_frame split: option.split)
qed

lemma on_error_inv: "ws_inv env s \<Longrightarrow> ws_inv env (on_error i s)"
  unfolding on_error_def by (auto intro!: ws_inv_frame ws_inv_fewer set_socket_inv split: option.split)

lemma on_connection_inv: "ws_inv env s \<Longrightarrow> \<not> jm_has (ws_sockets s) i \<Longrightarrow> ws_inv env (on_connection i s)"
  unfolding ws_inv_def on_connection_def jm_has_def by (simp del: map_of_eq_Some_iff) (metis not_Some_eq option.distinct(1))

lemma timers_inv: "ws_inv env s \<Longrightarrow> ws_inv env (set_socket i auth_timeout s)" "ws_inv env s \<Longrightarrow> ws_inv env (set_socket i expiry_fires s)"
  by (auto intro!: set_socket_inv simp: auth_timeout_def expiry_fires_def split: option.split)

interpretation live: invariant_machine "ws_step env" ws_ok "ws_init a" "ws_inv env" for env a
proof
  show "ws_inv env (ws_init a)" by (simp add: ws_inv_def ws_init_def)
  show "ws_inv env s \<Longrightarrow> ws_ok op s \<Longrightarrow> ws_inv env (ws_step env op s)" for op s
    using on_connection_inv onAuthMessage_inv timers_inv on_close_inv on_error_inv on_bus_event_inv closeAll_inv
    by (cases op) (auto simp: ws_step_def split: option.split)
qed

section \<open>Closed connections stay silent\<close>

definition silent :: "ws_socket option \<Rightarrow> ws_socket option \<Rightarrow> bool" where
  "silent before after \<longleftrightarrow> (\<forall>k. before = Some k \<longrightarrow> \<not> sk_open k \<longrightarrow> (\<exists>k'. after = Some k' \<and> \<not> sk_open k' \<and> sk_sent k' = sk_sent k))"

lemma silent_map: "(\<And>k. \<not> sk_open k \<Longrightarrow> \<not> sk_open (f k) \<and> sk_sent (f k) = sk_sent k) \<Longrightarrow> silent x (map_option f x)"
  by (auto simp: silent_def)

lemma silent_refl [simp]: "silent x x"
  by (simp add: silent_def)

lemma silent_trans: "silent x y \<Longrightarrow> silent y z \<Longrightarrow> silent x z"
  unfolding silent_def by metis

lemma silent_set_socket: "(\<And>k. \<not> sk_open k \<Longrightarrow> \<not> sk_open (f k) \<and> sk_sent (f k) = sk_sent k) \<Longrightarrow>
    silent (map_of (ws_sockets s) i) (map_of (ws_sockets (set_socket j f s)) i)"
  by (auto simp: set_socket_at intro: silent_map)

lemma silent_auth: "silent (map_of (ws_sockets s) i) (map_of (ws_sockets (authenticateAndSetup env j token fresh now now2 reg dbq s)) i)"
  by (auto simp: authenticateAndSetup_def Let_def ws_send_def ws_emit_def set_socket_at silent_def split: prod.split option.split)

lemma silent_message: "silent (map_of (ws_sockets s) i) (map_of (ws_sockets (onAuthMessage env j text fresh now now2 reg dbq s)) i)"
proof -
  have "silent (map_of (ws_sockets s) i)
      (map_of (ws_sockets (authenticateAndSetup env j token fresh now now2 reg dbq (set_socket j (\<lambda>k. k\<lparr>sk_authTimer := False, sk_listening := False\<rparr>) s))) i)" for token
    by (rule silent_trans[OF silent_set_socket silent_auth]) simp
  then show ?thesis
    by (auto simp: onAuthMessage_def split: option.split jsval.split bool.split intro!: silent_set_socket)
qed

lemma silent_step:
  assumes "ws_inv env s" "ws_ok op s"
  shows "silent (map_of (ws_sockets s) i) (map_of (ws_sockets (ws_step env op s)) i)"
proof -
  have wf: "jm_wf (ws_clients s)" using assms(1) by (simp add: ws_inv_def)
  have bus: "silent (map_of (ws_sockets s) i) (map_of (ws_sockets (on_bus_event ev data w s)) i)" for ev data w
    unfolding on_bus_event_def deliver_all[OF wf] by (rule silent_map) (simp add: received_def)
  have "silent (map_of (ws_sockets s) i) (map_of (ws_sockets (closeAll s)) i)"
    using closeAll_at[OF wf, of i] by (auto intro: silent_map split: option.splits)
  moreover have "silent (map_of (ws_sockets s) i) (map_of (ws_sockets (on_close j s)) i)" for j
    by (auto simp: on_close_def Let_def intro!: silent_set_socket split: option.split)
  moreover have "silent (map_of (ws_sockets s) i) (map_of (ws_sockets (on_error j s)) i)" for j
    using silent_set_socket[of "\<lambda>k. k\<lparr>sk_expiryTimer := None\<rparr>" "s\<lparr>ws_clients := AList.delete j (ws_clients s)\<rparr>" i j] by (auto simp: on_error_def split: option.split)
  moreover have "silent (map_of (ws_sockets s) i) (map_of (ws_sockets (on_connection j s)) i)" if "\<not> jm_has (ws_sockets s) j" for j
    using that by (auto simp: on_connection_def jm_has_def silent_def)
  moreover have "silent (map_of (ws_sockets s) i) (map_of (ws_sockets (set_socket j auth_timeout s)) i)"
    "silent (map_of (ws_sockets s) i) (map_of (ws_sockets (set_socket j expiry_fires s)) i)" for j
    by (rule silent_set_socket; auto simp: auth_timeout_def expiry_fires_def split: option.split)+
  ultimately show ?thesis using assms(2) bus silent_message by (cases op) (auto simp: ws_step_def)
qed

section \<open>One rule for snapshots and updates\<close>

lemma fold_update_filter:
  "map_of (fold (\<lambda>d m. if P d then AList.update (dv_id d) d m else m) ds m) did =
    (case find (\<lambda>d. P d \<and> dv_id d = did) (rev ds) of Some d \<Rightarrow> Some d | None \<Rightarrow> map_of m did)"
  by (induction ds arbitrary: m) (auto simp: find_append split: option.splits)

lemma registry_all_iff:
  assumes "registry_inv reg"
  shows "d \<in> set (registry_getAll reg) \<longleftrightarrow> map_of (rg_devices reg) (dv_id d) = Some d"
proof
  assume "d \<in> set (registry_getAll reg)"
  then obtain k where k: "(k, d) \<in> set (rg_devices reg)" by (auto simp: registry_getAll_def)
  then have "map_of (rg_devices reg) k = Some d" using registry_invD(1)[OF assms] by (rule map_of_is_SomeI[rotated])
  moreover from this have "dv_id d = k" using registry_invD(5)[OF assms, of k d] by (simp add: device_ok_def)
  ultimately show "map_of (rg_devices reg) (dv_id d) = Some d" by simp
next
  assume "map_of (rg_devices reg) (dv_id d) = Some d"
  then show "d \<in> set (registry_getAll reg)" using map_of_SomeD by (force simp: registry_getAll_def)
qed

lemma canObserve_tabs_cong: "set ts = set us \<Longrightarrow> canObserve c (VTabs ts) = canObserve c (VTabs us)"
  by (simp add: canObserve_def list_ex_iff)

definition device_event :: "string \<Rightarrow> jsval" where
  "device_event did = JObj [(''deviceId'', JStr did)]"

lemma snapshot_follows_updates:
  assumes reg: "registry_inv reg" and did: "did \<noteq> []"
  shows "map_of (snapshot_for c reg db) did =
    (if canObserve c (deviceVisibility \<lparr>lv_registry = reg, lv_db = db, lv_private = pv\<rparr> (device_event did)) then registry_getById did reg else None)"
proof -
  let ?P = "\<lambda>d. canObserve c (VTabs (device_getExposingTabs reg (dv_id d) db))"
  have key: "map_of (rg_devices reg) k = Some d \<Longrightarrow> dv_id d = k" for k d
    using registry_invD(5)[OF reg, of k d] by (simp add: device_ok_def)
  have all: "d \<in> set (registry_getAll reg) \<longleftrightarrow> map_of (rg_devices reg) (dv_id d) = Some d" for d
    using registry_all_iff[OF reg] .
  have "snapshot_for c reg db = fold (\<lambda>d m. if ?P d then AList.update (dv_id d) d m else m) (registry_getAll reg) []"
  proof (cases "wc_role c = RAdmin")
    case True
    then show ?thesis by (simp add: snapshot_for_def canObserve_def Let_def)
  next
    case False
    have "canObserve c (VTabs (case map_of (device_getExposingTabsBatch reg (map dv_id (registry_getAll reg)) db) (dv_id d) of Some ts \<Rightarrow> ts | None \<Rightarrow> []))
        = ?P d" if "d \<in> set (registry_getAll reg)" for d
      using device_exposure.batch_single[of "dv_id d" "map dv_id (registry_getAll reg)" reg db] that by (metis canObserve_tabs_cong image_eqI list.set_map option.simps(5))
    then show ?thesis unfolding snapshot_for_def Let_def if_not_P[OF False] by (intro fold_cong refl ext) (simp only:)
  qed
  then have "map_of (snapshot_for c reg db) did = find (\<lambda>d. ?P d \<and> dv_id d = did) (rev (registry_getAll reg))"
    by (simp add: fold_update_filter split: option.split)
  also have "\<dots> = (if canObserve c (VTabs (device_getExposingTabs reg did db)) then registry_getById did reg else None)"
  proof (cases "find (\<lambda>d. ?P d \<and> dv_id d = did) (rev (registry_getAll reg))")
    case None
    then have "\<not> (?P d \<and> dv_id d = did)" if "d \<in> set (registry_getAll reg)" for d using that by (simp add: find_None_iff)
    note none = this
    have "\<not> canObserve c (VTabs (device_getExposingTabs reg did db))" if d: "registry_getById did reg = Some d" for d
    proof -
      have m: "map_of (rg_devices reg) did = Some d" using d by (simp only: registry_getById_def)
      then have k: "dv_id d = did" by (rule key)
      then have "d \<in> set (registry_getAll reg)" using m by (intro iffD2[OF all]) (simp only:)
      from none[OF this] k show ?thesis by blast
    qed
    then show ?thesis unfolding None by (cases "registry_getById did reg") auto
  next
    case (Some d)
    then have d: "d \<in> set (registry_getAll reg)" "?P d" "dv_id d = did" using find_SomeD[OF Some] unfolding set_rev by blast+
    have "registry_getById did reg = Some d" using iffD1[OF all d(1)] unfolding registry_getById_def d(3) .
    then show ?thesis unfolding Some using d(2,3) by simp
  qed
  also have "VTabs (device_getExposingTabs reg did db) = deviceVisibility \<lparr>lv_registry = reg, lv_db = db, lv_private = pv\<rparr> (device_event did)"
    using did by (simp add: deviceVisibility_def stringField_def device_event_def js_prop_def js_truthy_def)
  finally show ?thesis .
qed


definition sample_live_env :: auth_env where
  "sample_live_env = \<lparr>ev_JWT_SECRET = Some ''k'', ev_bcrypt_hash = (\<lambda>p n. p), ev_bcrypt_compare = (=), ev_sha256 = id,
     ev_jwt_sign = (\<lambda>c k e n. ap_userId c @ k), ev_jwt_verify = (\<lambda>t k n. if t = ''ann'' @ k
       then Some (\<lparr>ap_userId = ''ann'', ap_username = ''Ann'', ap_role = RUser, ap_groupId = None, ap_sessionType = None\<rparr>, 9) else None)\<rparr>"

definition sample_live :: ws_server where
  "sample_live = ws_step sample_live_env
     (WsMessage 1 (json_text (JObj [(''type'', JStr ''auth''), (''token'', JStr ''annk'')])) ''f'' 0 0 sample_registry (Some sample_auth))
     (ws_step sample_live_env (WsConnection 1) (ws_init (ay_db auth_empty)))"

definition sample_view :: live_view where
  "sample_view = \<lparr>lv_registry = sample_registry, lv_db = sample_auth, lv_private = createPrivateTopicStore []\<rparr>"

lemma sample_live_reach: "reach (ws_step sample_live_env) ws_ok (ws_init (ay_db auth_empty)) sample_live"
  unfolding sample_live_def by (intro reach_step reach_init) (simp_all add: ws_init_def jm_has_def)


text \<open>
  A first message that is the JSON text \<open>null\<close> reads a property of \<open>null\<close>, and a protocol error before
  authentication finds no listener: either ends the process.
\<close>

lemma null_message_crashes:
  assumes "map_of (ws_sockets s) i = Some k" "sk_listening k"
  shows "ws_crashed (ws_step env (WsMessage i ''null'' fresh now now2 reg dbq) s)"
proof -
  have "json_parse ''null'' = Some JNull" by code_simp
  then show ?thesis using assms by (simp add: ws_step_def onAuthMessage_def)
qed

lemma early_error_crashes:
  assumes "map_of (ws_sockets s) i = Some k" "\<not> sk_attached k"
  shows "ws_crashed (ws_step env (WsError i) s)"
  using assms by (simp add: ws_step_def on_error_def)

end
