(* ===== verification/Spec2Isabelle.thy ===== *)
theory Spec2Isabelle
  imports Pending_Tracker Command_History Execution_Gate Mqtt_Topics Device_Registry State_History Permissions
    Command_Service Shared_State Outbound_Http Automation_Engine Auth_Service Migration_Runner Data_Store
    Automation_State Access_Guards Live_Updates
begin

text \<open>
  \<^bold>\<open>Aeolus\<close> is a home-automation hub written in TypeScript. Devices talk MQTT or are reached through
  connectors; users author automations, small scripts that run in a sandbox when a device changes, a
  timer fires, or another automation emits an event; dashboards show tabs of panes and send commands.
  This library models the server under \<open>src/src\<close> and proves what its parts promise.

  \<^bold>\<open>How the parts work together.\<close> A message from the broker becomes an update of the device registry
  and an event. The automation engine asks which rules the event wakes, the permission layer which
  devices an automation may see, and the execution gate whether the execution may start now. A script's
  commands, like those of the REST API, go through the command service: it checks the scope of the
  automation, records the command, dispatches it, and waits with the pending tracker until it is
  acknowledged or observed, or times out. What happened is kept in the command history and the
  execution log. Values are kept in three stores: shared state between automations, the state an
  automation shares with its user interface, and time series. Requests pass authentication, the
  envelope of the public demo and the guard of the resource; changes go out to dashboards over
  WebSocket, each to those who may see it.

  \<^bold>\<open>Theories\<close>, in the order of their imports, with the sources they model (paths below \<open>src/src\<close>).
  \<^item> \<open>Aeolus_Prelude\<close>: JavaScript values, maps in insertion order, string functions; reachable states
    (\<open>reach\<close>) with the interface \<open>invariant_machine\<close>, and the interface \<open>keyed_store\<close> of key/value stores.
  \<^item> \<open>Js_Json\<close>: \<open>JSON.stringify\<close> and \<open>JSON.parse\<close>; the round trip is the interface \<open>text_codec\<close>.
  \<^item> \<open>Command_Lifecycle\<close>: automations/command-lifecycle.ts, completion-tier.ts and the evidence of a rung.
  \<^item> \<open>Pending_Tracker\<close>: automations/pending-command-tracker.ts. Every registered command settles exactly
    once, and a success has its evidence.
  \<^item> \<open>Command_History\<close>: the durable history of commands. Timelines are paths of the lifecycle, completed
    commands do not change, a restart settles exactly what was in flight.
  \<^item> \<open>Execution_Gate\<close>: automations/execution-gate.ts and the collection of command results. Bounds on active
    and queued executions, refilling after a completion; what coalescing does not keep.
  \<^item> \<open>Mqtt_Topics\<close>: filters, parsing, the publish policy, private topics, the command envelope. The
    publish decision is characterised by the levels of the topic.
  \<^item> \<open>Device_Registry\<close>, \<open>State_History\<close>: devices, their index by topic and their table; snapshots of states.
    The index is exact and a restart restores the devices.
  \<^item> \<open>Permissions\<close>: tab permissions, ownership stores, live exposure, the permission resolver and the scope
    of an automation (the interface \<open>exposure\<close> relates single and batch lookups). A permission is exactly a
    granting row on an exposing tab; a scope without information is empty.
  \<^item> \<open>Command_Service\<close>: automations/command-service.ts over the tracker, the history and the permissions.
    What a caller is told is what is recorded, every call returns, and a scoped automation acts only on
    its devices.
  \<^item> \<open>Shared_State\<close>, \<open>Automation_State\<close>, \<open>Data_Store\<close>: shared-state/, automations/automation-state-store.ts
    and data-store/. Bounds, exact writes, agreement of caches and tables, sampling that covers a range,
    retention, durations.
  \<^item> \<open>Outbound_Http\<close>: security/outbound-http.ts. A request goes only to an address that is public; the
    address test is compared with the list of special ranges.
  \<^item> \<open>Automation_Events\<close>, \<open>Execution_Log\<close>, \<open>Automation_Engine\<close>: events between automations and the bound on
    chains of causes; the log and its recorder; registering rules, matching, admission, timers, starting
    and settling executions. Each started execution has one admitted submission, and settles with exactly
    the results of its own commands.
  \<^item> \<open>Auth_Service\<close>: auth/: accounts, tokens, sign-in, groups, with every wait for bcrypt as an interleaving
    point. An administrator always remains, refresh tokens live exactly as their policy says, a changed
    password ends sessions.
  \<^item> \<open>Access_Guards\<close>: auth/auth-middleware.ts and demo/. Who reaches a device or an automation, what a visitor
    of the public demo may do, and what masked responses cannot contain.
  \<^item> \<open>Live_Updates\<close>: websocket/ and the mappings of index.ts. Who is sent which update.
  \<^item> \<open>Migration_Runner\<close>: db/migration-runner.ts. A run applies a prefix of what is missing, or all of it, and
    can be resumed.

  \<^bold>\<open>How code becomes definitions.\<close> A class is a record of its fields and one definition per method;
  a \<open>Map\<close> is an association list in insertion order, a table the list of its rows with its keys as an
  invariant. A thrown error is a value (\<open>Inl\<close>, or \<open>Some\<close> error for a guard). Timers, promises and
  callbacks are fields that hold what is pending, and operations that let it happen: a component is a
  step function over an operation datatype, and a property of it is proved for every state \<open>reach\<close>
  contains, so for every interleaving. Numbers are integers, since the program uses them as counts, times
  and sizes, and characters are code units below 256.

  \<^bold>\<open>External code\<close> is a parameter: bcrypt, SHA-256 and jsonwebtoken are the record \<open>auth_env\<close>; the URL
  parser, DNS and \<open>fetch\<close> are arguments of the outbound request; the broker's and the connectors' replies
  are operations; the validity of cron expressions, \<open>json_extract\<close> and the aggregates of SQLite, the copy of
  the database file and what a migration does are functions the definitions are given. What a property
  needs of them stands among its hypotheses.

  \<^bold>\<open>Termination.\<close> Loops are structural recursion or have a measure. Two definitions carry a bound: the
  JSON reader, which gets the length of its text and is proved to read back every plain value, and the loop
  that drains the gate, which gets the number of queued entries, each round removing one; the lemma
  \<open>gate_complete_refills\<close> shows that it stops only when the gate is full or nothing is queued.

  \<^bold>\<open>Findings\<close> that come out of the proofs are lemmas too, next to the property they limit, among them
  \<open>coalesced_serialization_broken\<close>, \<open>overlapping_login_survives\<close>, \<open>refused_write_evicts\<close>,
  \<open>escaped_id_bypasses_allowlist\<close>, \<open>trailing_slash_unmasked\<close>, \<open>null_message_crashes\<close>.

  \<^bold>\<open>Not modelled.\<close> The HTTP routes check a schema and call the services above; process assembly,
  configuration and logging; the SQL of the individual migrations; the MQTT transport and the provisioning
  of the broker, which drive a client library and a file system; the connectors to vendor devices, which
  translate to the vendors' protocols; authoring (parsing and transpiling TypeScript through the compiler);
  metrics; the simulator and its scenarios, which stand in for devices; and the web front end. Of the
  sandbox only what its host functions decide is modelled (in \<open>Automation_Engine\<close> and
  \<open>Command_Service\<close>), not the isolate that runs the script; of the command service not the text of its log
  lines and metrics.
\<close>

end
